(* ===== verification/Prelude.thy ===== *)
theory Prelude
  imports Main "HOL-Library.Word" "HOL-Library.Code_Target_Nat"
begin

text \<open>
  Shared vocabulary of the development: the machine-integer types, byte strings, the
  error values (\<^verbatim>\<open>src/src/tree/errors.rs\<close> and \<^verbatim>\<open>anyhow::Error\<close>), the
  early-return combinators that stand for Rust's question-mark operator, the \<open>u64\<close> bit
  operations of the standard library, and big-endian encoding.

  Integers follow the release profile (\<^verbatim>\<open>cargo build --release\<close>, the build the README
  gives): additions and subtractions wrap, a shift amount is taken modulo the width. A
  panic the source asks for (\<^verbatim>\<open>panic!\<close>, \<^verbatim>\<open>unwrap\<close>, an index out of range) is the
  value \<open>Panic\<close>.
\<close>

unbundle bit_operations_syntax

section \<open>Types\<close>

type_synonym u8 = "8 word"
type_synonym u16 = "16 word"
type_synonym u32 = "32 word"
type_synonym u64 = "64 word"
type_synonym bytes = "8 word list"

text \<open>
  Versions are \<open>u32\<close> in the source. The ladder arithmetic never leaves the range, so they
  are natural numbers here, and the places where the source adds to a version write the
  wrap-around out.
\<close>

type_synonym version = nat

definition U32_MAX :: nat where
  "U32_MAX = 4294967295"

definition wrapping_add_u32 :: "nat \<Rightarrow> nat \<Rightarrow> nat" where
  "wrapping_add_u32 a b = (a + b) mod 4294967296"

named_theorems res_simps \<open>unfolding the early-return combinators\<close>
named_theorems node_simps \<open>node identifiers by level and index\<close>

section \<open>Errors\<close>

datatype kt_error =
    Expired
  | Unavailable
  | Internal string
  | InvalidArgument string
  | VersionConflict

text \<open>
  \<^verbatim>\<open>anyhow::Error\<close> holds either a \<open>KtError\<close> or a message; interpolated values of a
  message are left out of it. \<open>Panic\<close> is a panic, \<open>Hang\<close> a loop that never ends.
\<close>

datatype err = Kt kt_error | Anyhow string | Panic string | Hang

type_synonym 'a res = "err + 'a"

definition and_then :: "'a res \<Rightarrow> ('a \<Rightarrow> 'b res) \<Rightarrow> 'b res" where
  "and_then m f = (case m of Inl e \<Rightarrow> Inl e | Inr x \<Rightarrow> f x)"

text \<open>A step on the state, and what follows it when it succeeds.\<close>

definition and_st :: "'s \<times> 'a res \<Rightarrow> ('s \<Rightarrow> 'a \<Rightarrow> 's \<times> 'b res) \<Rightarrow> 's \<times> 'b res" where
  "and_st m f = (case m of (s, Inl e) \<Rightarrow> (s, Inl e) | (s, Inr x) \<Rightarrow> f s x)"

definition ok_or :: "'a option \<Rightarrow> err \<Rightarrow> 'a res" where
  "ok_or m e = (case m of None \<Rightarrow> Inl e | Some x \<Rightarrow> Inr x)"

lemma and_then_Inr [simp]: "and_then (Inr x) f = f x"
  by (simp add: and_then_def)

lemma and_then_Inl [simp]: "and_then (Inl e) f = Inl e"
  by (simp add: and_then_def)

lemma and_then_cong [fundef_cong]:
  "m = m' \<Longrightarrow> (\<And>x. m' = Inr x \<Longrightarrow> f x = f' x) \<Longrightarrow> and_then m f = and_then m' f'"
  by (cases m') (auto simp: and_then_def)

lemma and_then_eq_Inr [res_simps]:
  "and_then m f = Inr y \<longleftrightarrow> (\<exists>x. m = Inr x \<and> f x = Inr y)"
  by (cases m) auto

lemma and_then_eq_Inl:
  "and_then m f = Inl e \<longleftrightarrow> m = Inl e \<or> (\<exists>x. m = Inr x \<and> f x = Inl e)"
  by (cases m) auto

lemma and_then_assoc: "and_then (and_then m f) g = and_then m (\<lambda>x. and_then (f x) g)"
  by (cases m) auto

lemma ok_or_simps [simp]: "ok_or None e = Inl e" "ok_or (Some x) e = Inr x"
  by (simp_all add: ok_or_def)

lemma ok_or_eq_Inr [res_simps]: "ok_or m e = Inr x \<longleftrightarrow> m = Some x"
  by (cases m) auto

text \<open>A loop whose body may return early with an error.\<close>

fun fold_res :: "('a \<Rightarrow> 's \<Rightarrow> 's res) \<Rightarrow> 'a list \<Rightarrow> 's \<Rightarrow> 's res" where
  "fold_res f [] s = Inr s"
| "fold_res f (x # xs) s = and_then (f x s) (fold_res f xs)"

fun map_res :: "('a \<Rightarrow> 'b res) \<Rightarrow> 'a list \<Rightarrow> 'b list res" where
  "map_res f [] = Inr []"
| "map_res f (x # xs) = and_then (f x) (\<lambda>y. and_then (map_res f xs) (\<lambda>ys. Inr (y # ys)))"

text \<open>\<^verbatim>\<open>any\<close> with a test that may fail.\<close>

fun any_res :: "('a \<Rightarrow> bool res) \<Rightarrow> 'a list \<Rightarrow> bool res" where
  "any_res f [] = Inr False"
| "any_res f (x # xs) = and_then (f x) (\<lambda>b. if b then Inr True else any_res f xs)"

lemma any_res_eq: "(\<And>x. x \<in> set xs \<Longrightarrow> f x = Inr (g x)) \<Longrightarrow> any_res f xs = Inr (\<exists>x\<in>set xs. g x)"
  by (induction xs) auto

lemma any_res_cong [fundef_cong]:
  "xs = xs' \<Longrightarrow> (\<And>x. x \<in> set xs' \<Longrightarrow> f x = g x) \<Longrightarrow> any_res f xs = any_res g xs'"
proof (induction xs arbitrary: xs')
  case (Cons a xs)
  then show ?case by (cases "g a") auto
qed simp

lemma fold_res_cong [fundef_cong]:
  "xs = xs' \<Longrightarrow> s = s' \<Longrightarrow> (\<And>x t. x \<in> set xs' \<Longrightarrow> f x t = g x t) \<Longrightarrow>
    fold_res f xs s = fold_res g xs' s'"
proof (induction xs arbitrary: xs' s s')
  case (Cons a xs)
  then show ?case by (cases "g a s'") auto
qed simp

lemma map_res_cong [fundef_cong]:
  "xs = xs' \<Longrightarrow> (\<And>x. x \<in> set xs' \<Longrightarrow> f x = g x) \<Longrightarrow> map_res f xs = map_res g xs'"
  by (induction xs arbitrary: xs') auto

lemma fold_res_append:
  "fold_res f (xs @ ys) s = and_then (fold_res f xs s) (fold_res f ys)"
proof (induction xs arbitrary: s)
  case (Cons x xs)
  then show ?case by (cases "f x s") auto
qed simp

lemma fold_res_invariant:
  assumes "fold_res f xs s = Inr t" and "P s"
    and "\<And>x u v. x \<in> set xs \<Longrightarrow> P u \<Longrightarrow> f x u = Inr v \<Longrightarrow> P v"
  shows "P t"
  using assms
proof (induction xs arbitrary: s)
  case (Cons x xs)
  from Cons.prems(1) obtain u where "f x s = Inr u" and "fold_res f xs u = Inr t"
    by (auto simp: res_simps)
  with Cons show ?case by (metis list.set_intros)
qed simp

lemma map_res_eq_Inr:
  "map_res f xs = Inr ys \<longleftrightarrow> list_all2 (\<lambda>x y. f x = Inr y) xs ys"
proof (induction xs arbitrary: ys)
  case (Cons x xs)
  then show ?case by (cases ys) (auto simp: res_simps)
qed auto

lemma map_res_all_Inr: "(\<And>x. x \<in> set xs \<Longrightarrow> f x = Inr (g x)) \<Longrightarrow> map_res f xs = Inr (map g xs)"
  by (induction xs) auto

section \<open>Bit operations of the standard library on \<open>u64\<close>\<close>

definition shl64 :: "u64 \<Rightarrow> nat \<Rightarrow> u64" where
  "shl64 x k = push_bit (k mod 64) x"

definition shr64 :: "u64 \<Rightarrow> nat \<Rightarrow> u64" where
  "shr64 x k = drop_bit (k mod 64) x"

definition trailing_ones :: "u64 \<Rightarrow> nat" where
  "trailing_ones x = length (takeWhile (bit x) [0..<64])"

definition leading_zeros :: "u64 \<Rightarrow> nat" where
  "leading_zeros x = length (takeWhile (\<lambda>i. \<not> bit x i) (rev [0..<64]))"

definition saturating_sub :: "u64 \<Rightarrow> u64 \<Rightarrow> u64" where
  "saturating_sub a b = (if a < b then 0 else a - b)"

definition saturating_add :: "u64 \<Rightarrow> u64 \<Rightarrow> u64" where
  "saturating_add a b = (if a + b < a then - 1 else a + b)"

lemma unat_saturating_sub [simp]: "unat (saturating_sub a b) = unat a - unat b"
  by (simp add: saturating_sub_def word_less_nat_alt unat_sub_if_size)

lemma unat_saturating_add: "unat (saturating_add a b) = min (unat a + unat b) (2 ^ 64 - 1)"
proof -
  have lt: "unat a < 2 ^ 64" "unat b < 2 ^ 64"
    using unsigned_less [of a] unsigned_less [of b] by simp_all
  have max: "unat (- 1 :: u64) = 2 ^ 64 - 1"
    by (simp add: unsigned_minus_1_eq_mask mask_eq_exp_minus_1)
  have sum: "unat (a + b) = (unat a + unat b) mod 2 ^ 64"
    by (simp add: unat_word_ariths)
  show ?thesis
  proof (cases "unat a + unat b < 2 ^ 64")
    case True
    then show ?thesis using sum by (simp add: saturating_add_def word_less_nat_alt)
  next
    case False
    then have "(unat a + unat b) mod 2 ^ 64 = unat a + unat b - 2 ^ 64"
      using lt by (simp add: mod_nat_eqI le_mod_geq)
    with False sum max lt show ?thesis
      by (simp add: saturating_add_def word_less_nat_alt)
  qed
qed

lemma length_takeWhile_upt:
  assumes "k \<le> n" and "\<And>i. i < k \<Longrightarrow> P i" and "k < n \<Longrightarrow> \<not> P k"
  shows "length (takeWhile P [0..<n]) = k"
proof -
  have "[0..<n] = [0..<k] @ [k..<n]"
    using assms(1) by (metis le0 upt_add_eq_append le_add_diff_inverse)
  then have "takeWhile P [0..<n] = [0..<k] @ takeWhile P [k..<n]"
    using assms(2) by (simp add: takeWhile_append)
  moreover have "takeWhile P [k..<n] = []"
    using assms(3) by (cases "k < n") (auto simp: upt_rec)
  ultimately show ?thesis by simp
qed

lemma trailing_ones_eqI:
  assumes "k \<le> 64" and "\<And>i. i < k \<Longrightarrow> bit x i" and "k < 64 \<Longrightarrow> \<not> bit x k"
  shows "trailing_ones x = k"
  using assms by (simp add: trailing_ones_def length_takeWhile_upt)

lemma trailing_ones_le: "trailing_ones x \<le> 64"
  using length_takeWhile_le [of "bit x" "[0..<64]"] by (simp add: trailing_ones_def)

lemma trailing_ones_bit: "i < trailing_ones x \<Longrightarrow> bit x i"
proof -
  assume i: "i < trailing_ones x"
  then have "takeWhile (bit x) [0..<64] ! i \<in> set (takeWhile (bit x) [0..<64])"
    by (simp add: trailing_ones_def)
  moreover have "takeWhile (bit x) [0..<64] ! i = i"
    using i trailing_ones_le [of x] by (simp add: trailing_ones_def takeWhile_nth)
  ultimately show ?thesis using set_takeWhileD by metis
qed

lemma trailing_ones_not_bit: "trailing_ones x < 64 \<Longrightarrow> \<not> bit x (trailing_ones x)"
  using nth_length_takeWhile [of "bit x" "[0..<64]"] by (simp add: trailing_ones_def)

section \<open>Invariants over runs\<close>

text \<open>
  A relation whose steps keep an invariant and only let the state grow: then so does every course
  of steps.
\<close>

locale evolution =
  fixes step_rel :: "'s \<Rightarrow> 's \<Rightarrow> bool"
    and inv :: "'s \<Rightarrow> bool"
    and grows :: "'s \<Rightarrow> 's \<Rightarrow> bool"
  assumes step_keeps: "step_rel s t \<Longrightarrow> inv s \<Longrightarrow> inv t"
    and step_grows: "step_rel s t \<Longrightarrow> inv s \<Longrightarrow> grows s t"
    and grows_refl: "grows s s"
    and grows_trans: "grows s t \<Longrightarrow> grows t u \<Longrightarrow> grows s u"
begin

lemma run_keeps: "step_rel\<^sup>*\<^sup>* s t \<Longrightarrow> inv s \<Longrightarrow> inv t"
  by (induction rule: rtranclp_induct) (auto intro: step_keeps)

lemma run_grows: "step_rel\<^sup>*\<^sup>* s t \<Longrightarrow> inv s \<Longrightarrow> grows s t"
proof (induction rule: rtranclp_induct)
  case (step t u)
  then show ?case using run_keeps step_grows grows_trans by blast
qed (rule grows_refl)

end

end
