(* ===== verification/LogMath.thy ===== *)
theory LogMath
  imports Prelude
begin

text \<open>
  \<^verbatim>\<open>src/src/tree/log_math.rs\<close>: the implicit binary trees over log positions. A node is a
  \<open>u64\<close>; its level is its number of trailing one bits. The same numbering serves the Merkle
  log tree (leaf \<open>i\<close> is node \<open>2 i\<close>, lines 29-36 and 92-117) and the implicit binary search
  tree over the entries \<open>0 .. n - 1\<close> (lines 21-27 and 119-137).

  The definitions are in the order of the file. The lemmas read every bit operation as
  arithmetic on the node number: a child is the node minus or plus half its span.
\<close>

section \<open>Levels, roots, children\<close>

definition is_leaf :: "u64 \<Rightarrow> bool" where
  "is_leaf x \<longleftrightarrow> x AND 1 = 0"

definition level :: "u64 \<Rightarrow> nat" where
  "level x = (if is_leaf x then 0 else trailing_ones x)"

definition log2 :: "u64 \<Rightarrow> nat" where
  "log2 n = (if n = 0 then 0 else 63 - leading_zeros n)"

definition root :: "u64 \<Rightarrow> u64" where
  "root n = (if n = 0 then 0 else shl64 1 (log2 n) - 1)"

definition merkle_root :: "u64 \<Rightarrow> u64" where
  "merkle_root n = (if n \<le> 1 then 0 else shl64 1 (64 - leading_zeros (n - 1)) - 1)"

definition left_child :: "u64 \<Rightarrow> u64" where
  "left_child x = (let k = level x in if k = 0 then x else x XOR shl64 1 (k - 1))"

text \<open>The two closures of \<^verbatim>\<open>chunk_layout\<close> and the first step of both right-child functions.\<close>

definition internal_left :: "u64 \<Rightarrow> u64" where
  "internal_left x = x XOR shl64 1 (level x - 1)"

definition internal_right :: "u64 \<Rightarrow> u64" where
  "internal_right x = x XOR shl64 3 (level x - 1)"

fun chunk_id_loop :: "nat \<Rightarrow> u64 \<Rightarrow> u64" where
  "chunk_id_loop 0 c = c"
| "chunk_id_loop (Suc i) c =
     (if level c mod 4 \<noteq> 3 then
        (let l = level c in
         if l \<ge> 62 then c
         else let offset = shl64 1 l in
              if shr64 c (l + 1) AND 1 = 1 then chunk_id_loop i (c - offset)
              else chunk_id_loop i (c + offset))
      else c)"

definition chunk_id :: "u64 \<Rightarrow> u64" where
  "chunk_id node_id = chunk_id_loop 64 node_id"

definition chunk_layout :: "u64 \<Rightarrow> u64 list" where
  "chunk_layout chunk_root =
     (let i7 = chunk_root;
          i3 = internal_left i7; i11 = internal_right i7;
          i1 = internal_left i3; i5 = internal_right i3;
          i9 = internal_left i11; i13 = internal_right i11
      in [internal_left i1, i1, internal_right i1, i3, internal_left i5, i5, internal_right i5, i7,
          internal_left i9, i9, internal_right i9, i11, internal_left i13, i13, internal_right i13])"

section \<open>Bits of the level\<close>

lemma is_leaf_bit: "is_leaf x \<longleftrightarrow> \<not> bit x 0"
  by (simp add: is_leaf_def bit_0 even_iff_mod_2_eq_zero and_one_eq)

lemma level_eq: "level x = trailing_ones x"
proof (cases "is_leaf x")
  case True
  then have "trailing_ones x = 0"
    by (intro trailing_ones_eqI) (auto simp: is_leaf_bit)
  with True show ?thesis by (simp add: level_def)
qed (simp add: level_def)

lemma level_le: "level x \<le> 64"
  by (simp add: level_eq trailing_ones_le)

lemma level_bit: "i < level x \<Longrightarrow> bit x i"
  by (simp add: level_eq trailing_ones_bit)

lemma level_not_bit: "level x < 64 \<Longrightarrow> \<not> bit x (level x)"
  by (simp add: level_eq trailing_ones_not_bit)

lemma level_eqI:
  "k \<le> 64 \<Longrightarrow> (\<And>i. i < k \<Longrightarrow> bit x i) \<Longrightarrow> (k < 64 \<Longrightarrow> \<not> bit x k) \<Longrightarrow> level x = k"
  by (simp add: level_eq trailing_ones_eqI)

lemma is_leaf_level: "is_leaf x \<longleftrightarrow> level x = 0"
proof
  assume "level x = 0"
  then show "is_leaf x" using level_not_bit [of x] by (simp add: is_leaf_bit)
qed (simp add: level_def)

lemma bit_shl64_1: "k < 64 \<Longrightarrow> bit (shl64 1 k) i \<longleftrightarrow> i = k"
  by (auto simp: shl64_def bit_exp_iff)

lemma bit_3_u64: "bit (3 :: u64) j \<longleftrightarrow> j = 0 \<or> j = 1"
proof -
  have "(3 :: u64) = 1 OR push_bit 1 1" by simp
  then show ?thesis by (simp only: bit_or_iff bit_push_bit_iff bit_1_iff) auto
qed

lemma bit_shl64_3: "k < 64 \<Longrightarrow> bit (shl64 3 k) i \<longleftrightarrow> i < 64 \<and> (i = k \<or> i = Suc k)"
  using bit_3_u64 [of "i - k"] by (simp add: shl64_def bit_push_bit_iff) auto

lemma level_internal_left: "0 < level x \<Longrightarrow> level (internal_left x) = level x - 1"
  unfolding internal_left_def
proof (rule level_eqI)
  assume x: "0 < level x"
  let ?k = "level x - 1"
  have k: "?k < 64" using level_le [of x] x by simp
  then show "?k \<le> 64" by simp
  show "bit (x XOR shl64 1 ?k) i" if "i < ?k" for i
    using that k level_bit [of i x] by (simp add: bit_xor_iff bit_shl64_1)
  show "\<not> bit (x XOR shl64 1 ?k) ?k"
    using x k level_bit [of ?k x] by (simp add: bit_xor_iff bit_shl64_1)
qed

lemma level_internal_right: "0 < level x \<Longrightarrow> level (internal_right x) = level x - 1"
  unfolding internal_right_def
proof (rule level_eqI)
  assume x: "0 < level x"
  let ?k = "level x - 1"
  have k: "?k < 64" using level_le [of x] x by simp
  then show "?k \<le> 64" by simp
  show "bit (x XOR shl64 3 ?k) i" if "i < ?k" for i
    using that k level_bit [of i x] by (simp add: bit_xor_iff bit_shl64_3)
  show "\<not> bit (x XOR shl64 3 ?k) ?k"
    using x k level_bit [of ?k x] by (simp add: bit_xor_iff bit_shl64_3)
qed

lemma left_child_internal: "0 < level x \<Longrightarrow> left_child x = internal_left x"
  by (simp add: left_child_def internal_left_def Let_def)

lemma level_left_child: "level (left_child x) = level x - 1"
proof (cases "level x = 0")
  case False
  then show ?thesis by (simp only: left_child_internal level_internal_left neq0_conv)
qed (simp add: left_child_def)

section \<open>Logarithm\<close>

lemma bit_le_unat: "bit (x :: u64) k \<Longrightarrow> 2 ^ k \<le> unat x"
proof (rule ccontr)
  assume b: "bit x k" and "\<not> 2 ^ k \<le> unat x"
  then have "unat x div 2 ^ k = 0" by simp
  moreover have "bit (unat x) k" using b by (simp add: bit_unsigned_iff bit_imp_possible_bit)
  ultimately show False by (simp add: bit_iff_odd)
qed

lemma unat_less_of_bits:
  assumes "\<And>i. l \<le> i \<Longrightarrow> \<not> bit (x :: u64) i"
  shows "unat x < 2 ^ l"
proof -
  have "take_bit l (unat x) = unat x"
  proof (rule bit_eqI)
    show "bit (take_bit l (unat x)) i = bit (unat x) i" for i
      using assms [of i] by (cases "i < l") (simp_all add: bit_take_bit_iff bit_unsigned_iff)
  qed
  then show ?thesis by (metis take_bit_nat_less_exp)
qed

lemma leading_zeros_less: "n \<noteq> 0 \<Longrightarrow> leading_zeros n < 64"
proof (rule ccontr)
  assume n: "n \<noteq> 0" and "\<not> leading_zeros n < 64"
  then have "takeWhile (\<lambda>i. \<not> bit n i) (rev [0..<64]) = rev [0..<64]"
    unfolding leading_zeros_def
    by (metis (no_types, lifting) length_rev length_upt diff_zero linorder_not_less
        takeWhile_eq_take take_all)
  then have "\<forall>i\<in>set (rev [0..<64]). \<not> bit n i"
    by (metis (no_types, lifting) set_takeWhileD)
  then have "\<not> bit n i" for i
    by (cases "i < 64") (auto dest: bit_imp_le_length)
  then have "n = 0" by (intro bit_word_eqI) auto
  with n show False by simp
qed

lemma log2_bit: "n \<noteq> 0 \<Longrightarrow> bit n (log2 n)"
proof -
  assume n: "n \<noteq> 0"
  let ?zs = "takeWhile (\<lambda>i. \<not> bit n i) (rev [0..<64])"
  have lt: "length ?zs < length (rev [0..<64 :: nat])"
    using leading_zeros_less [OF n] by (simp add: leading_zeros_def)
  then have "\<not> \<not> bit n (rev [0..<64] ! length ?zs)"
    by (rule nth_length_takeWhile)
  moreover have "rev [0..<64] ! length ?zs = 63 - length ?zs"
    using lt by (simp add: rev_nth)
  ultimately show ?thesis using n by (simp add: log2_def leading_zeros_def)
qed

lemma log2_above: "n \<noteq> 0 \<Longrightarrow> log2 n < i \<Longrightarrow> \<not> bit n i"
proof -
  assume n: "n \<noteq> 0" and i: "log2 n < i"
  let ?zs = "takeWhile (\<lambda>i. \<not> bit n i) (rev [0..<64])"
  show ?thesis
  proof (cases "i < 64")
    case True
    then have j: "63 - i < length ?zs"
      using i n leading_zeros_less [OF n] by (simp add: log2_def leading_zeros_def)
    moreover have "?zs ! (63 - i) = i"
      using j True by (simp add: takeWhile_nth rev_nth)
    ultimately show ?thesis using nth_mem [OF j] set_takeWhileD by metis
  qed (auto dest: bit_imp_le_length)
qed

lemma log2_less: "log2 n < 64"
  by (simp add: log2_def) arith

lemma log2_lower: "n \<noteq> 0 \<Longrightarrow> 2 ^ log2 n \<le> unat n"
  by (simp add: log2_bit bit_le_unat)

lemma log2_upper: "unat n < 2 ^ Suc (log2 n)"
proof (cases "n = 0")
  case False
  then show ?thesis by (intro unat_less_of_bits log2_above) auto
qed simp

lemma unat_shl64_1: "k < 64 \<Longrightarrow> unat (shl64 1 k) = 2 ^ k"
proof -
  assume k: "k < 64"
  have "(2 :: nat) ^ k < 2 ^ 64" using k by (intro power_strict_increasing) auto
  with k show ?thesis
    by (simp only: shl64_def mod_less unsigned_push_bit_eq) (simp add: push_bit_eq_mult take_bit_eq_mod)
qed

lemma shl64_1_log2_le: "n \<noteq> 0 \<Longrightarrow> shl64 1 (log2 n) \<le> n"
  by (simp add: word_le_nat_alt unat_shl64_1 log2_less log2_lower)

section \<open>Right children and leaves\<close>

function leftmost_leaf_index :: "u64 \<Rightarrow> u64" where
  "leftmost_leaf_index x =
     (if \<not> is_leaf x then leftmost_leaf_index (x XOR shl64 1 (level x - 1)) else x div 2)"
  by pat_completeness auto
termination
  by (relation "measure level")
    (use level_internal_left in \<open>auto simp: internal_left_def is_leaf_level\<close>)

function right_child_loop :: "u64 \<Rightarrow> u64 \<Rightarrow> u64 \<Rightarrow> u64" where
  "right_child_loop x n r =
     (if n \<le> leftmost_leaf_index r then
        (if is_leaf r then left_child x else right_child_loop x n (left_child r))
      else r)"
  by pat_completeness auto
termination
  by (relation "measure (\<lambda>(x, n, r). level r)") (auto simp: is_leaf_level level_left_child)

definition right_child :: "u64 \<Rightarrow> u64 \<Rightarrow> u64 res" where
  "right_child x n =
     (let k = level x in
      if k = 0 then Inl (Panic ''leaf node has no children'')
      else Inr (right_child_loop x n (x XOR shl64 3 (k - 1))))"

function ibst_right_loop :: "u64 \<Rightarrow> u64 \<Rightarrow> u64 option" where
  "ibst_right_loop n x =
     (if n \<le> x then
        (let k_curr = level x in if k_curr = 0 then None else ibst_right_loop n (left_child x))
      else Some x)"
  by pat_completeness auto
termination
  by (relation "measure (\<lambda>(n, x). level x)") (auto simp: level_left_child)

definition ibst_right_child :: "u64 \<Rightarrow> u64 \<Rightarrow> u64 option" where
  "ibst_right_child x n =
     (let k = level x in
      if k = 0 then None else ibst_right_loop n (x XOR shl64 3 (k - 1)))"

function rightmost_leaf :: "u64 \<Rightarrow> u64" where
  "rightmost_leaf x = (if \<not> is_leaf x then rightmost_leaf (x XOR shl64 3 (level x - 1)) else x)"
  by pat_completeness auto
termination
  by (relation "measure level")
    (use level_internal_right in \<open>auto simp: internal_right_def is_leaf_level\<close>)

declare leftmost_leaf_index.simps [simp del] right_child_loop.simps [simp del]
  ibst_right_loop.simps [simp del] rightmost_leaf.simps [simp del]

section \<open>Full subtrees, parents, copaths\<close>

function get_roots_loop :: "u64 \<Rightarrow> u64 \<Rightarrow> u64 list" where
  "get_roots_loop n offset =
     (if 0 < n then
        (let k = shl64 1 (log2 n); r = root k + offset * 2
         in r # get_roots_loop (n - k) (offset + k))
      else [])"
  by pat_completeness auto
termination
proof (relation "measure (\<lambda>(n, offset). unat n)")
  show "((n - k, offset + k), n, offset) \<in> measure (\<lambda>(n, offset). unat n)"
    if n: "0 < n" and k: "k = shl64 1 (log2 n)" for n offset k r :: u64
  proof -
    have "0 < unat k" using k by (simp add: unat_shl64_1 log2_less)
    moreover have "unat (n - k) = unat n - unat k"
      using n shl64_1_log2_le [of n] k by (simp add: unat_sub word_gt_0)
    moreover have "0 < unat n" using n by (simp add: word_gt_0 unat_gt_0)
    ultimately show ?thesis by simp
  qed
qed simp

declare get_roots_loop.simps [simp del]

definition get_roots :: "u64 \<Rightarrow> u64 list" where
  "get_roots n = get_roots_loop n 0"

definition parent :: "u64 \<Rightarrow> u64 \<Rightarrow> u64" where
  "parent node_id tree_size =
     (let l = level node_id in
      if l \<ge> 62 then 0
      else let offset = shl64 1 l in
           if shr64 node_id (l + 1) AND 1 = 1 then node_id - offset else node_id + offset)"

text \<open>\<^verbatim>\<open>level(p) - 1\<close> is a \<open>u32\<close> subtraction; as a shift amount it wraps to 63 at level 0.\<close>

definition pred_u32 :: "nat \<Rightarrow> nat" where
  "pred_u32 k = (k + 4294967295) mod 4294967296"

definition sibling :: "u64 \<Rightarrow> u64" where
  "sibling node_id =
     (let l = level node_id in
      if l \<ge> 62 then 0
      else let p = parent node_id 0 in
           if shr64 node_id (l + 1) AND 1 = 1 then p XOR shl64 1 (pred_u32 (level p))
           else p XOR shl64 3 (pred_u32 (level p)))"

fun copath_loop :: "nat \<Rightarrow> u64 list \<Rightarrow> u64 \<Rightarrow> u64 \<Rightarrow> u64 list" where
  "copath_loop 0 roots node_id tree_size = []"
| "copath_loop (Suc i) roots node_id tree_size =
     (if node_id \<in> set roots then []
      else let p = parent node_id tree_size; l = level node_id;
               is_right = (if l < 62 then shr64 node_id (l + 1) AND 1 else 0);
               std_right = p XOR shl64 3 (pred_u32 (level p))
           in (if is_right = 1 then [sibling node_id]
               else if leftmost_leaf_index std_right < tree_size then [std_right] else [])
              @ copath_loop i roots p tree_size)"

definition copath :: "u64 \<Rightarrow> u64 \<Rightarrow> u64 list" where
  "copath node_id tree_size = copath_loop 100 (get_roots tree_size) node_id tree_size"

fun direct_path_loop :: "nat \<Rightarrow> u64 list \<Rightarrow> u64 \<Rightarrow> u64 \<Rightarrow> u64 list" where
  "direct_path_loop 0 roots node_id tree_size = []"
| "direct_path_loop (Suc i) roots node_id tree_size =
     (let p = parent node_id tree_size in
      p # (if p \<in> set roots then [] else direct_path_loop i roots p tree_size))"

definition direct_path :: "u64 \<Rightarrow> u64 \<Rightarrow> u64 list" where
  "direct_path node_id tree_size =
     (let roots = get_roots tree_size in
      if node_id \<in> set roots then [] else direct_path_loop 100 roots node_id tree_size)"

definition full_monitoring_path :: "u64 \<Rightarrow> u64 \<Rightarrow> u64 \<Rightarrow> u64 list" where
  "full_monitoring_path node_id start tree_size =
     sort (filter (\<lambda>p. node_id < p) (direct_path node_id tree_size))"

section \<open>Consistency proofs\<close>

text \<open>
  \<^verbatim>\<open>sub_proof\<close> is called with \<open>0 < m < n\<close> and halves its range; the fuel stands for the
  call stack, and 65 frames are enough for every 64-bit range.
\<close>

fun sub_proof :: "nat \<Rightarrow> u64 \<Rightarrow> u64 \<Rightarrow> bool \<Rightarrow> u64 list res" where
  "sub_proof 0 m n b = Inl (Panic ''stack overflow'')"
| "sub_proof (Suc fuel) m n b =
     (if m = n then (if b then Inr [] else Inr [root m])
      else
        let k0 = shl64 1 (log2 n); k = (if k0 = n then k0 div 2 else k0) in
        if m \<le> k then
          and_then (sub_proof fuel m k b) (\<lambda>proof.
          and_then (right_child (root n) n) (\<lambda>r. Inr (proof @ [r])))
        else
          and_then (sub_proof fuel (m - k) (n - k) False) (\<lambda>proof.
          Inr (left_child (root n) # map (\<lambda>node. node + 2 * k) proof)))"

definition consistency_proof :: "u64 \<Rightarrow> u64 \<Rightarrow> u64 list res" where
  "consistency_proof m n = (if m = 0 \<or> n \<le> m then Inr [] else sub_proof 65 m n True)"

section \<open>Search-tree paths\<close>

fun frontier_loop :: "nat \<Rightarrow> u64 \<Rightarrow> u64 \<Rightarrow> u64 list" where
  "frontier_loop 0 tree_size cur = []"
| "frontier_loop (Suc safeguard) tree_size cur =
     (if cur \<noteq> tree_size - 1 then
        (case ibst_right_child cur tree_size of
           Some r \<Rightarrow> r # frontier_loop safeguard tree_size r
         | None \<Rightarrow> [])
      else [])"

definition get_frontier :: "u64 \<Rightarrow> u64 list" where
  "get_frontier tree_size =
     (if tree_size = 0 then []
      else root tree_size # frontier_loop 100 tree_size (root tree_size))"

text \<open>The loop of \<^verbatim>\<open>ibst_direct_path\<close>, emitting the path from the root down.\<close>

function ibst_path_loop :: "u64 \<Rightarrow> u64 \<Rightarrow> u64 \<Rightarrow> u64 list" where
  "ibst_path_loop target curr_size offset =
     (if 0 < curr_size then
        (let left_size = shl64 1 (log2 curr_size) - 1; root_idx = offset + left_size in
         if target = root_idx then []
         else if target < root_idx then root_idx # ibst_path_loop target left_size offset
         else root_idx # ibst_path_loop target (curr_size - left_size - 1) (root_idx + 1))
      else [])"
  by pat_completeness auto
termination
proof (relation "measure (\<lambda>(target, curr_size, offset). unat curr_size)", goal_cases)
  case 1
  then show ?case by simp
next
  case (2 target curr_size offset left_size root_idx)
  have "unat left_size = 2 ^ log2 curr_size - 1"
    using 2 unat_shl64_1 [OF log2_less [of curr_size]]
    by (simp add: unat_sub_if_size word_le_nat_alt)
  moreover have "2 ^ log2 curr_size \<le> unat curr_size"
    using 2 by (simp add: log2_lower word_gt_0)
  moreover have "(0 :: nat) < 2 ^ log2 curr_size" by simp
  ultimately have "unat left_size < unat curr_size" by linarith
  then show ?case by simp
next
  case (3 target curr_size offset left_size root_idx)
  have "curr_size - left_size - 1 = curr_size - shl64 1 (log2 curr_size)"
    using 3 by simp
  with 3 show ?case
    using shl64_1_log2_le [of curr_size] unat_shl64_1 [OF log2_less [of curr_size]]
    by (simp add: word_gt_0 word_le_nat_alt unat_sub_if_size unat_gt_0)
qed

declare ibst_path_loop.simps [simp del]

definition ibst_direct_path :: "u64 \<Rightarrow> u64 \<Rightarrow> u64 list" where
  "ibst_direct_path target n = rev (ibst_path_loop target n 0)"

definition owner_init_list :: "u64 \<Rightarrow> u64 \<Rightarrow> u64 list" where
  "owner_init_list start n = start # filter (\<lambda>a. a < start) (ibst_direct_path start n)"

end
