(* ===== verification/NodeArith.thy ===== *)
theory NodeArith
  imports LogMath
begin

text \<open>
  The arithmetic of \<^verbatim>\<open>log_math.rs\<close>: what the bit operations of LogMath do to the node
  number read as a natural number. A node of level \<open>k\<close> spans the \<open>2 ^ k\<close> leaves that start
  at \<open>leftmost_leaf_index\<close>; its children are half a span to either side.
\<close>

section \<open>Exclusive or with a single bit\<close>

lemma xor_set_bit: "\<not> bit (x :: u64) k \<Longrightarrow> x XOR push_bit k 1 = x + push_bit k 1"
proof -
  assume "\<not> bit x k"
  then have "x AND push_bit k 1 = 0"
    by (intro bit_word_eqI) (auto simp: bit_and_iff bit_exp_iff)
  then show ?thesis by (simp add: disjunctive_add_eq_xor)
qed

lemma xor_clear_bit: "bit (x :: u64) k \<Longrightarrow> x XOR push_bit k 1 = x - push_bit k 1"
proof -
  assume b: "bit x k"
  let ?y = "x XOR push_bit k 1"
  have "k < 64" using b by (auto dest: bit_imp_le_length)
  with b have "\<not> bit ?y k" by (simp add: bit_xor_iff bit_exp_iff)
  then have "?y XOR push_bit k 1 = ?y + push_bit k 1" by (rule xor_set_bit)
  moreover have "?y XOR push_bit k 1 = x" by (simp add: xor.assoc)
  ultimately show ?thesis by (simp add: algebra_simps)
qed

lemma level_pos_le_unat: "unat x + 1 \<ge> 2 ^ level x"
proof -
  have "take_bit (level x) (unat x) = mask (level x)"
  proof (rule bit_eqI)
    show "bit (take_bit (level x) (unat x)) i = bit (mask (level x) :: nat) i" for i
      using level_bit [of i x] by (auto simp: bit_take_bit_iff bit_mask_iff bit_unsigned_iff
          bit_imp_possible_bit)
  qed
  then have "unat x mod 2 ^ level x = 2 ^ level x - 1"
    by (simp add: take_bit_eq_mod mask_eq_exp_minus_1)
  then have "2 ^ level x - 1 \<le> unat x" by (metis mod_less_eq_dividend)
  then show ?thesis by simp
qed

lemma unat_mod_span:
  assumes "level x < 64"
  shows "unat x mod 2 ^ Suc (level x) = 2 ^ level x - 1"
proof -
  have "take_bit (Suc (level x)) (unat x) = mask (level x)"
  proof (rule bit_eqI)
    show "bit (take_bit (Suc (level x)) (unat x)) i = bit (mask (level x) :: nat) i" for i
      using level_bit [of i x] level_not_bit [OF assms]
      by (auto simp: bit_take_bit_iff bit_mask_iff bit_unsigned_iff bit_imp_possible_bit less_Suc_eq)
  qed
  then show ?thesis by (simp add: take_bit_eq_mod mask_eq_exp_minus_1)
qed

lemma unat_decomp:
  assumes "level x < 64"
  shows "unat x = unat x div 2 ^ Suc (level x) * 2 ^ Suc (level x) + (2 ^ level x - 1)"
  using unat_mod_span [OF assms] div_mult_mod_eq [of "unat x" "2 ^ Suc (level x)"] by simp

lemma unat_span_bound:
  assumes "level x < 64"
  shows "unat x + 2 ^ level x < 2 ^ 64"
proof -
  let ?L = "level x" and ?q = "unat x div 2 ^ Suc (level x)"
  have split: "(2 :: nat) ^ 64 = 2 ^ Suc ?L * 2 ^ (63 - ?L)"
    using assms by (simp only: power_add [symmetric]) simp
  have "unat x < 2 ^ 64" using unsigned_less [of x] by simp
  then have "?q < 2 ^ (63 - ?L)" by (simp only: split less_mult_imp_div_less mult.commute)
  then have "?q + 1 \<le> 2 ^ (63 - ?L)" by simp
  then have "(?q + 1) * 2 ^ Suc ?L \<le> 2 ^ 64"
    by (simp only: split mult.commute [of _ "2 ^ Suc ?L"] mult_le_mono2)
  moreover have "unat x + 1 = ?q * 2 ^ Suc ?L + 2 ^ ?L"
    using unat_decomp [OF assms] one_le_power [of "2 :: nat" ?L] by linarith
  moreover have "(?q + 1) * 2 ^ Suc ?L = ?q * 2 ^ Suc ?L + 2 * 2 ^ ?L" by simp
  moreover have "(0 :: nat) < 2 ^ ?L" by simp
  ultimately show ?thesis by linarith
qed

lemma unat_internal_left:
  assumes "0 < level x"
  shows "unat (internal_left x) = unat x - 2 ^ (level x - 1)"
proof -
  let ?k = "level x - 1"
  have k: "?k < 64" using assms level_le [of x] by simp
  have b: "bit x ?k" using assms by (intro level_bit) simp
  have "internal_left x = x - push_bit ?k 1"
    using k xor_clear_bit [OF b] by (simp add: internal_left_def shl64_def)
  moreover have "push_bit ?k 1 = shl64 1 ?k" using k by (simp add: shl64_def)
  ultimately show ?thesis
    using bit_le_unat [OF b] unat_shl64_1 [OF k] by (simp add: unat_sub_if_size word_le_nat_alt)
qed

lemma unat_internal_right:
  assumes "0 < level x" and "level x < 64"
  shows "unat (internal_right x) = unat x + 2 ^ (level x - 1)"
proof -
  let ?k = "level x - 1"
  have k: "?k < 64" "Suc ?k < 64" using assms by simp_all
  have b: "bit x ?k" using assms by (intro level_bit) simp
  have nb: "\<not> bit x (Suc ?k)" using assms level_not_bit by simp
  have "(3 :: u64) = 1 XOR push_bit 1 1" by simp
  then have three: "shl64 3 ?k = push_bit ?k 1 XOR push_bit (Suc ?k) 1"
    using k by (simp only: shl64_def push_bit_xor push_bit_push_bit) simp
  have nb': "\<not> bit (x XOR push_bit ?k 1) (Suc ?k)"
    using nb by (simp add: bit_xor_iff bit_exp_iff)
  have "internal_right x = (x XOR push_bit ?k 1) XOR push_bit (Suc ?k) 1"
    by (simp only: internal_right_def three xor.assoc)
  also have "\<dots> = (x - push_bit ?k 1) + push_bit (Suc ?k) 1"
    using xor_set_bit [OF nb'] xor_clear_bit [OF b] by simp
  also have "\<dots> = x + push_bit ?k 1" by (simp add: push_bit_double)
  finally have eq: "internal_right x = x + shl64 1 ?k" using k by (simp add: shl64_def)
  have "unat x + 2 ^ ?k < 2 ^ 64"
    using unat_span_bound [OF assms(2)] power_increasing [of ?k "level x" "2 :: nat"]
    by linarith
  then show ?thesis using eq unat_shl64_1 [OF k(1)] by (simp add: unat_word_ariths)
qed

text \<open>The same facts with the level as a successor, free of subtraction.\<close>

lemma internal_left_Suc:
  assumes "level x = Suc k"
  shows "level (internal_left x) = k" and "unat (internal_left x) + 2 ^ k = unat x"
    and "left_child x = internal_left x" and "unat (internal_left x) = unat x - 2 ^ k"
proof -
  show "level (internal_left x) = k" using level_internal_left [of x] assms by simp
  show *: "unat (internal_left x) = unat x - 2 ^ k" using unat_internal_left [of x] assms by simp
  have "2 ^ k \<le> unat x" using assms level_bit [of k x] bit_le_unat by simp
  with * show "unat (internal_left x) + 2 ^ k = unat x" by simp
  show "left_child x = internal_left x" using assms by (simp add: left_child_internal)
qed

lemma internal_right_Suc:
  assumes "level x = Suc k"
  shows "level (internal_right x) = k"
    and "level x < 64 \<Longrightarrow> unat (internal_right x) = unat x + 2 ^ k"
  using level_internal_right [of x] unat_internal_right [of x] assms by simp_all

section \<open>Leaves below a node\<close>

lemma leftmost_leaf_index_rec:
  "leftmost_leaf_index x =
     (if level x = 0 then x div 2 else leftmost_leaf_index (internal_left x))"
  by (simp add: leftmost_leaf_index.simps [of x] is_leaf_level internal_left_def)

lemma unat_leftmost_leaf_index:
  "unat (leftmost_leaf_index x) = (unat x + 1 - 2 ^ level x) div 2"
proof (induction "level x" arbitrary: x)
  case 0
  then show ?case by (simp add: leftmost_leaf_index_rec [of x] unat_div)
next
  case (Suc k)
  let ?y = "internal_left x"
  have y: "level ?y = k" "unat ?y = unat x - 2 ^ k"
    using internal_left_Suc [OF Suc.hyps(2) [symmetric]] by simp_all
  have "2 ^ k \<le> unat x"
    using Suc.hyps(2) level_bit [of k x] bit_le_unat by simp
  with y have "unat ?y + 1 - 2 ^ level ?y = unat x + 1 - 2 ^ level x"
    by (simp add: Suc.hyps(2) [symmetric])
  moreover have "leftmost_leaf_index x = leftmost_leaf_index ?y"
    using Suc.hyps(2) by (simp add: leftmost_leaf_index_rec [of x])
  ultimately show ?case using Suc.hyps(1) [of ?y] y by simp
qed

lemma leftmost_leaf_index_left_child [simp]:
  "leftmost_leaf_index (left_child x) = leftmost_leaf_index x"
proof (cases "level x = 0")
  case False
  then show ?thesis by (simp add: leftmost_leaf_index_rec [of x] left_child_internal)
qed (simp add: left_child_def)

lemma right_child_loop_eq:
  "right_child_loop x n r = (if n \<le> leftmost_leaf_index r then left_child x else r)"
proof (induction "level r" arbitrary: r)
  case 0
  then show ?case by (simp add: right_child_loop.simps [of x n r] is_leaf_level)
next
  case (Suc k)
  from Suc.hyps(1) [of "left_child r"] Suc.hyps(2) show ?case
    by (simp add: right_child_loop.simps [of x n r] is_leaf_level level_left_child)
qed

text \<open>The loop of \<^verbatim>\<open>right_child\<close> is a test: the raw right child when it has a leaf, the left child otherwise.\<close>

lemma right_child_eq:
  "right_child x n =
     (if level x = 0 then Inl (Panic ''leaf node has no children'')
      else Inr (if n \<le> leftmost_leaf_index (internal_right x) then left_child x
                else internal_right x))"
  by (simp add: right_child_def right_child_loop_eq internal_right_def Let_def)

lemma right_child_level:
  "right_child x n = Inr r \<Longrightarrow> level r = level x - 1 \<and> 0 < level x"
  by (auto simp: right_child_eq level_left_child level_internal_right split: if_splits)

section \<open>The search tree over a range of positions\<close>

text \<open>
  \<open>range_root a s x\<close>: node \<open>x\<close> is the root of the implicit search tree over the \<open>s\<close>
  positions from \<open>a\<close>.
\<close>

definition range_root :: "nat \<Rightarrow> nat \<Rightarrow> u64 \<Rightarrow> bool" where
  "range_root a s x \<longleftrightarrow>
     level x < 64 \<and> unat x + 1 = a + 2 ^ level x \<and> 2 ^ level x \<le> s \<and> s < 2 ^ Suc (level x)"

lemma level_shl_minus_1: "k < 64 \<Longrightarrow> level (shl64 1 k - 1) = k"
proof -
  assume k: "k < 64"
  have "shl64 1 k - 1 = mask k" using k by (simp add: shl64_def mask_eq_exp_minus_1)
  then show ?thesis using k by (intro level_eqI) (auto simp: bit_mask_iff)
qed

lemma unat_shl_minus_1: "k < 64 \<Longrightarrow> unat (shl64 1 k - 1) = 2 ^ k - 1"
  by (simp add: unat_sub_if_size word_le_nat_alt unat_shl64_1)

lemma range_root_root: "n \<noteq> 0 \<Longrightarrow> range_root 0 (unat n) (root n)"
  using log2_lower [of n] log2_upper [of n]
  by (simp add: range_root_def root_def level_shl_minus_1 unat_shl_minus_1 log2_less)

lemma range_root_left:
  assumes "range_root a s x" and "0 < level x"
  shows "range_root a (2 ^ level x - 1) (left_child x)"
proof -
  obtain k where k: "level x = Suc k" using assms(2) gr0_implies_Suc by blast
  note l = internal_left_Suc [OF k]
  have "(0 :: nat) < 2 ^ k" by simp
  moreover have "unat x + 1 = a + 2 * 2 ^ k" using assms(1) k by (simp add: range_root_def)
  ultimately show ?thesis
    using assms(1) l by (simp add: range_root_def k) linarith
qed

lemma ibst_right_loop_spec:
  assumes "level x < 64" and "unat x + 1 = a + 2 ^ level x"
  shows "unat n \<le> a \<Longrightarrow> ibst_right_loop n x = None"
    and "a < unat n \<Longrightarrow> \<exists>y. ibst_right_loop n x = Some y \<and> level y \<le> level x \<and>
           unat y + 1 = a + 2 ^ level y \<and> unat y < unat n \<and>
           (level y < level x \<longrightarrow> unat n < a + 2 ^ Suc (level y))"
proof -
  have "(unat n \<le> a \<longrightarrow> ibst_right_loop n x = None) \<and>
    (a < unat n \<longrightarrow> (\<exists>y. ibst_right_loop n x = Some y \<and> level y \<le> level x \<and>
       unat y + 1 = a + 2 ^ level y \<and> unat y < unat n \<and>
       (level y < level x \<longrightarrow> unat n < a + 2 ^ Suc (level y))))"
    using assms
  proof (induction "level x" arbitrary: x)
    case 0
    then show ?case
      by (auto simp: ibst_right_loop.simps [of n x] word_le_nat_alt)
  next
    case (Suc k)
    let ?y = "left_child x"
    have y: "level ?y = k" "unat ?y + 2 ^ k = unat x"
      using internal_left_Suc [OF Suc.hyps(2) [symmetric]] by simp_all
    have ya: "unat ?y + 1 = a + 2 ^ level ?y"
      using Suc.prems(2) Suc.hyps(2) [symmetric] y by simp
    have IH: "(unat n \<le> a \<longrightarrow> ibst_right_loop n ?y = None) \<and>
      (a < unat n \<longrightarrow> (\<exists>z. ibst_right_loop n ?y = Some z \<and> level z \<le> level ?y \<and>
         unat z + 1 = a + 2 ^ level z \<and> unat z < unat n \<and>
         (level z < level ?y \<longrightarrow> unat n < a + 2 ^ Suc (level z))))"
      using Suc.hyps(1) [of ?y] Suc.hyps(2) Suc.prems(1) y ya by simp
    show ?case
    proof (cases "n \<le> x")
      case True
      then have "ibst_right_loop n x = ibst_right_loop n ?y"
        using Suc.hyps(2) by (simp add: ibst_right_loop.simps [of n x])
      moreover have "unat n < a + 2 ^ Suc k"
        using True Suc.prems(2) Suc.hyps(2) [symmetric] by (simp add: word_le_nat_alt)
      ultimately show ?thesis
        using IH y Suc.hyps(2) [symmetric] by (metis le_SucI le_neq_implies_less)
    next
      case False
      then have "ibst_right_loop n x = Some x" by (simp add: ibst_right_loop.simps [of n x])
      moreover have "a \<le> unat x"
        using Suc.prems(2) one_le_power [of "2 :: nat" "level x"] by linarith
      ultimately show ?thesis using False Suc.prems(2) by (auto simp: word_le_nat_alt)
    qed
  qed
  then show "unat n \<le> a \<Longrightarrow> ibst_right_loop n x = None"
    and "a < unat n \<Longrightarrow> \<exists>y. ibst_right_loop n x = Some y \<and> level y \<le> level x \<and>
           unat y + 1 = a + 2 ^ level y \<and> unat y < unat n \<and>
           (level y < level x \<longrightarrow> unat n < a + 2 ^ Suc (level y))"
    by auto
qed

text \<open>
  A range is either cut off by the size of the log or is the full right half of a left
  subtree; both shapes are kept on the way down.
\<close>

definition range_ok :: "u64 \<Rightarrow> nat \<Rightarrow> nat \<Rightarrow> u64 \<Rightarrow> bool" where
  "range_ok n a s x \<longleftrightarrow> range_root a s x \<and> a + s \<le> unat n \<and>
     (a + s = unat n \<or> s + 1 = 2 ^ Suc (level x))"

lemma range_ok_root: "n \<noteq> 0 \<Longrightarrow> range_ok n 0 (unat n) (root n)"
  by (simp add: range_ok_def range_root_root)

lemma range_ok_left:
  assumes "range_ok n a s x" and "0 < level x"
  shows "range_ok n a (2 ^ level x - 1) (left_child x)"
proof -
  obtain k where k: "level x = Suc k" using assms(2) gr0_implies_Suc by blast
  have "(2 :: nat) ^ level x \<le> s" "a + s \<le> unat n"
    using assms(1) by (simp_all add: range_ok_def range_root_def)
  then have "a + (2 ^ level x - 1) \<le> unat n" by linarith
  moreover have "2 ^ level x - 1 + 1 = (2 :: nat) ^ Suc (level (left_child x))"
    using k internal_left_Suc [OF k] by simp
  ultimately show ?thesis
    using assms range_root_left unfolding range_ok_def by blast
qed

lemma range_ok_right_none:
  assumes "range_ok n a s x" and "s = 2 ^ level x"
  shows "ibst_right_child x n = None"
proof (cases "level x")
  case (Suc k)
  have "level x < 64" "unat x + 1 = a + 2 ^ level x" and
    "a + s = unat n \<or> s + 1 = 2 ^ Suc (level x)"
    using assms(1) by (simp_all add: range_ok_def range_root_def)
  then have "unat n = a + 2 ^ level x" using Suc assms(2) by simp
  moreover have "unat (internal_right x) + 1 = (a + 2 ^ level x) + 2 ^ level (internal_right x)"
    using internal_right_Suc [OF Suc] \<open>level x < 64\<close> \<open>unat x + 1 = a + 2 ^ level x\<close> Suc by simp
  moreover have "level (internal_right x) < 64"
    using internal_right_Suc(1) [OF Suc] \<open>level x < 64\<close> Suc by simp
  ultimately show ?thesis
    using ibst_right_loop_spec(1) Suc by (simp add: ibst_right_child_def internal_right_def)
qed (simp add: ibst_right_child_def)

lemma range_ok_right_some:
  assumes "range_ok n a s x" and "2 ^ level x < s"
  shows "\<exists>y. ibst_right_child x n = Some y \<and> range_ok n (a + 2 ^ level x) (s - 2 ^ level x) y"
proof -
  have x: "level x < 64" "unat x + 1 = a + 2 ^ level x" "s < 2 ^ Suc (level x)"
    and n: "a + s \<le> unat n" "a + s = unat n \<or> s + 1 = 2 ^ Suc (level x)"
    using assms(1) by (simp_all add: range_ok_def range_root_def)
  obtain k where k: "level x = Suc k"
    using assms(2) x(3) by (cases "level x") auto
  let ?r = "internal_right x" and ?a = "a + 2 ^ level x"
  have r: "level ?r < 64" "unat ?r + 1 = ?a + 2 ^ level ?r" "level ?r = k"
    using internal_right_Suc [OF k] x k by simp_all
  obtain y where y: "ibst_right_loop n ?r = Some y" "level y \<le> k" "unat y + 1 = ?a + 2 ^ level y"
    "unat y < unat n" "level y < k \<longrightarrow> unat n < ?a + 2 ^ Suc (level y)"
    using ibst_right_loop_spec(2) [OF r(1,2), of n] assms(2) n(1) r(3) by auto
  have pos: "(1 :: nat) \<le> 2 ^ k" by simp
  have "range_ok n ?a (s - 2 ^ level x) y"
  proof (cases "level y = k")
    case True
    then show ?thesis
      using x y n k pos assms(2) by (auto simp: range_ok_def range_root_def)
  next
    case False
    then have lt: "level y < k" and ub: "unat n < ?a + 2 ^ Suc (level y)" using y by simp_all
    have "(2 :: nat) ^ Suc (level y) \<le> 2 ^ k" using lt by (intro power_increasing) auto
    then have "a + s = unat n" using n ub x k pos by auto
    then show ?thesis
      using x y n k ub assms(2) by (auto simp: range_ok_def range_root_def)
  qed
  with y(1) k show ?thesis
    by (simp add: ibst_right_child_def internal_right_def)
qed

end
