(* ===== verification/Frontier.thy ===== *)
theory Frontier
  imports NodeArith
begin

text \<open>
  The frontier of the search tree and the full subtrees of the Merkle tree
  (\<^verbatim>\<open>get_frontier\<close>, \<^verbatim>\<open>get_roots\<close>, \<^verbatim>\<open>rightmost_leaf\<close> of \<^verbatim>\<open>log_math.rs\<close>): both decompose the
  size of the log into its powers of two, so the frontier names the last entry of each full
  subtree.
\<close>

section \<open>Full subtrees as intervals of leaves\<close>

lemma rightmost_leaf_rec:
  "rightmost_leaf x = (if level x = 0 then x else rightmost_leaf (internal_right x))"
  by (simp add: rightmost_leaf.simps [of x] is_leaf_level internal_right_def)

lemma unat_rightmost_leaf:
  "level x < 64 \<Longrightarrow> unat (rightmost_leaf x) = unat x + (2 ^ level x - 1)"
proof (induction "level x" arbitrary: x)
  case 0
  then show ?case by (simp add: rightmost_leaf_rec [of x])
next
  case (Suc k)
  note r = internal_right_Suc [OF Suc.hyps(2) [symmetric]]
  have "unat (rightmost_leaf x) = unat (rightmost_leaf (internal_right x))"
    using Suc.hyps(2) by (simp add: rightmost_leaf_rec [of x])
  moreover have "unat (rightmost_leaf (internal_right x)) = unat x + 2 ^ k + (2 ^ k - 1)"
    using Suc.hyps(1) [of "internal_right x"] Suc.hyps(2) Suc.prems r by simp
  moreover have "(1 :: nat) \<le> 2 ^ k" by simp
  moreover have "2 ^ level x = 2 * (2 :: nat) ^ k" by (simp add: Suc.hyps(2) [symmetric])
  ultimately show ?case by linarith
qed

text \<open>\<open>subtree_root a k r\<close>: node \<open>r\<close> of the Merkle tree is over the \<open>2 ^ k\<close> leaves from \<open>a\<close>.\<close>

definition subtree_root :: "nat \<Rightarrow> nat \<Rightarrow> u64 \<Rightarrow> bool" where
  "subtree_root a k r \<longleftrightarrow> level r = k \<and> k < 64 \<and> unat r + 1 = 2 * a + 2 ^ k"

lemma subtree_root_leaves:
  assumes "subtree_root a k r"
  shows "unat (leftmost_leaf_index r) = a" and "unat (rightmost_leaf r div 2) + 1 = a + 2 ^ k"
proof -
  have r: "level r = k" "k < 64" "unat r + 1 = 2 * a + 2 ^ k"
    using assms by (simp_all add: subtree_root_def)
  show "unat (leftmost_leaf_index r) = a" using r by (simp add: unat_leftmost_leaf_index)
  have "(1 :: nat) \<le> 2 ^ k" by simp
  then have "unat (rightmost_leaf r) = 2 * (a + 2 ^ k - 1)"
    using unat_rightmost_leaf [of r] r by simp
  then have "unat (rightmost_leaf r div 2) = a + 2 ^ k - 1" by (simp add: unat_div)
  then show "unat (rightmost_leaf r div 2) + 1 = a + 2 ^ k" by simp
qed

lemma word_pow_eq: "k < 64 \<Longrightarrow> shl64 1 k = (2 :: u64) ^ k"
  by (simp add: shl64_def push_bit_eq_mult)

lemma log2_shl64_1: "k < 64 \<Longrightarrow> log2 (shl64 1 k) = k"
proof -
  assume k: "k < 64"
  let ?n = "shl64 1 k"
  have u: "unat ?n = 2 ^ k" using k by (rule unat_shl64_1)
  then have nz: "?n \<noteq> 0" by (metis unat_0 power_not_zero zero_neq_numeral)
  have "(2 :: nat) ^ log2 ?n \<le> 2 ^ k" "(2 :: nat) ^ k < 2 ^ Suc (log2 ?n)"
    using log2_lower [OF nz] log2_upper [of ?n] u by simp_all
  then have "log2 ?n \<le> k" "k < Suc (log2 ?n)"
    by (meson one_less_numeral_iff power_increasing_iff power_strict_increasing_iff semiring_norm(76))+
  then show ?thesis by simp
qed

lemma level_eq_of_unat:
  assumes "k < 64" and "unat x mod 2 ^ Suc k = 2 ^ k - 1"
  shows "level x = k"
proof (rule level_eqI)
  have tb: "take_bit (Suc k) (unat x) = mask k"
    using assms(2) by (simp add: take_bit_eq_mod mask_eq_exp_minus_1)
  have b: "bit x i \<longleftrightarrow> i < k" if "i \<le> k" for i
  proof -
    have "bit (take_bit (Suc k) (unat x)) i = bit (mask k :: nat) i" by (simp only: tb)
    then show ?thesis
      using that assms(1) by (simp add: bit_take_bit_iff bit_mask_iff bit_unsigned_iff)
  qed
  show "k \<le> 64" using assms(1) by simp
  show "bit x i" if "i < k" for i using b that by simp
  show "\<not> bit x k" using b by simp
qed

text \<open>One step of \<^verbatim>\<open>get_roots\<close> splits off the largest full subtree.\<close>

lemma get_roots_step:
  assumes "0 < s" and "a + s \<le> 2 ^ 63" and "unat n = s" and "unat offset = a"
    and "2 ^ Suc (log2 n) dvd a"
  shows "\<exists>r. get_roots_loop n offset = r # get_roots_loop (n - shl64 1 (log2 n)) (offset + shl64 1 (log2 n))
    \<and> subtree_root a (log2 n) r
    \<and> unat (n - shl64 1 (log2 n)) = s - 2 ^ log2 n \<and> unat (offset + shl64 1 (log2 n)) = a + 2 ^ log2 n"
proof -
  let ?k = "shl64 1 (log2 n)" and ?L = "log2 n"
  have n0: "n \<noteq> 0" using assms(1,3) by auto
  have L: "?L < 64" by (rule log2_less)
  have k: "unat ?k = 2 ^ ?L" using L by (rule unat_shl64_1)
  have le: "2 ^ ?L \<le> s" using log2_lower [OF n0] assms(3) by simp
  let ?r = "root ?k + offset * 2"
  have k0: "?k \<noteq> 0" using k by (metis unat_0 power_not_zero zero_neq_numeral)
  then have rk: "root ?k = shl64 1 ?L - 1" using L by (simp add: root_def log2_shl64_1)
  have off2: "unat (offset * 2) = 2 * a"
    using assms by (simp add: unat_word_ariths)
  have rr: "unat (root ?k) = 2 ^ ?L - 1" using rk L by (simp add: unat_shl_minus_1)
  have pos: "(1 :: nat) \<le> 2 ^ ?L" by simp
  have "2 ^ ?L + 2 * a < (18446744073709551616 :: nat)" using le assms(1,2) by simp
  then have ur: "unat ?r = 2 * a + (2 ^ ?L - 1)" using rr off2 by (simp add: unat_word_ariths)
  obtain m where m: "a = 2 ^ Suc ?L * m" using assms(5) by (auto simp: dvd_def)
  have "unat ?r = 2 ^ Suc ?L * (2 * m) + (2 ^ ?L - 1)" using ur m by simp
  then have "unat ?r mod 2 ^ Suc ?L = (2 ^ ?L - 1) mod 2 ^ Suc ?L"
    by (simp only: mod_mult_self4)
  moreover have "2 ^ ?L - 1 < (2 :: nat) ^ Suc ?L" by (simp add: less_imp_diff_less)
  ultimately have "unat ?r mod 2 ^ Suc ?L = 2 ^ ?L - 1" by (simp only: mod_less)
  then have "level ?r = ?L" using L by (intro level_eq_of_unat) simp_all
  then have sub: "subtree_root a ?L ?r" using ur pos L by (simp add: subtree_root_def)
  have "unat (n - ?k) = s - 2 ^ ?L"
    using shl64_1_log2_le [OF n0] assms(3) k by (simp add: unat_sub)
  moreover have "unat (offset + ?k) = a + 2 ^ ?L"
    using le assms k by (simp add: unat_word_ariths)
  ultimately show ?thesis
    using sub n0 by (intro exI [of _ ?r]) (simp add: get_roots_loop.simps [of n] Let_def word_gt_0)
qed

lemma log2_eqI: "2 ^ k \<le> unat n \<Longrightarrow> unat n < 2 ^ Suc k \<Longrightarrow> log2 n = k"
proof -
  assume l: "2 ^ k \<le> unat n" and u: "unat n < 2 ^ Suc k"
  then have "n \<noteq> 0" by (metis le_zero_eq power_not_zero unat_0 zero_neq_numeral)
  then have "(2 :: nat) ^ k < 2 ^ Suc (log2 n)" "(2 :: nat) ^ log2 n < 2 ^ Suc k"
    using log2_lower [of n] log2_upper [of n] l u by linarith+
  then show ?thesis
    by (metis less_Suc_eq_le one_less_numeral_iff order_antisym power_strict_increasing_iff
        semiring_norm(76))
qed

lemma dvd_rest: "2 ^ Suc k dvd a \<Longrightarrow> j < k \<Longrightarrow> 2 ^ Suc j dvd a + (2 :: nat) ^ k"
  by (meson Suc_leI dvd_add dvd_trans le_SucI le_imp_power_dvd)

section \<open>The frontier\<close>

text \<open>
  On the right edge of the search tree the range ends with the log, so one frontier step
  takes the same power of two off the size as one step of \<^verbatim>\<open>get_roots\<close>.
\<close>

lemma frontier_loop_get_roots:
  assumes "range_ok n a s x" and "a + s = unat n" and "unat n \<le> 2 ^ 63"
    and "2 ^ Suc (level x) dvd a" and "level x < fuel" and "unat m = s" and "unat off = a"
  shows "x # frontier_loop fuel n x = map (\<lambda>r. rightmost_leaf r div 2) (get_roots_loop m off)"
  using assms
proof (induction s arbitrary: a x fuel m off rule: less_induct)
  case (less s)
  have x: "level x < 64" "unat x + 1 = a + 2 ^ level x" "2 ^ level x \<le> s" "s < 2 ^ Suc (level x)"
    using less.prems(1) by (simp_all add: range_ok_def range_root_def)
  have lm: "log2 m = level x" using x less.prems(6) by (intro log2_eqI) simp_all
  have s0: "0 < s" using x(3) by (metis le_zero_eq not_gr_zero power_not_zero zero_neq_numeral)
  have bound: "a + s \<le> 2 ^ 63" using less.prems by simp
  obtain r where r: "get_roots_loop m off =
      r # get_roots_loop (m - shl64 1 (level x)) (off + shl64 1 (level x))"
    "subtree_root a (level x) r"
    "unat (m - shl64 1 (level x)) = s - 2 ^ level x" "unat (off + shl64 1 (level x)) = a + 2 ^ level x"
    using get_roots_step [OF s0 bound less.prems(6,7)] less.prems(4) lm by auto
  have head: "rightmost_leaf r div 2 = x"
    using subtree_root_leaves(2) [OF r(2)] x(2) by (simp add: word_unat_eq_iff)
  obtain fuel' where f: "fuel = Suc fuel'" using less.prems(5) by (cases fuel) auto
  have n0: "n \<noteq> 0" using less.prems(2) s0 by auto
  have un1: "unat (n - 1) = unat n - 1"
    using n0 by (simp add: unat_sub word_gt_0 unat_gt_0 Suc_leI word_le_nat_alt)
  show ?case
  proof (cases "s = 2 ^ level x")
    case True
    have "m - shl64 1 (level x) = 0" using r(3) True by (simp add: unat_eq_zero)
    then have "get_roots_loop m off = [r]" using r(1) by (simp add: get_roots_loop.simps [of 0])
    moreover have "x = n - 1"
      using True x(2) less.prems(2) un1 by (simp add: word_unat_eq_iff)
    ultimately show ?thesis using head f by simp
  next
    case False
    then have more: "2 ^ level x < s" using x(3) by simp
    obtain y where y: "ibst_right_child x n = Some y"
      "range_ok n (a + 2 ^ level x) (s - 2 ^ level x) y"
      using range_ok_right_some [OF less.prems(1) more] by blast
    have "level y < level x"
    proof -
      have "2 ^ level y \<le> s - 2 ^ level x" using y(2) by (simp add: range_ok_def range_root_def)
      also have "\<dots> < 2 ^ level x" using x(4) less_diff_conv2 [OF x(3)] by simp
      finally show ?thesis by (simp add: power_strict_increasing_iff)
    qed
    moreover have "x \<noteq> n - 1"
      using more x(2) less.prems(2) un1 by (auto simp: word_unat_eq_iff)
    moreover have "y # frontier_loop fuel' n y =
        map (\<lambda>r. rightmost_leaf r div 2) (get_roots_loop (m - shl64 1 (level x)) (off + shl64 1 (level x)))"
    proof (rule less.IH [OF _ y(2)])
      show "s - 2 ^ level x < s" using s0 by simp
      show "2 ^ Suc (level y) dvd a + 2 ^ level x"
        using dvd_rest [OF less.prems(4)] \<open>level y < level x\<close> by blast
    qed (use less.prems more r f \<open>level y < level x\<close> in auto)
    ultimately show ?thesis using r(1) f y(1) head by simp
  qed
qed

lemma get_frontier_eq:
  assumes "unat n \<le> 2 ^ 63"
  shows "get_frontier n = map (\<lambda>r. rightmost_leaf r div 2) (get_roots n)"
proof (cases "n = 0")
  case False
  then have "range_ok n 0 (unat n) (root n)" by (rule range_ok_root)
  moreover have "level (root n) < 100"
    using level_le [of "root n"] by simp
  ultimately show ?thesis
    using frontier_loop_get_roots [of n 0 "unat n" "root n" 100 n 0] assms False
    by (simp add: get_frontier_def get_roots_def)
qed (simp add: get_frontier_def get_roots_def get_roots_loop.simps [of 0])

section \<open>Properties\<close>

text \<open>C20. The frontier of a log of \<open>n\<close> entries names the last entry of each full subtree of
  the Merkle tree over them, from the largest subtree to the smallest; the bound of 100
  steps of the source is never what ends it.\<close>

theorem frontier_names_full_subtrees:
  assumes "unat n \<le> 2 ^ 63"
  shows "get_frontier n = map (\<lambda>r. rightmost_leaf r div 2) (get_roots n)"
  using assms by (rule get_frontier_eq)

lemma frontier_names_full_subtrees_witness:
  "get_frontier 11 = map (\<lambda>r. rightmost_leaf r div 2) (get_roots 11)"
  by (rule frontier_names_full_subtrees) simp

end
