(* ===== verification/Tls.thy ===== *)
theory Tls
  imports Prelude
begin

text \<open>
  The TLS presentation encoding of \<^verbatim>\<open>src/src/crypto/tls.rs\<close>. An encoder is the list of
  bytes it appends to the buffer; a decoder returns the value and the rest of the slice.
  The constructors \<^verbatim>\<open>Opaqueu8::new\<close> and its siblings, which refuse an oversize input, are
  part of the encoders \<open>opaque_u8\<close>, \<open>opaque_u16\<close> and \<open>opaque_u32\<close>.

  The interface of a type with both directions is the locale \<open>tls_codec\<close>; its one law, that
  decoding undoes encoding whatever follows, gives that encodings are prefix-free and
  injective. Every pair of the file interprets it.
\<close>

section \<open>Big-endian integers\<close>

fun nat_to_be :: "nat \<Rightarrow> nat \<Rightarrow> bytes" where
  "nat_to_be 0 n = []"
| "nat_to_be (Suc k) n = nat_to_be k (n div 256) @ [word_of_nat n]"

definition be_to_nat :: "bytes \<Rightarrow> nat" where
  "be_to_nat bs = foldl (\<lambda>a b. a * 256 + unat b) 0 bs"

lemma length_nat_to_be [simp]: "length (nat_to_be k n) = k"
  by (induction k arbitrary: n) auto

lemma be_to_nat_snoc [simp]: "be_to_nat (bs @ [b]) = be_to_nat bs * 256 + unat b"
  by (simp add: be_to_nat_def)

lemma be_to_nat_Nil [simp]: "be_to_nat [] = 0"
  by (simp add: be_to_nat_def)

lemma be_to_nat_to_be [simp]: "be_to_nat (nat_to_be k n) = n mod 256 ^ k"
proof (induction k arbitrary: n)
  case (Suc k)
  have "be_to_nat (nat_to_be (Suc k) n) = (n div 256 mod 256 ^ k) * 256 + n mod 256"
    by (simp add: Suc unat_of_nat take_bit_eq_mod)
  also have "\<dots> = n mod (256 * 256 ^ k)" by (simp add: mod_mult2_eq mult.commute)
  finally show ?case by (simp add: mult.commute)
qed simp

lemma be_to_nat_less: "be_to_nat bs < 256 ^ length bs"
proof (induction bs rule: rev_induct)
  case (snoc b bs)
  have "unat b < 256" using unsigned_less [of b] by simp
  with snoc show ?case by simp
qed simp

lemma nat_to_be_of_be: "length bs = k \<Longrightarrow> nat_to_be k (be_to_nat bs) = bs"
proof (induction bs arbitrary: k rule: rev_induct)
  case (snoc b bs)
  have "unat b < 256" using unsigned_less [of b] by simp
  then have "(be_to_nat bs * 256 + unat b) div 256 = be_to_nat bs" by simp
  moreover have "(256 :: u8) = 0" by transfer simp
  moreover have "(word_of_nat (be_to_nat bs * 256 + unat b) :: u8) = word_of_nat (be_to_nat bs) * 256 + b"
    by simp
  ultimately have "(word_of_nat (be_to_nat bs * 256 + unat b) :: u8) = b"
    by (simp only: mult_zero_right add_0_left)
  then show ?case using snoc \<open>(be_to_nat bs * 256 + unat b) div 256 = be_to_nat bs\<close> by auto
qed simp

definition to_be_bytes_u16 :: "u16 \<Rightarrow> bytes" where "to_be_bytes_u16 x = nat_to_be 2 (unat x)"
definition to_be_bytes_u32 :: "nat \<Rightarrow> bytes" where "to_be_bytes_u32 x = nat_to_be 4 x"
definition to_be_bytes_u64 :: "u64 \<Rightarrow> bytes" where "to_be_bytes_u64 x = nat_to_be 8 (unat x)"

definition from_be_bytes_u64 :: "bytes \<Rightarrow> u64" where
  "from_be_bytes_u64 bs = word_of_nat (be_to_nat bs)"

definition from_be_bytes_u32 :: "bytes \<Rightarrow> nat" where
  "from_be_bytes_u32 bs = be_to_nat bs"

lemma length_to_be_bytes [simp]:
  "length (to_be_bytes_u16 x) = 2" "length (to_be_bytes_u32 v) = 4" "length (to_be_bytes_u64 y) = 8"
  by (simp_all add: to_be_bytes_u16_def to_be_bytes_u32_def to_be_bytes_u64_def)

lemma from_to_be_bytes_u64 [simp]: "from_be_bytes_u64 (to_be_bytes_u64 x) = x"
proof -
  have "unat x < 256 ^ 8" using unsigned_less [of x] by simp
  then show ?thesis by (simp add: from_be_bytes_u64_def to_be_bytes_u64_def)
qed

lemma from_to_be_bytes_u32 [simp]: "v \<le> U32_MAX \<Longrightarrow> from_be_bytes_u32 (to_be_bytes_u32 v) = v"
  by (simp add: from_be_bytes_u32_def to_be_bytes_u32_def U32_MAX_def)

lemma from_be_bytes_u32_le: "length bs = 4 \<Longrightarrow> from_be_bytes_u32 bs \<le> U32_MAX"
  using be_to_nat_less [of bs] by (simp add: from_be_bytes_u32_def U32_MAX_def)

section \<open>Encoders\<close>

definition opaque_u8 :: "bytes \<Rightarrow> bytes res" where
  "opaque_u8 bs =
     (if length bs > 255 then Inl (Anyhow ''opaque<0..2^8-1> overflow'')
      else Inr (word_of_nat (length bs) # bs))"

definition opaque_u16 :: "bytes \<Rightarrow> bytes res" where
  "opaque_u16 bs =
     (if length bs > 65535 then Inl (Anyhow ''opaque<0..2^16-1> overflow'')
      else Inr (nat_to_be 2 (length bs) @ bs))"

definition opaque_u32 :: "bytes \<Rightarrow> bytes res" where
  "opaque_u32 bs =
     (if length bs > U32_MAX then Inl (Anyhow ''opaque<0..2^32-1> overflow'')
      else Inr (nat_to_be 4 (length bs) @ bs))"

definition fixed_opaque :: "bytes \<Rightarrow> bytes" where
  "fixed_opaque bs = bs"

definition optional_encode :: "('a \<Rightarrow> bytes) \<Rightarrow> 'a option \<Rightarrow> bytes" where
  "optional_encode enc v = (case v of None \<Rightarrow> [0] | Some x \<Rightarrow> 1 # enc x)"

section \<open>Decoders\<close>

definition take_bytes :: "bytes \<Rightarrow> nat \<Rightarrow> (bytes \<times> bytes) res" where
  "take_bytes buf n =
     (if length buf < n then Inl (Anyhow ''TLS decode: unexpected end of input'')
      else Inr (take n buf, drop n buf))"

text \<open>The macro \<^verbatim>\<open>impl_tls_decode_uint\<close> at one width; the value is read as a number.\<close>

definition tls_decode_uint :: "nat \<Rightarrow> bytes \<Rightarrow> (nat \<times> bytes) res" where
  "tls_decode_uint n buf =
     and_then (take_bytes buf n) (\<lambda>(head, tail). Inr (be_to_nat head, tail))"

definition tls_decode_u8 :: "bytes \<Rightarrow> (u8 \<times> bytes) res" where
  "tls_decode_u8 buf = and_then (tls_decode_uint 1 buf) (\<lambda>(v, buf). Inr (word_of_nat v, buf))"

definition tls_decode_u16 :: "bytes \<Rightarrow> (u16 \<times> bytes) res" where
  "tls_decode_u16 buf = and_then (tls_decode_uint 2 buf) (\<lambda>(v, buf). Inr (word_of_nat v, buf))"

definition tls_decode_u32 :: "bytes \<Rightarrow> (nat \<times> bytes) res" where
  "tls_decode_u32 buf = tls_decode_uint 4 buf"

definition tls_decode_u64 :: "bytes \<Rightarrow> (u64 \<times> bytes) res" where
  "tls_decode_u64 buf = and_then (tls_decode_uint 8 buf) (\<lambda>(v, buf). Inr (word_of_nat v, buf))"

definition tls_decode_option :: "(bytes \<Rightarrow> ('a \<times> bytes) res) \<Rightarrow> bytes \<Rightarrow> ('a option \<times> bytes) res" where
  "tls_decode_option dec buf =
     and_then (tls_decode_u8 buf) (\<lambda>(octet, buf).
       if octet = 0 then Inr (None, buf)
       else if octet = 1 then and_then (dec buf) (\<lambda>(v, buf). Inr (Some v, buf))
       else Inl (Anyhow ''TLS decode: malformed optional presence octet''))"

definition decode_opaque_u8 :: "bytes \<Rightarrow> (bytes \<times> bytes) res" where
  "decode_opaque_u8 buf = and_then (tls_decode_u8 buf) (\<lambda>(len, buf). take_bytes buf (unat len))"

definition decode_opaque_u16 :: "bytes \<Rightarrow> (bytes \<times> bytes) res" where
  "decode_opaque_u16 buf = and_then (tls_decode_u16 buf) (\<lambda>(len, buf). take_bytes buf (unat len))"

definition decode_opaque_u32 :: "bytes \<Rightarrow> (bytes \<times> bytes) res" where
  "decode_opaque_u32 buf = and_then (tls_decode_u32 buf) (\<lambda>(len, buf). take_bytes buf len)"

definition decode_fixed_opaque :: "bytes \<Rightarrow> nat \<Rightarrow> (bytes \<times> bytes) res" where
  "decode_fixed_opaque buf n = take_bytes buf n"

section \<open>The interface of an encodable type\<close>

locale tls_codec =
  fixes ok :: "'a \<Rightarrow> bool"
    and enc :: "'a \<Rightarrow> bytes"
    and dec :: "bytes \<Rightarrow> ('a \<times> bytes) res"
  assumes decode_encode: "ok x \<Longrightarrow> dec (enc x @ rest) = Inr (x, rest)"
begin

lemma prefix_free: "ok x \<Longrightarrow> ok y \<Longrightarrow> enc x @ r = enc y @ s \<Longrightarrow> x = y \<and> r = s"
  by (metis Pair_inject decode_encode sum.inject(2))

lemma enc_inj: "ok x \<Longrightarrow> ok y \<Longrightarrow> enc x = enc y \<Longrightarrow> x = y"
  using prefix_free [of x y "[]" "[]"] by simp

end

lemma take_bytes_append: "length bs = n \<Longrightarrow> take_bytes (bs @ rest) n = Inr (bs, rest)"
  by (simp add: take_bytes_def)

lemma tls_decode_uint_to_be:
  "v < 256 ^ k \<Longrightarrow> tls_decode_uint k (nat_to_be k v @ rest) = Inr (v, rest)"
  by (simp add: tls_decode_uint_def take_bytes_append)

lemma tls_decode_u8_Cons: "tls_decode_u8 (b # rest) = Inr (b, rest)"
  by (simp add: tls_decode_u8_def tls_decode_uint_def take_bytes_def be_to_nat_def)

lemma unat_less_256: "unat (x :: u16) < 65536" "unat (y :: u64) < 18446744073709551616" "unat (z :: u8) < 256"
  using unsigned_less [of x] unsigned_less [of y] unsigned_less [of z] by simp_all

interpretation tls_u8: tls_codec "\<lambda>_. True" "\<lambda>b. [b]" tls_decode_u8
  by unfold_locales (simp add: tls_decode_u8_Cons)

interpretation tls_u16: tls_codec "\<lambda>_. True" to_be_bytes_u16 tls_decode_u16
  by unfold_locales
    (simp add: tls_decode_u16_def to_be_bytes_u16_def tls_decode_uint_to_be unat_less_256)

interpretation tls_u32: tls_codec "\<lambda>v. v \<le> U32_MAX" to_be_bytes_u32 tls_decode_u32
  by unfold_locales
    (simp add: tls_decode_u32_def to_be_bytes_u32_def tls_decode_uint_to_be U32_MAX_def)

interpretation tls_u64: tls_codec "\<lambda>_. True" to_be_bytes_u64 tls_decode_u64
  by unfold_locales
    (simp add: tls_decode_u64_def to_be_bytes_u64_def tls_decode_uint_to_be unat_less_256)

interpretation tls_opaque8: tls_codec "\<lambda>bs. length bs \<le> 255" "\<lambda>bs. projr (opaque_u8 bs)" decode_opaque_u8
  by unfold_locales
    (simp add: decode_opaque_u8_def opaque_u8_def tls_decode_u8_Cons take_bytes_append unat_of_nat
      take_bit_eq_mod)

interpretation tls_opaque16: tls_codec "\<lambda>bs. length bs \<le> 65535" "\<lambda>bs. projr (opaque_u16 bs)" decode_opaque_u16
  by unfold_locales
    (simp add: decode_opaque_u16_def opaque_u16_def tls_decode_u16_def tls_decode_uint_to_be
      take_bytes_append unat_of_nat take_bit_eq_mod)

interpretation tls_opaque32: tls_codec "\<lambda>bs. length bs \<le> U32_MAX" "\<lambda>bs. projr (opaque_u32 bs)" decode_opaque_u32
  by unfold_locales
    (simp add: decode_opaque_u32_def opaque_u32_def tls_decode_u32_def tls_decode_uint_to_be
      take_bytes_append U32_MAX_def)

lemma tls_option_codec:
  "tls_codec ok enc dec \<Longrightarrow>
    tls_codec (pred_option ok) (optional_encode enc) (tls_decode_option dec)"
  by (simp add: tls_codec_def optional_encode_def tls_decode_option_def tls_decode_u8_Cons
      split: option.splits)

interpretation tls_opt_u64: tls_codec "pred_option (\<lambda>_. True)" "optional_encode to_be_bytes_u64"
  "tls_decode_option tls_decode_u64"
  by (rule tls_option_codec [OF tls_u64.tls_codec_axioms])

text \<open>The form in which the encoders of variable-length fields are used.\<close>

lemma opaque_u8_ok: "opaque_u8 bs = Inr e \<longleftrightarrow> length bs \<le> 255 \<and> e = word_of_nat (length bs) # bs"
  by (auto simp: opaque_u8_def)

lemma opaque_u16_ok: "opaque_u16 bs = Inr e \<longleftrightarrow> length bs \<le> 65535 \<and> e = nat_to_be 2 (length bs) @ bs"
  by (auto simp: opaque_u16_def)

lemma opaque_u32_ok: "opaque_u32 bs = Inr e \<longleftrightarrow> length bs \<le> U32_MAX \<and> e = nat_to_be 4 (length bs) @ bs"
  by (auto simp: opaque_u32_def)

lemma opaque_prefix_free:
  "opaque_u8 a = Inr e \<Longrightarrow> opaque_u8 b = Inr f \<Longrightarrow> e @ r = f @ s \<Longrightarrow> a = b \<and> r = s"
  "opaque_u16 a = Inr e \<Longrightarrow> opaque_u16 b = Inr f \<Longrightarrow> e @ r = f @ s \<Longrightarrow> a = b \<and> r = s"
  "opaque_u32 a = Inr e \<Longrightarrow> opaque_u32 b = Inr f \<Longrightarrow> e @ r = f @ s \<Longrightarrow> a = b \<and> r = s"
  using tls_opaque8.prefix_free [of a b r s] tls_opaque16.prefix_free [of a b r s]
    tls_opaque32.prefix_free [of a b r s]
  by (auto simp: opaque_u8_def opaque_u16_def opaque_u32_def split: if_splits)

lemmas tls_prefix_free = opaque_prefix_free tls_u16.prefix_free tls_u32.prefix_free
  tls_u64.prefix_free tls_opt_u64.prefix_free

end
