(* ===== verification/Hashes.thy ===== *)
theory Hashes
  imports Tls
begin

text \<open>
  The hash constructions of \<^verbatim>\<open>src/src/crypto/hash.rs\<close>, \<^verbatim>\<open>src/src/tree/prefix/hasher.rs\<close> and the
  VRF input of \<^verbatim>\<open>src/src/crypto/mod.rs\<close>. SHA-256 and HMAC-SHA-256 are crates: they are the
  parameters \<open>sha\<close> and \<open>hmac\<close> of the definitions. The code relies on digests of 32 bytes and
  on the absence of collisions among the inputs it hashes; the second is stated where it is
  used, as injectivity on a set of inputs, or as a disjunct that exhibits the two colliding
  inputs.
\<close>

section \<open>Commitments\<close>

definition KC :: bytes where
  "KC = [0xd8, 0x21, 0xf8, 0x79, 0x0d, 0x97, 0x70, 0x97, 0x96, 0xb4, 0xd7, 0x90, 0x33, 0x57, 0xc3, 0xf5]"

definition commitment_value ::
  "bytes \<Rightarrow> version \<Rightarrow> bytes \<Rightarrow> bytes option \<Rightarrow> bytes \<Rightarrow> bytes res" where
  "commitment_value label ver update_value suffix_signature opening =
     (if length opening \<noteq> 16 then Inl (Anyhow ''Invalid opening length'')
      else
        and_then (opaque_u8 label) (\<lambda>l.
        and_then (opaque_u32 update_value) (\<lambda>v.
        let buf = fixed_opaque opening @ l @ to_be_bytes_u32 ver @ v in
        case suffix_signature of
          Some sig \<Rightarrow> and_then (opaque_u16 sig) (\<lambda>s. Inr (buf @ s))
        | None \<Rightarrow> Inr buf)))"

definition commit ::
  "(bytes \<Rightarrow> bytes \<Rightarrow> bytes) \<Rightarrow> bytes \<Rightarrow> version \<Rightarrow> bytes \<Rightarrow> bytes option \<Rightarrow> bytes \<Rightarrow> bytes res" where
  "commit hmac label ver update_value suffix_signature opening =
     and_then (commitment_value label ver update_value suffix_signature opening)
       (\<lambda>commitment_value. Inr (hmac KC commitment_value))"

section \<open>Log tree\<close>

definition log_leaf_value :: "(bytes \<Rightarrow> bytes) \<Rightarrow> u64 \<Rightarrow> bytes \<Rightarrow> bytes" where
  "log_leaf_value sha timestamp prefix_root = sha (to_be_bytes_u64 timestamp @ prefix_root)"

definition hash_content :: "bytes \<Rightarrow> bool \<Rightarrow> bytes" where
  "hash_content val is_leaf_node = (if is_leaf_node then 0x00 else 0x01) # val"

definition log_parent_value ::
  "(bytes \<Rightarrow> bytes) \<Rightarrow> bytes \<Rightarrow> bool \<Rightarrow> bytes \<Rightarrow> bool \<Rightarrow> bytes" where
  "log_parent_value sha left left_is_leaf right right_is_leaf =
     sha (hash_content left left_is_leaf @ hash_content right right_is_leaf)"

section \<open>Prefix tree\<close>

definition INDEX_LENGTH :: nat where "INDEX_LENGTH = 32"

definition ZERO_VALUE :: bytes where "ZERO_VALUE = replicate 32 0"

text \<open>
  Indexing past the end panics in the source. Every caller holds a 32-byte VRF output and
  a level below 256; where the length of a key comes from a message, the caller's model
  checks it before it reads a bit.
\<close>

definition get_bit :: "bytes \<Rightarrow> nat \<Rightarrow> nat" where
  "get_bit data n = of_bool (bit (data ! (n div 8)) (7 - n mod 8))"

definition leaf_hash :: "(bytes \<Rightarrow> bytes) \<Rightarrow> bytes \<Rightarrow> bytes \<Rightarrow> bytes" where
  "leaf_hash sha vrf_output commitment = sha ([0x02] @ vrf_output @ commitment)"

definition parent_hash :: "(bytes \<Rightarrow> bytes) \<Rightarrow> bytes \<Rightarrow> bytes \<Rightarrow> bytes" where
  "parent_hash sha left right = sha ([0x03] @ left @ right)"

section \<open>VRF input\<close>

definition construct_vrf_input :: "bytes \<Rightarrow> version \<Rightarrow> bytes res" where
  "construct_vrf_input label ver =
     (if length label \<ge> 256 then Inl (Anyhow ''Label too long for VRF Input'')
      else and_then (opaque_u8 label) (\<lambda>buf. Inr (buf @ to_be_bytes_u32 ver)))"

section \<open>Injectivity\<close>

text \<open>
  The encodings are prefix-free, so equal buffers come from equal fields; a commitment with
  a suffix signature never shares its buffer with one without.
\<close>

lemma commitment_value_inj:
  assumes "commitment_value l v x s p = Inr b" and "commitment_value l' v' x' s' p' = Inr b"
    and "v \<le> U32_MAX" and "v' \<le> U32_MAX"
  shows "l = l' \<and> v = v' \<and> x = x' \<and> s = s' \<and> p = p'"
proof -
  obtain el ex es where e: "opaque_u8 l = Inr el" "opaque_u32 x = Inr ex"
    "b = p @ el @ to_be_bytes_u32 v @ ex @ es" "length p = 16"
    "case s of None \<Rightarrow> es = [] | Some sg \<Rightarrow> opaque_u16 sg = Inr es"
    using assms(1) by (auto simp: commitment_value_def res_simps fixed_opaque_def Let_def
        split: if_splits option.splits)
  obtain el' ex' es' where e': "opaque_u8 l' = Inr el'" "opaque_u32 x' = Inr ex'"
    "b = p' @ el' @ to_be_bytes_u32 v' @ ex' @ es'" "length p' = 16"
    "case s' of None \<Rightarrow> es' = [] | Some sg \<Rightarrow> opaque_u16 sg = Inr es'"
    using assms(2) by (auto simp: commitment_value_def res_simps fixed_opaque_def Let_def
        split: if_splits option.splits)
  have p: "p = p'" "el @ to_be_bytes_u32 v @ ex @ es = el' @ to_be_bytes_u32 v' @ ex' @ es'"
    using append_eq_append_conv [of p p'] e(3,4) e'(3,4) by (metis (no_types))+
  note l = opaque_prefix_free(1) [OF e(1) e'(1) p(2)]
  note v = tls_u32.prefix_free [OF assms(3,4) conjunct2 [OF l]]
  note x = opaque_prefix_free(3) [OF e(2) e'(2) conjunct2 [OF v]]
  have "s = s'"
    using e(5) e'(5) x opaque_prefix_free(2) [of _ es _ es' "[]" "[]"]
    by (auto simp: opaque_u16_ok numeral_2_eq_2 split: option.splits)
  with p l v x show ?thesis by simp
qed

lemma construct_vrf_input_inj:
  assumes "construct_vrf_input l v = Inr b" and "construct_vrf_input l' v' = Inr b"
    and "v \<le> U32_MAX" and "v' \<le> U32_MAX"
  shows "l = l' \<and> v = v'"
proof -
  obtain e e' where e: "opaque_u8 l = Inr e" "opaque_u8 l' = Inr e'"
    "b = e @ to_be_bytes_u32 v" "b = e' @ to_be_bytes_u32 v'"
    using assms(1,2) by (auto simp: construct_vrf_input_def res_simps split: if_splits)
  have "e @ to_be_bytes_u32 v = e' @ to_be_bytes_u32 v'" using e(3,4) by (rule subst)
  note l = opaque_prefix_free(1) [OF e(1,2) this]
  then show ?thesis using tls_u32.enc_inj [OF assms(3,4)] by blast
qed

lemma hash_content_inj:
  "hash_content l a @ hash_content r b = hash_content l' a' @ hash_content r' b' \<Longrightarrow>
    length l = length l' \<Longrightarrow> l = l' \<and> a = a' \<and> r = r' \<and> b = b'"
  by (auto simp: hash_content_def split: if_splits)

section \<open>Properties\<close>

text \<open>C17. Commitments bind. Two openings of one commitment are the same label, version,
  value, suffix signature and randomness, unless the two byte strings the code hashed are an
  explicit collision of HMAC under the fixed key.\<close>

theorem commit_binds:
  assumes "commit hmac l v x s p = Inr c" and "commit hmac l' v' x' s' p' = Inr c"
    and "v \<le> U32_MAX" and "v' \<le> U32_MAX"
  shows "(l, v, x, s, p) = (l', v', x', s', p') \<or>
    (projr (commitment_value l v x s p) \<noteq> projr (commitment_value l' v' x' s' p') \<and>
     hmac KC (projr (commitment_value l v x s p)) = hmac KC (projr (commitment_value l' v' x' s' p')))"
proof -
  obtain b b' where b: "commitment_value l v x s p = Inr b" "hmac KC b = c"
    "commitment_value l' v' x' s' p' = Inr b'" "hmac KC b' = c"
    using assms(1,2) by (auto simp: commit_def res_simps)
  show ?thesis
  proof (cases "b = b'")
    case True
    then show ?thesis using commitment_value_inj b(1,3) assms(3,4) by blast
  qed (use b in simp)
qed

lemma commit_binds_witness:
  "([97 :: u8], 1 :: version, [2 :: u8], None :: bytes option, replicate 16 (0 :: u8)) =
    ([97], 1, [2], None, replicate 16 0)"
proof -
  let ?c = "commitment_value [97] 1 [2] None (replicate 16 0)"
  have c: "commit (\<lambda>k x. x) [97] 1 [2] None (replicate 16 0) = Inr (projr ?c)"
    by (simp add: commit_def commitment_value_def opaque_u8_def opaque_u32_def U32_MAX_def Let_def)
  have "(1 :: nat) \<le> U32_MAX" by (simp add: U32_MAX_def)
  from commit_binds [OF c c this this] show ?thesis by blast
qed

end
