(* ===== verification/Store.thy ===== *)
theory Store
  imports Tls "HOL-Library.List_Lexorder" "HOL-Library.Char_ord"
begin

text \<open>
  The transparency store, \<^verbatim>\<open>src/src/db.rs\<close>. RocksDB is a crate: a column family is a map
  from byte strings to byte strings, a write batch the sequence of its puts, and the failure
  of the database itself is not modelled. The keys are the bytes the source writes, so the
  laws of the getters and setters rest on the injectivity of the big-endian encoding.

  The interface a client of the store relies on is the locale \<open>kv_store\<close>: a read after a
  write. It is interpreted on every column family keyed by a number. The history family
  packs 12-byte records; its lemmas show that what is appended is what is read.
\<close>

type_synonym column_family = "bytes \<rightharpoonup> bytes"

record store =
  cf_log :: column_family
  cf_prefix :: column_family
  cf_meta :: column_family
  cf_value :: column_family
  cf_history :: column_family
  cf_audit :: column_family
  cf_openings :: column_family
  cf_timestamp :: column_family
  cf_prefix_root :: column_family
  cf_prefix_ptr :: column_family

definition empty_store :: store where
  "empty_store = \<lparr>cf_log = Map.empty, cf_prefix = Map.empty, cf_meta = Map.empty,
     cf_value = Map.empty, cf_history = Map.empty, cf_audit = Map.empty, cf_openings = Map.empty,
     cf_timestamp = Map.empty, cf_prefix_root = Map.empty, cf_prefix_ptr = Map.empty\<rparr>"

text \<open>A write batch over keys of type \<open>u64\<close>.\<close>

definition put_all :: "(u64 \<times> bytes) list \<Rightarrow> column_family \<Rightarrow> column_family" where
  "put_all entries cf = fold (\<lambda>(k, v) cf. cf(to_be_bytes_u64 k \<mapsto> v)) entries cf"

section \<open>Column families keyed by a number\<close>

definition get_log :: "store \<Rightarrow> u64 \<Rightarrow> bytes option" where
  "get_log st key = cf_log st (to_be_bytes_u64 key)"

definition put_log_batch :: "(u64 \<times> bytes) list \<Rightarrow> store \<Rightarrow> store" where
  "put_log_batch entries st = st\<lparr>cf_log := put_all entries (cf_log st)\<rparr>"

definition get_prefix :: "store \<Rightarrow> u64 \<Rightarrow> bytes option" where
  "get_prefix st key = cf_prefix st (to_be_bytes_u64 key)"

definition put_prefix :: "u64 \<Rightarrow> bytes \<Rightarrow> store \<Rightarrow> store" where
  "put_prefix key val st = st\<lparr>cf_prefix := (cf_prefix st)(to_be_bytes_u64 key \<mapsto> val)\<rparr>"

definition put_prefix_batch :: "(u64 \<times> bytes) list \<Rightarrow> store \<Rightarrow> store" where
  "put_prefix_batch entries st = st\<lparr>cf_prefix := put_all entries (cf_prefix st)\<rparr>"

definition batch_get_prefix :: "store \<Rightarrow> u64 list \<Rightarrow> (u64 \<times> bytes) list" where
  "batch_get_prefix st keys =
     concat (map (\<lambda>k. case get_prefix st k of Some val \<Rightarrow> [(k, val)] | None \<Rightarrow> []) keys)"

definition get_value :: "store \<Rightarrow> u64 \<Rightarrow> bytes option" where
  "get_value st key = cf_value st (to_be_bytes_u64 key)"

definition put_value :: "u64 \<Rightarrow> bytes \<Rightarrow> store \<Rightarrow> store" where
  "put_value key val st = st\<lparr>cf_value := (cf_value st)(to_be_bytes_u64 key \<mapsto> val)\<rparr>"

definition put_value_batch :: "(u64 \<times> bytes) list \<Rightarrow> store \<Rightarrow> store" where
  "put_value_batch entries st = st\<lparr>cf_value := put_all entries (cf_value st)\<rparr>"

definition delete_value :: "u64 \<Rightarrow> store \<Rightarrow> store" where
  "delete_value key st = st\<lparr>cf_value := (cf_value st)(to_be_bytes_u64 key := None)\<rparr>"

definition get_opening :: "store \<Rightarrow> u64 \<Rightarrow> bytes option" where
  "get_opening st key = cf_openings st (to_be_bytes_u64 key)"

definition put_opening :: "u64 \<Rightarrow> bytes \<Rightarrow> store \<Rightarrow> store" where
  "put_opening key opening st = st\<lparr>cf_openings := (cf_openings st)(to_be_bytes_u64 key \<mapsto> opening)\<rparr>"

definition put_opening_batch :: "(u64 \<times> bytes) list \<Rightarrow> store \<Rightarrow> store" where
  "put_opening_batch entries st = st\<lparr>cf_openings := put_all entries (cf_openings st)\<rparr>"

definition delete_opening :: "u64 \<Rightarrow> store \<Rightarrow> store" where
  "delete_opening key st = st\<lparr>cf_openings := (cf_openings st)(to_be_bytes_u64 key := None)\<rparr>"

definition get_timestamp_cf :: "store \<Rightarrow> u64 \<Rightarrow> bytes option" where
  "get_timestamp_cf st log_index = cf_timestamp st (to_be_bytes_u64 log_index)"

definition put_timestamp_cf :: "u64 \<Rightarrow> bytes \<Rightarrow> store \<Rightarrow> store" where
  "put_timestamp_cf log_index val st =
     st\<lparr>cf_timestamp := (cf_timestamp st)(to_be_bytes_u64 log_index \<mapsto> val)\<rparr>"

definition get_prefix_root_cf :: "store \<Rightarrow> u64 \<Rightarrow> bytes option" where
  "get_prefix_root_cf st log_index = cf_prefix_root st (to_be_bytes_u64 log_index)"

definition put_prefix_root_cf :: "u64 \<Rightarrow> bytes \<Rightarrow> store \<Rightarrow> store" where
  "put_prefix_root_cf log_index val st =
     st\<lparr>cf_prefix_root := (cf_prefix_root st)(to_be_bytes_u64 log_index \<mapsto> val)\<rparr>"

definition get_prefix_ptr_cf :: "store \<Rightarrow> u64 \<Rightarrow> bytes option" where
  "get_prefix_ptr_cf st log_index = cf_prefix_ptr st (to_be_bytes_u64 log_index)"

definition put_prefix_ptr_cf :: "u64 \<Rightarrow> bytes \<Rightarrow> store \<Rightarrow> store" where
  "put_prefix_ptr_cf log_index val st =
     st\<lparr>cf_prefix_ptr := (cf_prefix_ptr st)(to_be_bytes_u64 log_index \<mapsto> val)\<rparr>"

definition get_audit_blob :: "store \<Rightarrow> u64 \<Rightarrow> bytes option" where
  "get_audit_blob st log_index = cf_audit st (to_be_bytes_u64 log_index)"

definition put_audit_blob :: "u64 \<Rightarrow> bytes \<Rightarrow> store \<Rightarrow> store" where
  "put_audit_blob log_index data st =
     st\<lparr>cf_audit := (cf_audit st)(to_be_bytes_u64 log_index \<mapsto> data)\<rparr>"

section \<open>Metadata\<close>

text \<open>Keys of the metadata family are the bytes of an ASCII name.\<close>

definition ascii :: "string \<Rightarrow> bytes" where
  "ascii s = map (\<lambda>c. word_of_nat (of_char c)) s"

definition get_meta :: "store \<Rightarrow> bytes \<Rightarrow> bytes option" where
  "get_meta st key = cf_meta st key"

definition put_meta :: "bytes \<Rightarrow> bytes \<Rightarrow> store \<Rightarrow> store" where
  "put_meta key val st = st\<lparr>cf_meta := (cf_meta st)(key \<mapsto> val)\<rparr>"

definition get_head :: "store \<Rightarrow> bytes option" where
  "get_head st = cf_meta st (ascii ''head'')"

definition set_head :: "bytes \<Rightarrow> store \<Rightarrow> store" where
  "set_head data st = st\<lparr>cf_meta := (cf_meta st)(ascii ''head'' \<mapsto> data)\<rparr>"

section \<open>Label histories\<close>

type_synonym history = "(version \<times> u64) list"

function decode_history :: "bytes \<Rightarrow> history" where
  "decode_history bs =
     (if 12 \<le> length bs then
        (from_be_bytes_u32 (take 4 bs), from_be_bytes_u64 (take 8 (drop 4 bs)))
          # decode_history (drop 12 bs)
      else [])"
  by pat_completeness auto
termination by (relation "measure length") auto

declare decode_history.simps [simp del]

definition encode_history :: "history \<Rightarrow> bytes" where
  "encode_history h = concat (map (\<lambda>(v, p). to_be_bytes_u32 v @ to_be_bytes_u64 p) h)"

definition get_label_history :: "store \<Rightarrow> bytes \<Rightarrow> history" where
  "get_label_history st label =
     (case cf_history st label of Some bs \<Rightarrow> decode_history bs | None \<Rightarrow> [])"

definition append_label_history :: "bytes \<Rightarrow> version \<Rightarrow> u64 \<Rightarrow> store \<Rightarrow> store" where
  "append_label_history label ver pos st =
     (let history = get_label_history st label @ [(ver, pos)] in
      st\<lparr>cf_history := (cf_history st)(label \<mapsto> encode_history history)\<rparr>)"

text \<open>
  The cache of the batch is a hash map; its keys are distinct, so the order in which it is
  written back does not matter, and it is a list here.
\<close>

fun cache_push :: "store \<Rightarrow> (bytes \<times> version \<times> u64) \<Rightarrow> (bytes \<times> history) list \<Rightarrow> (bytes \<times> history) list" where
  "cache_push st (label, ver, pos) [] = [(label, get_label_history st label @ [(ver, pos)])]"
| "cache_push st (label, ver, pos) ((l, h) # cache) =
     (if l = label then (l, h @ [(ver, pos)]) # cache else (l, h) # cache_push st (label, ver, pos) cache)"

definition put_history_batch :: "(bytes \<times> version \<times> u64) list \<Rightarrow> store \<Rightarrow> store" where
  "put_history_batch entries st =
     (let cache = fold (cache_push st) entries []
      in st\<lparr>cf_history :=
           fold (\<lambda>(label, history) cf. cf(label \<mapsto> encode_history history)) cache (cf_history st)\<rparr>)"

section \<open>The interface\<close>

locale kv_store =
  fixes get :: "'s \<Rightarrow> 'k \<Rightarrow> 'v option"
    and put :: "'k \<Rightarrow> 'v \<Rightarrow> 's \<Rightarrow> 's"
  assumes get_put: "get (put k v s) k' = (if k' = k then Some v else get s k')"
begin

definition put_list :: "('k \<times> 'v) list \<Rightarrow> 's \<Rightarrow> 's" where
  "put_list entries s = fold (\<lambda>(k, v). put k v) entries s"

lemma get_put_list:
  "get (put_list entries s) k =
     (case map_of (rev entries) k of Some v \<Rightarrow> Some v | None \<Rightarrow> get s k)"
  unfolding put_list_def
proof (induction entries arbitrary: s)
  case (Cons e entries)
  then show ?case
    by (cases e) (auto simp: get_put map_add_def split: option.splits)
qed simp

lemma get_put_list_distinct:
  "distinct (map fst entries) \<Longrightarrow> (k, v) \<in> set entries \<Longrightarrow> get (put_list entries s) k = Some v"
  by (simp add: get_put_list map_of_is_SomeI rev_map [symmetric])

end

lemma to_be_bytes_u64_inj [simp]: "to_be_bytes_u64 a = to_be_bytes_u64 b \<longleftrightarrow> a = b"
  using tls_u64.enc_inj by blast

interpretation kv_log: kv_store get_log "\<lambda>k v. put_log_batch [(k, v)]"
  by unfold_locales (simp add: get_log_def put_log_batch_def put_all_def)

interpretation kv_prefix: kv_store get_prefix put_prefix
  by unfold_locales (simp add: get_prefix_def put_prefix_def)

interpretation kv_value: kv_store get_value put_value
  by unfold_locales (simp add: get_value_def put_value_def)

interpretation kv_opening: kv_store get_opening put_opening
  by unfold_locales (simp add: get_opening_def put_opening_def)

interpretation kv_timestamp: kv_store get_timestamp_cf put_timestamp_cf
  by unfold_locales (simp add: get_timestamp_cf_def put_timestamp_cf_def)

interpretation kv_prefix_root: kv_store get_prefix_root_cf put_prefix_root_cf
  by unfold_locales (simp add: get_prefix_root_cf_def put_prefix_root_cf_def)

interpretation kv_prefix_ptr: kv_store get_prefix_ptr_cf put_prefix_ptr_cf
  by unfold_locales (simp add: get_prefix_ptr_cf_def put_prefix_ptr_cf_def)

interpretation kv_audit: kv_store get_audit_blob put_audit_blob
  by unfold_locales (simp add: get_audit_blob_def put_audit_blob_def)

interpretation kv_meta: kv_store get_meta put_meta
  by unfold_locales (simp add: get_meta_def put_meta_def)

text \<open>The batches are the sequences of their puts.\<close>

lemma put_batch_eq:
  "put_log_batch entries st = kv_log.put_list entries st"
  "put_prefix_batch entries st = kv_prefix.put_list entries st"
  "put_value_batch entries st = kv_value.put_list entries st"
  "put_opening_batch entries st = kv_opening.put_list entries st"
proof -
  have 1: "fold (\<lambda>(k, v). put_log_batch [(k, v)]) es s = s\<lparr>cf_log := put_all es (cf_log s)\<rparr>" for es s
    by (induction es arbitrary: s) (auto simp: put_log_batch_def put_all_def)
  have 2: "fold (\<lambda>(k, v). put_prefix k v) es s = s\<lparr>cf_prefix := put_all es (cf_prefix s)\<rparr>" for es s
    by (induction es arbitrary: s) (auto simp: put_prefix_def put_all_def)
  have 3: "fold (\<lambda>(k, v). put_value k v) es s = s\<lparr>cf_value := put_all es (cf_value s)\<rparr>" for es s
    by (induction es arbitrary: s) (auto simp: put_value_def put_all_def)
  have 4: "fold (\<lambda>(k, v). put_opening k v) es s = s\<lparr>cf_openings := put_all es (cf_openings s)\<rparr>" for es s
    by (induction es arbitrary: s) (auto simp: put_opening_def put_all_def)
  show "put_log_batch entries st = kv_log.put_list entries st"
    "put_prefix_batch entries st = kv_prefix.put_list entries st"
    "put_value_batch entries st = kv_value.put_list entries st"
    "put_opening_batch entries st = kv_opening.put_list entries st"
    by (simp_all only: 1 2 3 4 put_log_batch_def put_prefix_batch_def put_value_batch_def
        put_opening_batch_def kv_log.put_list_def kv_prefix.put_list_def kv_value.put_list_def
        kv_opening.put_list_def)
qed

text \<open>Writes to one family leave the others alone.\<close>

lemmas store_defs =
  get_log_def put_log_batch_def get_prefix_def put_prefix_def put_prefix_batch_def
  get_value_def put_value_def put_value_batch_def delete_value_def
  get_opening_def put_opening_def put_opening_batch_def delete_opening_def
  get_timestamp_cf_def put_timestamp_cf_def get_prefix_root_cf_def put_prefix_root_cf_def
  get_prefix_ptr_cf_def put_prefix_ptr_cf_def get_audit_blob_def put_audit_blob_def
  get_meta_def put_meta_def get_head_def set_head_def

section \<open>Histories round trip\<close>

definition history_ok :: "history \<Rightarrow> bool" where
  "history_ok h \<longleftrightarrow> (\<forall>(v, p)\<in>set h. v \<le> U32_MAX)"

lemma decode_encode_history: "history_ok h \<Longrightarrow> decode_history (encode_history h) = h"
proof (induction h)
  case Nil
  then show ?case by (simp add: encode_history_def decode_history.simps [of "[]"])
next
  case (Cons e h)
  obtain v p where e: "e = (v, p)" by (cases e)
  have enc: "encode_history ((v, p) # h) = to_be_bytes_u32 v @ to_be_bytes_u64 p @ encode_history h"
    by (simp add: encode_history_def)
  have "v \<le> U32_MAX" "history_ok h" using Cons.prems by (auto simp: history_ok_def e)
  then show ?case
    using Cons.IH unfolding e enc by (subst decode_history.simps) simp
qed

lemma history_ok_simps [simp]:
  "history_ok []" "history_ok (h @ [(v, p)]) \<longleftrightarrow> history_ok h \<and> v \<le> U32_MAX"
  by (auto simp: history_ok_def)

lemma decode_history_ok: "history_ok (decode_history bs)"
proof (induction bs rule: decode_history.induct)
  case (1 bs)
  then show ?case
    by (subst decode_history.simps) (auto simp: history_ok_def from_be_bytes_u32_le)
qed

lemma get_label_history_ok: "history_ok (get_label_history st l)"
  by (simp add: get_label_history_def decode_history_ok split: option.splits)

lemma get_append_label_history:
  "v \<le> U32_MAX \<Longrightarrow> get_label_history (append_label_history l v p st) l' =
     (if l' = l then get_label_history st l @ [(v, p)] else get_label_history st l')"
  using get_label_history_ok [of st l]
  by (simp add: append_label_history_def get_label_history_def [of "st\<lparr>cf_history := _\<rparr>"]
      get_label_history_def [of st l'] Let_def decode_encode_history)

text \<open>The batch does what the appends one by one would have done.\<close>

definition cache_ok :: "store \<Rightarrow> (bytes \<times> version \<times> u64) list \<Rightarrow> (bytes \<times> history) list \<Rightarrow> bool" where
  "cache_ok st done cache \<longleftrightarrow> distinct (map fst cache) \<and>
     (\<forall>l. map_of cache l =
       (if l \<in> fst ` set done
        then Some (get_label_history st l @ map snd (filter (\<lambda>e. fst e = l) done)) else None))"

lemma cache_push_set: "fst ` set (cache_push st e cache) = insert (fst e) (fst ` set cache)"
  by (induction st e cache rule: cache_push.induct) auto

lemma cache_push_distinct:
  "distinct (map fst cache) \<Longrightarrow> distinct (map fst (cache_push st e cache))"
proof (induction st e cache rule: cache_push.induct)
  case (2 st label ver pos l h cache)
  then show ?case
    using cache_push_set [of st "(label, ver, pos)" cache] by auto
qed simp

lemma map_of_cache_push:
  "map_of (cache_push st (l, v, p) cache) =
     (map_of cache)(l \<mapsto> (case map_of cache l of Some h \<Rightarrow> h | None \<Rightarrow> get_label_history st l) @ [(v, p)])"
  by (induction st "(l, v, p)" cache rule: cache_push.induct) (auto simp: fun_eq_iff)

lemma cache_ok_push: "cache_ok st done cache \<Longrightarrow> cache_ok st (done @ [e]) (cache_push st e cache)"
  by (cases e) (auto simp: cache_ok_def cache_push_distinct map_of_cache_push filter_empty_conv)

lemma cache_ok_fold: "cache_ok st entries (fold (cache_push st) entries [])"
proof (induction entries rule: rev_induct)
  case Nil
  then show ?case by (simp add: cache_ok_def)
next
  case (snoc e entries)
  then show ?case by (simp add: cache_ok_push)
qed

lemma fold_write_back:
  "distinct (map fst cache) \<Longrightarrow>
   fold (\<lambda>(label, history) cf. cf(label \<mapsto> encode_history history)) cache cf l =
     (case map_of cache l of Some h \<Rightarrow> Some (encode_history h) | None \<Rightarrow> cf l)"
proof (induction cache arbitrary: cf)
  case (Cons e cache)
  obtain k h where "e = (k, h)" by (cases e)
  moreover have "k \<notin> fst ` set cache \<Longrightarrow> map_of cache k = None" by (simp add: map_of_eq_None_iff)
  ultimately show ?case using Cons by (auto split: option.splits)
qed simp

lemma put_history_batch_spec:
  assumes "\<forall>(l, v, p)\<in>set entries. v \<le> U32_MAX"
  shows "get_label_history (put_history_batch entries st) l =
    get_label_history st l @ map snd (filter (\<lambda>e. fst e = l) entries)"
proof -
  define cache where "cache = fold (cache_push st) entries []"
  have c: "cache_ok st entries cache" unfolding cache_def by (rule cache_ok_fold)
  have ok: "history_ok (get_label_history st l @ map snd (filter (\<lambda>e. fst e = l) entries))"
    using get_label_history_ok [of st l] assms by (auto simp: history_ok_def)
  have cf: "cf_history (put_history_batch entries st) l =
      (case map_of cache l of Some h \<Rightarrow> Some (encode_history h) | None \<Rightarrow> cf_history st l)"
    using c fold_write_back [of cache "cf_history st" l]
    by (simp add: put_history_batch_def cache_def Let_def cache_ok_def)
  show ?thesis
  proof (cases "l \<in> fst ` set entries")
    case True
    then have "map_of cache l = Some (get_label_history st l @ map snd (filter (\<lambda>e. fst e = l) entries))"
      using c by (simp add: cache_ok_def)
    then show ?thesis
      using cf ok decode_encode_history
      by (simp add: get_label_history_def [of "put_history_batch entries st"])
  next
    case False
    then have "map_of cache l = None" "filter (\<lambda>e. fst e = l) entries = []"
      using c by (auto simp: cache_ok_def filter_empty_conv image_iff)
    then show ?thesis
      using cf by (simp add: get_label_history_def)
  qed
qed

section \<open>Properties\<close>

text \<open>C21. A history batch is lossless. After \<open>put_history_batch\<close>, the history of every label
  reads as before with the entries of the batch for that label appended in their order: the
  12-byte records of the history family decode to what was encoded, and the cache of the
  batch loses no entry of a label that occurs more than once.\<close>

theorem put_history_batch_appends:
  assumes "\<forall>(l, v, p)\<in>set entries. v \<le> U32_MAX"
  shows "get_label_history (put_history_batch entries st) label =
    get_label_history st label @ map snd (filter (\<lambda>e. fst e = label) entries)"
  using assms by (rule put_history_batch_spec)

lemma put_history_batch_appends_witness:
  "get_label_history (put_history_batch [([1], 0, 5), ([2], 0, 5), ([1], 1, 6)] empty_store) [1] =
     [(0, 5), (1, 6)]"
  using put_history_batch_appends [of "[([1], 0, 5), ([2], 0, 5), ([1], 1, 6)]" empty_store "[1]"]
  by (simp add: get_label_history_def empty_store_def U32_MAX_def)

end
