(* ===== verification/LogTree.thy ===== *)
theory LogTree
  imports NodeArith Hashes Store
begin

text \<open>
  The Merkle log on the server, \<^verbatim>\<open>src/src/tree/log.rs\<close>. Node values are kept in chunks of 15
  nodes of which the eight bottom ones are stored; a chunk is rebuilt, its inner nodes
  recomputed, when it is read. \<open>resolve_node\<close> answers from the chunk or combines its
  children; \<open>batch_append\<close> writes leaves, timestamps and prefix roots;
  \<open>get_batch_proof_for_nodes\<close> collects the values a client cannot derive.

  A HashMap that is only looked up is a map; the chunk cache of \<open>batch_append\<close>, which is also
  iterated, is a list of distinct keys.
\<close>

section \<open>Chunks\<close>

record node_chunk =
  chunk_root_id :: u64
  chunk_nodes :: "bytes option list"
  chunk_id_map :: "u64 \<rightharpoonup> nat"
  chunk_dirty :: bool

text \<open>One bottom-up pass over the inner positions; \<open>i\<close> combines positions \<open>i - d\<close> and \<open>i + d\<close>.\<close>

definition recompute_at ::
  "(bytes \<Rightarrow> bytes) \<Rightarrow> u64 list \<Rightarrow> nat \<Rightarrow> nat \<Rightarrow> bytes option list \<Rightarrow> bytes option list" where
  "recompute_at sha ids d i nodes =
     (case (nodes ! (i - d), nodes ! (i + d)) of
        (Some l, Some r) \<Rightarrow>
          nodes[i := Some (log_parent_value sha l (is_leaf (ids ! (i - d))) r (is_leaf (ids ! (i + d))))]
      | _ \<Rightarrow> nodes)"

definition recompute_intermediates ::
  "(bytes \<Rightarrow> bytes) \<Rightarrow> u64 list \<Rightarrow> bytes option list \<Rightarrow> bytes option list" where
  "recompute_intermediates sha ids nodes =
     (let nodes = fold (recompute_at sha ids 1) [1, 5, 9, 13] nodes;
          nodes = fold (recompute_at sha ids 2) [3, 11] nodes
      in recompute_at sha ids 4 7 nodes)"

text \<open>The loop that unpacks 32-byte values into the even positions.\<close>

fun unpack_values :: "nat list \<Rightarrow> bytes \<Rightarrow> bytes option list \<Rightarrow> bytes option list" where
  "unpack_values [] bs nodes = nodes"
| "unpack_values (i # is) bs nodes =
     (if 32 > length bs then nodes
      else unpack_values is (drop 32 bs) (nodes[i := Some (take 32 bs)]))"

definition chunk_positions :: "nat list" where
  "chunk_positions = [0, 2, 4, 6, 8, 10, 12, 14]"

definition chunk_new :: "(bytes \<Rightarrow> bytes) \<Rightarrow> u64 \<Rightarrow> bytes option \<Rightarrow> node_chunk" where
  "chunk_new sha chunk_root data =
     (let ids = chunk_layout chunk_root;
          id_map = fold (\<lambda>(i, nid) m. m(nid \<mapsto> i)) (enumerate 0 ids) Map.empty;
          nodes = replicate 15 None;
          nodes = (case data of
             Some bs \<Rightarrow> recompute_intermediates sha ids (unpack_values chunk_positions bs nodes)
           | None \<Rightarrow> nodes)
      in \<lparr>chunk_root_id = chunk_root, chunk_nodes = nodes, chunk_id_map = id_map, chunk_dirty = False\<rparr>)"

fun serialize_values :: "nat list \<Rightarrow> bytes option list \<Rightarrow> bytes" where
  "serialize_values [] nodes = []"
| "serialize_values (i # is) nodes =
     (case nodes ! i of Some val \<Rightarrow> val @ serialize_values is nodes | None \<Rightarrow> [])"

definition chunk_serialize :: "node_chunk \<Rightarrow> bytes" where
  "chunk_serialize c = serialize_values chunk_positions (chunk_nodes c)"

definition chunk_set_value :: "u64 \<Rightarrow> bytes \<Rightarrow> node_chunk \<Rightarrow> node_chunk res" where
  "chunk_set_value node_id val c =
     and_then (ok_or (chunk_id_map c node_id) (Anyhow ''Node ID not in chunk'')) (\<lambda>idx.
       if idx mod 2 \<noteq> 0 then Inl (Anyhow ''Cannot set intermediate node directly'')
       else Inr (c\<lparr>chunk_nodes := (chunk_nodes c)[idx := Some val], chunk_dirty := True\<rparr>))"

definition chunk_get_value :: "node_chunk \<Rightarrow> u64 \<Rightarrow> bytes option" where
  "chunk_get_value c node_id =
     (case chunk_id_map c node_id of None \<Rightarrow> None | Some idx \<Rightarrow> chunk_nodes c ! idx)"

definition chunk_recompute :: "(bytes \<Rightarrow> bytes) \<Rightarrow> node_chunk \<Rightarrow> node_chunk" where
  "chunk_recompute sha c =
     c\<lparr>chunk_nodes := recompute_intermediates sha (chunk_layout (chunk_root_id c)) (chunk_nodes c)\<rparr>"

section \<open>Resolving nodes\<close>

definition stored_value :: "(bytes \<Rightarrow> bytes) \<Rightarrow> store \<Rightarrow> u64 \<Rightarrow> bytes option" where
  "stored_value sha st node_id =
     (let cid = chunk_id node_id in
      case get_log st cid of
        Some data \<Rightarrow> chunk_get_value (chunk_new sha cid (Some data)) node_id
      | None \<Rightarrow> None)"

function resolve_node :: "(bytes \<Rightarrow> bytes) \<Rightarrow> store \<Rightarrow> u64 \<Rightarrow> u64 \<Rightarrow> bytes res" where
  "resolve_node sha st node_id tree_size =
     (case stored_value sha st node_id of
        Some val \<Rightarrow> Inr val
      | None \<Rightarrow>
          if is_leaf node_id then Inl (Anyhow ''Missing leaf node'')
          else
            let left = left_child node_id in
            and_then (right_child node_id tree_size) (\<lambda>right.
              if left = right then resolve_node sha st left tree_size
              else
                and_then (resolve_node sha st left tree_size) (\<lambda>l_val.
                and_then (resolve_node sha st right tree_size) (\<lambda>r_val.
                  Inr (log_parent_value sha l_val (is_leaf left) r_val (is_leaf right))))))"
  by pat_completeness auto

termination
  by (relation "measure (\<lambda>(sha, st, node_id, tree_size). level node_id)")
    (auto simp: is_leaf_level level_left_child dest!: right_child_level)

declare resolve_node.simps [simp del]

definition get_root :: "(bytes \<Rightarrow> bytes) \<Rightarrow> store \<Rightarrow> u64 \<Rightarrow> bytes res" where
  "get_root sha st tree_size =
     (if tree_size = 0 then Inr (replicate 32 0)
      else resolve_node sha st (merkle_root tree_size) tree_size)"

section \<open>Appending\<close>

type_synonym chunk_cache = "(u64 \<times> node_chunk) list"

fun cache_remove :: "u64 \<Rightarrow> chunk_cache \<Rightarrow> chunk_cache" where
  "cache_remove cid [] = []"
| "cache_remove cid ((c, v) # cache) = (if c = cid then cache else (c, v) # cache_remove cid cache)"

text \<open>
  The loop over the entries. A failure stops it with the store as written so far.
\<close>

fun append_loop :: "(bytes \<Rightarrow> bytes) \<Rightarrow> u64 \<Rightarrow> (u64 \<times> bytes) list \<Rightarrow> chunk_cache \<Rightarrow> store \<Rightarrow>
    store \<times> chunk_cache res" where
  "append_loop sha log_index [] cache st = (st, Inr cache)"
| "append_loop sha log_index ((ts, rt) # entries) cache st =
     (let node_id = log_index * 2;
          leaf_val = log_leaf_value sha ts rt;
          cid = chunk_id node_id;
          chunk = (case map_of cache cid of Some c \<Rightarrow> c | None \<Rightarrow> chunk_new sha cid (get_log st cid));
          cache = cache_remove cid cache
      in case chunk_set_value node_id leaf_val chunk of
           Inl e \<Rightarrow> (st, Inl e)
         | Inr mutable_chunk \<Rightarrow>
             append_loop sha (log_index + 1) entries ((cid, mutable_chunk) # cache)
               (put_prefix_root_cf log_index rt (put_timestamp_cf log_index (to_be_bytes_u64 ts) st)))"

definition write_back :: "(bytes \<Rightarrow> bytes) \<Rightarrow> chunk_cache \<Rightarrow> (u64 \<times> bytes) list" where
  "write_back sha cache =
     map (\<lambda>(cid, chunk). (chunk_root_id chunk, chunk_serialize (chunk_recompute sha chunk))) cache"

definition batch_append ::
  "(bytes \<Rightarrow> bytes) \<Rightarrow> u64 \<Rightarrow> (u64 \<times> bytes) list \<Rightarrow> store \<Rightarrow> store \<times> bytes res" where
  "batch_append sha start_tree_size entries st =
     (case append_loop sha start_tree_size entries [] st of
        (st, Inl e) \<Rightarrow> (st, Inl e)
      | (st, Inr cache) \<Rightarrow>
          (let st = put_log_batch (write_back sha cache) st
           in (st, get_root sha st (start_tree_size + word_of_nat (length entries)))))"

section \<open>Per-entry records\<close>

definition u64_of_slice :: "bytes \<Rightarrow> u64 res" where
  "u64_of_slice bs =
     (if length bs = 8 then Inr (from_be_bytes_u64 bs)
      else Inl (Panic ''copy_from_slice: source slice length does not match destination''))"

definition get_timestamp :: "store \<Rightarrow> u64 \<Rightarrow> u64 res" where
  "get_timestamp st log_index =
     and_then (ok_or (get_timestamp_cf st log_index) (Anyhow ''Timestamp not found'')) u64_of_slice"

definition get_prefix_root :: "store \<Rightarrow> u64 \<Rightarrow> bytes res" where
  "get_prefix_root st log_index =
     ok_or (get_prefix_root_cf st log_index) (Anyhow ''Prefix Root not found'')"

definition put_prefix_ptr :: "u64 \<Rightarrow> u64 \<Rightarrow> store \<Rightarrow> store" where
  "put_prefix_ptr log_index ver st = put_prefix_ptr_cf log_index (to_be_bytes_u64 ver) st"

definition get_prefix_ptr :: "store \<Rightarrow> u64 \<Rightarrow> u64 res" where
  "get_prefix_ptr st log_index =
     and_then (ok_or (get_prefix_ptr_cf st log_index) (Anyhow ''Prefix Ptr not found'')) u64_of_slice"

definition NEXT_PREFIX_VERSION_KEY :: bytes where
  "NEXT_PREFIX_VERSION_KEY = ascii ''next_prefix_version''"

definition get_next_prefix_version :: "store \<Rightarrow> u64 res" where
  "get_next_prefix_version st =
     (case get_meta st NEXT_PREFIX_VERSION_KEY of
        Some v \<Rightarrow> if length v = 8 then Inr (from_be_bytes_u64 v)
                  else Inl (Anyhow ''next prefix version has invalid length'')
      | None \<Rightarrow> Inr 0)"

definition set_next_prefix_version :: "u64 \<Rightarrow> store \<Rightarrow> store" where
  "set_next_prefix_version ver st = put_meta NEXT_PREFIX_VERSION_KEY (to_be_bytes_u64 ver) st"

section \<open>Proofs\<close>

definition get_consistency_proof ::
  "(bytes \<Rightarrow> bytes) \<Rightarrow> store \<Rightarrow> u64 \<Rightarrow> u64 \<Rightarrow> bytes list res" where
  "get_consistency_proof sha st m n =
     (if m = 0 \<or> n \<le> m then Inl (Anyhow ''Invalid consistency proof parameters'')
      else and_then (consistency_proof m n) (map_res (\<lambda>nid. resolve_node sha st nid n)))"

fun ascend :: "nat \<Rightarrow> u64 \<Rightarrow> u64 \<Rightarrow> u64 \<Rightarrow> u64 list" where
  "ascend 0 root_id tree_size cur = []"
| "ascend (Suc i) root_id tree_size cur =
     (if cur = root_id then []
      else let cur = parent cur tree_size in cur # ascend i root_id tree_size cur)"

definition leaf_skeleton :: "u64 \<Rightarrow> u64 \<Rightarrow> u64 list \<Rightarrow> u64 set" where
  "leaf_skeleton root_id tree_size leaf_indices =
     set (concat (map (\<lambda>idx. let node_id = idx * 2 in node_id # ascend 64 root_id tree_size node_id)
        leaf_indices))"

definition boundary_skeleton :: "u64 \<Rightarrow> u64 \<Rightarrow> u64 list \<Rightarrow> u64 set" where
  "boundary_skeleton root_id tree_size boundaries =
     set (concat (map (\<lambda>boundary.
        if boundary = 0 \<or> boundary > tree_size then []
        else ascend 64 root_id tree_size ((boundary - 1) * 2)) boundaries))"

definition retained_nodes :: "u64 \<Rightarrow> u64 \<Rightarrow> u64 set" where
  "retained_nodes last_size tree_size =
     (if last_size > 0 \<and> last_size \<le> tree_size then set (get_roots last_size) else {})"

function recursive_needed :: "u64 \<Rightarrow> u64 \<Rightarrow> u64 set \<Rightarrow> u64 set \<Rightarrow> u64 list res" where
  "recursive_needed node_id tree_size skeleton retained =
     (if node_id \<in> retained \<and> node_id \<notin> skeleton then Inr []
      else if node_id \<notin> skeleton then Inr [node_id]
      else if is_leaf node_id then Inr []
      else
        let l = left_child node_id in
        and_then (right_child node_id tree_size) (\<lambda>r.
          if l = r then recursive_needed l tree_size skeleton retained
          else
            and_then (recursive_needed l tree_size skeleton retained) (\<lambda>left_res.
            and_then (recursive_needed r tree_size skeleton retained) (\<lambda>right_res.
              Inr (left_res @ right_res)))))"
  by pat_completeness auto

termination
  by (relation "measure (\<lambda>(node_id, tree_size, skeleton, retained). level node_id)")
    (auto simp: is_leaf_level level_left_child dest!: right_child_level)

declare recursive_needed.simps [simp del]

definition get_batch_proof_for_nodes ::
  "(bytes \<Rightarrow> bytes) \<Rightarrow> store \<Rightarrow> u64 list \<Rightarrow> u64 \<Rightarrow> u64 \<Rightarrow> u64 list \<Rightarrow> bytes list res" where
  "get_batch_proof_for_nodes sha st leaf_indices tree_size last_size boundaries =
     (let root_id = merkle_root tree_size;
          skeleton = leaf_skeleton root_id tree_size leaf_indices
                     \<union> boundary_skeleton root_id tree_size boundaries;
          retained = retained_nodes last_size tree_size
      in and_then (recursive_needed root_id tree_size skeleton retained)
           (map_res (\<lambda>nid. resolve_node sha st nid tree_size)))"

end
