(* ===== verification/LogSpec.thy ===== *)
theory LogSpec
  imports Frontier Hashes
begin

text \<open>
  The specification of the Merkle log: the value of the subtree of height \<open>k\<close> over the leaves
  from \<open>lo\<close> in a log of \<open>n\<close> leaves, by recursion on the height. A right child with no leaf is
  absent and its parent has the value of the left child alone. The section on geometry
  relates the node identifiers of LogMath to pairs of a height and a first leaf.
\<close>

section \<open>Subtree values\<close>

fun subtree_value :: "(bytes \<Rightarrow> bytes) \<Rightarrow> (nat \<Rightarrow> bytes) \<Rightarrow> nat \<Rightarrow> nat \<Rightarrow> nat \<Rightarrow> bytes" where
  "subtree_value sha leaf n 0 lo = leaf lo"
| "subtree_value sha leaf n (Suc k) lo =
     (if lo + 2 ^ k < n then
        log_parent_value sha (subtree_value sha leaf n k lo) (k = 0)
          (subtree_value sha leaf n k (lo + 2 ^ k)) (k = 0)
      else subtree_value sha leaf n k lo)"

text \<open>The height of the root over \<open>n\<close> leaves is the least \<open>k\<close> with \<open>n \<le> 2 ^ k\<close>.\<close>

fun height_from :: "nat \<Rightarrow> nat \<Rightarrow> nat \<Rightarrow> nat" where
  "height_from 0 k n = k"
| "height_from (Suc f) k n = (if n \<le> 2 ^ k then k else height_from f (Suc k) n)"

definition tree_height :: "nat \<Rightarrow> nat" where
  "tree_height n = height_from n 0 n"

definition root_value :: "(bytes \<Rightarrow> bytes) \<Rightarrow> bytes list \<Rightarrow> bytes" where
  "root_value sha ls =
     (if ls = [] then replicate 32 0
      else subtree_value sha (\<lambda>i. ls ! i) (length ls) (tree_height (length ls)) 0)"

lemma height_from_spec:
  "n \<le> 2 ^ (k + f) \<Longrightarrow> (k = 0 \<or> 2 ^ (k - 1) < n) \<Longrightarrow>
    n \<le> 2 ^ height_from f k n \<and> (height_from f k n = 0 \<or> 2 ^ (height_from f k n - 1) < n)"
proof (induction f arbitrary: k)
  case (Suc f)
  show ?case
  proof (cases "n \<le> 2 ^ k")
    case False
    then have "2 ^ (Suc k - 1) < n" by simp
    then show ?thesis using Suc.IH [of "Suc k"] Suc.prems(1) False by simp
  qed (use Suc.prems in simp)
qed simp

lemma tree_height_spec:
  "n \<le> 2 ^ tree_height n" "tree_height n = 0 \<or> 2 ^ (tree_height n - 1) < n"
  using height_from_spec [of n 0 n] less_imp_le [OF less_exp [of n]] by (simp_all add: tree_height_def)

lemma tree_height_unique:
  assumes "n \<le> 2 ^ k" and "k = 0 \<or> 2 ^ (k - 1) < n"
  shows "tree_height n = k"
proof (rule ccontr)
  assume "tree_height n \<noteq> k"
  then consider "tree_height n \<le> k - 1" "k \<noteq> 0" | "k \<le> tree_height n - 1" "tree_height n \<noteq> 0"
    by linarith
  then show False
  proof cases
    case 1
    then have "2 ^ tree_height n \<le> (2 :: nat) ^ (k - 1)" by (intro power_increasing) auto
    then have "n \<le> 2 ^ (k - 1)" using tree_height_spec(1) [of n] by linarith
    with 1 assms(2) show ?thesis by simp
  next
    case 2
    then have "2 ^ k \<le> (2 :: nat) ^ (tree_height n - 1)" by (intro power_increasing) auto
    then have "n \<le> 2 ^ (tree_height n - 1)" using assms(1) by linarith
    with 2 tree_height_spec(2) [of n] show ?thesis by simp
  qed
qed

text \<open>A full subtree has the same value in every larger log.\<close>

lemma subtree_value_full:
  "lo + 2 ^ k \<le> n \<Longrightarrow> lo + 2 ^ k \<le> m \<Longrightarrow> (\<And>i. lo \<le> i \<Longrightarrow> i < lo + 2 ^ k \<Longrightarrow> f i = g i) \<Longrightarrow>
    subtree_value sha f n k lo = subtree_value sha g m k lo"
proof (induction k arbitrary: lo)
  case (Suc k)
  have "(0 :: nat) < 2 ^ k" and "2 ^ Suc k = 2 * (2 :: nat) ^ k" by simp_all
  then have lt: "lo + 2 ^ k < n" "lo + 2 ^ k < m" using Suc.prems(1,2) by linarith+
  have "subtree_value sha f n k lo = subtree_value sha g m k lo"
    using Suc.prems lt by (intro Suc.IH) simp_all
  moreover have "subtree_value sha f n k (lo + 2 ^ k) = subtree_value sha g m k (lo + 2 ^ k)"
    using Suc.prems by (intro Suc.IH) simp_all
  ultimately show ?case using lt by simp
qed simp

lemma subtree_value_cong:
  "lo < n \<Longrightarrow> (\<And>i. i < n \<Longrightarrow> f i = g i) \<Longrightarrow>
    subtree_value sha f n k lo = subtree_value sha g n k lo"
  by (induction k arbitrary: lo) simp_all

text \<open>Above the height the value does not change.\<close>

lemma subtree_value_collapse:
  "lo < n \<Longrightarrow> n \<le> lo + 2 ^ k \<Longrightarrow> subtree_value sha f n (k + d) lo = subtree_value sha f n k lo"
proof (induction d)
  case (Suc d)
  have "(2 :: nat) ^ k \<le> 2 ^ (k + d)" by (intro power_increasing) auto
  then have "n \<le> lo + 2 ^ (k + d)" using Suc.prems(2) by linarith
  with Suc show ?case by simp
qed simp

section \<open>Geometry\<close>

lemma subtree_root_unique: "subtree_root a k r \<Longrightarrow> subtree_root a k r' \<Longrightarrow> r = r'"
  by (simp add: subtree_root_def word_unat_eq_iff)

lemma subtree_root_level: "subtree_root a k r \<Longrightarrow> level r = k"
  by (simp add: subtree_root_def)

lemma subtree_root_dvd:
  assumes "subtree_root a k r"
  shows "2 ^ k dvd a"
proof -
  have r: "level r = k" "k < 64" "unat r + 1 = 2 * a + 2 ^ k"
    using assms by (simp_all add: subtree_root_def)
  have "unat r = unat r div 2 ^ Suc k * 2 ^ Suc k + (2 ^ k - 1)"
    using unat_decomp [of r] r by simp
  moreover have "(1 :: nat) \<le> 2 ^ k" by simp
  ultimately have "2 * a = unat r div 2 ^ Suc k * 2 ^ Suc k" using r(3) by linarith
  then have "a = unat r div 2 ^ Suc k * 2 ^ k" by simp
  then show ?thesis by (metis dvd_triv_right)
qed

lemma subtree_rootI:
  assumes "2 ^ k dvd a" and "k < 64" and "unat r + 1 = 2 * a + 2 ^ k"
  shows "subtree_root a k r"
proof -
  obtain m where m: "a = 2 ^ k * m" using assms(1) by (auto simp: dvd_def)
  have "(1 :: nat) \<le> 2 ^ k" by simp
  then have "unat r = 2 ^ Suc k * m + (2 ^ k - 1)" using assms(3) m by simp
  then have "unat r mod 2 ^ Suc k = (2 ^ k - 1) mod 2 ^ Suc k" by (simp only: mod_mult_self4)
  moreover have "2 ^ k - 1 < (2 :: nat) ^ Suc k" by (simp add: less_imp_diff_less)
  ultimately have "unat r mod 2 ^ Suc k = 2 ^ k - 1" by (simp only: mod_less)
  then show ?thesis
    using assms(2,3) level_eq_of_unat [of k r] by (simp add: subtree_root_def)
qed

lemma subtree_root_exists:
  assumes "2 ^ k dvd a" and "k < 64" and "2 * a + 2 ^ k \<le> 2 ^ 64"
  shows "subtree_root a k (word_of_nat (2 * a + 2 ^ k - 1))"
proof (rule subtree_rootI [OF assms(1,2)])
  have "(1 :: nat) \<le> 2 ^ k" by simp
  moreover from this have "2 * a + 2 ^ k - 1 < 2 ^ 64" using assms(3) by linarith
  ultimately show "unat (word_of_nat (2 * a + 2 ^ k - 1) :: u64) + 1 = 2 * a + 2 ^ k"
    by (simp add: unat_of_nat take_bit_eq_mod)
qed

lemma subtree_root_bound: "subtree_root a k r \<Longrightarrow> 2 * a + 2 ^ Suc k \<le> 2 ^ 64"
  using unat_span_bound [of r] by (simp add: subtree_root_def)

lemma subtree_root_left:
  assumes "subtree_root a (Suc k) r"
  shows "subtree_root a k (left_child r)"
  using assms internal_left_Suc(1-3) [of r k] by (simp add: subtree_root_def)

lemma subtree_root_internal_right:
  assumes "subtree_root a (Suc k) r"
  shows "subtree_root (a + 2 ^ k) k (internal_right r)"
  using assms internal_right_Suc [of r k] by (simp add: subtree_root_def)

lemma subtree_root_right_child:
  assumes "subtree_root a (Suc k) r"
  shows "right_child r n =
    Inr (if unat n \<le> a + 2 ^ k then left_child r else internal_right r)"
  using assms subtree_root_leaves(1) [OF subtree_root_internal_right [OF assms]]
  by (simp add: right_child_eq subtree_root_def word_le_nat_alt)

lemma left_neq_internal_right:
  assumes "subtree_root a (Suc k) r"
  shows "left_child r \<noteq> internal_right r"
proof
  assume "left_child r = internal_right r"
  then have "subtree_root (a + 2 ^ k) k (left_child r)" "subtree_root a k (left_child r)"
    using assms subtree_root_internal_right subtree_root_left by metis+
  then show False by (simp add: subtree_root_def)
qed

lemma leaf_node: "i < 2 ^ 63 \<Longrightarrow> subtree_root i 0 (word_of_nat i * 2)"
proof (rule subtree_rootI)
  assume "i < 2 ^ 63"
  then have "i * 2 < 2 ^ 64" by simp
  then show "unat (word_of_nat i * 2 :: u64) + 1 = 2 * i + 2 ^ 0"
    by (simp add: unat_word_ariths unat_of_nat take_bit_eq_mod mod_mult_left_eq)
qed simp_all

lemma leaf_node_word: "unat idx < 2 ^ 63 \<Longrightarrow> subtree_root (unat idx) 0 (idx * 2)"
  using leaf_node [of "unat idx"] by simp

text \<open>The ancestor one level up starts at the leaf rounded down to a multiple of its span.\<close>

definition round_down :: "nat \<Rightarrow> nat \<Rightarrow> nat" where
  "round_down k a = a div 2 ^ k * 2 ^ k"

lemma round_down_le: "round_down k a \<le> a"
  by (simp add: round_down_def)

lemma less_round_down: "a < round_down k a + 2 ^ k"
proof -
  have "a mod 2 ^ k < 2 ^ k" by simp
  then show ?thesis
    unfolding round_down_def using div_mult_mod_eq [of a "2 ^ k"] by linarith
qed

lemma round_down_round_down: "j \<le> k \<Longrightarrow> round_down k (round_down j a) = round_down k a"
proof -
  assume "j \<le> k"
  then obtain d where k: "k = j + d" using le_Suc_ex by blast
  have "round_down j a div 2 ^ k = round_down j a div 2 ^ j div 2 ^ d"
    by (simp add: k power_add div_mult2_eq)
  also have "\<dots> = a div 2 ^ k" by (simp add: round_down_def k power_add div_mult2_eq)
  finally show ?thesis by (simp add: round_down_def)
qed

lemma round_down_id: "2 ^ k dvd a \<Longrightarrow> round_down k a = a"
  by (simp add: round_down_def)

lemma round_down_dvd: "2 ^ k dvd round_down k a"
  by (simp add: round_down_def)

lemma round_down_Suc:
  assumes "2 ^ k dvd a"
  shows "round_down (Suc k) a = (if odd (a div 2 ^ k) then a - 2 ^ k else a)"
proof -
  obtain m where m: "a = 2 ^ k * m" using assms by (auto simp: dvd_def)
  have "round_down (Suc k) a = m div 2 * 2 * 2 ^ k"
    by (simp add: round_down_def m div_mult2_eq [symmetric] mult.commute [of 2])
  moreover have "m div 2 * 2 = (if odd m then m - 1 else m)"
    by (auto simp: odd_two_times_div_two_nat mult.commute)
  ultimately show ?thesis by (simp add: m diff_mult_distrib mult.commute)
qed

lemma shr_and_1: "k < 64 \<Longrightarrow> shr64 x k AND 1 = 1 \<longleftrightarrow> odd (unat x div 2 ^ k)"
proof -
  assume k: "k < 64"
  have "shr64 x k AND 1 = 1 \<longleftrightarrow> bit x k"
    using k by (simp add: shr64_def and_one_eq mod_2_eq_odd bit_iff_odd_drop_bit)
  also have "\<dots> \<longleftrightarrow> bit (unat x) k" using k by (simp add: bit_unsigned_iff bit_imp_possible_bit)
  finally show ?thesis by (simp add: bit_iff_odd)
qed

lemma subtree_root_div:
  assumes "subtree_root a k r" and "Suc k < 64"
  shows "unat r div 2 ^ Suc k = a div 2 ^ k"
proof -
  obtain m where m: "a = 2 ^ k * m" using subtree_root_dvd [OF assms(1)] by (auto simp: dvd_def)
  have "(1 :: nat) \<le> 2 ^ k" by simp
  moreover have "unat r + 1 = 2 ^ Suc k * m + 2 ^ k"
    using assms(1) by (simp add: subtree_root_def m)
  ultimately have "unat r = 2 ^ Suc k * m + (2 ^ k - 1)" by linarith
  moreover have "2 ^ k - 1 < (2 :: nat) ^ Suc k" by (simp add: less_imp_diff_less)
  moreover have "(2 ^ Suc k * m + (2 ^ k - 1)) div 2 ^ Suc k = m + (2 ^ k - 1) div (2 :: nat) ^ Suc k"
    by (rule div_mult_self4) simp
  ultimately have "unat r div 2 ^ Suc k = m" by (simp only: div_less)
  then show ?thesis by (simp add: m)
qed

lemma subtree_root_parent:
  assumes "subtree_root a k r" and "k < 62"
  shows "subtree_root (round_down (Suc k) a) (Suc k) (parent r n)"
proof (rule subtree_rootI)
  show "2 ^ Suc k dvd round_down (Suc k) a" by (rule round_down_dvd)
  show "Suc k < 64" using assms(2) by simp
  have r: "level r = k" "unat r + 1 = 2 * a + 2 ^ k" using assms(1) by (simp_all add: subtree_root_def)
  have dv: "2 ^ k dvd a" using assms(1) by (rule subtree_root_dvd)
  have right: "shr64 r (k + 1) AND 1 = 1 \<longleftrightarrow> odd (a div 2 ^ k)"
    using subtree_root_div [OF assms(1)] assms(2) shr_and_1 [of "k + 1" r] by simp
  have u: "unat (shl64 1 k) = 2 ^ k" using assms(2) by (simp add: unat_shl64_1)
  show "unat (parent r n) + 1 = 2 * round_down (Suc k) a + 2 ^ Suc k"
  proof (cases "odd (a div 2 ^ k)")
    case True
    then have "a div 2 ^ k \<noteq> 0" by (metis even_zero)
    then have le: "2 ^ k \<le> a" by (simp add: div_eq_0_iff)
    have "parent r n = r - shl64 1 k"
      using True right r(1) assms(2) by (simp add: parent_def Let_def)
    moreover have "2 ^ k \<le> unat r" using r(2) le one_le_power [of "2 :: nat" k] by linarith
    ultimately have "unat (parent r n) = unat r - 2 ^ k"
      using u by (simp add: unat_sub word_le_nat_alt)
    then show ?thesis
      using True r(2) le \<open>2 ^ k \<le> unat r\<close> by (simp add: round_down_Suc [OF dv])
  next
    case False
    then have "parent r n = r + shl64 1 k"
      using right r(1) assms(2) by (simp add: parent_def Let_def)
    moreover have "unat r + 2 ^ k < 2 ^ 64" using unat_span_bound [of r] r(1) assms(2) by simp
    ultimately have "unat (parent r n) = unat r + 2 ^ k" using u by (simp add: unat_word_ariths)
    then show ?thesis using False r(2) by (simp add: round_down_Suc [OF dv])
  qed
qed

text \<open>The root of the Merkle tree.\<close>

lemma merkle_root_subtree:
  assumes "0 < unat n" and "unat n \<le> 2 ^ 63"
  shows "subtree_root 0 (tree_height (unat n)) (merkle_root n)" and "tree_height (unat n) \<le> 63"
proof -
  have "subtree_root 0 (tree_height (unat n)) (merkle_root n) \<and> tree_height (unat n) \<le> 63"
  proof (cases "n \<le> 1")
    case True
    then have "unat n = 1" using assms(1) by (simp add: word_le_nat_alt)
    moreover have "tree_height 1 = 0" by (rule tree_height_unique) simp_all
    ultimately show ?thesis
      using True by (auto intro!: subtree_rootI simp: merkle_root_def)
  next
    case False
    then have n: "1 < unat n" by (simp add: word_le_nat_alt)
    let ?m = "n - 1" and ?k = "Suc (log2 (n - 1))"
    have m: "unat ?m = unat n - 1" using n by (simp add: unat_sub word_le_nat_alt)
    then have m0: "?m \<noteq> 0" using n by (metis diff_is_0_eq not_less unat_0)
    have lo: "2 ^ log2 ?m \<le> unat ?m" and hi: "unat ?m < 2 ^ ?k"
      using log2_lower [OF m0] log2_upper [of ?m] by simp_all
    have "2 ^ log2 ?m < (2 :: nat) ^ 63" using lo m n assms(2) by simp
    then have k: "?k \<le> 63" by (metis Suc_leI one_less_numeral_iff power_strict_increasing_iff semiring_norm(76))
    have th: "tree_height (unat n) = ?k"
      using lo hi m n by (intro tree_height_unique) simp_all
    have "leading_zeros ?m < 64" using m0 by (rule leading_zeros_less)
    then have "64 - leading_zeros ?m = ?k" using m0 by (simp add: log2_def)
    then have root: "merkle_root n = shl64 1 ?k - 1" using False by (simp add: merkle_root_def)
    show ?thesis
    proof (intro conjI)
      show "subtree_root 0 (tree_height (unat n)) (merkle_root n)"
        unfolding th root
        by (rule subtree_rootI) (use k in \<open>simp_all add: unat_shl_minus_1\<close>)
      show "tree_height (unat n) \<le> 63" using th k by simp
    qed
  qed
  then show "subtree_root 0 (tree_height (unat n)) (merkle_root n)" and "tree_height (unat n) \<le> 63"
    by simp_all
qed

end
