(* ===== verification/LogTreeProps.thy ===== *)
theory LogTreeProps
  imports LogTree LogSpec
begin

text \<open>
  Correctness of the server's Merkle log. \<open>log_rep\<close> says which chunks a store holds for a list
  of leaf values. Under it, \<open>resolve_node\<close> returns the specified value of every node of the
  current tree, and \<open>batch_append\<close> re-establishes it for the longer list and returns its root.
\<close>

section \<open>Chunk identifiers\<close>

lemma subtree_root_of_level: "level r < 64 \<Longrightarrow> \<exists>a. subtree_root a (level r) r"
proof -
  assume l: "level r < 64"
  let ?q = "unat r div 2 ^ Suc (level r)"
  have "(1 :: nat) \<le> 2 ^ level r" by simp
  moreover have "2 * (?q * 2 ^ level r) = ?q * 2 ^ Suc (level r)" by simp
  ultimately have "unat r + 1 = 2 * (?q * 2 ^ level r) + 2 ^ level r"
    using unat_decomp [OF l] by linarith
  then show ?thesis using l by (auto simp: subtree_root_def)
qed

lemma level_parent: "level r < 62 \<Longrightarrow> level (parent r n) = Suc (level r)"
proof -
  assume l: "level r < 62"
  then obtain a where "subtree_root a (level r) r" using subtree_root_of_level [of r] by auto
  from subtree_root_parent [OF this l] show ?thesis by (rule subtree_root_level)
qed

lemma chunk_id_loop_Suc:
  "chunk_id_loop (Suc i) c =
     (if level c mod 4 \<noteq> 3 \<and> level c < 62 then chunk_id_loop i (parent c 0) else c)"
proof -
  define right where "right \<longleftrightarrow> shr64 c (level c + 1) AND 1 = 1"
  show ?thesis
    unfolding chunk_id_loop.simps parent_def Let_def right_def [symmetric] by auto
qed

lemma chunk_id_low:
  assumes "subtree_root a k r" and "k \<le> 3"
  shows "subtree_root (round_down 3 a) 3 (chunk_id r)"
proof -
  have loop: "subtree_root (round_down 3 b) 3 (chunk_id_loop (Suc i) c)"
    if "subtree_root b j c" "j \<le> 3" "3 - j \<le> i" for b j c i
    using that
  proof (induction i arbitrary: b j c)
    case 0
    then have "j = 3" by simp
    with 0 show ?case
      using subtree_root_level [of b j c] subtree_root_dvd [of b j c]
      by (simp add: round_down_id del: chunk_id_loop.simps(2) add: chunk_id_loop_Suc)
  next
    case (Suc i)
    show ?case
    proof (cases "j = 3")
      case True
      with Suc.prems show ?thesis
        using subtree_root_level [of b j c] subtree_root_dvd [of b j c]
        by (simp add: round_down_id del: chunk_id_loop.simps(2) add: chunk_id_loop_Suc)
    next
      case False
      then have j: "j < 3" using Suc.prems by simp
      have "level c = j" using Suc.prems subtree_root_level by blast
      then have "chunk_id_loop (Suc (Suc i)) c = chunk_id_loop (Suc i) (parent c 0)"
        using j by (simp del: chunk_id_loop.simps(2) add: chunk_id_loop_Suc [of "Suc i"])
      moreover have "subtree_root (round_down (Suc j) b) (Suc j) (parent c 0)"
        using Suc.prems(1) j by (intro subtree_root_parent) simp_all
      ultimately show ?thesis
        using Suc.IH [of "round_down (Suc j) b" "Suc j" "parent c 0"] Suc.prems(3) j
        by (simp add: round_down_round_down)
    qed
  qed
  show ?thesis
    using loop [OF assms, of 63] assms(2) by (simp add: chunk_id_def)
qed

lemma chunk_id_high: "4 \<le> level r \<Longrightarrow> 4 \<le> level (chunk_id r)"
proof -
  have "4 \<le> level c \<Longrightarrow> 4 \<le> level (chunk_id_loop i c)" for i c
  proof (induction i arbitrary: c)
    case (Suc i)
    then show ?case
      using level_parent [of c 0] Suc.IH [of "parent c 0"]
      by (simp add: chunk_id_loop_Suc del: chunk_id_loop.simps(2))
  qed simp
  then show "4 \<le> level r \<Longrightarrow> 4 \<le> level (chunk_id r)" by (simp add: chunk_id_def)
qed

section \<open>Chunk layout\<close>

text \<open>The fifteen nodes of a chunk are numbered consecutively, in order.\<close>

lemma internal_children_word:
  assumes "subtree_root a (Suc k) r"
  shows "subtree_root a k (internal_left r)" and "subtree_root (a + 2 ^ k) k (internal_right r)"
proof -
  have "level r = Suc k" using assms by (rule subtree_root_level)
  then show "subtree_root a k (internal_left r)"
    using subtree_root_left [OF assms] by (simp add: left_child_internal)
  show "subtree_root (a + 2 ^ k) k (internal_right r)"
    using assms by (rule subtree_root_internal_right)
qed

lemma subtree_root_word:
  assumes "subtree_root b k r" shows "r = word_of_nat (2 * b + 2 ^ k - 1)"
proof -
  have "unat r + 1 = 2 * b + 2 ^ k" using assms by (simp add: subtree_root_def)
  then have "unat r = 2 * b + 2 ^ k - 1" by linarith
  then show ?thesis by (metis of_nat_unat ucast_id)
qed

lemma chunk_layout_eq:
  assumes "subtree_root a 3 c"
  shows "chunk_layout c = map (\<lambda>i. word_of_nat (2 * a + i)) [0..<15]"
proof -
  have c: "subtree_root a (Suc 2) c" using assms by (simp add: numeral_3_eq_3)
  note i3 = internal_children_word(1) [OF c] and i11 = internal_children_word(2) [OF c]
  have "subtree_root a (Suc 1) (internal_left c)" "subtree_root (a + 2 ^ 2) (Suc 1) (internal_right c)"
    using i3 i11 by (simp_all only: Suc_1)
  note i1 = internal_children_word(1) [OF this(1)] and i5 = internal_children_word(2) [OF this(1)]
    and i9 = internal_children_word(1) [OF this(2)] and i13 = internal_children_word(2) [OF this(2)]
  note l1 = internal_children_word [OF i1 [unfolded One_nat_def]]
    and l5 = internal_children_word [OF i5 [unfolded One_nat_def]]
    and l9 = internal_children_word [OF i9 [unfolded One_nat_def]]
    and l13 = internal_children_word [OF i13 [unfolded One_nat_def]]
  have w: "r = word_of_nat (2 * a + m)" if "subtree_root b k r" "2 * b + 2 ^ k = 2 * a + m + 1"
    for r b k m using subtree_root_word [OF that(1)] that(2) by simp
  have upt: "[0..<15] = [0, 1, 2, 3, 4, 5, 6, 7, 8, 9, 10, 11, 12, 13, 14 :: nat]"
    by (simp add: upt_rec)
  show ?thesis
    unfolding chunk_layout_def Let_def upt list.map
    by (intro arg_cong2 [where f = Cons] refl)
      (rule w [OF l1(1)] w [OF i1] w [OF l1(2)] w [OF i3] w [OF l5(1)] w [OF i5] w [OF l5(2)]
        w [OF assms] w [OF l9(1)] w [OF i9] w [OF l9(2)] w [OF i11] w [OF l13(1)] w [OF i13]
        w [OF l13(2)], simp)+
qed

section \<open>Chunk contents\<close>

text \<open>The height and the first leaf, within the chunk, of each of its positions.\<close>

definition pos_level :: "nat list" where
  "pos_level = [0, 1, 0, 2, 0, 1, 0, 3, 0, 1, 0, 2, 0, 1, 0]"

definition pos_first :: "nat list" where
  "pos_first = [0, 0, 1, 0, 2, 2, 3, 0, 4, 4, 5, 4, 6, 6, 7]"

definition chunk_content :: "(bytes \<Rightarrow> bytes) \<Rightarrow> bytes list \<Rightarrow> bytes option list" where
  "chunk_content sha vs =
     map (\<lambda>(k, lo). if lo + 2 ^ k \<le> length vs
        then Some (subtree_value sha (\<lambda>j. vs ! j) (length vs) k lo) else None) (zip pos_level pos_first)"

lemma is_leaf_word_of_nat: "is_leaf (word_of_nat n) \<longleftrightarrow> even n"
  by (simp add: is_leaf_bit bit_of_nat_iff bit_0)

lemma unpack_values_concat:
  "\<forall>v\<in>set vs. length v = 32 \<Longrightarrow>
    unpack_values is (concat vs) nodes = fold (\<lambda>(i, v) ns. ns[i := Some v]) (zip is vs) nodes"
proof (induction "is" "concat vs" nodes arbitrary: vs rule: unpack_values.induct)
  case (2 i "is" nodes)
  then show ?case by (cases vs) auto
qed simp

lemma recompute_chunk:
  assumes "length vs \<le> 8" and "length ids = 15" and "\<And>i. i < 15 \<Longrightarrow> is_leaf (ids ! i) = (i \<in> set chunk_positions)"
  shows "recompute_intermediates sha ids
      (fold (\<lambda>(i, v) ns. ns[i := Some v]) (zip chunk_positions vs) (replicate 15 None)) =
    chunk_content sha vs"
proof -
  note defs = recompute_intermediates_def recompute_at_def chunk_positions_def chunk_content_def
    pos_level_def pos_first_def Let_def numeral_eq_Suc assms(3)
  have rep: "replicate 15 (None :: bytes option) = [None, None, None, None, None, None, None, None,
      None, None, None, None, None, None, None]"
    by (simp add: numeral_eq_Suc)
  consider "length vs = 0" | "length vs = 1" | "length vs = 2" | "length vs = 3" | "length vs = 4"
    | "length vs = 5" | "length vs = 6" | "length vs = 7" | "length vs = 8"
    using assms(1) by linarith
  then show ?thesis
  proof cases
    case 1
    then show ?thesis unfolding rep by (simp add: defs)
  next
    case 2
    then obtain v0 where "vs = [v0]" by (auto simp: numeral_eq_Suc length_Suc_conv)
    then show ?thesis unfolding rep by (simp add: defs)
  next
    case 3
    then obtain v0 v1 where "vs = [v0, v1]" by (auto simp: numeral_eq_Suc length_Suc_conv)
    then show ?thesis unfolding rep by (simp add: defs)
  next
    case 4
    then obtain v0 v1 v2 where "vs = [v0, v1, v2]" by (auto simp: numeral_eq_Suc length_Suc_conv)
    then show ?thesis unfolding rep by (simp add: defs)
  next
    case 5
    then obtain v0 v1 v2 v3 where "vs = [v0, v1, v2, v3]" by (auto simp: numeral_eq_Suc length_Suc_conv)
    then show ?thesis unfolding rep by (simp add: defs)
  next
    case 6
    then obtain v0 v1 v2 v3 v4 where "vs = [v0, v1, v2, v3, v4]" by (auto simp: numeral_eq_Suc length_Suc_conv)
    then show ?thesis unfolding rep by (simp add: defs)
  next
    case 7
    then obtain v0 v1 v2 v3 v4 v5 where "vs = [v0, v1, v2, v3, v4, v5]" by (auto simp: numeral_eq_Suc length_Suc_conv)
    then show ?thesis unfolding rep by (simp add: defs)
  next
    case 8
    then obtain v0 v1 v2 v3 v4 v5 v6 where "vs = [v0, v1, v2, v3, v4, v5, v6]" by (auto simp: numeral_eq_Suc length_Suc_conv)
    then show ?thesis unfolding rep by (simp add: defs)
  next
    case 9
    then obtain v0 v1 v2 v3 v4 v5 v6 v7 where "vs = [v0, v1, v2, v3, v4, v5, v6, v7]" by (auto simp: numeral_eq_Suc length_Suc_conv)
    then show ?thesis unfolding rep by (simp add: defs)
  qed
qed

section \<open>Stored values\<close>

lemma subtree_value_shift:
  "subtree_value sha (\<lambda>j. f (d + j)) n k lo = subtree_value sha f (d + n) k (d + lo)"
  by (induction k arbitrary: lo) (simp_all add: add.assoc)

lemma index_map_nth:
  fixes ids :: "u64 list"
  assumes "distinct ids" and "i < length ids"
  shows "fold (\<lambda>(i, nid) m. m(nid \<mapsto> i)) (enumerate 0 ids) Map.empty (ids ! i) = Some i"
proof -
  have gen: "fold (\<lambda>(i, nid) m. m(nid \<mapsto> i)) (enumerate k xs) m x =
      (if x \<in> set xs then Some (k + (LEAST j. j < length xs \<and> xs ! j = x)) else m x)"
    if "distinct xs" for xs :: "u64 list" and k m x
    using that
  proof (induction xs arbitrary: k m)
    case (Cons y xs)
    show ?case
    proof (cases "x = y")
      case True
      have "(LEAST j. j < length (y # xs) \<and> (y # xs) ! j = x) = 0"
        by (rule Least_equality) (simp_all add: True)
      then show ?thesis using Cons True by simp
    next
      case False
      have "(LEAST j. j < length (y # xs) \<and> (y # xs) ! j = x) =
          Suc (LEAST j. j < length xs \<and> xs ! j = x)" if x: "x \<in> set xs"
      proof -
        obtain j where "j < length xs" "xs ! j = x" using x by (auto simp: in_set_conv_nth)
        then have "(LEAST j. j < length (y # xs) \<and> (y # xs) ! j = x) =
            Suc (LEAST j. Suc j < length (y # xs) \<and> (y # xs) ! Suc j = x)"
          by (intro Least_Suc [where n = "Suc j"]) (use False in auto)
        then show ?thesis by simp
      qed
      then show ?thesis using Cons False by simp
    qed
  qed simp
  have "(LEAST j. j < length ids \<and> ids ! j = ids ! i) = i"
    using assms by (intro Least_equality) (auto simp: nth_eq_iff_index_eq)
  then show ?thesis using gen [OF assms(1), of 0 Map.empty "ids ! i"] assms(2) by simp
qed

lemma unat_word_of_nat: "m < 2 ^ 64 \<Longrightarrow> unat (word_of_nat m :: u64) = m"
  by (simp add: unat_of_nat take_bit_eq_mod)

lemma chunk_new_nodes:
  assumes "subtree_root a 3 c" and "length vs \<le> 8" and "\<forall>v\<in>set vs. length v = 32"
  shows "chunk_nodes (chunk_new sha c (Some (concat vs))) = chunk_content sha vs"
proof -
  have ids: "chunk_layout c = map (\<lambda>i. word_of_nat (2 * a + i)) [0..<15]"
    using assms(1) by (rule chunk_layout_eq)
  have "is_leaf (chunk_layout c ! i) = (i \<in> set chunk_positions)" if "i < 15" for i
  proof -
    have "i \<in> set [0..<15]" using that by simp
    then have "even i \<longleftrightarrow> i \<in> set chunk_positions" by (auto simp: upt_rec chunk_positions_def)
    moreover have "is_leaf (word_of_nat (2 * a + i)) \<longleftrightarrow> even i"
      by (simp only: is_leaf_word_of_nat) simp
    ultimately show ?thesis using that by (simp add: ids del: of_nat_add of_nat_mult)
  qed
  then show ?thesis
    using assms(2,3) recompute_chunk [of vs "chunk_layout c"]
    by (simp add: chunk_new_def Let_def unpack_values_concat ids)
qed

lemma chunk_new_index:
  assumes "subtree_root a 3 c" and "p < 15"
  shows "chunk_id_map (chunk_new sha c data) (word_of_nat (2 * a + p)) = Some p"
proof -
  have ids: "chunk_layout c = map (\<lambda>i. word_of_nat (2 * a + i)) [0..<15]"
    using assms(1) by (rule chunk_layout_eq)
  have bound: "2 * a + 16 \<le> 2 ^ 64" using subtree_root_bound [OF assms(1)] by simp
  have "inj_on (\<lambda>i. word_of_nat (2 * a + i) :: u64) {0..<15}"
  proof (rule inj_onI)
    fix i j :: nat
    assume "i \<in> {0..<15}" "j \<in> {0..<15}"
      and eq: "(word_of_nat (2 * a + i) :: u64) = word_of_nat (2 * a + j)"
    then have "2 * a + i < 2 ^ 64" "2 * a + j < 2 ^ 64" using bound by simp_all
    then have "2 * a + i = 2 * a + j" using eq by (metis unat_word_of_nat)
    then show "i = j" by simp
  qed
  then have "distinct (chunk_layout c)" by (simp add: ids distinct_map)
  from index_map_nth [OF this, of p] show ?thesis
    using assms(2) by (simp add: chunk_new_def Let_def ids)
qed

text \<open>Where a node of height at most three sits in its chunk.\<close>

lemma chunk_position:
  assumes "k \<le> 3" and "2 ^ k dvd b" and "b < 8"
  shows "2 * b + 2 ^ k - 1 < 15 \<and> zip pos_level pos_first ! (2 * b + 2 ^ k - 1) = (k, b) \<and> b + 2 ^ k \<le> 8"
proof -
  have "k \<in> set [0..<4]" "b \<in> set [0..<8]" using assms by auto
  moreover have "[0..<4] = [0, 1, 2, 3 :: nat]" "[0..<8] = [0, 1, 2, 3, 4, 5, 6, 7 :: nat]"
    by (simp_all add: upt_rec)
  ultimately have "k \<in> {0, 1, 2, 3}" "b \<in> {0, 1, 2, 3, 4, 5, 6, 7}" by auto
  with assms(2) show ?thesis
    by (auto simp: pos_level_def pos_first_def)
qed

definition chunk_first :: "u64 \<Rightarrow> nat" where
  "chunk_first c = unat (leftmost_leaf_index c)"

lemma chunk_first_eq: "subtree_root a k c \<Longrightarrow> chunk_first c = a"
  by (simp add: chunk_first_def subtree_root_leaves(1))

text \<open>What a store holds for the leaf values \<open>ls\<close>: one chunk for every eight leaves.\<close>

definition log_rep :: "store \<Rightarrow> bytes list \<Rightarrow> bool" where
  "log_rep st ls \<longleftrightarrow> (\<forall>v\<in>set ls. length v = 32) \<and>
     (\<forall>c. get_log st c =
        (if level c = 3 \<and> chunk_first c < length ls
         then Some (concat (take 8 (drop (chunk_first c) ls))) else None))"

lemma log_rep_empty: "log_rep empty_store []"
  by (simp add: log_rep_def get_log_def empty_store_def)

lemma stored_value_eq:
  assumes rep: "log_rep st ls" and r: "subtree_root a k r" and a: "a < length ls"
  shows "stored_value sha st r =
    (if k \<le> 3 \<and> a + 2 ^ k \<le> length ls
     then Some (subtree_value sha (\<lambda>i. ls ! i) (length ls) k a) else None)"
proof (cases "k \<le> 3")
  case False
  then have "4 \<le> level (chunk_id r)" using r subtree_root_level [OF r] chunk_id_high by simp
  then show ?thesis using False rep by (auto simp: stored_value_def log_rep_def)
next
  case True
  let ?c = "chunk_id r" and ?b = "round_down 3 a"
  let ?vs = "take 8 (drop ?b ls)" and ?p = "2 * (a - round_down 3 a) + 2 ^ k - 1"
  have c: "subtree_root ?b 3 ?c" using chunk_id_low [OF r True] .
  have b: "?b \<le> a" "a < ?b + 8" using round_down_le [of 3 a] less_round_down [of a 3] by simp_all
  have "get_log st ?c = Some (concat ?vs)"
    using rep a b by (simp add: log_rep_def subtree_root_level [OF c] chunk_first_eq [OF c])
  moreover have "chunk_nodes (chunk_new sha ?c (Some (concat ?vs))) = chunk_content sha ?vs"
  proof (rule chunk_new_nodes [OF c])
    show "\<forall>v\<in>set ?vs. length v = 32"
      using rep by (meson in_set_dropD in_set_takeD log_rep_def)
  qed simp
  moreover have d: "2 ^ k dvd a - ?b"
  proof -
    have "2 ^ k dvd (2 :: nat) ^ 3" using True by (rule le_imp_power_dvd)
    then have "2 ^ k dvd ?b" using round_down_dvd dvd_trans by blast
    then show ?thesis using subtree_root_dvd [OF r] by (rule dvd_diff_nat [rotated])
  qed
  then have p: "?p < 15" "zip pos_level pos_first ! ?p = (k, a - ?b)" "a - ?b + 2 ^ k \<le> 8"
    using chunk_position [OF True d] b by simp_all
  have "r = word_of_nat (2 * ?b + ?p)"
  proof -
    obtain e where "a = ?b + e" using b(1) le_Suc_ex by blast
    moreover have "(1 :: nat) \<le> 2 ^ k" by simp
    ultimately have "2 * a + 2 ^ k - 1 = 2 * ?b + ?p" by linarith
    then show ?thesis using subtree_root_word [OF r] by (simp only:)
  qed
  then have "chunk_id_map (chunk_new sha ?c data) r = Some ?p" for data
    using chunk_new_index [OF c p(1)] by simp
  moreover have "chunk_content sha ?vs ! ?p =
      (if a + 2 ^ k \<le> length ls
       then Some (subtree_value sha (\<lambda>i. ls ! i) (length ls) k a) else None)"
  proof -
    have len: "length ?vs = min 8 (length ls - ?b)" by simp
    have "a - ?b + 2 ^ k \<le> length ?vs \<longleftrightarrow> a + 2 ^ k \<le> length ls"
      using len p(3) b a by auto
    moreover have "subtree_value sha (\<lambda>j. ?vs ! j) (length ?vs) k (a - ?b) =
        subtree_value sha (\<lambda>i. ls ! i) (length ls) k a" if full: "a + 2 ^ k \<le> length ls"
    proof -
      have fits: "a - ?b + 2 ^ k \<le> length ?vs" "a - ?b + 2 ^ k \<le> length ls - ?b"
        using full len p(3) b by auto
      have "subtree_value sha (\<lambda>j. ?vs ! j) (length ?vs) k (a - ?b) =
          subtree_value sha (\<lambda>j. ls ! (?b + j)) (length ls - ?b) k (a - ?b)"
      proof (rule subtree_value_full [OF fits])
        fix i
        assume "i < a - ?b + 2 ^ k"
        then have "i < 8" "i < length ls - ?b" using p(3) fits(2) by simp_all
        then show "?vs ! i = ls ! (?b + i)" by simp
      qed
      also have "\<dots> = subtree_value sha (\<lambda>i. ls ! i) (length ls) k a"
        using subtree_value_shift [of sha "\<lambda>i. ls ! i" ?b "length ls - ?b" k "a - ?b"] a b by simp
      finally show ?thesis .
    qed
    moreover have "length (zip pos_level pos_first) = 15" by (simp add: pos_level_def pos_first_def)
    ultimately show ?thesis using p(1,2) by (simp add: chunk_content_def)
  qed
  ultimately show ?thesis
    using True by (simp add: stored_value_def Let_def chunk_get_value_def)
qed

section \<open>Resolving nodes\<close>

lemma resolve_node_eq:
  assumes rep: "log_rep st ls" and n: "unat n = length ls"
  shows "subtree_root a k r \<Longrightarrow> a < length ls \<Longrightarrow>
    resolve_node sha st r n = Inr (subtree_value sha (\<lambda>i. ls ! i) (length ls) k a)"
proof (induction k arbitrary: a r)
  case 0
  then have "stored_value sha st r = Some (ls ! a)" using stored_value_eq [OF rep 0] by simp
  then show ?case by (simp add: resolve_node.simps [of sha st r])
next
  case (Suc k)
  note sv = stored_value_eq [OF rep Suc.prems, of sha]
  show ?case
  proof (cases "stored_value sha st r")
    case (Some v)
    then show ?thesis using sv by (auto simp: resolve_node.simps [of sha st r] split: if_splits)
  next
    case None
    have inner: "\<not> is_leaf r" using subtree_root_level [OF Suc.prems(1)] by (simp add: is_leaf_level)
    have l: "subtree_root a k (left_child r)" using Suc.prems(1) by (rule subtree_root_left)
    have lv: "resolve_node sha st (left_child r) n = Inr (subtree_value sha (\<lambda>i. ls ! i) (length ls) k a)"
      using Suc.IH [OF l Suc.prems(2)] .
    show ?thesis
    proof (cases "length ls \<le> a + 2 ^ k")
      case True
      then show ?thesis
        using None inner lv n subtree_root_right_child [OF Suc.prems(1), of n]
        by (simp add: resolve_node.simps [of sha st r] Let_def)
    next
      case False
      let ?ir = "internal_right r"
      have ir: "subtree_root (a + 2 ^ k) k ?ir"
        using Suc.prems(1) by (rule subtree_root_internal_right)
      have "resolve_node sha st ?ir n = Inr (subtree_value sha (\<lambda>i. ls ! i) (length ls) k (a + 2 ^ k))"
        using Suc.IH [OF ir] False by simp
      then show ?thesis
        using None inner lv n False subtree_root_right_child [OF Suc.prems(1), of n]
          left_neq_internal_right [OF Suc.prems(1)] subtree_root_level [OF l] subtree_root_level [OF ir]
        by (simp add: resolve_node.simps [of sha st r] Let_def is_leaf_level)
    qed
  qed
qed

lemma get_root_eq:
  assumes "log_rep st ls" and "unat n = length ls" and "length ls \<le> 2 ^ 63"
  shows "get_root sha st n = Inr (root_value sha ls)"
proof (cases "n = 0")
  case True
  then show ?thesis using assms(2) by (simp add: get_root_def root_value_def)
next
  case False
  then have n: "0 < unat n" by (simp add: unat_gt_0)
  have "subtree_root 0 (tree_height (unat n)) (merkle_root n)"
    using n assms by (intro merkle_root_subtree) simp_all
  from resolve_node_eq [OF assms(1,2) this] show ?thesis
    using n assms(2) by (simp add: get_root_def root_value_def False)
qed

section \<open>Appending\<close>

definition chunk_holds :: "(bytes \<Rightarrow> bytes) \<Rightarrow> node_chunk \<Rightarrow> u64 \<Rightarrow> bytes list \<Rightarrow> bool" where
  "chunk_holds sha c cid ls \<longleftrightarrow>
     chunk_root_id c = cid \<and> length (chunk_nodes c) = 15 \<and>
     (\<exists>data. chunk_id_map c = chunk_id_map (chunk_new sha cid data)) \<and>
     (\<forall>j<8. chunk_nodes c ! (2 * j) =
        (if chunk_first cid + j < length ls then Some (ls ! (chunk_first cid + j)) else None))"

lemma chunk_content_even:
  assumes "length vs \<le> 8" and "j < 8"
  shows "chunk_content sha vs ! (2 * j) = (if j < length vs then Some (vs ! j) else None)"
proof -
  have "length (zip pos_level pos_first) = 15" by (simp add: pos_level_def pos_first_def)
  moreover have "zip pos_level pos_first ! (2 * j) = (0, j)" "2 * j < 15"
    using chunk_position [of 0 j] assms(2) by simp_all
  ultimately show ?thesis by (simp add: chunk_content_def Suc_le_eq)
qed

lemma length_chunk_content: "length (chunk_content sha vs) = 15"
  by (simp add: chunk_content_def pos_level_def pos_first_def)

lemma chunk_new_holds:
  assumes c: "level cid = 3"
    and data: "data = (if chunk_first cid < length ls
      then Some (concat (take 8 (drop (chunk_first cid) ls))) else None)"
    and len: "\<forall>v\<in>set ls. length v = 32"
  shows "chunk_holds sha (chunk_new sha cid data) cid ls"
proof -
  obtain a where a: "subtree_root a 3 cid" using subtree_root_of_level [of cid] c by auto
  let ?f = "chunk_first cid"
  have root: "chunk_root_id (chunk_new sha cid d) = cid" for d
    by (simp add: chunk_new_def Let_def)
  show ?thesis
  proof (cases "?f < length ls")
    case True
    let ?vs = "take 8 (drop ?f ls)"
    have "\<forall>v\<in>set ?vs. length v = 32" using len by (meson in_set_dropD in_set_takeD)
    then have "chunk_nodes (chunk_new sha cid data) = chunk_content sha ?vs"
      using chunk_new_nodes [OF a, of ?vs] data True by simp
    then show ?thesis
      using root True by (auto simp: chunk_holds_def chunk_content_even length_chunk_content)
  next
    case False
    then have "data = None" using data by simp
    then have "chunk_nodes (chunk_new sha cid data) = replicate 15 None"
      by (simp add: chunk_new_def Let_def)
    then show ?thesis using root False by (auto simp: chunk_holds_def)
  qed
qed

lemma chunk_holds_set:
  assumes holds: "chunk_holds sha c cid ls" and c: "subtree_root (round_down 3 (length ls)) 3 cid"
    and node: "subtree_root (length ls) 0 node"
  shows "\<exists>c'. chunk_set_value node v c = Inr c' \<and> chunk_holds sha c' cid (ls @ [v])"
proof -
  let ?i = "length ls" and ?a = "round_down 3 (length ls)"
  let ?p = "2 * (?i - ?a)"
  have a: "?a \<le> ?i" "?i < ?a + 8" using round_down_le [of 3 ?i] less_round_down [of ?i 3] by simp_all
  have first: "chunk_first cid = ?a" using c by (rule chunk_first_eq)
  obtain data where map: "chunk_id_map c = chunk_id_map (chunk_new sha cid data)"
    using holds by (auto simp: chunk_holds_def)
  have "node = word_of_nat (2 * ?a + ?p)"
    using subtree_root_word [OF node] a(1) by simp
  then have idx: "chunk_id_map c node = Some ?p"
    using chunk_new_index [OF c, of ?p] a map by simp
  let ?c = "c\<lparr>chunk_nodes := (chunk_nodes c)[?p := Some v], chunk_dirty := True\<rparr>"
  have "chunk_set_value node v c = Inr ?c" using idx by (simp add: chunk_set_value_def)
  moreover have "chunk_holds sha ?c cid (ls @ [v])"
    unfolding chunk_holds_def
  proof (intro conjI exI allI impI)
    fix j :: nat
    assume j: "j < 8"
    show "chunk_nodes ?c ! (2 * j) = (if chunk_first cid + j < length (ls @ [v])
        then Some ((ls @ [v]) ! (chunk_first cid + j)) else None)"
    proof (cases "?a + j = ?i")
      case True
      then have "j = ?i - ?a" by simp
      then show ?thesis
        using holds a True first j by (simp add: chunk_holds_def nth_append)
    next
      case False
      then have "2 * j \<noteq> ?p" using a by auto
      then show ?thesis
        using holds a False first j by (auto simp: chunk_holds_def nth_append less_Suc_eq)
    qed
  qed (use holds map in \<open>auto simp: chunk_holds_def\<close>)
  ultimately show ?thesis by blast
qed

text \<open>Serializing a chunk gives its leaves back, whatever its inner nodes hold.\<close>

lemma serialize_values_eq:
  assumes "length vs \<le> 8"
    and "\<And>j. j < 8 \<Longrightarrow> nodes ! (2 * j) = (if j < length vs then Some (vs ! j) else None)"
  shows "serialize_values chunk_positions nodes = concat vs"
proof -
  have "serialize_values (map (\<lambda>j. 2 * j) [a..<8]) nodes = concat (drop a vs)" if "a \<le> 8" for a
    using that
  proof (induction "8 - a" arbitrary: a)
    case 0
    then show ?case using assms(1) by simp
  next
    case (Suc d)
    then have a: "a < 8" by simp
    then have split: "map (\<lambda>j. 2 * j) [a..<8] = 2 * a # map (\<lambda>j. 2 * j) [Suc a..<8]"
      by (simp add: upt_conv_Cons)
    show ?case
    proof (cases "a < length vs")
      case True
      then show ?thesis
        using Suc.hyps(1) [of "Suc a"] Suc.hyps(2) a assms(2) [OF a] split
        by (simp add: Cons_nth_drop_Suc [symmetric])
    next
      case False
      then show ?thesis using assms(2) [OF a] split by simp
    qed
  qed
  from this [of 0] show ?thesis by (simp add: chunk_positions_def upt_rec)
qed

lemma recompute_at_even: "odd i \<Longrightarrow> even j \<Longrightarrow> recompute_at sha ids d i nodes ! j = nodes ! j"
  by (cases "i = j") (auto simp: recompute_at_def split: option.splits)

lemma chunk_serialize_recompute:
  assumes "chunk_holds sha c cid ls"
  shows "chunk_serialize (chunk_recompute sha c) = concat (take 8 (drop (chunk_first cid) ls))"
  unfolding chunk_serialize_def
proof (rule serialize_values_eq)
  fix j :: nat
  assume "j < 8"
  moreover have "chunk_nodes (chunk_recompute sha c) ! (2 * j) = chunk_nodes c ! (2 * j)"
    by (simp add: chunk_recompute_def recompute_intermediates_def Let_def recompute_at_even)
  ultimately show "chunk_nodes (chunk_recompute sha c) ! (2 * j) =
      (if j < length (take 8 (drop (chunk_first cid) ls))
       then Some (take 8 (drop (chunk_first cid) ls) ! j) else None)"
    using assms by (auto simp: chunk_holds_def)
qed simp

definition append_inv :: "(bytes \<Rightarrow> bytes) \<Rightarrow> store \<Rightarrow> chunk_cache \<Rightarrow> bytes list \<Rightarrow> bool" where
  "append_inv sha st cache ls \<longleftrightarrow> (\<forall>v\<in>set ls. length v = 32) \<and> distinct (map fst cache) \<and>
     (\<forall>(cid, c)\<in>set cache. level cid = 3 \<and> chunk_first cid < length ls \<and> chunk_holds sha c cid ls) \<and>
     (\<forall>c. c \<notin> fst ` set cache \<longrightarrow> get_log st c =
        (if level c = 3 \<and> chunk_first c < length ls
         then Some (concat (take 8 (drop (chunk_first c) ls))) else None))"

lemma cache_remove_props:
  assumes "distinct (map fst cache)"
  shows "set (cache_remove cid cache) = {e \<in> set cache. fst e \<noteq> cid}"
    and "distinct (map fst (cache_remove cid cache))"
proof -
  show set: "set (cache_remove cid cache) = {e \<in> set cache. fst e \<noteq> cid}"
    using assms by (induction cid cache rule: cache_remove.induct) (auto intro: rev_image_eqI)
  have sub: "set (cache_remove cid es) \<subseteq> set es" for cid es
    by (induction cid es rule: cache_remove.induct) auto
  show "distinct (map fst (cache_remove cid cache))"
    using assms
  proof (induction cid cache rule: cache_remove.induct)
    case (2 cid c v cache)
    have "c \<notin> fst ` set (cache_remove cid cache)" if "c \<notin> fst ` set cache"
      using that image_mono [OF sub [of cid cache], of fst] by blast
    with 2 show ?case by auto
  qed simp
qed

text \<open>A new leaf changes no other chunk.\<close>

lemma other_chunk:
  assumes c: "level c = 3" and ne: "chunk_first c \<noteq> round_down 3 i"
  shows "j < 8 \<Longrightarrow> chunk_first c + j \<noteq> i" and "chunk_first c < Suc i \<longleftrightarrow> chunk_first c < i"
    and "chunk_first c < i \<Longrightarrow> chunk_first c + 8 \<le> i"
proof -
  obtain a where a: "subtree_root a 3 c" using subtree_root_of_level [of c] c by auto
  then obtain q where q: "chunk_first c = 8 * q"
    using chunk_first_eq [OF a] subtree_root_dvd [OF a] by (auto simp: dvd_def)
  have r: "round_down 3 i = 8 * (i div 8)" by (simp add: round_down_def mult.commute)
  have "q \<noteq> i div 8" using ne q r by auto
  then show "j < 8 \<Longrightarrow> chunk_first c + j \<noteq> i" and "chunk_first c < Suc i \<longleftrightarrow> chunk_first c < i"
    and "chunk_first c < i \<Longrightarrow> chunk_first c + 8 \<le> i"
    using q by auto
qed

lemma append_loop_step:
  assumes inv: "append_inv sha st cache ls" and n: "unat n = length ls" "length ls < 2 ^ 63"
    and v: "length (log_leaf_value sha ts rt) = 32"
  shows "\<exists>cache'. append_loop sha n ((ts, rt) # es) cache st =
      append_loop sha (n + 1) es cache' (put_prefix_root_cf n rt (put_timestamp_cf n (to_be_bytes_u64 ts) st))
    \<and> append_inv sha (put_prefix_root_cf n rt (put_timestamp_cf n (to_be_bytes_u64 ts) st)) cache'
        (ls @ [log_leaf_value sha ts rt])"
proof -
  let ?v = "log_leaf_value sha ts rt" and ?cid = "chunk_id (n * 2)" and ?a = "round_down 3 (length ls)"
  let ?chunk = "case map_of cache ?cid of Some c \<Rightarrow> c | None \<Rightarrow> chunk_new sha ?cid (get_log st ?cid)"
  let ?st = "put_prefix_root_cf n rt (put_timestamp_cf n (to_be_bytes_u64 ts) st)"
  have dist: "distinct (map fst cache)" and len: "\<forall>v\<in>set ls. length v = 32"
    using inv by (simp_all add: append_inv_def)
  have node: "subtree_root (length ls) 0 (n * 2)" using leaf_node_word [of n] n by simp
  have cid: "subtree_root ?a 3 ?cid" using chunk_id_low [OF node] by simp
  have l3: "level ?cid = 3" using cid by (rule subtree_root_level)
  have "chunk_holds sha ?chunk ?cid ls"
  proof (cases "map_of cache ?cid")
    case (Some c)
    then have "(?cid, c) \<in> set cache" by (rule map_of_SomeD)
    then show ?thesis using Some inv by (auto simp: append_inv_def)
  next
    case None
    then have "?cid \<notin> fst ` set cache" by (simp add: map_of_eq_None_iff)
    then have "get_log st ?cid = (if chunk_first ?cid < length ls
        then Some (concat (take 8 (drop (chunk_first ?cid) ls))) else None)"
      using inv l3 by (simp add: append_inv_def)
    from chunk_new_holds [OF l3 this len] show ?thesis using None by simp
  qed
  from chunk_holds_set [OF this cid node, of ?v] obtain c' where
    c': "chunk_set_value (n * 2) ?v ?chunk = Inr c'" "chunk_holds sha c' ?cid (ls @ [?v])" by blast
  let ?cache = "(?cid, c') # cache_remove ?cid cache"
  have step: "append_loop sha n ((ts, rt) # es) cache st = append_loop sha (n + 1) es ?cache ?st"
    using c'(1) by (simp add: Let_def)
  have first: "chunk_first ?cid = ?a" using cid by (rule chunk_first_eq)
  have ne: "chunk_first x \<noteq> ?a" if x: "x \<noteq> ?cid" "level x = 3" for x
  proof
    assume "chunk_first x = ?a"
    moreover obtain b where "subtree_root b 3 x" using subtree_root_of_level [of x] x(2) by auto
    ultimately have "subtree_root ?a 3 x" using chunk_first_eq by force
    then show False using subtree_root_unique [OF cid] x(1) by blast
  qed
  have "append_inv sha ?st ?cache (ls @ [?v])"
    unfolding append_inv_def
  proof (intro conjI)
    show "\<forall>x\<in>set (ls @ [?v]). length x = 32" using len v by auto
    show "distinct (map fst ?cache)" using cache_remove_props [OF dist, of ?cid] by auto
    show "\<forall>(x, c)\<in>set ?cache. level x = 3 \<and> chunk_first x < length (ls @ [?v]) \<and>
        chunk_holds sha c x (ls @ [?v])"
    proof clarify
      fix x c
      assume "(x, c) \<in> set ?cache"
      then consider "x = ?cid" "c = c'" | "x \<noteq> ?cid" "(x, c) \<in> set cache"
        using cache_remove_props(1) [OF dist, of ?cid] by auto
      then show "level x = 3 \<and> chunk_first x < length (ls @ [?v]) \<and> chunk_holds sha c x (ls @ [?v])"
      proof cases
        case 1
        then show ?thesis using l3 c'(2) first round_down_le [of 3 "length ls"] by simp
      next
        case 2
        then have x: "level x = 3" "chunk_first x < length ls" "chunk_holds sha c x ls"
          using inv by (auto simp: append_inv_def)
        then show ?thesis
          using other_chunk(1) [OF x(1) ne [OF 2(1) x(1)]]
          by (auto simp: chunk_holds_def nth_append less_Suc_eq)
      qed
    qed
    show "\<forall>x. x \<notin> fst ` set ?cache \<longrightarrow> get_log ?st x =
        (if level x = 3 \<and> chunk_first x < length (ls @ [?v])
         then Some (concat (take 8 (drop (chunk_first x) (ls @ [?v])))) else None)"
    proof (intro allI impI)
      fix x
      assume x: "x \<notin> fst ` set ?cache"
      then have nx: "x \<noteq> ?cid" "x \<notin> fst ` set cache"
        using cache_remove_props(1) [OF dist, of ?cid] by (auto simp: image_iff)
      have same: "get_log ?st x = get_log st x"
        by (simp add: get_log_def put_prefix_root_cf_def put_timestamp_cf_def)
      show "get_log ?st x = (if level x = 3 \<and> chunk_first x < length (ls @ [?v])
          then Some (concat (take 8 (drop (chunk_first x) (ls @ [?v])))) else None)"
      proof (cases "level x = 3")
        case True
        note oc = other_chunk [OF True ne [OF nx(1) True]]
        then show ?thesis using same inv nx(2) True by (auto simp: append_inv_def)
      qed (use same inv nx(2) in \<open>auto simp: append_inv_def\<close>)
    qed
  qed
  with step show ?thesis by blast
qed

text \<open>The per-entry records of the loop.\<close>

definition entry_records :: "u64 \<Rightarrow> (u64 \<times> bytes) list \<Rightarrow> store \<Rightarrow> store" where
  "entry_records n es st =
     fold (\<lambda>(i, ts, rt) st. put_prefix_root_cf i rt (put_timestamp_cf i (to_be_bytes_u64 ts) st))
       (zip (map (\<lambda>j. n + word_of_nat j) [0..<length es]) es) st"

lemma entry_records_Cons:
  "entry_records n ((ts, rt) # es) st =
     entry_records (n + 1) es (put_prefix_root_cf n rt (put_timestamp_cf n (to_be_bytes_u64 ts) st))"
proof -
  have "map (\<lambda>j. n + word_of_nat j) [0..<length ((ts, rt) # es)] =
      n # map (\<lambda>j. (n + 1) + word_of_nat j) [0..<length es]"
    by (simp add: upt_conv_Cons map_Suc_upt [symmetric] comp_def add.assoc del: upt_Suc)
  then show ?thesis by (simp add: entry_records_def)
qed

lemma append_loop_inv:
  assumes "append_inv sha st cache ls" and "unat n = length ls" and "length ls + length es \<le> 2 ^ 63"
    and "\<And>x. length (sha x) = 32"
  shows "\<exists>cache'. append_loop sha n es cache st = (entry_records n es st, Inr cache') \<and>
    append_inv sha (entry_records n es st) cache' (ls @ map (\<lambda>(ts, rt). log_leaf_value sha ts rt) es)"
  using assms
proof (induction es arbitrary: st cache ls n)
  case Nil
  then show ?case by (simp add: entry_records_def)
next
  case (Cons e es)
  obtain ts rt where e: "e = (ts, rt)" by (cases e)
  let ?st = "put_prefix_root_cf n rt (put_timestamp_cf n (to_be_bytes_u64 ts) st)"
  have v: "length (log_leaf_value sha ts rt) = 32" by (simp add: log_leaf_value_def Cons.prems(4))
  obtain cache' where c: "append_loop sha n ((ts, rt) # es) cache st = append_loop sha (n + 1) es cache' ?st"
    "append_inv sha ?st cache' (ls @ [log_leaf_value sha ts rt])"
    using append_loop_step [OF Cons.prems(1,2) _ v, of es] Cons.prems(3) by auto
  have "unat (n + 1) = length (ls @ [log_leaf_value sha ts rt])"
    using Cons.prems(2,3) by (simp add: unat_word_ariths)
  from Cons.IH [OF c(2) this _ Cons.prems(4)] Cons.prems(3) obtain cache'' where
    "append_loop sha (n + 1) es cache' ?st = (entry_records (n + 1) es ?st, Inr cache'')"
    "append_inv sha (entry_records (n + 1) es ?st) cache''
      ((ls @ [log_leaf_value sha ts rt]) @ map (\<lambda>(ts, rt). log_leaf_value sha ts rt) es)"
    by auto
  then show ?case
    using c(1) unfolding e entry_records_Cons by (intro exI [of _ cache'']) simp
qed

lemma append_inv_start: "log_rep st ls \<Longrightarrow> append_inv sha st [] ls"
  by (simp add: log_rep_def append_inv_def)

lemma append_inv_finish:
  assumes "append_inv sha st cache ls"
  shows "log_rep (put_log_batch (write_back sha cache) st) ls"
proof -
  have cs: "level cid = 3 \<and> chunk_first cid < length ls \<and> chunk_holds sha c cid ls"
    if "(cid, c) \<in> set cache" for cid c using assms that by (auto simp: append_inv_def)
  have wb: "write_back sha cache =
      map (\<lambda>(cid, c). (cid, concat (take 8 (drop (chunk_first cid) ls)))) cache"
    unfolding write_back_def
    by (rule map_cong [OF refl])
      (use cs in \<open>auto simp: chunk_serialize_recompute chunk_holds_def\<close>)
  have keys: "map fst (write_back sha cache) = map fst cache" by (simp add: wb split_beta comp_def)
  have "get_log (put_log_batch (write_back sha cache) st) c =
      (if level c = 3 \<and> chunk_first c < length ls
       then Some (concat (take 8 (drop (chunk_first c) ls))) else None)" for c
  proof (cases "c \<in> fst ` set cache")
    case True
    then obtain ch where ch: "(c, ch) \<in> set cache" by auto
    then have "(c, concat (take 8 (drop (chunk_first c) ls))) \<in> set (write_back sha cache)"
      unfolding wb by force
    moreover have "distinct (map fst (write_back sha cache))"
      unfolding keys using assms by (simp add: append_inv_def)
    ultimately show ?thesis
      using kv_log.get_put_list_distinct cs [OF ch] by (simp add: put_batch_eq)
  next
    case False
    then have "map_of (rev (write_back sha cache)) c = None"
      using arg_cong [OF keys, of set] by (auto simp: map_of_eq_None_iff)
    then have "get_log (put_log_batch (write_back sha cache) st) c = get_log st c"
      by (simp add: put_batch_eq kv_log.get_put_list)
    with False assms show ?thesis by (simp add: append_inv_def)
  qed
  then show ?thesis using assms by (simp add: log_rep_def append_inv_def)
qed

lemma batch_append_spec:
  assumes "log_rep st ls" and "unat n = length ls" and "length ls + length es \<le> 2 ^ 63"
    and "\<And>x. length (sha x) = 32"
  shows "\<exists>st'. batch_append sha n es st =
      (st', Inr (root_value sha (ls @ map (\<lambda>(ts, rt). log_leaf_value sha ts rt) es))) \<and>
    log_rep st' (ls @ map (\<lambda>(ts, rt). log_leaf_value sha ts rt) es) \<and>
    (\<exists>batch. st' = put_log_batch batch (entry_records n es st))"
proof -
  let ?ls = "ls @ map (\<lambda>(ts, rt). log_leaf_value sha ts rt) es"
  obtain cache where c: "append_loop sha n es [] st = (entry_records n es st, Inr cache)"
    "append_inv sha (entry_records n es st) cache ?ls"
    using append_loop_inv [where sha = sha, OF append_inv_start [OF assms(1)] assms(2-4)] by blast
  let ?st = "put_log_batch (write_back sha cache) (entry_records n es st)"
  have rep: "log_rep ?st ?ls" using c(2) by (rule append_inv_finish)
  have "unat (n + word_of_nat (length es)) = length ?ls"
    using assms(2,3) by (simp add: unat_word_ariths unat_of_nat take_bit_eq_mod)
  from get_root_eq [OF rep this] assms(3)
  have "get_root sha ?st (n + word_of_nat (length es)) = Inr (root_value sha ?ls)" by simp
  then show ?thesis using c(1) rep by (auto simp: batch_append_def Let_def)
qed

section \<open>Per-entry records\<close>

lemma entry_records_get:
  "unat n + length es < 2 ^ 64 \<Longrightarrow>
    get_timestamp_cf (entry_records n es st) i =
      (if unat n \<le> unat i \<and> unat i < unat n + length es
       then Some (to_be_bytes_u64 (fst (es ! (unat i - unat n)))) else get_timestamp_cf st i) \<and>
    get_prefix_root_cf (entry_records n es st) i =
      (if unat n \<le> unat i \<and> unat i < unat n + length es
       then Some (snd (es ! (unat i - unat n))) else get_prefix_root_cf st i)"
proof (induction es arbitrary: n st)
  case Nil
  have none: "(unat n \<le> unat i \<and> unat i < unat n + length ([] :: (u64 \<times> bytes) list)) = False" by simp
  show ?case unfolding none by (simp add: entry_records_def)
next
  case (Cons e es)
  obtain ts rt where e: "e = (ts, rt)" by (cases e)
  let ?st = "put_prefix_root_cf n rt (put_timestamp_cf n (to_be_bytes_u64 ts) st)"
  have n1: "unat (n + 1) = Suc (unat n)" using Cons.prems by (simp add: unat_word_ariths)
  have here: "get_timestamp_cf ?st i = (if i = n then Some (to_be_bytes_u64 ts) else get_timestamp_cf st i)"
    "get_prefix_root_cf ?st i = (if i = n then Some rt else get_prefix_root_cf st i)"
    by (simp_all add: get_timestamp_cf_def put_timestamp_cf_def get_prefix_root_cf_def put_prefix_root_cf_def)
  have IH: "get_timestamp_cf (entry_records (n + 1) es ?st) i =
      (if Suc (unat n) \<le> unat i \<and> unat i < Suc (unat n) + length es
       then Some (to_be_bytes_u64 (fst (es ! (unat i - Suc (unat n))))) else get_timestamp_cf ?st i) \<and>
    get_prefix_root_cf (entry_records (n + 1) es ?st) i =
      (if Suc (unat n) \<le> unat i \<and> unat i < Suc (unat n) + length es
       then Some (snd (es ! (unat i - Suc (unat n)))) else get_prefix_root_cf ?st i)"
    using Cons.IH [of "n + 1" ?st] Cons.prems n1 by simp
  consider "i = n" | "unat i < unat n" "i \<noteq> n" | k where "unat i = Suc (unat n + k)" "i \<noteq> n"
    by (metis less_iff_Suc_add linorder_neqE_nat word_unat_eq_iff)
  then show ?case using IH here unfolding e entry_records_Cons by cases simp_all
qed

lemma get_timestamp_batch [simp]:
  "get_timestamp_cf (put_log_batch b st) i = get_timestamp_cf st i"
  "get_prefix_root_cf (put_log_batch b st) i = get_prefix_root_cf st i"
  by (simp_all add: get_timestamp_cf_def get_prefix_root_cf_def put_log_batch_def)

text \<open>A digest of the right length for examples: the input padded and cut to 32 bytes.\<close>

definition pad32 :: "bytes \<Rightarrow> bytes" where
  "pad32 x = take 32 (x @ replicate 32 0)"

lemma length_pad32 [simp]: "length (pad32 x) = 32"
  by (simp add: pad32_def)

section \<open>Properties\<close>

text \<open>C14. Appending to the log. On a store that holds the leaves \<open>ls\<close>, \<open>batch_append\<close> succeeds,
  returns the specified Merkle root of the longer log, leaves a store that holds the longer
  log, and every entry, old or new, has its timestamp and prefix root on record. Whatever the
  alignment of the batch to the 8-leaf chunks, and whatever is in the cache at each step.\<close>

theorem batch_append_correct:
  assumes "log_rep st ls" and "unat n = length ls" and "length ls + length es \<le> 2 ^ 63"
    and "\<And>x. length (sha x) = 32"
  shows "\<exists>st'. batch_append sha n es st =
      (st', Inr (root_value sha (ls @ map (\<lambda>(ts, rt). log_leaf_value sha ts rt) es))) \<and>
    log_rep st' (ls @ map (\<lambda>(ts, rt). log_leaf_value sha ts rt) es) \<and>
    (\<forall>i. get_timestamp st' i = (if unat n \<le> unat i \<and> unat i < unat n + length es
       then Inr (fst (es ! (unat i - unat n))) else get_timestamp st i)) \<and>
    (\<forall>i. get_prefix_root st' i = (if unat n \<le> unat i \<and> unat i < unat n + length es
       then Inr (snd (es ! (unat i - unat n))) else get_prefix_root st i))"
proof -
  obtain st' batch where st': "batch_append sha n es st =
      (st', Inr (root_value sha (ls @ map (\<lambda>(ts, rt). log_leaf_value sha ts rt) es)))"
    "log_rep st' (ls @ map (\<lambda>(ts, rt). log_leaf_value sha ts rt) es)"
    "st' = put_log_batch batch (entry_records n es st)"
    using batch_append_spec [OF assms(1-3), of sha] assms(4) by blast
  have "unat n + length es < 2 ^ 64" using assms(2,3) by simp
  note records = entry_records_get [OF this, of st]
  have len: "length (to_be_bytes_u64 ts) = 8" for ts by (simp add: to_be_bytes_u64_def)
  show ?thesis
    using st'(1,2) records
    by (auto simp: st'(3) get_timestamp_def get_prefix_root_def u64_of_slice_def
        len)
qed

lemma batch_append_correct_witness:
  "\<exists>st. batch_append pad32 0 [(5, [1]), (6, [2])] empty_store =
      (st, Inr (root_value pad32 [log_leaf_value pad32 5 [1], log_leaf_value pad32 6 [2]])) \<and>
    get_timestamp st 1 = Inr 6 \<and> get_prefix_root st 0 = Inr [1]"
  using batch_append_correct [OF log_rep_empty, of 0 "[(5, [1]), (6, [2])]" pad32] by fastforce

text \<open>C22. What the server answers for an earlier tree size. While the tree of \<open>m\<close> entries fits
  in one chunk whose first \<open>2 ^ tree_height m\<close> leaves are by now on record, \<open>get_root\<close> for size \<open>m\<close>
  returns the root of the log cut at that power of two, not at \<open>m\<close>: the chunk answers for the
  node before the requested size is looked at.\<close>

theorem get_root_of_earlier_size:
  assumes "log_rep st ls" and "0 < unat m" and "tree_height (unat m) \<le> 3"
    and "2 ^ tree_height (unat m) \<le> length ls"
  shows "get_root sha st m = Inr (root_value sha (take (2 ^ tree_height (unat m)) ls))"
proof -
  let ?h = "tree_height (unat m)"
  have "unat m \<le> 2 ^ ?h" by (rule tree_height_spec(1))
  also have "(2 :: nat) ^ ?h \<le> 2 ^ 3" using assms(3) by (intro power_increasing) simp_all
  finally have m: "unat m \<le> 2 ^ 63" by simp
  have top: "subtree_root 0 ?h (merkle_root m)" using assms(2) m by (rule merkle_root_subtree)
  have pos: "(0 :: nat) < 2 ^ ?h" by simp
  then have ne: "0 < length ls" using assms(4) by linarith
  have "stored_value sha st (merkle_root m) = Some (subtree_value sha (\<lambda>i. ls ! i) (length ls) ?h 0)"
    using stored_value_eq [OF assms(1) top ne] assms(3,4) by simp
  moreover have "subtree_value sha (\<lambda>i. ls ! i) (length ls) ?h 0 =
      subtree_value sha (\<lambda>i. take (2 ^ ?h) ls ! i) (2 ^ ?h) ?h 0"
    using assms(4) by (intro subtree_value_full) simp_all
  moreover have "tree_height (2 ^ ?h) = ?h"
    by (rule tree_height_unique) (auto intro: power_strict_increasing)
  moreover have "m \<noteq> 0" using assms(2) by auto
  ultimately show ?thesis
    using assms(4) ne by (simp add: get_root_def resolve_node.simps [of sha st] root_value_def min_def)
qed

lemma get_root_of_earlier_size_witness:
  "\<exists>st ls. log_rep st ls \<and> length ls = 4 \<and> get_root pad32 st 3 = Inr (root_value pad32 ls)"
proof -
  let ?es = "[(1, [1]), (2, [2]), (3, [3]), (4, [4])] :: (u64 \<times> bytes) list"
  obtain st where st: "log_rep st (map (\<lambda>(ts, rt). log_leaf_value pad32 ts rt) ?es)"
    using batch_append_spec [OF log_rep_empty, of 0 ?es pad32] by auto
  have "tree_height 3 = 2" by code_simp
  then show ?thesis
    using st get_root_of_earlier_size [OF st, of 3 pad32]
    by (intro exI [of _ st] exI [of _ "map (\<lambda>(ts, rt). log_leaf_value pad32 ts rt) ?es"]) simp
qed

end
