(* ===== verification/Proto.thy ===== *)
theory Proto
  imports Prelude
begin

text \<open>
  The messages of \<^verbatim>\<open>src/proto/transparency.proto\<close> and \<^verbatim>\<open>key_transparency.proto\<close> as the
  records prost generates for them: a message-typed or \<^verbatim>\<open>optional\<close> field is an option, a
  \<^verbatim>\<open>repeated\<close> field a list. \<open>uint32\<close> counters are natural numbers, \<open>int64\<close> values are
  words read by \<open>sint\<close>, so that the two casts of the source, \<open>as_i64\<close> and \<open>as_u64\<close>, keep the bits.
\<close>

type_synonym i64 = "64 word"

definition as_i64 :: "u64 \<Rightarrow> i64" where
  "as_i64 x = x"

definition as_u64 :: "i64 \<Rightarrow> u64" where
  "as_u64 x = x"

lemma as_u64_as_i64 [simp]: "as_u64 (as_i64 x) = x"
  by (simp add: as_u64_def as_i64_def)

section \<open>Proofs\<close>

record prefix_leaf =
  pl_vrf_output :: bytes
  pl_commitment :: bytes

record prefix_search_result =
  psr_result_type :: nat
  psr_leaf :: "prefix_leaf option"
  psr_depth :: nat

record prefix_proof =
  pp_results :: "prefix_search_result list"
  pp_elements :: "bytes list"

record inclusion_proof =
  ip_elements :: "bytes list"

record combined_tree_proof =
  ctp_timestamps :: "u64 list"
  ctp_prefix_proofs :: "prefix_proof list"
  ctp_prefix_roots :: "bytes list"
  ctp_inclusion :: "inclusion_proof option"

record binary_ladder_step =
  bls_proof :: bytes
  bls_commitment :: "bytes option"

section \<open>Tree heads\<close>

record auditor_tree_head =
  ath_tree_size :: u64
  ath_timestamp :: i64
  ath_signature :: bytes

record signature_msg =
  sig_auditor_public_key :: bytes
  sig_signature :: bytes

record tree_head =
  th_tree_size :: u64
  th_timestamp :: i64
  th_signatures :: "signature_msg list"

text \<open>An open protobuf enumeration: any other number is kept as received.\<close>

definition HEAD_TYPE_SAME :: int where "HEAD_TYPE_SAME = 1"
definition HEAD_TYPE_UPDATED :: int where "HEAD_TYPE_UPDATED = 2"

record full_tree_head =
  fth_head_type :: int
  fth_tree_head :: "tree_head option"
  fth_auditor_tree_head :: "auditor_tree_head option"

record consistency_req =
  cr_last :: "u64 option"
  cr_distinguished :: "u64 option"

section \<open>User operations\<close>

record search_request =
  sreq_last :: "u64 option"
  sreq_label :: bytes
  sreq_version :: "version option"

record search_response =
  sr_full_tree_head :: "full_tree_head option"
  sr_version :: "version option"
  sr_opening :: bytes
  sr_value :: "bytes option"
  sr_binary_ladder :: "binary_ladder_step list"
  sr_search :: "combined_tree_proof option"

record update_request =
  ureq_last :: "u64 option"
  ureq_label :: bytes
  ureq_greatest_version :: "version option"
  ureq_values :: "bytes list"

record update_info =
  ui_opening :: bytes
  ui_suffix_signature :: "bytes option"

record update_response =
  ur_full_tree_head :: "full_tree_head option"
  ur_position :: u64
  ur_values :: "bytes list"
  ur_info :: "update_info list"
  ur_binary_ladder :: "binary_ladder_step list"
  ur_update :: "combined_tree_proof option"

record monitor_map_entry =
  mme_position :: u64
  mme_version :: version

record contact_monitor_request =
  cmreq_last :: "u64 option"
  cmreq_label :: bytes
  cmreq_entries :: "monitor_map_entry list"

record contact_monitor_response =
  cmr_full_tree_head :: "full_tree_head option"
  cmr_monitor :: "combined_tree_proof option"

record owner_init_request =
  oireq_last :: "u64 option"
  oireq_label :: bytes
  oireq_start :: u64

record owner_init_response =
  oir_full_tree_head :: "full_tree_head option"
  oir_greatest_versions :: "version list"
  oir_binary_ladder :: "binary_ladder_step list"
  oir_init :: "combined_tree_proof option"

record owner_monitor_request =
  omreq_last :: "u64 option"
  omreq_label :: bytes
  omreq_entries :: "monitor_map_entry list"
  omreq_start :: u64
  omreq_greatest_version :: "version option"

record owner_monitor_response =
  omr_full_tree_head :: "full_tree_head option"
  omr_monitor :: "combined_tree_proof option"
  omr_binary_ladder :: "binary_ladder_step list"

record distinguished_request =
  dreq_last :: "u64 option"
  dreq_stop :: "u64 option"

record distinguished_response =
  dr_full_tree_head :: "full_tree_head option"
  dr_distinguished :: "combined_tree_proof option"

record auditor_update =
  au_timestamp :: u64
  au_added :: "prefix_leaf list"
  au_removed :: "prefix_leaf list"
  au_proof :: "prefix_proof option"

record audit_response =
  ar_updates :: "auditor_update list"
  ar_more :: bool

record audit_bootstrap_response =
  abr_tree_head :: "tree_head option"
  abr_log_peaks :: "bytes list"
  abr_prefix_root :: bytes
  abr_timestamp :: u64

section \<open>Credentials\<close>

definition CREDENTIAL_TYPE_STANDARD :: int where "CREDENTIAL_TYPE_STANDARD = 1"
definition CREDENTIAL_TYPE_PROVISIONAL :: int where "CREDENTIAL_TYPE_PROVISIONAL = 2"

record credential =
  crd_label :: bytes
  crd_version :: version
  crd_opening :: bytes
  crd_value :: "bytes option"
  crd_binary_ladder :: "binary_ladder_step list"
  crd_position :: u64
  crd_credential_type :: int
  crd_distinguished :: "prefix_proof option"
  crd_tree_head :: "tree_head option"
  crd_search :: "combined_tree_proof option"

record credential_update =
  cru_position :: u64
  cru_monitor :: "combined_tree_proof option"

record credential_update_request =
  crureq_label :: bytes
  crureq_terminal_position :: u64
  crureq_terminal_version :: version

end
