(* ===== verification/Verifier.thy ===== *)
theory Verifier
  imports NodeArith Hashes Proto
begin

text \<open>
  The client's proof checks, \<^verbatim>\<open>src/src/client/verifier.rs\<close>: the log-tree root from leaves,
  proof elements and retained subtree values; the accumulator of full-subtree peaks; the
  prefix-tree root from a search result; the comparison of root lists; commitments; and the
  replay of an audited prefix-tree transition.

  The proof iterator is the list of elements not yet read; a \<^verbatim>\<open>BTreeMap\<close> that is only looked
  up is a map. A climb to the root that never meets it is the error value \<open>Hang\<close>.
\<close>

section \<open>Log tree\<close>

partial_function (option) climb :: "u64 \<Rightarrow> u64 \<Rightarrow> u64 \<Rightarrow> bool option" where
  "climb node_id tree_size cur =
     (if cur \<noteq> node_id then
        (if cur = merkle_root tree_size then Some False
         else climb node_id tree_size (parent cur tree_size))
      else Some True)"

declare climb.simps [code]

definition is_ancestor :: "u64 \<Rightarrow> u64 \<Rightarrow> (u64 \<times> bytes) list \<Rightarrow> bool res" where
  "is_ancestor node_id tree_size provided_leaves =
     any_res (\<lambda>(leaf_node_id, _). ok_or (climb node_id tree_size leaf_node_id) Hang) provided_leaves"

definition record_node :: "u64 set \<Rightarrow> u64 \<Rightarrow> bytes \<Rightarrow> (u64 \<rightharpoonup> bytes) \<Rightarrow> (u64 \<rightharpoonup> bytes)" where
  "record_node wanted nid val captured = (if nid \<in> wanted then captured(nid \<mapsto> val) else captured)"

text \<open>
  The result is the value, the proof elements left, and the captured values. The leaves are
  sorted and their node ids distinct, so the binary search finds the one entry there is.
\<close>

function recursive_hash :: "(bytes \<Rightarrow> bytes) \<Rightarrow> u64 \<Rightarrow> u64 \<Rightarrow> (u64 \<times> bytes) list \<Rightarrow> bytes list \<Rightarrow>
    (u64 \<rightharpoonup> bytes) \<Rightarrow> u64 set \<Rightarrow> (u64 \<rightharpoonup> bytes) \<Rightarrow> (bytes \<times> bytes list \<times> (u64 \<rightharpoonup> bytes)) res" where
  "recursive_hash sha node_id tree_size provided_leaves proof_iter retained wanted captured =
     (case map_of provided_leaves node_id of
        Some val \<Rightarrow> Inr (val, proof_iter, record_node wanted node_id val captured)
      | None \<Rightarrow>
        and_then (is_ancestor node_id tree_size provided_leaves) (\<lambda>ancestor.
        if \<not> ancestor then
          (case retained node_id of
             Some val \<Rightarrow> Inr (val, proof_iter, record_node wanted node_id val captured)
           | None \<Rightarrow>
             (case proof_iter of
                [] \<Rightarrow> Inl (Anyhow ''Ran out of proof elements'')
              | val # rest \<Rightarrow> Inr (val, rest, record_node wanted node_id val captured)))
        else if is_leaf node_id then Inl (Anyhow ''Leaf node missing'')
        else
          let l = left_child node_id in
          and_then (right_child node_id tree_size) (\<lambda>r.
          and_then (recursive_hash sha l tree_size provided_leaves proof_iter retained wanted captured)
            (\<lambda>(l_hash, proof_iter, captured).
          if l = r then Inr (l_hash, proof_iter, record_node wanted node_id l_hash captured)
          else
            and_then (recursive_hash sha r tree_size provided_leaves proof_iter retained wanted captured)
              (\<lambda>(r_hash, proof_iter, captured).
            let val = log_parent_value sha l_hash (is_leaf l) r_hash (is_leaf r) in
            Inr (val, proof_iter, record_node wanted node_id val captured))))))"
  by pat_completeness auto

termination
  by (relation "measure (\<lambda>(sha, node_id, _). level node_id)")
    (auto simp: is_leaf_level level_left_child dest!: right_child_level)

declare recursive_hash.simps [simp del]

definition calculate_root_capturing :: "(bytes \<Rightarrow> bytes) \<Rightarrow> u64 list \<Rightarrow> bytes list \<Rightarrow> u64 \<Rightarrow>
    bytes list \<Rightarrow> (u64 \<rightharpoonup> bytes) \<Rightarrow> u64 set \<Rightarrow> (bytes \<times> (u64 \<rightharpoonup> bytes)) res" where
  "calculate_root_capturing sha node_indices node_hashes tree_size proof_elements retained wanted =
     (if length node_indices \<noteq> length node_hashes then
        Inl (Anyhow ''Mismatch between indices and hashes length'')
      else if tree_size = 0 then Inr (replicate 32 0, Map.empty)
      else
        let nodes = sort_key fst (map (\<lambda>(i, h). (i * 2, h)) (zip node_indices node_hashes));
            rt = merkle_root tree_size in
        and_then (recursive_hash sha rt tree_size nodes proof_elements retained wanted Map.empty)
          (\<lambda>(root_hash, proof_iter, captured).
        if proof_iter \<noteq> [] then Inl (Anyhow ''Unused inclusion proof elements'')
        else Inr (root_hash, captured)))"

definition calculate_root ::
  "(bytes \<Rightarrow> bytes) \<Rightarrow> u64 list \<Rightarrow> bytes list \<Rightarrow> u64 \<Rightarrow> bytes list \<Rightarrow> bytes res" where
  "calculate_root sha node_indices node_hashes tree_size proof_elements =
     and_then (calculate_root_capturing sha node_indices node_hashes tree_size proof_elements Map.empty {})
       (\<lambda>(h, _). Inr h)"

definition calculate_root_with_retained :: "(bytes \<Rightarrow> bytes) \<Rightarrow> u64 list \<Rightarrow> bytes list \<Rightarrow> u64 \<Rightarrow>
    bytes list \<Rightarrow> (u64 \<rightharpoonup> bytes) \<Rightarrow> (bytes \<times> (u64 \<rightharpoonup> bytes)) res" where
  "calculate_root_with_retained sha node_indices node_hashes tree_size proof_elements retained =
     calculate_root_capturing sha node_indices node_hashes tree_size proof_elements retained
       (set (get_roots tree_size))"

section \<open>Accumulator\<close>

record log_accumulator =
  acc_tree_size :: u64
  acc_peaks :: "(nat \<times> bytes) list"

definition acc_new :: log_accumulator where
  "acc_new = \<lparr>acc_tree_size = 0, acc_peaks = []\<rparr>"

definition from_peaks :: "u64 \<Rightarrow> bytes list \<Rightarrow> log_accumulator res" where
  "from_peaks tree_size values =
     (let roots = get_roots tree_size in
      if length roots \<noteq> length values then Inl (Anyhow ''Unexpected number of peaks'')
      else Inr \<lparr>acc_tree_size = tree_size,
                acc_peaks = map (\<lambda>(node, v). (level node, v)) (zip roots values)\<rparr>)"

text \<open>The merging loop, on the peaks with the last pushed one first.\<close>

fun merge_peaks :: "(bytes \<Rightarrow> bytes) \<Rightarrow> (nat \<times> bytes) list \<Rightarrow> (nat \<times> bytes) list" where
  "merge_peaks sha ((rh, r) # (lh, l) # rest) =
     (if lh \<noteq> rh then (rh, r) # (lh, l) # rest
      else merge_peaks sha ((lh + 1, log_parent_value sha l (lh = 0) r (rh = 0)) # rest))"
| "merge_peaks sha peaks = peaks"

definition append_leaf :: "(bytes \<Rightarrow> bytes) \<Rightarrow> bytes \<Rightarrow> log_accumulator \<Rightarrow> log_accumulator" where
  "append_leaf sha leaf acc =
     \<lparr>acc_tree_size = acc_tree_size acc + 1,
      acc_peaks = rev (merge_peaks sha (rev (acc_peaks acc @ [(0, leaf)])))\<rparr>"

definition acc_calculate_root :: "(bytes \<Rightarrow> bytes) \<Rightarrow> log_accumulator \<Rightarrow> bytes res" where
  "acc_calculate_root sha acc =
     (if acc_tree_size acc = 0 then Inr (replicate 32 0)
      else case rev (acc_peaks acc) of
        [] \<Rightarrow> Inl (Panic ''called `Option::unwrap()` on a `None` value'')
      | (_, v0) # iter \<Rightarrow>
          Inr (fold (\<lambda>(h, v) acc. log_parent_value sha v (h = 0) acc False) iter v0))"

definition accumulator_from_peaks :: "(bytes \<Rightarrow> bytes) \<Rightarrow> u64 \<Rightarrow> bytes list \<Rightarrow> bytes res" where
  "accumulator_from_peaks sha tree_size peaks =
     and_then (from_peaks tree_size peaks) (acc_calculate_root sha)"

section \<open>Prefix tree\<close>

definition fold_level :: "(bytes \<Rightarrow> bytes) \<Rightarrow> bytes \<Rightarrow> nat \<Rightarrow> bytes \<Rightarrow> bytes \<Rightarrow> bytes" where
  "fold_level sha key i sib cur_hash =
     (if get_bit key i = 1 then parent_hash sha sib cur_hash
      else parent_hash sha cur_hash sib)"

text \<open>\<^verbatim>\<open>get_bit\<close> indexes the key, which panics past its end.\<close>

fun fold_commitment :: "(bytes \<Rightarrow> bytes) \<Rightarrow> bytes \<Rightarrow> bytes list \<Rightarrow> nat list \<Rightarrow> nat \<Rightarrow> bytes \<Rightarrow> bytes res" where
  "fold_commitment sha key elements [] element_idx cur_hash = Inr cur_hash"
| "fold_commitment sha key elements (i # is) element_idx cur_hash =
     (if element_idx \<ge> length elements then Inl (Anyhow ''Insufficient proof elements'')
      else if i div 8 \<ge> length key then Inl (Panic ''index out of bounds'')
      else fold_commitment sha key elements is (element_idx + 1)
        (fold_level sha key i (elements ! element_idx) cur_hash))"

definition verify_with_commitment ::
  "(bytes \<Rightarrow> bytes) \<Rightarrow> bytes \<Rightarrow> bytes \<Rightarrow> bytes \<Rightarrow> prefix_proof \<Rightarrow> unit res" where
  "verify_with_commitment sha root_hash search_key commitment pf =
     (case pp_results pf of
        [] \<Rightarrow> Inl (Anyhow ''Empty prefix proof results'')
      | result # _ \<Rightarrow>
        and_then (fold_commitment sha search_key (pp_elements pf) (rev [0..<psr_depth result]) 0
            (leaf_hash sha search_key commitment)) (\<lambda>cur_hash.
        if cur_hash \<noteq> root_hash then Inl (Anyhow ''Prefix tree root mismatch (Inclusion).'')
        else Inr ()))"

text \<open>
  The starting value and level by result type. The offset of the elements is bounded by
  their number, so its checked addition cannot overflow.
\<close>

definition start_of_result ::
  "(bytes \<Rightarrow> bytes) \<Rightarrow> prefix_search_result \<Rightarrow> bytes \<Rightarrow> bytes option \<Rightarrow> (bytes \<times> nat) res" where
  "start_of_result sha result vrf_output commitment =
     (if psr_result_type result = 1 then
        and_then (ok_or commitment (Anyhow ''Inclusion result needs commitment'')) (\<lambda>comm.
          Inr (leaf_hash sha vrf_output comm, INDEX_LENGTH * 8))
      else if psr_result_type result = 2 then
        and_then (ok_or (psr_leaf result) (Anyhow ''NonInclusionLeaf result missing leaf'')) (\<lambda>leaf.
          if pl_vrf_output leaf = vrf_output then
            Inl (Anyhow ''NonInclusionLeaf carries the searched key itself'')
          else Inr (ZERO_VALUE, psr_depth result))
      else if psr_result_type result = 3 then Inr (ZERO_VALUE, psr_depth result)
      else Inl (Anyhow ''Unknown PrefixSearchResult.result_type''))"

definition sibling_at :: "bytes list \<Rightarrow> nat \<Rightarrow> nat \<Rightarrow> bytes" where
  "sibling_at elements depth lv = (if lv < depth then elements ! lv else ZERO_VALUE)"

definition fold_path :: "(bytes \<Rightarrow> bytes) \<Rightarrow> bytes \<Rightarrow> bytes list \<Rightarrow> nat \<Rightarrow> nat \<Rightarrow> bytes \<Rightarrow> bytes" where
  "fold_path sha vrf_output elements depth start_level cur_hash =
     fold (\<lambda>lv h. fold_level sha vrf_output lv (sibling_at elements depth lv) h)
       (rev [0..<start_level]) cur_hash"

definition compute_root_from_result :: "(bytes \<Rightarrow> bytes) \<Rightarrow> prefix_proof \<Rightarrow> nat \<Rightarrow> bytes \<Rightarrow>
    bytes option \<Rightarrow> nat \<Rightarrow> (bytes \<times> nat) res" where
  "compute_root_from_result sha pf result_idx vrf_output commitment elements_offset =
     (if result_idx \<ge> length (pp_results pf) then Inl (Anyhow ''Result index out of range'')
      else
        let result = pp_results pf ! result_idx; depth = psr_depth result in
        if depth > INDEX_LENGTH * 8 then Inl (Anyhow ''PrefixProof: depth exceeds tree height'')
        else
          and_then (start_of_result sha result vrf_output commitment) (\<lambda>(cur_hash, start_level).
          let end_idx = elements_offset + depth in
          if end_idx > length (pp_elements pf) then
            Inl (Anyhow ''PrefixProof: insufficient elements for result'')
          else
            let elements = take depth (drop elements_offset (pp_elements pf)) in
            Inr (fold_path sha vrf_output elements depth start_level cur_hash, depth)))"

section \<open>Root lists\<close>

fun compare_loop :: "nat list \<Rightarrow> bytes list \<Rightarrow> bytes list \<Rightarrow> unit res" where
  "compare_loop [] roots_a roots_b = Inl (Anyhow ''No valid overlap between root lists: possible fork'')"
| "compare_loop (x # xs) roots_a roots_b =
     (if take (length roots_a - x) roots_a = drop x roots_b \<or>
         take (length roots_a - x) roots_b = drop x roots_a then Inr ()
      else compare_loop xs roots_a roots_b)"

definition compare_roots :: "bytes list \<Rightarrow> bytes list \<Rightarrow> unit res" where
  "compare_roots roots_a roots_b =
     (if length roots_a \<noteq> length roots_b then Inl (Anyhow ''Root lists must be the same size'')
      else compare_loop [0..<length roots_a] roots_a roots_b)"

section \<open>Commitments\<close>

definition verify_commitment ::
  "(bytes \<Rightarrow> bytes \<Rightarrow> bytes) \<Rightarrow> bytes \<Rightarrow> version \<Rightarrow> bytes \<Rightarrow> bytes \<Rightarrow> bytes \<Rightarrow> unit res" where
  "verify_commitment hmac label ver val opening commitment =
     and_then (commit hmac label ver val None opening) (\<lambda>calculated.
       if calculated \<noteq> commitment then Inl (Anyhow ''Commitment verification failed'') else Inr ())"

end
