(* ===== verification/AccumulatorProps.thy ===== *)
theory AccumulatorProps
  imports Verifier LogSpec
begin

text \<open>
  The accumulator of full-subtree peaks computes the root of the specification: appending is
  a binary increment on the peaks, and folding the peaks from the right is the recursion of
  \<open>subtree_value\<close> along the right edge of the tree.
\<close>

section \<open>Peaks as the binary digits of the size\<close>

text \<open>
  \<open>digits k m\<close>: height and first leaf of the full subtrees of \<open>m\<close> blocks of \<open>2 ^ k\<close> leaves,
  the last one first.
\<close>

function digits :: "nat \<Rightarrow> nat \<Rightarrow> (nat \<times> nat) list" where
  "digits k m =
     (if m = 0 then []
      else if odd m then (k, (m - 1) * 2 ^ k) # digits (Suc k) (m div 2)
      else digits (Suc k) (m div 2))"
  by pat_completeness auto
termination by (relation "measure snd") auto

declare digits.simps [simp del]

lemma digits_0 [simp]: "digits k 0 = []"
  by (simp add: digits.simps)

lemma digits_odd: "digits k (Suc (2 * h)) = (k, h * 2 ^ Suc k) # digits (Suc k) h"
  by (simp add: digits.simps [of k "Suc (2 * h)"])

lemma digits_even: "digits k (2 * h) = digits (Suc k) h"
  by (cases "h = 0") (simp_all add: digits.simps [of k "2 * h"])

lemma even_odd_cases [case_names even odd]:
  obtains h where "m = 2 * h" | h where "m = Suc (2 * (h :: nat))"
  by (metis evenE oddE Suc_eq_plus1)

text \<open>Block positions with the block size halved.\<close>

lemma block_pos:
  "2 * h * 2 ^ k = h * (2 :: nat) ^ Suc k" "Suc (2 * h) * 2 ^ k = h * 2 ^ Suc k + (2 :: nat) ^ k"
  "Suc (Suc (2 * h)) * 2 ^ k = Suc h * (2 :: nat) ^ Suc k"
  "Suc h * 2 ^ Suc k = h * 2 ^ Suc k + 2 ^ k + (2 :: nat) ^ k"
  by (simp_all add: algebra_simps)

lemma digits_level: "(j, lo) \<in> set (digits k m) \<Longrightarrow> k \<le> j \<and> lo + 2 ^ j \<le> m * 2 ^ k"
proof (induction m arbitrary: k rule: less_induct)
  case (less m)
  show ?case
  proof (cases m rule: even_odd_cases)
    case (even h)
    then have "m \<noteq> 0" "h < m" using less.prems by (auto intro: Nat.gr0I)
    then show ?thesis
      using less.IH [of h "Suc k"] less.prems even by (simp only: digits_even block_pos) auto
  next
    case (odd h)
    consider "j = k" "lo = h * 2 ^ Suc k" | "(j, lo) \<in> set (digits (Suc k) h)"
      using less.prems odd by (auto simp: digits_odd)
    then show ?thesis
    proof cases
      case 1
      then show ?thesis using odd by (simp only: block_pos) simp
    next
      case 2
      then have "Suc k \<le> j \<and> lo + 2 ^ j \<le> h * 2 ^ Suc k" using less.IH [of h "Suc k"] odd by simp
      then show ?thesis using odd by (simp only: block_pos) linarith
    qed
  qed
qed

definition peak_values :: "(bytes \<Rightarrow> bytes) \<Rightarrow> (nat \<Rightarrow> bytes) \<Rightarrow> nat \<Rightarrow> (nat \<times> nat) list \<Rightarrow> (nat \<times> bytes) list" where
  "peak_values sha f n ds = map (\<lambda>(k, lo). (k, subtree_value sha f n k lo)) ds"

lemma peak_values_simps [simp]:
  "peak_values sha f n [] = []"
  "peak_values sha f n ((k, lo) # ds) = (k, subtree_value sha f n k lo) # peak_values sha f n ds"
  by (simp_all add: peak_values_def)

section \<open>Appending is an increment\<close>

lemma merge_peaks_digits:
  assumes "Suc m * 2 ^ k \<le> n"
  shows "merge_peaks sha ((k, subtree_value sha f n k (m * 2 ^ k)) # peak_values sha f n (digits k m)) =
    peak_values sha f n (digits k (Suc m))"
  using assms
proof (induction m arbitrary: k rule: less_induct)
  case (less m)
  show ?case
  proof (cases m rule: even_odd_cases)
    case (even h)
    have suc: "digits k (Suc m) = (k, m * 2 ^ k) # digits (Suc k) h" "digits k m = digits (Suc k) h"
      unfolding even block_pos digits_odd digits_even by (rule refl)+
    show ?thesis
    proof (cases "digits (Suc k) h")
      case Nil
      then show ?thesis using suc by simp
    next
      case (Cons d ds)
      obtain j lo where d: "d = (j, lo)" by (cases d)
      then have "(j, lo) \<in> set (digits (Suc k) h)" using Cons by simp
      then have "j \<noteq> k" using digits_level by fastforce
      then show ?thesis using suc Cons d by simp
    qed
  next
    case (odd h)
    have fits: "Suc h * 2 ^ Suc k \<le> n" using less.prems unfolding odd block_pos .
    moreover have "(0 :: nat) < 2 ^ k" by simp
    ultimately have lt: "h * 2 ^ Suc k + 2 ^ k < n" unfolding block_pos(4) by linarith
    have "merge_peaks sha ((k, subtree_value sha f n k (m * 2 ^ k)) # peak_values sha f n (digits k m)) =
        merge_peaks sha ((Suc k, subtree_value sha f n (Suc k) (h * 2 ^ Suc k)) #
          peak_values sha f n (digits (Suc k) h))"
      unfolding odd block_pos digits_odd using lt by simp
    also have "\<dots> = peak_values sha f n (digits (Suc k) (Suc h))"
      using odd fits by (intro less.IH) simp_all
    also have "digits (Suc k) (Suc h) = digits k (Suc m)"
      using digits_even [of k "Suc h"] odd by simp
    finally show ?thesis .
  qed
qed

definition acc_inv :: "(bytes \<Rightarrow> bytes) \<Rightarrow> log_accumulator \<Rightarrow> bytes list \<Rightarrow> bool" where
  "acc_inv sha acc ls \<longleftrightarrow> unat (acc_tree_size acc) = length ls \<and>
     rev (acc_peaks acc) = peak_values sha (\<lambda>i. ls ! i) (length ls) (digits 0 (length ls))"

lemma acc_inv_new: "acc_inv sha acc_new []"
  by (simp add: acc_inv_def acc_new_def)

lemma peak_values_extend:
  "peak_values sha (\<lambda>i. ls ! i) (length ls) (digits 0 (length ls)) =
    peak_values sha (\<lambda>i. (ls @ ms) ! i) (length (ls @ ms)) (digits 0 (length ls))"
proof -
  have "subtree_value sha (\<lambda>i. ls ! i) (length ls) k lo =
      subtree_value sha (\<lambda>i. (ls @ ms) ! i) (length (ls @ ms)) k lo"
    if "(k, lo) \<in> set (digits 0 (length ls))" for k lo
    using digits_level [OF that] by (intro subtree_value_full) (simp_all add: nth_append)
  then show ?thesis unfolding peak_values_def by auto
qed

lemma acc_inv_append:
  assumes "acc_inv sha acc ls" and "length ls < 2 ^ 64 - 1"
  shows "acc_inv sha (append_leaf sha leaf acc) (ls @ [leaf])"
proof -
  have "unat (acc_tree_size acc + 1) = length (ls @ [leaf])"
    using assms by (simp add: acc_inv_def unat_word_ariths)
  moreover have "merge_peaks sha ((0, leaf) # rev (acc_peaks acc)) =
      peak_values sha (\<lambda>i. (ls @ [leaf]) ! i) (length (ls @ [leaf])) (digits 0 (length (ls @ [leaf])))"
    using merge_peaks_digits [of "length ls" 0 "length (ls @ [leaf])" sha "\<lambda>i. (ls @ [leaf]) ! i"]
      assms(1) peak_values_extend [of sha ls "[leaf]"]
    by (simp add: acc_inv_def)
  ultimately show ?thesis by (simp add: acc_inv_def append_leaf_def)
qed

section \<open>Folding the peaks is the recursion of the specification\<close>

lemma fold_peaks:
  assumes "0 < k" and "m * 2 ^ k < n" and "n \<le> Suc m * 2 ^ k"
  shows "\<exists>j. n \<le> 2 ^ j \<and>
    fold (\<lambda>(h, v) acc. log_parent_value sha v (h = 0) acc False) (peak_values sha f n (digits k m))
      (subtree_value sha f n k (m * 2 ^ k)) = subtree_value sha f n j 0"
  using assms
proof (induction m arbitrary: k rule: less_induct)
  case (less m)
  show ?case
  proof (cases "m = 0")
    case True
    then show ?thesis using less.prems by (intro exI [of _ k]) simp
  next
    case False
    have IH: "\<exists>j. n \<le> 2 ^ j \<and>
      fold (\<lambda>(h, v) acc. log_parent_value sha v (h = 0) acc False)
        (peak_values sha f n (digits (Suc k) h))
        (subtree_value sha f n (Suc k) (h * 2 ^ Suc k)) = subtree_value sha f n j 0"
      if "h < m" "h * 2 ^ Suc k < n" "n \<le> Suc h * 2 ^ Suc k" for h
      using less.IH [OF that(1), of "Suc k"] that by simp
    show ?thesis
    proof (cases m rule: even_odd_cases)
      case (even h)
      have bounds: "h * 2 ^ Suc k < n" "n \<le> h * 2 ^ Suc k + 2 ^ k"
        using less.prems(2,3) unfolding even block_pos by simp_all
      then have "n \<le> Suc h * 2 ^ Suc k" unfolding block_pos(4) by linarith
      moreover have "subtree_value sha f n (Suc k) (h * 2 ^ Suc k) = subtree_value sha f n k (m * 2 ^ k)"
        unfolding even block_pos using bounds(2) by simp
      ultimately show ?thesis
        using IH [of h] bounds(1) False even by (simp only: digits_even)
    next
      case (odd h)
      have bounds: "h * 2 ^ Suc k + 2 ^ k < n" "n \<le> Suc h * 2 ^ Suc k"
        using less.prems(2,3) unfolding odd block_pos by simp_all
      then have "subtree_value sha f n (Suc k) (h * 2 ^ Suc k) =
          log_parent_value sha (subtree_value sha f n k (h * 2 ^ Suc k)) False
            (subtree_value sha f n k (m * 2 ^ k)) False"
        unfolding odd block_pos using less.prems(1) by simp
      moreover have "h * 2 ^ Suc k < n" using bounds(1) by linarith
      ultimately show ?thesis
        using IH [of h] bounds(2) odd less.prems(1) by (simp add: digits_odd)
    qed
  qed
qed

lemma lowest_peak:
  assumes "0 < m" and "n = m * 2 ^ k"
  shows "\<exists>j v0 m'. peak_values sha f n (digits k m) = (j, v0) # peak_values sha f n (digits (Suc j) m') \<and>
    v0 = subtree_value sha f n (Suc j) (m' * 2 ^ Suc j) \<and> m' * 2 ^ Suc j < n \<and> n \<le> Suc m' * 2 ^ Suc j"
  using assms
proof (induction m arbitrary: k rule: less_induct)
  case (less m)
  show ?case
  proof (cases m rule: even_odd_cases)
    case (even h)
    have "h < m" "0 < h" "n = h * 2 ^ Suc k"
      using less.prems even block_pos(1) [of h k] by simp_all
    from less.IH [OF this] show ?thesis using even by (simp only: digits_even)
  next
    case (odd h)
    have n: "n = h * 2 ^ Suc k + 2 ^ k" using less.prems(2) unfolding odd block_pos .
    have pos: "(0 :: nat) < 2 ^ k" by simp
    show ?thesis
    proof (intro exI conjI)
      show "peak_values sha f n (digits k m) =
          (k, subtree_value sha f n k (h * 2 ^ Suc k)) # peak_values sha f n (digits (Suc k) h)"
        unfolding odd digits_odd by simp
      show "subtree_value sha f n k (h * 2 ^ Suc k) = subtree_value sha f n (Suc k) (h * 2 ^ Suc k)"
        using n by simp
      show "h * 2 ^ Suc k < n" using n pos by linarith
      show "n \<le> Suc h * 2 ^ Suc k" unfolding block_pos(4) using n by linarith
    qed
  qed
qed

lemma acc_root:
  assumes "acc_inv sha acc ls"
  shows "acc_calculate_root sha acc = Inr (root_value sha ls)"
proof (cases "ls = []")
  case True
  then have "acc_tree_size acc = 0" using assms by (simp add: acc_inv_def unat_eq_zero)
  then show ?thesis using True by (simp add: acc_calculate_root_def root_value_def)
next
  case False
  let ?n = "length ls" and ?f = "\<lambda>i. ls ! i"
  have n: "0 < ?n" using False by simp
  then have "acc_tree_size acc \<noteq> 0" using assms by (auto simp: acc_inv_def)
  obtain j v0 m' where p: "peak_values sha ?f ?n (digits 0 ?n) = (j, v0) # peak_values sha ?f ?n (digits (Suc j) m')"
    "v0 = subtree_value sha ?f ?n (Suc j) (m' * 2 ^ Suc j)" "m' * 2 ^ Suc j < ?n" "?n \<le> Suc m' * 2 ^ Suc j"
    using lowest_peak [of ?n ?n 0 sha ?f] n by auto
  obtain i where i: "?n \<le> 2 ^ i"
    "fold (\<lambda>(h, v) acc. log_parent_value sha v (h = 0) acc False)
        (peak_values sha ?f ?n (digits (Suc j) m')) v0 = subtree_value sha ?f ?n i 0"
    using fold_peaks [OF _ p(3,4), of sha ?f] p(2) by auto
  have "tree_height ?n \<le> i"
  proof (rule ccontr)
    assume "\<not> tree_height ?n \<le> i"
    then have le: "i \<le> tree_height ?n - 1" "tree_height ?n \<noteq> 0" by simp_all
    have "2 ^ i \<le> (2 :: nat) ^ (tree_height ?n - 1)" using le(1) by (intro power_increasing) auto
    then show False using i(1) tree_height_spec(2) [of ?n] le(2) by linarith
  qed
  then obtain d where "i = tree_height ?n + d" using le_Suc_ex by blast
  then have "subtree_value sha ?f ?n i 0 = subtree_value sha ?f ?n (tree_height ?n) 0"
    using subtree_value_collapse [of 0 ?n "tree_height ?n" sha ?f d] n tree_height_spec(1) [of ?n] by simp
  then show ?thesis
    using assms i(2) p(1) False \<open>acc_tree_size acc \<noteq> 0\<close>
    by (simp add: acc_calculate_root_def root_value_def acc_inv_def)
qed

lemma acc_inv_fold:
  "acc_inv sha acc ls \<Longrightarrow> length ls + length ms < 2 ^ 64 \<Longrightarrow>
    acc_inv sha (fold (append_leaf sha) ms acc) (ls @ ms)"
proof (induction ms arbitrary: acc ls)
  case (Cons m ms)
  then have "acc_inv sha (append_leaf sha m acc) (ls @ [m])" by (intro acc_inv_append) simp_all
  from Cons.IH [OF this] Cons.prems(2) show ?case by simp
qed simp

section \<open>Rebuilding from the full-subtree values\<close>

lemma digits_top:
  assumes "m < 2 ^ l"
  shows "digits k (2 ^ l + m) = map (\<lambda>(j, lo). (j, lo + 2 ^ (k + l))) (digits k m) @ [(k + l, 0)]"
  using assms
proof (induction l arbitrary: k m)
  case 0
  then show ?case using digits_odd [of k 0] by simp
next
  case (Suc l)
  show ?case
  proof (cases m rule: even_odd_cases)
    case (even h)
    then have "h < 2 ^ l" and split: "2 ^ Suc l + m = 2 * (2 ^ l + h)" using Suc.prems by simp_all
    show ?thesis
      unfolding split digits_even unfolding even digits_even
      using Suc.IH [OF \<open>h < 2 ^ l\<close>, of "Suc k"] by simp
  next
    case (odd h)
    then have "h < 2 ^ l" and split: "2 ^ Suc l + m = Suc (2 * (2 ^ l + h))" using Suc.prems by simp_all
    show ?thesis
      unfolding split digits_odd unfolding odd digits_odd
      using Suc.IH [OF \<open>h < 2 ^ l\<close>, of "Suc k"] by (simp add: algebra_simps power_add)
  qed
qed

lemma get_roots_loop_digits:
  assumes "a + s \<le> 2 ^ 63" and "unat n = s" and "unat offset = a" and "2 ^ Suc (log2 n) dvd a"
  shows "list_all2 (\<lambda>r (j, lo). subtree_root (a + lo) j r) (get_roots_loop n offset) (rev (digits 0 s))"
  using assms
proof (induction s arbitrary: a n offset rule: less_induct)
  case (less s)
  show ?case
  proof (cases "s = 0")
    case True
    then have "n = 0" using less.prems(2) by (simp add: unat_eq_zero)
    then show ?thesis using True by (simp add: get_roots_loop.simps [of 0])
  next
    case False
    let ?L = "log2 n"
    obtain r where r: "get_roots_loop n offset =
        r # get_roots_loop (n - shl64 1 ?L) (offset + shl64 1 ?L)" "subtree_root a ?L r"
      "unat (n - shl64 1 ?L) = s - 2 ^ ?L" "unat (offset + shl64 1 ?L) = a + 2 ^ ?L"
      using get_roots_step [of s a n offset] False less.prems by auto
    have n0: "n \<noteq> 0" using False less.prems(2) by auto
    have le: "2 ^ ?L \<le> s" "s < 2 ^ Suc ?L"
      using log2_lower [OF n0] log2_upper [of n] less.prems(2) by simp_all
    then have s: "s - 2 ^ ?L < 2 ^ ?L" "2 ^ ?L + (s - 2 ^ ?L) = s" "s - 2 ^ ?L < s" using False by auto
    have "list_all2 (\<lambda>r (j, lo). subtree_root (a + 2 ^ ?L + lo) j r)
        (get_roots_loop (n - shl64 1 ?L) (offset + shl64 1 ?L)) (rev (digits 0 (s - 2 ^ ?L)))"
    proof (cases "s - 2 ^ ?L = 0")
      case True
      then have "n - shl64 1 ?L = 0" using r(3) by (simp add: unat_eq_zero)
      then show ?thesis using True by (simp add: get_roots_loop.simps [of 0])
    next
      case more: False
      let ?n = "n - shl64 1 ?L"
      have "?n \<noteq> 0" using more r(3) by auto
      then have "2 ^ log2 ?n \<le> s - 2 ^ ?L" using log2_lower [of ?n] r(3) by simp
      then have "2 ^ log2 ?n < (2 :: nat) ^ ?L" using s(1) by linarith
      then have "log2 ?n < ?L" by (simp add: power_strict_increasing_iff)
      then show ?thesis
        using less.IH [OF s(3), of "a + 2 ^ ?L"] r(3,4) less.prems s dvd_rest [OF less.prems(4)] by simp
    qed
    moreover have "rev (digits 0 s) = (?L, 0) # map (\<lambda>(j, lo). (j, lo + 2 ^ ?L)) (rev (digits 0 (s - 2 ^ ?L)))"
      using digits_top [OF s(1), of 0] s(2) by (simp add: rev_map)
    ultimately show ?thesis
      using r(1,2) by (simp add: list_all2_map2 split_def add.assoc add.commute add.left_commute)
  qed
qed

lemma get_roots_digits:
  assumes "unat n \<le> 2 ^ 63"
  shows "list_all2 (\<lambda>r (j, lo). subtree_root lo j r) (get_roots n) (rev (digits 0 (unat n)))"
  using get_roots_loop_digits [of 0 "unat n" n 0] assms by (simp add: get_roots_def)

text \<open>The values of the full subtrees of a list of leaves, by node.\<close>

definition node_value :: "(bytes \<Rightarrow> bytes) \<Rightarrow> bytes list \<Rightarrow> u64 \<Rightarrow> bytes" where
  "node_value sha ls r =
     subtree_value sha (\<lambda>i. ls ! i) (length ls) (level r) (unat (leftmost_leaf_index r))"

lemma node_value_eq:
  "subtree_root a k r \<Longrightarrow> node_value sha ls r = subtree_value sha (\<lambda>i. ls ! i) (length ls) k a"
  by (simp add: node_value_def subtree_root_leaves(1)) (simp add: subtree_root_def)

lemma from_peaks_inv:
  assumes "unat n = length ls" and "length ls \<le> 2 ^ 63"
  shows "\<exists>acc. from_peaks n (map (node_value sha ls) (get_roots n)) = Inr acc \<and> acc_inv sha acc ls"
proof -
  let ?peaks = "map (\<lambda>r. (level r, node_value sha ls r)) (get_roots n)"
  have all: "list_all2 (\<lambda>r (j, lo). subtree_root lo j r) (get_roots n) (rev (digits 0 (length ls)))"
    using get_roots_digits [of n] assms by simp
  have "?peaks = peak_values sha (\<lambda>i. ls ! i) (length ls) (rev (digits 0 (length ls)))"
    unfolding peak_values_def
    using all by (induction rule: list_all2_induct) (auto simp: node_value_eq subtree_root_level)
  then have "rev ?peaks = peak_values sha (\<lambda>i. ls ! i) (length ls) (digits 0 (length ls))"
    by (simp add: peak_values_def rev_map [symmetric])
  then show ?thesis
    using assms(1) by (simp add: from_peaks_def Let_def acc_inv_def zip_map2 zip_same_conv_map rev_map [symmetric] comp_def)
qed

lemma accumulator_from_peaks_eq:
  assumes "unat n = length ls" and "length ls \<le> 2 ^ 63"
  shows "accumulator_from_peaks sha n (map (node_value sha ls) (get_roots n)) = Inr (root_value sha ls)"
  using from_peaks_inv [OF assms, of sha] acc_root by (auto simp: accumulator_from_peaks_def)

section \<open>Properties\<close>

text \<open>C18. The auditor's accumulator is the Merkle tree. Starting empty, or from the
  full-subtree values of any tree as the retained state of a client or a bootstrap gives
  them, and appending leaves one by one, its root is the root of the specification over all
  the leaves.\<close>

theorem accumulator_computes_root:
  assumes "unat n = length ls" and "length ls + length ms \<le> 2 ^ 63"
  shows "\<exists>acc. from_peaks n (map (node_value sha ls) (get_roots n)) = Inr acc \<and>
    acc_calculate_root sha (fold (append_leaf sha) ms acc) = Inr (root_value sha (ls @ ms))"
proof -
  obtain acc where acc: "from_peaks n (map (node_value sha ls) (get_roots n)) = Inr acc" "acc_inv sha acc ls"
    using from_peaks_inv [of n ls sha] assms by auto
  have "acc_inv sha (fold (append_leaf sha) ms acc) (ls @ ms)"
    using acc(2) assms(2) by (intro acc_inv_fold) simp_all
  with acc(1) show ?thesis using acc_root by blast
qed

lemma accumulator_computes_root_witness:
  "\<exists>acc. from_peaks 3 (map (node_value (take 32) [[1], [2], [3]]) (get_roots 3)) = Inr acc \<and>
    acc_calculate_root (take 32) (fold (append_leaf (take 32)) [[4], [5]] acc) =
      Inr (root_value (take 32) ([[1], [2], [3]] @ [[4], [5]]))"
  by (rule accumulator_computes_root) simp_all

end
