(* ===== verification/LogProofs.thy ===== *)
theory LogProofs
  imports LogTreeProps AccumulatorProps
begin

text \<open>
  The server's batch proofs (\<open>get_batch_proof_for_nodes\<close>) against the client's check
  (\<open>calculate_root_capturing\<close>). Both sides decide which nodes a proof carries by climbing
  from the leaves; the lemmas on climbing give them one description, that a node covers one
  of the leaves, and the two recursions then go in step.
\<close>

section \<open>Climbing\<close>

lemma log_height_le:
  assumes "0 < m" and "m \<le> 2 ^ e"
  shows "tree_height m \<le> e"
proof (rule ccontr)
  assume "\<not> tree_height m \<le> e"
  then have le: "e \<le> tree_height m - 1" "tree_height m \<noteq> 0" by simp_all
  have "2 ^ e \<le> (2 :: nat) ^ (tree_height m - 1)" using le(1) by (intro power_increasing) auto
  then show False using assms(2) tree_height_spec(2) [of m] le(2) by linarith
qed

text \<open>Nodes of the infinite tree that lie under the root of a log of size \<open>n\<close>.\<close>

definition under_root :: "u64 \<Rightarrow> nat \<Rightarrow> nat \<Rightarrow> u64 \<Rightarrow> bool" where
  "under_root n a k r \<longleftrightarrow> subtree_root a k r \<and> k \<le> tree_height (unat n) \<and> a < 2 ^ tree_height (unat n)"

lemma under_root_top:
  assumes "0 < unat n" and "unat n \<le> 2 ^ 62" and "under_root n a (tree_height (unat n)) r"
  shows "a = 0 \<and> r = merkle_root n"
proof -
  have "2 ^ tree_height (unat n) dvd a" "a < 2 ^ tree_height (unat n)"
    using assms(3) subtree_root_dvd by (auto simp: under_root_def)
  then have "a = 0" by (metis dvd_imp_le not_gr_zero not_less)
  moreover have "subtree_root 0 (tree_height (unat n)) (merkle_root n)"
    using assms(1,2) by (intro merkle_root_subtree) simp_all
  ultimately show ?thesis using assms(3) subtree_root_unique by (auto simp: under_root_def)
qed

lemma under_root_parent:
  assumes "0 < unat n" and "unat n \<le> 2 ^ 62" and "under_root n b j cur" and "j < tree_height (unat n)"
  shows "under_root n (round_down (Suc j) b) (Suc j) (parent cur n)"
proof -
  have "tree_height (unat n) \<le> 62" using assms(1,2) by (rule log_height_le)
  then have "subtree_root (round_down (Suc j) b) (Suc j) (parent cur n)"
    using assms(3,4) by (intro subtree_root_parent) (auto simp: under_root_def)
  moreover have "round_down (Suc j) b < 2 ^ tree_height (unat n)"
    using assms(3) round_down_le [of "Suc j" b] by (simp add: under_root_def)
  ultimately show ?thesis using assms(4) by (simp add: under_root_def)
qed

lemma not_top:
  assumes "0 < unat n" and "unat n \<le> 2 ^ 62" and "under_root n b j cur"
  shows "cur = merkle_root n \<longleftrightarrow> j = tree_height (unat n)"
proof -
  have top: "subtree_root 0 (tree_height (unat n)) (merkle_root n)"
    using assms(1,2) by (intro merkle_root_subtree) simp_all
  show ?thesis
    using assms under_root_top [OF assms(1,2), of b cur] subtree_root_level [OF top]
      subtree_root_level [of b j cur] by (auto simp: under_root_def)
qed

lemma same_node: "subtree_root a k r \<Longrightarrow> subtree_root b j r \<Longrightarrow> a = b \<and> k = j"
  by (metis subtree_root_leaves(1) subtree_root_level)

lemma climb_eq:
  assumes n: "0 < unat n" "unat n \<le> 2 ^ 62" and r: "under_root n a k r"
  shows "under_root n b j cur \<Longrightarrow> climb r n cur = Some (j \<le> k \<and> round_down k b = a)"
proof (induction "tree_height (unat n) - j" arbitrary: b j cur rule: less_induct)
  case less
  have cur: "subtree_root b j cur" using less.prems by (simp add: under_root_def)
  show ?case
  proof (cases "cur = r")
    case True
    then have "b = a" "j = k" using same_node [OF cur] r by (auto simp: under_root_def)
    then show ?thesis
      using True round_down_id [OF subtree_root_dvd [OF cur]] by (simp add: climb.simps [of r n r])
  next
    case False
    have ne: "\<not> (j = k \<and> b = a)"
      using False cur r subtree_root_unique by (auto simp: under_root_def)
    show ?thesis
    proof (cases "j = tree_height (unat n)")
      case True
      then have top: "b = 0" "cur = merkle_root n" using under_root_top [OF n] less.prems by blast+
      have "\<not> (j \<le> k \<and> round_down k b = a)"
        using True r ne top(1) by (auto simp: under_root_def round_down_def)
      then show ?thesis using False top by (simp add: climb.simps [of r n "merkle_root n"])
    next
      case below: False
      then have lt: "j < tree_height (unat n)" using less.prems by (simp add: under_root_def)
      have "cur \<noteq> merkle_root n" using not_top [OF n less.prems] below by simp
      then have "climb r n cur = climb r n (parent cur n)"
        using False by (simp add: climb.simps [of r n cur])
      also have "\<dots> = Some (Suc j \<le> k \<and> round_down k (round_down (Suc j) b) = a)"
        using less.hyps [OF _ under_root_parent [OF n less.prems lt]] lt by simp
      also have "\<dots> = Some (j \<le> k \<and> round_down k b = a)"
        using ne round_down_round_down [of "Suc j" k b] round_down_id [OF subtree_root_dvd [OF cur]]
        by (cases "j < k") auto
      finally show ?thesis .
    qed
  qed
qed

lemma ascend_eq:
  assumes n: "0 < unat n" "unat n \<le> 2 ^ 62" and r: "under_root n a k r"
  shows "under_root n b j cur \<Longrightarrow> tree_height (unat n) \<le> j + fuel \<Longrightarrow>
    r \<in> set (ascend fuel (merkle_root n) n cur) \<longleftrightarrow> j < k \<and> round_down k b = a"
proof (induction fuel arbitrary: b j cur)
  case 0
  then show ?case using r by (auto simp: under_root_def)
next
  case (Suc fuel)
  show ?case
  proof (cases "j = tree_height (unat n)")
    case True
    then show ?thesis using not_top [OF n Suc.prems(1)] r by (auto simp: under_root_def)
  next
    case False
    then have lt: "j < tree_height (unat n)" using Suc.prems by (simp add: under_root_def)
    let ?p = "parent cur n"
    have p: "under_root n (round_down (Suc j) b) (Suc j) ?p"
      using under_root_parent [OF n Suc.prems(1) lt] .
    have "r = ?p \<longleftrightarrow> Suc j = k \<and> round_down (Suc j) b = a"
      using p r same_node subtree_root_unique by (auto simp: under_root_def)
    moreover have "r \<in> set (ascend fuel (merkle_root n) n ?p) \<longleftrightarrow>
        Suc j < k \<and> round_down k (round_down (Suc j) b) = a"
      using Suc.IH [OF p] Suc.prems(2) by simp
    moreover have "cur \<noteq> merkle_root n" using not_top [OF n Suc.prems(1)] False by simp
    ultimately show ?thesis
      using round_down_round_down [of "Suc j" k b]
      by (cases "Suc j = k") (auto simp: Let_def)
  qed
qed

section \<open>One description for both sides\<close>

definition covers :: "u64 list \<Rightarrow> nat \<Rightarrow> nat \<Rightarrow> bool" where
  "covers idxs k a \<longleftrightarrow> (\<exists>i\<in>set idxs. round_down k (unat i) = a)"

lemma leaf_under_root:
  assumes "0 < unat n" and "unat n \<le> 2 ^ 62" and "unat i < unat n"
  shows "under_root n (unat i) 0 (i * 2)"
  using assms leaf_node_word [of i] tree_height_spec(1) [of "unat n"] by (simp add: under_root_def)

lemma node_is_leaf:
  assumes "under_root n a k r" and "0 < unat n" and "unat n \<le> 2 ^ 62" and "unat i < unat n"
  shows "r = i * 2 \<longleftrightarrow> k = 0 \<and> unat i = a"
proof
  have r: "subtree_root a k r" and l: "subtree_root (unat i) 0 (i * 2)"
    using assms(1) leaf_under_root [OF assms(2-4)] by (simp_all add: under_root_def)
  show "r = i * 2 \<Longrightarrow> k = 0 \<and> unat i = a" using same_node [of a k r "unat i" 0] r l by simp
  show "k = 0 \<and> unat i = a \<Longrightarrow> r = i * 2" using subtree_root_unique r l by blast
qed

lemma in_skeleton:
  assumes n: "0 < unat n" "unat n \<le> 2 ^ 62" and r: "under_root n a k r"
    and idxs: "\<forall>i\<in>set idxs. unat i < unat n"
  shows "r \<in> leaf_skeleton (merkle_root n) n idxs \<longleftrightarrow> covers idxs k a"
proof -
  have h: "tree_height (unat n) \<le> 0 + 64"
    using log_height_le [OF n] by simp
  have "r \<in> set (i * 2 # ascend 64 (merkle_root n) n (i * 2)) \<longleftrightarrow> round_down k (unat i) = a"
    if "i \<in> set idxs" for i
  proof -
    have i: "unat i < unat n" using that idxs by blast
    note u = leaf_under_root [OF n i]
    have "round_down 0 (unat i) = unat i" by (simp add: round_down_def)
    then show ?thesis
      using node_is_leaf [OF r n i] ascend_eq [OF n r u h] by (cases "k = 0") auto
  qed
  then have "(\<exists>i\<in>set idxs. r \<in> set (i * 2 # ascend 64 (merkle_root n) n (i * 2))) \<longleftrightarrow> covers idxs k a"
    unfolding covers_def by blast
  then show ?thesis by (simp add: leaf_skeleton_def Let_def)
qed

lemma is_ancestor_eq:
  assumes n: "0 < unat n" "unat n \<le> 2 ^ 62" and r: "under_root n a k r"
    and nodes: "fst ` set nodes = (\<lambda>i. i * 2) ` set idxs" and idxs: "\<forall>i\<in>set idxs. unat i < unat n"
  shows "is_ancestor r n nodes = Inr (covers idxs k a)"
proof -
  have climb: "climb r n (i * 2) = Some (round_down k (unat i) = a)" if "i \<in> set idxs" for i
  proof -
    have "unat i < unat n" using that idxs by blast
    from climb_eq [OF n r leaf_under_root [OF n this]] show ?thesis by simp
  qed
  have "is_ancestor r n nodes = Inr (\<exists>x\<in>set nodes. climb r n (fst x) = Some True)"
    unfolding is_ancestor_def
  proof (rule any_res_eq)
    fix x
    assume "x \<in> set nodes"
    then have "fst x \<in> (\<lambda>i. i * 2) ` set idxs" unfolding nodes [symmetric] by (rule imageI)
    then obtain i where "i \<in> set idxs" "fst x = i * 2" by blast
    then show "(case x of (leaf_node_id, _) \<Rightarrow> ok_or (climb r n leaf_node_id) Hang) =
        Inr (climb r n (fst x) = Some True)"
      using climb by (cases x) simp
  qed
  also have "(\<exists>x\<in>set nodes. climb r n (fst x) = Some True) \<longleftrightarrow>
      (\<exists>y\<in>(\<lambda>i. i * 2) ` set idxs. climb r n y = Some True)" unfolding nodes [symmetric] by simp
  also have "\<dots> \<longleftrightarrow> covers idxs k a" unfolding covers_def using climb by simp
  finally show ?thesis .
qed

lemma map_of_functional:
  "(\<forall>e\<in>set xs. snd e = g (fst e)) \<Longrightarrow> map_of xs x = (if x \<in> fst ` set xs then Some (g x) else None)"
  by (induction xs) auto

lemma leaf_in_nodes:
  assumes "under_root n a k r" and "0 < unat n" and "unat n \<le> 2 ^ 62" and "\<forall>i\<in>set idxs. unat i < unat n"
  shows "r \<in> (\<lambda>i. i * 2) ` set idxs \<longleftrightarrow> k = 0 \<and> covers idxs k a"
proof -
  have "(r = i * 2) = (k = 0 \<and> unat i = a)" if "i \<in> set idxs" for i
    using node_is_leaf [OF assms(1-3)] assms(4) that by blast
  moreover have "round_down 0 x = x" for x by (simp add: round_down_def)
  ultimately have "(\<exists>i\<in>set idxs. r = i * 2) \<longleftrightarrow> k = 0 \<and> covers idxs k a"
    unfolding covers_def by auto
  then show ?thesis by blast
qed

lemma under_root_left:
  "under_root n a (Suc k) r \<Longrightarrow> under_root n a k (left_child r)"
  using subtree_root_left by (auto simp: under_root_def)

lemma under_root_right:
  "under_root n a (Suc k) r \<Longrightarrow> a + 2 ^ k < unat n \<Longrightarrow> under_root n (a + 2 ^ k) k (internal_right r)"
  using subtree_root_internal_right tree_height_spec(1) [of "unat n"]
  by (fastforce simp: under_root_def)

section \<open>The two recursions in step\<close>

definition captured_ok :: "(bytes \<Rightarrow> bytes) \<Rightarrow> bytes list \<Rightarrow> (u64 \<rightharpoonup> bytes) \<Rightarrow> bool" where
  "captured_ok sha ls cap \<longleftrightarrow> (\<forall>x v. cap x = Some v \<longrightarrow> v = node_value sha ls x)"

lemma captured_ok_record:
  "captured_ok sha ls cap \<Longrightarrow> captured_ok sha ls (record_node wanted r (node_value sha ls r) cap)"
  by (auto simp: captured_ok_def record_node_def)

lemma dom_record: "dom (record_node wanted r v cap) = (if r \<in> wanted then insert r (dom cap) else dom cap)"
  by (simp add: record_node_def)

text \<open>
  The wanted nodes a call must have captured: the full subtrees inside its own that cover a
  provided leaf.
\<close>

definition wanted_below :: "u64 list \<Rightarrow> nat \<Rightarrow> u64 set \<Rightarrow> nat \<Rightarrow> nat \<Rightarrow> u64 set" where
  "wanted_below idxs n wanted k a =
     {x \<in> wanted. \<exists>j b. subtree_root b j x \<and> a \<le> b \<and> b + 2 ^ j \<le> a + 2 ^ k \<and> b < n \<and> j \<le> k \<and> covers idxs j b}"

lemma wanted_below_split:
  assumes r: "subtree_root a (Suc k) r"
  shows "wanted_below idxs n wanted (Suc k) a \<subseteq>
    (if r \<in> wanted then {r} else {}) \<union> wanted_below idxs n wanted k a \<union>
    (if a + 2 ^ k < n then wanted_below idxs n wanted k (a + 2 ^ k) else {})"
proof
  fix x
  assume "x \<in> wanted_below idxs n wanted (Suc k) a"
  then obtain j b where x: "x \<in> wanted" "subtree_root b j x" "a \<le> b" "b + 2 ^ j \<le> a + 2 ^ Suc k"
    "b < n" "j \<le> Suc k" "covers idxs j b" by (auto simp: wanted_below_def)
  show "x \<in> (if r \<in> wanted then {r} else {}) \<union> wanted_below idxs n wanted k a \<union>
      (if a + 2 ^ k < n then wanted_below idxs n wanted k (a + 2 ^ k) else {})"
  proof (cases "j = Suc k")
    case True
    then have "b = a" using x(3,4) by simp
    then have "x = r" using True x(2) r subtree_root_unique by blast
    then show ?thesis using x(1) by simp
  next
    case False
    then have j: "j \<le> k" using x(6) by simp
    obtain p where p: "b = 2 ^ j * p" using subtree_root_dvd [OF x(2)] by (auto simp: dvd_def)
    obtain q where q: "a + 2 ^ k = 2 ^ j * q"
    proof -
      have "2 ^ Suc k dvd a" using r by (rule subtree_root_dvd)
      moreover have "2 ^ k dvd (2 :: nat) ^ Suc k" by simp
      ultimately have "2 ^ k dvd a + 2 ^ k" by (meson dvd_add dvd_refl dvd_trans)
      then have "2 ^ j dvd a + 2 ^ k" using j by (meson dvd_trans le_imp_power_dvd)
      then show thesis using that by (auto simp: dvd_def)
    qed
    have "b + 2 ^ j \<le> a + 2 ^ k \<or> a + 2 ^ k \<le> b"
    proof (cases "q \<le> p")
      case True
      then show ?thesis using p q by simp
    next
      case False
      then have "2 ^ j * Suc p \<le> 2 ^ j * q" by (intro mult_le_mono2) simp
      then show ?thesis using p q by simp
    qed
    then show ?thesis
    proof
      assume "b + 2 ^ j \<le> a + 2 ^ k"
      then have "x \<in> wanted_below idxs n wanted k a" using x j by (auto simp: wanted_below_def)
      then show ?thesis by blast
    next
      assume "a + 2 ^ k \<le> b"
      moreover from this have "x \<in> wanted_below idxs n wanted k (a + 2 ^ k)"
        unfolding wanted_below_def using x j
        by (intro CollectI conjI exI [of _ j] exI [of _ b]) simp_all
      ultimately show ?thesis using x(5) by simp
    qed
  qed
qed

lemma wanted_below_leaf:
  "subtree_root a 0 r \<Longrightarrow> wanted_below idxs n wanted 0 a \<subseteq> (if r \<in> wanted then {r} else {})"
  using subtree_root_unique by (fastforce simp: wanted_below_def)

lemma covers_round_down:
  assumes "covers idxs j b" and "j \<le> k" and "2 ^ k dvd a" and "a \<le> b" and "b + 2 ^ j \<le> a + 2 ^ k"
  shows "covers idxs k a"
proof -
  obtain i where i: "i \<in> set idxs" "round_down j (unat i) = b" using assms(1) by (auto simp: covers_def)
  have "b \<le> unat i" "unat i < b + 2 ^ j"
    using round_down_le [of j "unat i"] less_round_down [of "unat i" j] i(2) by simp_all
  then have "a \<le> unat i" "unat i < a + 2 ^ k" using assms(4,5) by simp_all
  moreover obtain m where m: "a = m * 2 ^ k" using assms(3) by (auto simp: dvd_def mult.commute)
  ultimately have "unat i div 2 ^ k = m" by (intro div_nat_eqI) (simp_all add: mult.commute)
  then have "round_down k (unat i) = a" using m by (simp add: round_down_def)
  then show ?thesis using i(1) by (auto simp: covers_def)
qed

lemma wanted_below_uncovered:
  "\<not> covers idxs k a \<Longrightarrow> subtree_root a k r \<Longrightarrow> wanted_below idxs n wanted k a = {}"
  using covers_round_down subtree_root_dvd by (fastforce simp: wanted_below_def)

text \<open>
  The client's inputs for an honest answer: the provided leaves are those of the log at the
  proof's indices, the retained values those of nodes of the log.
\<close>

definition honest_inputs :: "(bytes \<Rightarrow> bytes) \<Rightarrow> bytes list \<Rightarrow> u64 \<Rightarrow> u64 list \<Rightarrow>
    (u64 \<times> bytes) list \<Rightarrow> (u64 \<rightharpoonup> bytes) \<Rightarrow> bool" where
  "honest_inputs sha ls n idxs nodes retained \<longleftrightarrow>
     0 < unat n \<and> unat n \<le> 2 ^ 62 \<and> unat n = length ls \<and>
     (\<forall>i\<in>set idxs. unat i < unat n) \<and> fst ` set nodes = (\<lambda>i. i * 2) ` set idxs \<and>
     (\<forall>e\<in>set nodes. snd e = node_value sha ls (fst e)) \<and>
     (\<forall>x v. retained x = Some v \<longrightarrow> v = node_value sha ls x)"

lemma honest_inputsD:
  assumes "honest_inputs sha ls n idxs nodes retained"
  shows "0 < unat n" "unat n \<le> 2 ^ 62" "unat n = length ls" "\<forall>i\<in>set idxs. unat i < unat n"
    "fst ` set nodes = (\<lambda>i. i * 2) ` set idxs" "\<forall>e\<in>set nodes. snd e = node_value sha ls (fst e)"
    "\<And>x v. retained x = Some v \<Longrightarrow> v = node_value sha ls x"
  using assms unfolding honest_inputs_def by blast+

lemma needed_and_hashed:
  assumes honest: "honest_inputs sha ls n idxs nodes retained"
  shows "under_root n a k r \<Longrightarrow> a < length ls \<Longrightarrow>
   \<exists>ids. recursive_needed r n (leaf_skeleton (merkle_root n) n idxs) (dom retained) = Inr ids \<and>
     (\<forall>x\<in>set ids. \<exists>b j. under_root n b j x \<and> b < length ls) \<and>
     (\<forall>rest wanted cap. captured_ok sha ls cap \<longrightarrow>
       (\<exists>cap'. recursive_hash sha r n nodes (map (node_value sha ls) ids @ rest) retained wanted cap =
          Inr (node_value sha ls r, rest, cap') \<and>
        captured_ok sha ls cap' \<and> dom cap \<union> wanted_below idxs (length ls) wanted k a \<subseteq> dom cap'))"
proof (induction k arbitrary: a r)
  case 0
  note size = honest_inputsD(1-3) [OF honest] and inside = honest_inputsD(4) [OF honest]
    and keys = honest_inputsD(5) [OF honest] and leaves = honest_inputsD(6) [OF honest]
    and vals = honest_inputsD(7) [OF honest]
  note anc = is_ancestor_eq [OF size(1,2) 0(1) keys inside]
  note skel = in_skeleton [OF size(1,2) 0(1) inside]
  have r: "subtree_root a 0 r" using 0(1) by (simp add: under_root_def)
  have leaf: "is_leaf r" using subtree_root_level [OF r] by (simp add: is_leaf_level)
  have look: "map_of nodes r = (if covers idxs 0 a then Some (node_value sha ls r) else None)"
    using map_of_functional [OF leaves, of r] leaf_in_nodes [OF 0(1) size(1,2) inside] keys by simp
  have rec: "captured_ok sha ls cap \<Longrightarrow>
      \<exists>cap'. record_node wanted r (node_value sha ls r) cap = cap' \<and> captured_ok sha ls cap' \<and>
        dom cap \<union> wanted_below idxs (length ls) wanted 0 a \<subseteq> dom cap'" for wanted cap
    using captured_ok_record wanted_below_leaf [OF r, of idxs "length ls" wanted]
    by (auto simp: dom_record split: if_splits)
  consider (in_list) "covers idxs 0 a" | (retained) v where "\<not> covers idxs 0 a" "retained r = Some v"
    | (element) "\<not> covers idxs 0 a" "retained r = None" by fastforce
  then show ?case
  proof cases
    case in_list
    then show ?thesis
      using skel look leaf rec by (auto simp: recursive_needed.simps [of r] recursive_hash.simps [of sha r])
  next
    case retained
    then show ?thesis
      using skel look anc rec vals [OF retained(2)]
      by (auto simp: recursive_needed.simps [of r] recursive_hash.simps [of sha r])
  next
    case element
    then show ?thesis
      using skel look anc rec 0 by (auto simp: recursive_needed.simps [of r] recursive_hash.simps [of sha r] dom_def)
  qed
next
  case (Suc k)
  note size = honest_inputsD(1-3) [OF honest] and inside = honest_inputsD(4) [OF honest]
    and keys = honest_inputsD(5) [OF honest] and leaves = honest_inputsD(6) [OF honest]
    and vals = honest_inputsD(7) [OF honest]
  note anc = is_ancestor_eq [OF size(1,2) Suc.prems(1) keys inside]
  note skel = in_skeleton [OF size(1,2) Suc.prems(1) inside]
  have r: "subtree_root a (Suc k) r" using Suc.prems(1) by (simp add: under_root_def)
  have inner: "\<not> is_leaf r" using subtree_root_level [OF r] by (simp add: is_leaf_level)
  have look: "map_of nodes r = None"
    using map_of_functional [OF leaves, of r] leaf_in_nodes [OF Suc.prems(1) size(1,2) inside] keys by simp
  show ?case
  proof (cases "covers idxs (Suc k) a")
    case False
    then have none: "wanted_below idxs (length ls) wanted (Suc k) a = {}" for wanted
      using r by (rule wanted_below_uncovered)
    show ?thesis
    proof (cases "retained r")
      case None
      then show ?thesis
        using False skel look anc Suc.prems captured_ok_record none
        by (auto simp: recursive_needed.simps [of r] recursive_hash.simps [of sha r] dom_def [of retained] dom_record)
    next
      case (Some v)
      then show ?thesis
        using False skel look anc captured_ok_record none vals [OF Some]
        by (auto simp: recursive_needed.simps [of r] recursive_hash.simps [of sha r] dom_record)
    qed
  next
    case True
    have left: "under_root n a k (left_child r)" using Suc.prems(1) by (rule under_root_left)
    from Suc.IH [OF left Suc.prems(2)] obtain lids where
      lneed: "recursive_needed (left_child r) n (leaf_skeleton (merkle_root n) n idxs) (dom retained) = Inr lids" and
      lok: "\<forall>x\<in>set lids. \<exists>b j. under_root n b j x \<and> b < length ls" and
      lhash: "\<And>rest wanted cap. captured_ok sha ls cap \<Longrightarrow>
       \<exists>cap'. recursive_hash sha (left_child r) n nodes (map (node_value sha ls) lids @ rest) retained wanted cap =
          Inr (node_value sha ls (left_child r), rest, cap') \<and>
        captured_ok sha ls cap' \<and> dom cap \<union> wanted_below idxs (length ls) wanted k a \<subseteq> dom cap'"
      by blast
    have lval: "node_value sha ls (left_child r) = subtree_value sha (\<lambda>i. ls ! i) (length ls) k a"
      using left node_value_eq by (auto simp: under_root_def)
    have rval: "node_value sha ls r = subtree_value sha (\<lambda>i. ls ! i) (length ls) (Suc k) a"
      using r by (rule node_value_eq)
    show ?thesis
    proof (cases "length ls \<le> a + 2 ^ k")
      case collapsed: True
      have rc: "right_child r n = Inr (left_child r)"
        using subtree_root_right_child [OF r, of n] collapsed size(3) by simp
      have val: "node_value sha ls r = node_value sha ls (left_child r)"
        using lval rval collapsed by simp
      have need: "recursive_needed r n (leaf_skeleton (merkle_root n) n idxs) (dom retained) = Inr lids"
        using True skel inner rc lneed by (simp add: recursive_needed.simps [of r] Let_def)
      have "\<exists>cap'. recursive_hash sha r n nodes (map (node_value sha ls) lids @ rest) retained wanted cap =
          Inr (node_value sha ls r, rest, cap') \<and> captured_ok sha ls cap' \<and>
          dom cap \<union> wanted_below idxs (length ls) wanted (Suc k) a \<subseteq> dom cap'"
        if cap: "captured_ok sha ls cap" for rest wanted cap
      proof -
        obtain cap1 where c1: "recursive_hash sha (left_child r) n nodes
            (map (node_value sha ls) lids @ rest) retained wanted cap =
              Inr (node_value sha ls (left_child r), rest, cap1)"
          "captured_ok sha ls cap1" "dom cap \<union> wanted_below idxs (length ls) wanted k a \<subseteq> dom cap1"
          using lhash [OF cap] by blast
        let ?cap = "record_node wanted r (node_value sha ls r) cap1"
        have "recursive_hash sha r n nodes (map (node_value sha ls) lids @ rest) retained wanted cap =
            Inr (node_value sha ls r, rest, ?cap)"
          using True look anc inner rc c1(1) val by (simp add: recursive_hash.simps [of sha r] Let_def)
        moreover have "captured_ok sha ls ?cap" using c1(2) by (rule captured_ok_record)
        moreover have "dom cap \<union> wanted_below idxs (length ls) wanted (Suc k) a \<subseteq> dom ?cap"
          using c1(3) wanted_below_split [OF r, of idxs "length ls" wanted] collapsed
          by (auto simp: dom_record split: if_splits)
        ultimately show ?thesis by blast
      qed
      then show ?thesis using need lok by blast
    next
      case both: False
      let ?ir = "internal_right r"
      have rc: "right_child r n = Inr ?ir"
        using subtree_root_right_child [OF r, of n] both size(3) by simp
      have right: "under_root n (a + 2 ^ k) k ?ir"
        using under_root_right [OF Suc.prems(1)] both size(3) by simp
      from Suc.IH [OF right] both obtain rids where
        rneed: "recursive_needed ?ir n (leaf_skeleton (merkle_root n) n idxs) (dom retained) = Inr rids" and
        rok: "\<forall>x\<in>set rids. \<exists>b j. under_root n b j x \<and> b < length ls" and
        rhash: "\<And>rest wanted cap. captured_ok sha ls cap \<Longrightarrow>
         \<exists>cap'. recursive_hash sha ?ir n nodes (map (node_value sha ls) rids @ rest) retained wanted cap =
            Inr (node_value sha ls ?ir, rest, cap') \<and>
          captured_ok sha ls cap' \<and> dom cap \<union> wanted_below idxs (length ls) wanted k (a + 2 ^ k) \<subseteq> dom cap'"
        by (metis not_le)
      have ne: "left_child r \<noteq> ?ir" using r by (rule left_neq_internal_right)
      have lev: "level (left_child r) = k" "level ?ir = k"
        using left right subtree_root_level by (auto simp: under_root_def)
      have val: "node_value sha ls r = log_parent_value sha (node_value sha ls (left_child r)) (k = 0)
          (node_value sha ls ?ir) (k = 0)"
        using lval rval right both node_value_eq [of "a + 2 ^ k" k ?ir] by (simp add: under_root_def)
      have need: "recursive_needed r n (leaf_skeleton (merkle_root n) n idxs) (dom retained) = Inr (lids @ rids)"
        using True skel inner rc lneed rneed ne by (simp add: recursive_needed.simps [of r] Let_def)
      have "\<exists>cap'. recursive_hash sha r n nodes (map (node_value sha ls) (lids @ rids) @ rest) retained wanted cap =
          Inr (node_value sha ls r, rest, cap') \<and> captured_ok sha ls cap' \<and>
          dom cap \<union> wanted_below idxs (length ls) wanted (Suc k) a \<subseteq> dom cap'"
        if cap: "captured_ok sha ls cap" for rest wanted cap
      proof -
        obtain cap1 where c1: "recursive_hash sha (left_child r) n nodes
            (map (node_value sha ls) lids @ (map (node_value sha ls) rids @ rest)) retained wanted cap =
              Inr (node_value sha ls (left_child r), map (node_value sha ls) rids @ rest, cap1)"
          "captured_ok sha ls cap1" "dom cap \<union> wanted_below idxs (length ls) wanted k a \<subseteq> dom cap1"
          using lhash [OF cap] by blast
        obtain cap2 where c2: "recursive_hash sha ?ir n nodes (map (node_value sha ls) rids @ rest)
              retained wanted cap1 = Inr (node_value sha ls ?ir, rest, cap2)"
          "captured_ok sha ls cap2" "dom cap1 \<union> wanted_below idxs (length ls) wanted k (a + 2 ^ k) \<subseteq> dom cap2"
          using rhash [OF c1(2)] by blast
        let ?cap = "record_node wanted r (node_value sha ls r) cap2"
        have "recursive_hash sha r n nodes (map (node_value sha ls) (lids @ rids) @ rest) retained wanted cap =
            Inr (node_value sha ls r, rest, ?cap)"
          using True look anc inner rc c1(1) c2(1) val ne lev
          by (simp add: recursive_hash.simps [of sha r] Let_def is_leaf_level)
        moreover have "captured_ok sha ls ?cap" using c2(2) by (rule captured_ok_record)
        moreover have "dom cap \<union> wanted_below idxs (length ls) wanted (Suc k) a \<subseteq> dom ?cap"
        proof -
          have "wanted_below idxs (length ls) wanted (Suc k) a \<subseteq> (if r \<in> wanted then {r} else {}) \<union>
              wanted_below idxs (length ls) wanted k a \<union> wanted_below idxs (length ls) wanted k (a + 2 ^ k)"
            using wanted_below_split [OF r, of idxs "length ls" wanted] both by (simp only: not_le if_True)
          moreover have "dom ?cap = (if r \<in> wanted then {r} else {}) \<union> dom cap2"
            by (simp add: dom_record)
          ultimately show ?thesis using c1(3) c2(3) by blast
        qed
        ultimately show ?thesis by blast
      qed
      then show ?thesis using need lok rok by (metis Un_iff set_append)
    qed
  qed
qed

section \<open>The whole proof\<close>

lemma list_all2_partner: "list_all2 P xs ys \<Longrightarrow> x \<in> set xs \<Longrightarrow> \<exists>y\<in>set ys. P x y"
  by (induction rule: list_all2_induct) auto

lemma get_roots_full:
  assumes "unat n \<le> 2 ^ 63" and "r \<in> set (get_roots n)"
  shows "\<exists>j lo. subtree_root lo j r \<and> lo + 2 ^ j \<le> unat n"
proof -
  have "list_all2 (\<lambda>r (j, lo). subtree_root lo j r) (get_roots n) (rev (digits 0 (unat n)))"
    using assms(1) by (rule get_roots_digits)
  from list_all2_partner [OF this assms(2)] obtain j lo where
    "subtree_root lo j r" "(j, lo) \<in> set (digits 0 (unat n))" by auto
  then show ?thesis using digits_level [of j lo 0 "unat n"] by auto
qed

text \<open>What a client keeps of a log of \<open>n\<close> entries: the values of its full subtrees.\<close>

definition retained_of :: "(bytes \<Rightarrow> bytes) \<Rightarrow> bytes list \<Rightarrow> u64 \<Rightarrow> (u64 \<rightharpoonup> bytes)" where
  "retained_of sha ls n = map_of (map (\<lambda>r. (r, node_value sha (take (unat n) ls) r)) (get_roots n))"

lemma dom_retained_of: "dom (retained_of sha ls n) = set (get_roots n)"
  by (force simp: retained_of_def dom_map_of_conv_image_fst)

lemma node_value_take:
  assumes "r \<in> set (get_roots n)" and "unat n \<le> length ls" and "unat n \<le> 2 ^ 63"
  shows "node_value sha (take (unat n) ls) r = node_value sha ls r"
proof -
  obtain j lo where r: "subtree_root lo j r" "lo + 2 ^ j \<le> unat n"
    using get_roots_full assms by blast
  show ?thesis
    unfolding node_value_eq [OF r(1)] using r(2) assms(2) by (intro subtree_value_full) simp_all
qed

lemma retained_of_value:
  "retained_of sha ls n x = Some v \<Longrightarrow> unat n \<le> length ls \<Longrightarrow> unat n \<le> 2 ^ 63 \<Longrightarrow> v = node_value sha ls x"
  by (auto simp: retained_of_def node_value_take dest!: map_of_SomeD)

text \<open>Every full subtree whose last leaf is provided is wanted below the root.\<close>

lemma frontier_wanted:
  assumes n: "unat n \<le> 2 ^ 62" and r: "r \<in> set (get_roots n)" and "rightmost_leaf r div 2 \<in> set idxs"
  shows "r \<in> wanted_below idxs (unat n) (set (get_roots n)) (tree_height (unat n)) 0"
proof -
  obtain j lo where s: "subtree_root lo j r" "lo + 2 ^ j \<le> unat n"
    using get_roots_full [OF _ r] n by auto
  have j1: "(1 :: nat) \<le> 2 ^ j" by simp
  have last: "unat (rightmost_leaf r div 2) = lo + (2 ^ j - 1)"
    using subtree_root_leaves(2) [OF s(1)] j1 by linarith
  obtain m where m: "lo = m * 2 ^ j" using subtree_root_dvd [OF s(1)] by (auto simp: dvd_def mult.commute)
  have "(lo + (2 ^ j - 1)) div 2 ^ j = m"
    unfolding m by (subst div_mult_self3) simp_all
  then have "covers idxs j lo"
    using assms(3) last m unfolding covers_def by (intro bexI) (simp_all add: round_down_def)
  moreover have "lo + 2 ^ j \<le> 2 ^ tree_height (unat n)"
    using s(2) tree_height_spec(1) [of "unat n"] by linarith
  moreover from this have "(2 :: nat) ^ j \<le> 2 ^ tree_height (unat n)" by linarith
  then have "j \<le> tree_height (unat n)" by simp
  moreover have "lo < unat n" using s(2) j1 by linarith
  ultimately show ?thesis using r s(1) by (auto simp: wanted_below_def)
qed

lemma client_nodes:
  fixes idxs :: "u64 list"
  assumes "\<forall>i\<in>set idxs. unat i < length ls" and "length ls \<le> 2 ^ 62"
  defines "nodes \<equiv> sort_key fst (map (\<lambda>(i, h). (i * 2, h)) (zip idxs (map (\<lambda>i. ls ! unat i) idxs)))"
  shows "fst ` set nodes = (\<lambda>i. i * 2) ` set idxs" and "\<forall>e\<in>set nodes. snd e = node_value sha ls (fst e)"
proof -
  have set: "set nodes = (\<lambda>i. (i * 2, ls ! unat i)) ` set idxs"
    by (simp add: nodes_def zip_map2 zip_same_conv_map split_def image_image)
  show "fst ` set nodes = (\<lambda>i. i * 2) ` set idxs" unfolding set by (simp add: image_image)
  have "ls ! unat i = node_value sha ls (i * 2)" if "i \<in> set idxs" for i
  proof -
    have "unat i < 2 ^ 63" using that assms(1,2) by force
    from node_value_eq [OF leaf_node_word [OF this]] show ?thesis by simp
  qed
  then show "\<forall>e\<in>set nodes. snd e = node_value sha ls (fst e)" unfolding set by simp
qed

lemma batch_proof_complete:
  assumes rep: "log_rep st ls" and n: "unat n = length ls" "0 < unat n" "unat n \<le> 2 ^ 62"
    and inside: "\<forall>i\<in>set idxs. unat i < unat n" and last: "unat m \<le> unat n"
  shows "\<exists>pf cap. get_batch_proof_for_nodes sha st idxs n m [] = Inr pf \<and>
    calculate_root_capturing sha idxs (map (\<lambda>i. ls ! unat i) idxs) n pf (retained_of sha ls m) wanted =
      Inr (root_value sha ls, cap) \<and> captured_ok sha ls cap \<and>
    wanted_below idxs (length ls) wanted (tree_height (unat n)) 0 \<subseteq> dom cap"
proof -
  let ?nodes = "sort_key fst (map (\<lambda>(i, h). (i * 2, h)) (zip idxs (map (\<lambda>i. ls ! unat i) idxs)))"
  let ?top = "merkle_root n"
  have top: "subtree_root 0 (tree_height (unat n)) ?top" using n by (intro merkle_root_subtree) simp_all
  have retained: "dom (retained_of sha ls m) = retained_nodes m n"
    using last by (auto simp: dom_retained_of retained_nodes_def word_le_nat_alt word_gt_0 get_roots_def
        get_roots_loop.simps [of 0])
  have "honest_inputs sha ls n idxs ?nodes (retained_of sha ls m)"
    unfolding honest_inputs_def
    using n inside client_nodes [of idxs ls] last retained_of_value by auto
  from needed_and_hashed [OF this, of 0 "tree_height (unat n)" ?top] top n obtain ids where ids:
    "recursive_needed ?top n (leaf_skeleton ?top n idxs) (dom (retained_of sha ls m)) = Inr ids"
    "\<forall>x\<in>set ids. \<exists>b j. under_root n b j x \<and> b < length ls"
    "\<And>rest wanted cap. captured_ok sha ls cap \<Longrightarrow>
       \<exists>cap'. recursive_hash sha ?top n ?nodes (map (node_value sha ls) ids @ rest) (retained_of sha ls m) wanted cap =
          Inr (node_value sha ls ?top, rest, cap') \<and> captured_ok sha ls cap' \<and>
        dom cap \<union> wanted_below idxs (length ls) wanted (tree_height (unat n)) 0 \<subseteq> dom cap'"
    by (force simp: under_root_def)
  have "map_res (\<lambda>nid. resolve_node sha st nid n) ids = Inr (map (node_value sha ls) ids)"
  proof (rule map_res_all_Inr)
    fix x
    assume "x \<in> set ids"
    then obtain b j where "subtree_root b j x" "b < length ls" using ids(2) by (auto simp: under_root_def)
    then show "resolve_node sha st x n = Inr (node_value sha ls x)"
      using resolve_node_eq [OF rep n(1)] node_value_eq by simp
  qed
  then have pf: "get_batch_proof_for_nodes sha st idxs n m [] = Inr (map (node_value sha ls) ids)"
    using ids(1) by (simp add: get_batch_proof_for_nodes_def boundary_skeleton_def retained Let_def)
  obtain cap where cap: "recursive_hash sha ?top n ?nodes (map (node_value sha ls) ids @ [])
      (retained_of sha ls m) wanted Map.empty = Inr (node_value sha ls ?top, [], cap)"
    "captured_ok sha ls cap" "wanted_below idxs (length ls) wanted (tree_height (unat n)) 0 \<subseteq> dom cap"
    using ids(3) [of Map.empty "[]" wanted] by (auto simp: captured_ok_def)
  have "node_value sha ls ?top = root_value sha ls"
    using n node_value_eq [OF top] by (auto simp: root_value_def)
  moreover have "n \<noteq> 0" using n by auto
  ultimately show ?thesis
    using pf cap by (auto simp: calculate_root_capturing_def Let_def)
qed

section \<open>Properties\<close>

text \<open>C13. Honest batch proofs verify. For a store holding the log with leaves \<open>ls\<close>, for every
  choice of entries and every size \<open>m\<close> the client has kept full-subtree values for, the server
  produces a proof, the client computes from the entries' leaf values, the proof and what it
  kept the root of the whole log, no element is missing or left over, and the full-subtree
  values it captures for its next state are those of the log; when the entries include the
  frontier it captures all of them.\<close>

theorem batch_proof_verifies:
  assumes "log_rep st ls" and "unat n = length ls" and "0 < unat n" and "unat n \<le> 2 ^ 62"
    and "\<forall>i\<in>set idxs. unat i < unat n" and "unat m \<le> unat n"
  shows "\<exists>pf cap. get_batch_proof_for_nodes sha st idxs n m [] = Inr pf \<and>
    calculate_root_with_retained sha idxs (map (\<lambda>i. ls ! unat i) idxs) n pf (retained_of sha ls m) =
      Inr (root_value sha ls, cap) \<and>
    (\<forall>x v. cap x = Some v \<longrightarrow> v = node_value sha ls x) \<and>
    (set (get_frontier n) \<subseteq> set idxs \<longrightarrow> set (get_roots n) \<subseteq> dom cap)"
proof -
  obtain pf cap where *: "get_batch_proof_for_nodes sha st idxs n m [] = Inr pf"
    "calculate_root_capturing sha idxs (map (\<lambda>i. ls ! unat i) idxs) n pf (retained_of sha ls m)
      (set (get_roots n)) = Inr (root_value sha ls, cap)" "captured_ok sha ls cap"
    "wanted_below idxs (length ls) (set (get_roots n)) (tree_height (unat n)) 0 \<subseteq> dom cap"
    using batch_proof_complete [OF assms] by blast
  have "set (get_roots n) \<subseteq> dom cap" if covered: "set (get_frontier n) \<subseteq> set idxs"
  proof
    fix r
    assume r: "r \<in> set (get_roots n)"
    then have "rightmost_leaf r div 2 \<in> set idxs" using covered assms(4) by (auto simp: get_frontier_eq)
    from frontier_wanted [OF assms(4) r this] *(4) show "r \<in> dom cap" unfolding assms(2) by blast
  qed
  with * show ?thesis by (auto simp: calculate_root_with_retained_def captured_ok_def)
qed

lemma three_leaf_log:
  "\<exists>st. log_rep st [pad32 [1], pad32 [2], pad32 [3]]"
proof -
  let ?es = "[(0, [1]), (0, [2]), (0, [3])] :: (u64 \<times> bytes) list"
  let ?sha = "\<lambda>x. pad32 (drop 8 x)"
  have "map (\<lambda>(ts, rt). log_leaf_value ?sha ts rt) ?es = [pad32 [1], pad32 [2], pad32 [3]]"
    by (simp add: log_leaf_value_def to_be_bytes_u64_def)
  then show ?thesis
    using batch_append_spec [OF log_rep_empty, of 0 ?es ?sha] by auto
qed

lemma batch_proof_verifies_witness:
  "\<exists>st pf cap. log_rep st [pad32 [1], pad32 [2], pad32 [3]] \<and>
    get_batch_proof_for_nodes pad32 st [1] 3 2 [] = Inr pf \<and>
    calculate_root_with_retained pad32 [1] [pad32 [2]] 3 pf
        (retained_of pad32 [pad32 [1], pad32 [2], pad32 [3]] 2) =
      Inr (root_value pad32 [pad32 [1], pad32 [2], pad32 [3]], cap)"
proof -
  obtain st where st: "log_rep st [pad32 [1], pad32 [2], pad32 [3]]" using three_leaf_log by blast
  then show ?thesis using batch_proof_verifies [OF st, of 3 "[1]" 2 pad32] by fastforce
qed

text \<open>C23. The consistency proof between sizes 2 and 3 carries the value of entry 1, which both
  trees already contain, and not that of the appended entry 2: \<open>consistency_proof\<close> descends from
  \<open>root\<close>, the root of the search tree, and stops at the leaf it meets there.\<close>

theorem consistency_proof_of_2_3:
  assumes "log_rep st [a, b, c]"
  shows "get_consistency_proof sha st 2 3 = Inr [b]"
proof -
  have "consistency_proof 2 3 = Inr [2]" by code_simp
  moreover have "subtree_root 1 0 2" using leaf_node_word [of 1] by simp
  then have "resolve_node sha st 2 3 = Inr b" using resolve_node_eq [OF assms, of 3 1 0 2] by simp
  ultimately show ?thesis by (simp add: get_consistency_proof_def word_less_nat_alt word_le_nat_alt)
qed

lemma consistency_proof_of_2_3_witness:
  "\<exists>st. log_rep st [pad32 [1], pad32 [2], pad32 [3]] \<and>
    get_consistency_proof pad32 st 2 3 = Inr [pad32 [2]]"
  using three_leaf_log consistency_proof_of_2_3 by blast

end
