(* ===== verification/PrefixTree.thy ===== *)
theory PrefixTree
  imports Hashes Store Proto
begin

text \<open>
  The persistent prefix tree of the server, \<^verbatim>\<open>src/src/tree/prefix/\<close>. Every insertion writes one
  entry: the inserted key, its commitment, and the copath from the root, each copath node with
  the hash of the sibling subtree and a pointer to an entry inside it. A search walks an entry
  until the keys part, and goes on in the entry of the sibling it points to.

  prost is a crate and its message code is generated: the record \<open>codec\<close> holds the encoders and
  decoders the code calls. The node cache is a moka cache, a crate too: \<open>cached\<close> is what it
  answers at the moment, and the entries the code inserts on a cache miss are the decoded ones.
  The memo of intermediate hashes inside a cached entry and the counters are left out.
\<close>

section \<open>Entries\<close>

record parent_node =
  pn_hash :: bytes
  pn_ptr :: "u64 option"
  pn_first_update_position :: "u64 option"

record leaf_node =
  ln_ctr :: nat
  ln_commitment :: bytes

record log_entry =
  le_index :: bytes
  le_copath :: "parent_node list"
  le_first_update_position :: u64
  le_leaf :: "leaf_node option"

record codec =
  enc_log_entry :: "log_entry \<Rightarrow> bytes"
  dec_log_entry :: "bytes \<Rightarrow> log_entry option"
  enc_auditor_update :: "auditor_update \<Rightarrow> bytes"
  dec_auditor_update :: "bytes \<Rightarrow> auditor_update option"
  enc_tree_head :: "tree_head \<Rightarrow> bytes"
  dec_tree_head :: "bytes \<Rightarrow> tree_head option"
  hex_encode :: "bytes \<Rightarrow> string"
  hex_decode :: "string \<Rightarrow> bytes option"

type_synonym node_cache = "u64 \<rightharpoonup> log_entry"

definition stand_in :: bytes where
  "stand_in = ZERO_VALUE"

text \<open>An index of an entry is 32 bytes long: the tree writes no other.\<close>

definition rollup_sibling :: "log_entry \<Rightarrow> nat \<Rightarrow> bytes" where
  "rollup_sibling e cur = (if cur < length (le_copath e) then pn_hash (le_copath e ! cur) else stand_in)"

definition rollup_level :: "(bytes \<Rightarrow> bytes) \<Rightarrow> log_entry \<Rightarrow> nat \<Rightarrow> bytes \<Rightarrow> bytes" where
  "rollup_level sha e cur acc =
     (if get_bit (le_index e) cur = 1 then parent_hash sha (rollup_sibling e cur) acc
      else parent_hash sha acc (rollup_sibling e cur))"

definition rollup :: "(bytes \<Rightarrow> bytes) \<Rightarrow> log_entry \<Rightarrow> nat \<Rightarrow> bytes" where
  "rollup sha e lv =
     (let (cur, acc) = (case le_leaf e of
            Some leaf \<Rightarrow> (8 * INDEX_LENGTH, leaf_hash sha (le_index e) (ln_commitment leaf))
          | None \<Rightarrow> (length (le_copath e), stand_in))
      in fold (rollup_level sha e) (rev [lv..<cur]) acc)"

definition combine_copaths :: "parent_node list \<Rightarrow> parent_node list \<Rightarrow> parent_node list" where
  "combine_copaths primary secondary =
     (if length secondary \<le> length primary then primary
      else primary @ drop (length primary) secondary)"

section \<open>One step of a search\<close>

datatype step_result = Continue u64 | Found log_entry | Failed "parent_node list"

definition bit_at :: "bytes \<Rightarrow> nat \<Rightarrow> nat res" where
  "bit_at data n =
     (if n div 8 < length data then Inr (get_bit data n) else Inl (Panic ''index out of bounds''))"

lemma bit_at_Inr: "bit_at data n = Inr b \<Longrightarrow> n < 8 * length data"
  by (auto simp: bit_at_def split: if_splits)

text \<open>The loop returns the result and the copath as it left it.\<close>

function step_loop :: "(bytes \<Rightarrow> bytes) \<Rightarrow> bytes \<Rightarrow> u64 \<Rightarrow> log_entry \<Rightarrow> parent_node list \<Rightarrow>
    (step_result \<times> parent_node list) res" where
  "step_loop sha target_index current_ptr e copath =
     (let depth = length copath in
      if depth < length (le_copath e) then
        let par = le_copath e ! depth in
        and_then (bit_at (le_index e) depth) (\<lambda>b.
        and_then (bit_at target_index depth) (\<lambda>t.
        if b = t then step_loop sha target_index current_ptr e (copath @ [par])
        else
          let copath = copath @ [\<lparr>pn_hash = rollup sha e (depth + 1), pn_ptr = Some current_ptr,
                pn_first_update_position = pn_first_update_position par\<rparr>] in
          (case pn_ptr par of
             Some next_ptr \<Rightarrow> Inr (Continue next_ptr, copath)
           | None \<Rightarrow> Inr (Failed copath, copath))))
      else if le_leaf e = None then Inr (Failed copath, copath)
      else
        and_then (bit_at (le_index e) depth) (\<lambda>b.
        and_then (bit_at target_index depth) (\<lambda>t.
        if b = t then
          step_loop sha target_index current_ptr e (copath @ [\<lparr>pn_hash = stand_in, pn_ptr = None,
            pn_first_update_position = Some (le_first_update_position e)\<rparr>])
        else
          let copath = copath @ [\<lparr>pn_hash = rollup sha e (depth + 1), pn_ptr = Some current_ptr,
                pn_first_update_position = Some (le_first_update_position e)\<rparr>] in
          Inr (Failed copath, copath))))"
  by pat_completeness auto

termination
  by (relation "measure (\<lambda>(sha, target, ptr, e, copath). 8 * length target - length copath)")
    (auto dest!: bit_at_Inr)

declare step_loop.simps [simp del]

definition step :: "(bytes \<Rightarrow> bytes) \<Rightarrow> bytes \<Rightarrow> u64 \<Rightarrow> parent_node list \<Rightarrow> log_entry \<Rightarrow>
    (step_result \<times> parent_node list) res" where
  "step sha target_index current_ptr current_copath e =
     (if le_leaf e \<noteq> None \<and> le_index e = target_index then
        Inr (Found (e\<lparr>le_copath := combine_copaths current_copath (le_copath e)\<rparr>), current_copath)
      else step_loop sha target_index current_ptr e current_copath)"

lemma step_loop_longer:
  "step_loop sha target ptr e copath = Inr (Continue next_ptr, copath') \<Longrightarrow>
    length copath < length copath' \<and> length copath < 8 * length target"
proof (induction sha target ptr e copath rule: step_loop.induct)
  case (1 sha target ptr e copath)
  show ?case
    using "1.prems" "1.IH"(1) [OF refl _ refl] "1.IH"(2) [OF refl]
    by (subst (asm) step_loop.simps)
      (fastforce simp: Let_def res_simps dest: bit_at_Inr split: if_splits option.splits)
qed

lemma step_longer:
  "step sha target ptr copath e = Inr (Continue next_ptr, copath') \<Longrightarrow>
    length copath < length copath' \<and> length copath < 8 * length target"
  using step_loop_longer by (auto simp: step_def split: if_splits)

section \<open>Reading entries\<close>

definition get_entry :: "codec \<Rightarrow> store \<Rightarrow> node_cache \<Rightarrow> u64 \<Rightarrow> node_cache \<Rightarrow> log_entry res" where
  "get_entry D st cached ptr overlay =
     (case overlay ptr of
        Some e \<Rightarrow> Inr e
      | None \<Rightarrow>
        (case cached ptr of
           Some e \<Rightarrow> Inr e
         | None \<Rightarrow>
             and_then (ok_or (get_prefix st ptr) (Anyhow ''Missing prefix entry''))
               (\<lambda>bs. ok_or (dec_log_entry D bs) (Anyhow ''failed to decode Protobuf message''))))"

section \<open>Searches\<close>

record search_result =
  res_log_position :: u64
  res_commitment :: bytes
  res_inclusion_proof :: "bytes list"
  res_counter :: nat
  res_depth :: nat

record proof_result =
  pr_inclusion_proof :: "bytes list"
  pr_commitment :: "bytes option"
  pr_result_type :: nat
  pr_leaf_vrf_output :: "bytes option"
  pr_leaf_commitment :: "bytes option"
  pr_depth :: nat

text \<open>
  The pointer chase shared by the searches and the insertion: the entry it ended in, its
  position and the result of the last step there. Every step that goes on lengthens the
  copath, which is never longer than the key has bits.
\<close>

function walk :: "(bytes \<Rightarrow> bytes) \<Rightarrow> codec \<Rightarrow> store \<Rightarrow> node_cache \<Rightarrow> bytes \<Rightarrow> node_cache \<Rightarrow> u64 \<Rightarrow>
    parent_node list \<Rightarrow> (u64 \<times> log_entry \<times> step_result) res" where
  "walk sha D st cached index overlay cur copath =
     and_then (get_entry D st cached cur overlay) (\<lambda>e.
     and_then (step sha index cur copath e) (\<lambda>(r, copath).
     (case r of
        Continue next_ptr \<Rightarrow> walk sha D st cached index overlay next_ptr copath
      | Found final \<Rightarrow> Inr (cur, e, Found final)
      | Failed failed \<Rightarrow> Inr (cur, e, Failed failed))))"
  by pat_completeness auto

termination
  by (relation "measure (\<lambda>(sha, D, st, cached, index, overlay, cur, copath). 8 * length index - length copath)")
    (auto dest!: step_longer)

declare walk.simps [simp del]

definition unwrap_leaf :: "log_entry \<Rightarrow> leaf_node res" where
  "unwrap_leaf e = ok_or (le_leaf e) (Panic ''called `Option::unwrap()` on a `None` value'')"

definition search_prefix :: "(bytes \<Rightarrow> bytes) \<Rightarrow> codec \<Rightarrow> store \<Rightarrow> node_cache \<Rightarrow> u64 \<Rightarrow> bytes \<Rightarrow>
    search_result option res" where
  "search_prefix sha D st cached ptr index =
     and_then (walk sha D st cached index Map.empty ptr []) (\<lambda>(cur, e, r).
     (case r of
        Found final \<Rightarrow>
          and_then (unwrap_leaf final) (\<lambda>leaf.
          Inr (Some \<lparr>res_log_position = cur, res_commitment = ln_commitment leaf,
            res_inclusion_proof = map pn_hash (le_copath final), res_counter = ln_ctr leaf,
            res_depth = length (le_copath final)\<rparr>))
      | _ \<Rightarrow> Inr None))"

definition search_for_proof :: "(bytes \<Rightarrow> bytes) \<Rightarrow> codec \<Rightarrow> store \<Rightarrow> node_cache \<Rightarrow> u64 \<Rightarrow> bytes \<Rightarrow>
    node_cache \<Rightarrow> proof_result res" where
  "search_for_proof sha D st cached ptr index overlay =
     and_then (walk sha D st cached index overlay ptr []) (\<lambda>(cur, e, r).
     (case r of
        Found final \<Rightarrow>
          and_then (unwrap_leaf final) (\<lambda>leaf.
          Inr \<lparr>pr_inclusion_proof = map pn_hash (le_copath final),
            pr_commitment = Some (ln_commitment leaf), pr_result_type = 1,
            pr_leaf_vrf_output = None, pr_leaf_commitment = None, pr_depth = length (le_copath final)\<rparr>)
      | Failed failed_copath \<Rightarrow>
          (case le_leaf e of
             Some l \<Rightarrow>
               Inr \<lparr>pr_inclusion_proof = map pn_hash failed_copath, pr_commitment = None,
                 pr_result_type = 2, pr_leaf_vrf_output = Some (le_index e),
                 pr_leaf_commitment = Some (ln_commitment l), pr_depth = length failed_copath\<rparr>
           | None \<Rightarrow>
               Inr \<lparr>pr_inclusion_proof = map pn_hash failed_copath, pr_commitment = None,
                 pr_result_type = 3, pr_leaf_vrf_output = None, pr_leaf_commitment = None,
                 pr_depth = length failed_copath\<rparr>)
      | Continue _ \<Rightarrow> Inl (Panic ''unreachable'')))"

definition multi_search :: "(bytes \<Rightarrow> bytes) \<Rightarrow> codec \<Rightarrow> store \<Rightarrow> node_cache \<Rightarrow> u64 \<Rightarrow> bytes list \<Rightarrow>
    search_result option list res" where
  "multi_search sha D st cached ptr keys = map_res (search_prefix sha D st cached ptr) keys"

section \<open>Insertion\<close>

text \<open>The counter is a \<^verbatim>\<open>u32\<close>, and wraps.\<close>

definition insert_internal :: "(bytes \<Rightarrow> bytes) \<Rightarrow> codec \<Rightarrow> store \<Rightarrow> node_cache \<Rightarrow> u64 \<Rightarrow> u64 option \<Rightarrow>
    bytes \<Rightarrow> bytes \<Rightarrow> node_cache \<Rightarrow> (bytes \<times> search_result \<times> (u64 \<times> bytes) \<times> log_entry) res" where
  "insert_internal sha D st cached new_pos current_ptr index commitment overlay =
     and_then
       (case current_ptr of
          None \<Rightarrow> Inr ([], 0)
        | Some ptr \<Rightarrow>
            and_then (walk sha D st cached index overlay ptr []) (\<lambda>(cur, e, r).
            (case r of
               Found final \<Rightarrow>
                 and_then (unwrap_leaf final) (\<lambda>leaf.
                   Inr (le_copath final, wrapping_add_u32 (ln_ctr leaf) 1))
             | Failed failed_copath \<Rightarrow> Inr (failed_copath, 0)
             | Continue _ \<Rightarrow> Inl (Panic ''unreachable''))))
       (\<lambda>(copath, current_ctr).
          let new_entry = \<lparr>le_index = index, le_copath = copath, le_first_update_position = new_pos,
                le_leaf = Some \<lparr>ln_ctr = current_ctr, ln_commitment = commitment\<rparr>\<rparr>;
              rt = rollup sha new_entry 0;
              result = \<lparr>res_log_position = new_pos, res_commitment = commitment,
                res_inclusion_proof = map pn_hash copath, res_counter = current_ctr,
                res_depth = length copath\<rparr>
          in Inr (rt, result, (new_pos, enc_log_entry D new_entry), new_entry))"

text \<open>
  The loop of \<open>batch_insert\<close>: roots, search results, database batch, new cache entries, and the
  pointer to the last inserted entry.
\<close>

fun insert_loop :: "(bytes \<Rightarrow> bytes) \<Rightarrow> codec \<Rightarrow> store \<Rightarrow> node_cache \<Rightarrow> u64 \<Rightarrow> u64 option \<Rightarrow>
    (bytes \<times> bytes) list \<Rightarrow> node_cache \<Rightarrow>
    (bytes list \<times> search_result list \<times> (u64 \<times> bytes) list \<times> (u64 \<times> log_entry) list \<times> u64 option) res" where
  "insert_loop sha D st cached alloc_version current_ptr [] overlay = Inr ([], [], [], [], current_ptr)"
| "insert_loop sha D st cached alloc_version current_ptr ((index, commitment) # entries) overlay =
     and_then (insert_internal sha D st cached alloc_version current_ptr index commitment overlay)
       (\<lambda>(rt, search_res, (pos, data), obj).
     and_then (insert_loop sha D st cached (alloc_version + 1) (Some pos) entries (overlay(pos \<mapsto> obj)))
       (\<lambda>(roots, search_results, db_batch, new_entries, final_ptr).
     Inr (rt # roots, search_res # search_results, (pos, data) # db_batch, (pos, obj) # new_entries,
       final_ptr)))"

definition batch_insert :: "(bytes \<Rightarrow> bytes) \<Rightarrow> codec \<Rightarrow> u64 \<Rightarrow> u64 option \<Rightarrow> (bytes \<times> bytes) list \<Rightarrow>
    store \<times> node_cache \<Rightarrow> (store \<times> node_cache) \<times> (bytes list \<times> search_result list \<times> u64) res" where
  "batch_insert sha D start_version current_root_ptr entries s =
     (case s of (st, cached) \<Rightarrow>
      case insert_loop sha D st cached start_version current_root_ptr entries Map.empty of
        Inl e \<Rightarrow> ((st, cached), Inl e)
      | Inr (roots, search_results, db_batch, new_entries, current_ptr) \<Rightarrow>
          ((put_prefix_batch db_batch st, fold (\<lambda>(k, v) c. c(k \<mapsto> v)) new_entries cached),
           Inr (roots, search_results, case current_ptr of Some p \<Rightarrow> p | None \<Rightarrow> 0)))"

end
