(* ===== verification/PrefixSpec.thy ===== *)
theory PrefixSpec
  imports PrefixTree
begin

text \<open>
  What the prefix tree promises: a map from 32-byte indices to commitments, and its root, the
  hash of a binary tree of 256 levels in which an empty subtree counts as the zero value
  whatever its height. \<open>represents\<close> says that an entry of the server's copath structure,
  together with the entries it points to, stands for the subtree of the map it lies in.
\<close>

section \<open>Paths\<close>

definition key_bits :: "bytes \<Rightarrow> nat list" where
  "key_bits key = map (get_bit key) [0..<256]"

definition sibling_path :: "bytes \<Rightarrow> nat \<Rightarrow> nat list" where
  "sibling_path key k = take k (key_bits key) @ [1 - get_bit key k]"

lemma length_key_bits [simp]: "length (key_bits key) = 256"
  by (simp add: key_bits_def)

lemma nth_key_bits [simp]: "k < 256 \<Longrightarrow> key_bits key ! k = get_bit key k"
  by (simp add: key_bits_def)

lemma get_bit_le_1: "get_bit key k \<le> 1"
  by (simp add: get_bit_def)

lemma get_bit_cases: "get_bit key k = 0 \<or> get_bit key k = 1"
  using get_bit_le_1 [of key k] by linarith

lemma length_sibling_path [simp]: "k < 256 \<Longrightarrow> length (sibling_path key k) = Suc k"
  by (simp add: sibling_path_def)

lemma take_Suc_key_bits: "k < 256 \<Longrightarrow> take (Suc k) (key_bits key) = take k (key_bits key) @ [get_bit key k]"
  by (simp add: take_Suc_conv_app_nth)

lemma key_bits_inj:
  assumes len: "length a = 32" "length b = 32" and eq: "key_bits a = key_bits b"
  shows "a = b"
proof (rule nth_equalityI)
  fix i assume i: "i < length a"
  show "a ! i = b ! i"
  proof (rule bit_word_eqI)
    fix n assume "n < LENGTH(8)"
    then have n: "n < 8" by simp
    obtain k where k: "k < 256" "k div 8 = i" "k mod 8 = 7 - n"
    proof (rule that [of "8 * i + (7 - n)"])
      show "8 * i + (7 - n) < 256" using i n len by simp
      show "(8 * i + (7 - n)) div 8 = i" using n by (subst div_mult_self4) simp_all
      show "(8 * i + (7 - n)) mod 8 = 7 - n" using n unfolding mod_mult_self4 by simp
    qed
    then have "get_bit a k = get_bit b k" using eq nth_key_bits [of k] by metis
    then show "bit (a ! i) n = bit (b ! i) n" using k n by (auto simp: get_bit_def of_bool_def split: if_splits)
  qed
qed (use len in simp)

lemma sibling_path_neq:
  assumes "k < 256"
  shows "take (Suc k) (key_bits key) \<noteq> sibling_path key k"
  using assms get_bit_cases [of key k] by (auto simp: sibling_path_def take_Suc_key_bits)

lemma sibling_path_cong:
  assumes "take (Suc k) (key_bits a) = take (Suc k) (key_bits b)" and "k < 256"
  shows "sibling_path a k = sibling_path b k"
  using assms by (auto simp: sibling_path_def take_Suc_key_bits)

text \<open>Where two keys first differ, each lies in the other's sibling subtree.\<close>

lemma diverge_path:
  assumes "take k (key_bits a) = take k (key_bits b)" and "get_bit a k \<noteq> get_bit b k" and "k < 256"
  shows "take (Suc k) (key_bits a) = sibling_path b k"
  using assms get_bit_cases [of a k] get_bit_cases [of b k]
  by (auto simp: sibling_path_def take_Suc_key_bits)

section \<open>The map and its root\<close>

type_synonym key_map = "(bytes \<times> bytes) list"

definition occupied :: "key_map \<Rightarrow> nat list \<Rightarrow> bool" where
  "occupied kvs p = list_ex (\<lambda>(k, _). take (length p) (key_bits k) = p) kvs"

fun level_hash :: "(bytes \<Rightarrow> bytes) \<Rightarrow> key_map \<Rightarrow> nat \<Rightarrow> nat list \<Rightarrow> bytes" where
  "level_hash sha kvs 0 p =
     (case find (\<lambda>(k, _). key_bits k = p) kvs of
        Some (k, c) \<Rightarrow> leaf_hash sha k c
      | None \<Rightarrow> ZERO_VALUE)"
| "level_hash sha kvs (Suc n) p =
     (if occupied kvs p
      then parent_hash sha (level_hash sha kvs n (p @ [0])) (level_hash sha kvs n (p @ [1]))
      else ZERO_VALUE)"

definition subtree_hash :: "(bytes \<Rightarrow> bytes) \<Rightarrow> key_map \<Rightarrow> nat list \<Rightarrow> bytes" where
  "subtree_hash sha kvs p = level_hash sha kvs (256 - length p) p"

definition map_root :: "(bytes \<Rightarrow> bytes) \<Rightarrow> key_map \<Rightarrow> bytes" where
  "map_root sha kvs = subtree_hash sha kvs []"

definition keys_ok :: "key_map \<Rightarrow> bool" where
  "keys_ok kvs \<longleftrightarrow> list_all (\<lambda>(k, _). length k = 32) kvs"

lemma occupied_iff: "occupied kvs p \<longleftrightarrow> (\<exists>k\<in>fst ` set kvs. take (length p) (key_bits k) = p)"
  by (force simp: occupied_def list_ex_iff)

lemma occupied_Nil [simp]: "\<not> occupied [] p"
  by (simp add: occupied_def)

lemma occupied_root [simp]: "kvs \<noteq> [] \<Longrightarrow> occupied kvs []"
  by (cases kvs) (auto simp: occupied_def)

lemma occupied_key: "map_of kvs k = Some c \<Longrightarrow> occupied kvs (take n (key_bits k))"
proof -
  assume "map_of kvs k = Some c"
  then have "k \<in> fst ` set kvs" by (force dest: map_of_SomeD)
  then show ?thesis unfolding occupied_iff by (rule rev_bexI) (cases "n \<le> 256"; simp)
qed

lemma occupied_shorter:
  assumes "occupied kvs (take m (key_bits k))" and "n \<le> m"
  shows "occupied kvs (take n (key_bits k))"
proof -
  obtain k' where "k' \<in> fst ` set kvs" and "take (min 256 m) (key_bits k') = take m (key_bits k)"
    using assms(1) by (auto simp: occupied_iff)
  moreover from this(2) have "take (min 256 n) (key_bits k') = take n (key_bits k)"
    using assms(2) by (metis length_key_bits min.assoc min.commute min_absorb1 take_all_iff take_take linorder_le_cases order_refl)
  ultimately show ?thesis by (auto simp: occupied_iff)
qed

lemma unoccupied_hash: "\<not> occupied kvs p \<Longrightarrow> length p \<le> 256 \<Longrightarrow> subtree_hash sha kvs p = ZERO_VALUE"
proof (cases "256 - length p")
  case 0
  assume un: "\<not> occupied kvs p" and "length p \<le> 256"
  then have "find (\<lambda>(k, _). key_bits k = p) kvs = None"
    using 0 by (force simp: find_None_iff occupied_iff)
  then show ?thesis using 0 by (simp add: subtree_hash_def)
qed (simp add: subtree_hash_def)

lemma subtree_hash_step:
  assumes "occupied kvs p" and "length p < 256"
  shows "subtree_hash sha kvs p =
    parent_hash sha (subtree_hash sha kvs (p @ [0])) (subtree_hash sha kvs (p @ [1]))"
proof -
  have "256 - length p = Suc (256 - length (p @ [0]))" using assms(2) by simp
  then show ?thesis using assms(1) by (simp add: subtree_hash_def)
qed

text \<open>One level up from a key's own subtree, as both sides compute it.\<close>

definition join_level :: "(bytes \<Rightarrow> bytes) \<Rightarrow> bytes \<Rightarrow> nat \<Rightarrow> bytes \<Rightarrow> bytes \<Rightarrow> bytes" where
  "join_level sha key k sib h =
     (if get_bit key k = 1 then parent_hash sha sib h else parent_hash sha h sib)"

lemma subtree_hash_join:
  assumes "occupied kvs (take k (key_bits key))" and "k < 256"
  shows "subtree_hash sha kvs (take k (key_bits key)) =
    join_level sha key k (subtree_hash sha kvs (sibling_path key k))
      (subtree_hash sha kvs (take (Suc k) (key_bits key)))"
  using assms get_bit_cases [of key k]
  by (auto simp: subtree_hash_step join_level_def sibling_path_def take_Suc_key_bits)

lemma find_key_bits:
  assumes "keys_ok kvs" and "length key = 32"
  shows "find (\<lambda>(k, _). key_bits k = key_bits key) kvs = map_option (Pair key) (map_of kvs key)"
  using assms(1)
proof (induction kvs)
  case (Cons kv kvs)
  then show ?case using key_bits_inj [of "fst kv" key] assms(2) by (auto simp: keys_ok_def split: prod.splits)
qed simp

lemma leaf_subtree_hash:
  assumes "keys_ok kvs" and "length key = 32" and "map_of kvs key = Some c"
  shows "subtree_hash sha kvs (take 256 (key_bits key)) = leaf_hash sha key c"
  using find_key_bits [OF assms(1,2)] assms(3) by (simp add: subtree_hash_def)

text \<open>A fold from level \<open>n\<close> up to level \<open>m\<close> over the sibling hashes of a key.\<close>

lemma fold_joins:
  assumes "m \<le> n" and "n \<le> 256"
    and "\<And>k. m \<le> k \<Longrightarrow> k < n \<Longrightarrow> sib k = subtree_hash sha kvs (sibling_path key k)"
    and "\<And>k. m \<le> k \<Longrightarrow> k < n \<Longrightarrow> occupied kvs (take k (key_bits key))"
  shows "fold (\<lambda>k h. join_level sha key k (sib k) h) (rev [m..<n])
    (subtree_hash sha kvs (take n (key_bits key))) = subtree_hash sha kvs (take m (key_bits key))"
  using assms
proof (induction "n - m" arbitrary: m)
  case (Suc d)
  then have "rev [m..<n] = rev [Suc m..<n] @ [m]" by (simp add: upt_rec)
  moreover have "fold (\<lambda>k h. join_level sha key k (sib k) h) (rev [Suc m..<n])
      (subtree_hash sha kvs (take n (key_bits key))) = subtree_hash sha kvs (take (Suc m) (key_bits key))"
    using Suc by (intro Suc.hyps(1)) auto
  ultimately show ?case using Suc by (simp add: subtree_hash_join)
qed simp

end
