(* ===== verification/PrefixRep.thy ===== *)
theory PrefixRep
  imports PrefixSpec
begin

text \<open>
  The server's entries as a representation of the map: when an entry stands for a subtree,
  and why a walk from such an entry ends in the right place with the right copath.
\<close>

section \<open>Entries that represent a subtree\<close>

text \<open>
  \<open>represents get sha kvs lv e\<close>: the entry lies in the subtree its first \<open>lv\<close> bits name, and
  below that level its copath is the map's; the levels above are not looked at.
\<close>

inductive represents :: "(u64 \<Rightarrow> log_entry res) \<Rightarrow> (bytes \<Rightarrow> bytes) \<Rightarrow> key_map \<Rightarrow> nat \<Rightarrow> log_entry \<Rightarrow> bool"
  for get :: "u64 \<Rightarrow> log_entry res" and sha :: "bytes \<Rightarrow> bytes" and kvs :: key_map where
  representsI: "length (le_index e) = 32 \<Longrightarrow> le_leaf e = Some l \<Longrightarrow>
    map_of kvs (le_index e) = Some (ln_commitment l) \<Longrightarrow> length (le_copath e) \<le> 256 \<Longrightarrow>
    (\<And>k. lv \<le> k \<Longrightarrow> k < length (le_copath e) \<Longrightarrow>
      pn_hash (le_copath e ! k) = subtree_hash sha kvs (sibling_path (le_index e) k)) \<Longrightarrow>
    (\<And>k. lv \<le> k \<Longrightarrow> k < length (le_copath e) \<Longrightarrow> pn_ptr (le_copath e ! k) = None \<Longrightarrow>
      \<not> occupied kvs (sibling_path (le_index e) k)) \<Longrightarrow>
    (\<And>k ptr. lv \<le> k \<Longrightarrow> k < length (le_copath e) \<Longrightarrow> pn_ptr (le_copath e ! k) = Some ptr \<Longrightarrow>
      \<exists>e'. get ptr = Inr e' \<and> take (Suc k) (key_bits (le_index e')) = sibling_path (le_index e) k \<and>
        represents get sha kvs (Suc k) e') \<Longrightarrow>
    (\<And>k. lv \<le> k \<Longrightarrow> length (le_copath e) \<le> k \<Longrightarrow> k < 256 \<Longrightarrow>
      \<not> occupied kvs (sibling_path (le_index e) k)) \<Longrightarrow>
    represents get sha kvs lv e"

text \<open>A copath node that stands for the subtree at a path.\<close>

definition node_at :: "(u64 \<Rightarrow> log_entry res) \<Rightarrow> (bytes \<Rightarrow> bytes) \<Rightarrow> key_map \<Rightarrow> nat list \<Rightarrow> parent_node \<Rightarrow> bool" where
  "node_at get sha kvs p n \<longleftrightarrow> pn_hash n = subtree_hash sha kvs p \<and>
     (case pn_ptr n of
        None \<Rightarrow> \<not> occupied kvs p
      | Some ptr \<Rightarrow> \<exists>e. get ptr = Inr e \<and> take (length p) (key_bits (le_index e)) = p \<and>
          represents get sha kvs (length p) e)"

lemma represents_iff:
  "represents get sha kvs lv e \<longleftrightarrow> length (le_index e) = 32 \<and>
     (\<exists>l. le_leaf e = Some l \<and> map_of kvs (le_index e) = Some (ln_commitment l)) \<and>
     length (le_copath e) \<le> 256 \<and>
     (\<forall>k. lv \<le> k \<and> k < length (le_copath e) \<longrightarrow>
        node_at get sha kvs (sibling_path (le_index e) k) (le_copath e ! k)) \<and>
     (\<forall>k. lv \<le> k \<and> length (le_copath e) \<le> k \<and> k < 256 \<longrightarrow> \<not> occupied kvs (sibling_path (le_index e) k))"
  (is "?l \<longleftrightarrow> ?r")
proof
  assume ?l
  then show ?r by (cases) (auto simp: node_at_def split: option.split)
next
  assume r: ?r
  then obtain l where l: "le_leaf e = Some l" "map_of kvs (le_index e) = Some (ln_commitment l)" by blast
  show ?l
  proof (rule representsI [OF _ l])
    fix k ptr assume k: "lv \<le> k" "k < length (le_copath e)"
    then have n: "node_at get sha kvs (sibling_path (le_index e) k) (le_copath e ! k)" and "k < 256"
      using r by auto
    then show "pn_hash (le_copath e ! k) = subtree_hash sha kvs (sibling_path (le_index e) k)"
      by (simp add: node_at_def)
    show "\<not> occupied kvs (sibling_path (le_index e) k)" if "pn_ptr (le_copath e ! k) = None"
      using n that by (simp add: node_at_def)
    show "\<exists>e'. get ptr = Inr e' \<and> take (Suc k) (key_bits (le_index e')) = sibling_path (le_index e) k \<and>
        represents get sha kvs (Suc k) e'" if "pn_ptr (le_copath e ! k) = Some ptr"
      using n that \<open>k < 256\<close> by (simp add: node_at_def)
  qed (use r in auto)
qed

lemma represents_sub: "represents get sha kvs lv e \<Longrightarrow> lv \<le> lv' \<Longrightarrow> represents get sha kvs lv' e"
  by (auto simp: represents_iff [of get sha kvs])

text \<open>The hash an entry rolls up to is that of the subtree it represents.\<close>

lemma rollup_level_join: "rollup_level sha e = (\<lambda>k. join_level sha (le_index e) k (rollup_sibling e k))"
  by (simp add: rollup_level_def join_level_def fun_eq_iff)

lemma rollup_eq:
  assumes "represents get sha kvs lv e" and "keys_ok kvs" and "lv \<le> j" and "j \<le> 256"
  shows "rollup sha e j = subtree_hash sha kvs (take j (key_bits (le_index e)))"
proof -
  obtain l where l: "le_leaf e = Some l" "map_of kvs (le_index e) = Some (ln_commitment l)"
    and e: "length (le_index e) = 32" "length (le_copath e) \<le> 256"
      "\<And>k. lv \<le> k \<Longrightarrow> k < length (le_copath e) \<Longrightarrow>
        node_at get sha kvs (sibling_path (le_index e) k) (le_copath e ! k)"
      "\<And>k. lv \<le> k \<Longrightarrow> length (le_copath e) \<le> k \<Longrightarrow> k < 256 \<Longrightarrow> \<not> occupied kvs (sibling_path (le_index e) k)"
    using assms(1) by (auto simp: represents_iff)
  have sib: "rollup_sibling e k = subtree_hash sha kvs (sibling_path (le_index e) k)" if "j \<le> k" "k < 256" for k
    using e(3,4) [of k] that assms(3)
    by (auto simp: rollup_sibling_def node_at_def stand_in_def unoccupied_hash)
  have "rollup sha e j = fold (\<lambda>k h. join_level sha (le_index e) k (rollup_sibling e k) h) (rev [j..<256])
      (subtree_hash sha kvs (take 256 (key_bits (le_index e))))"
    using leaf_subtree_hash [OF assms(2) e(1) l(2), of sha] l(1)
    by (simp add: rollup_def INDEX_LENGTH_def rollup_level_join)
  also have "\<dots> = subtree_hash sha kvs (take j (key_bits (le_index e)))"
    using assms(4) sib occupied_key [OF l(2)] by (intro fold_joins) auto
  finally show ?thesis .
qed

section \<open>Copaths and outcomes of a search\<close>

definition copath_for :: "(u64 \<Rightarrow> log_entry res) \<Rightarrow> (bytes \<Rightarrow> bytes) \<Rightarrow> key_map \<Rightarrow> bytes \<Rightarrow> parent_node list \<Rightarrow> bool" where
  "copath_for get sha kvs key cp \<longleftrightarrow> length cp \<le> 256 \<and>
     (\<forall>k<length cp. node_at get sha kvs (sibling_path key k) (cp ! k))"

definition empty_beyond :: "key_map \<Rightarrow> bytes \<Rightarrow> nat \<Rightarrow> bool" where
  "empty_beyond kvs key n \<longleftrightarrow> (\<forall>k. n \<le> k \<and> k < 256 \<longrightarrow> \<not> occupied kvs (sibling_path key k))"

fun outcome_ok :: "(u64 \<Rightarrow> log_entry res) \<Rightarrow> (bytes \<Rightarrow> bytes) \<Rightarrow> key_map \<Rightarrow> bytes \<Rightarrow> step_result \<Rightarrow> bool" where
  "outcome_ok get sha kvs key (Found final) \<longleftrightarrow>
     (\<exists>l. le_leaf final = Some l \<and> map_of kvs key = Some (ln_commitment l)) \<and>
     copath_for get sha kvs key (le_copath final) \<and> empty_beyond kvs key (length (le_copath final))"
| "outcome_ok get sha kvs key (Failed cp) \<longleftrightarrow>
     copath_for get sha kvs key cp \<and> \<not> occupied kvs (take (length cp) (key_bits key)) \<and>
     (cp \<noteq> [] \<longrightarrow> occupied kvs (take (length cp - 1) (key_bits key)))"
| "outcome_ok get sha kvs key (Continue ptr) \<longleftrightarrow> False"

lemma copath_for_snoc:
  "copath_for get sha kvs key cp \<Longrightarrow> length cp < 256 \<Longrightarrow>
    node_at get sha kvs (sibling_path key (length cp)) n \<Longrightarrow> copath_for get sha kvs key (cp @ [n])"
  by (auto simp: copath_for_def nth_append less_Suc_eq)

lemma occupied_sibling_parent:
  assumes "occupied kvs (sibling_path key k)" and "k < 256"
  shows "occupied kvs (take k (key_bits key))"
proof -
  obtain k' where k': "k' \<in> fst ` set kvs" "take (Suc k) (key_bits k') = sibling_path key k"
    using assms by (auto simp: occupied_iff)
  then have "take k (key_bits k') = take k (key_bits key)"
    using assms(2) by (metis append_same_eq butlast_snoc butlast_take length_key_bits diff_Suc_1
        less_eq_Suc_le sibling_path_def)
  then show ?thesis using k'(1) assms(2) by (auto simp: occupied_iff)
qed

text \<open>The next state of a walk that goes on.\<close>

definition goes_on :: "(u64 \<Rightarrow> log_entry res) \<Rightarrow> (bytes \<Rightarrow> bytes) \<Rightarrow> key_map \<Rightarrow> bytes \<Rightarrow> u64 \<Rightarrow> parent_node list \<Rightarrow> bool" where
  "goes_on get sha kvs key ptr cp \<longleftrightarrow> copath_for get sha kvs key cp \<and>
     (\<exists>e. get ptr = Inr e \<and> represents get sha kvs (length cp) e \<and>
       take (length cp) (key_bits (le_index e)) = take (length cp) (key_bits key))"

text \<open>Turning off at level \<open>length cp\<close>: the entry's own subtree becomes the key's copath node.\<close>

lemma turn_off:
  assumes "represents get sha kvs lv e" and "keys_ok kvs" and "get ptr = Inr e" and "lv \<le> k" and "k < 256"
    and "take k (key_bits (le_index e)) = take k (key_bits key)" and "get_bit (le_index e) k \<noteq> get_bit key k"
  shows "node_at get sha kvs (sibling_path key k) \<lparr>pn_hash = rollup sha e (Suc k), pn_ptr = Some ptr,
      pn_first_update_position = fup\<rparr>"
    and "sibling_path (le_index e) k = take (Suc k) (key_bits key)"
    and "occupied kvs (take k (key_bits key))"
proof -
  have "take (Suc k) (key_bits (le_index e)) = sibling_path key k"
    using assms by (intro diverge_path) auto
  moreover have "represents get sha kvs (Suc k) e"
    using assms(4) by (intro represents_sub [OF assms(1)]) simp
  ultimately show "node_at get sha kvs (sibling_path key k) \<lparr>pn_hash = rollup sha e (Suc k),
      pn_ptr = Some ptr, pn_first_update_position = fup\<rparr>"
    using assms rollup_eq [OF assms(1,2), of "Suc k"] by (simp add: node_at_def)
  show "sibling_path (le_index e) k = take (Suc k) (key_bits key)"
    using assms diverge_path [of k key "le_index e"] by metis
  show "occupied kvs (take k (key_bits key))"
    using assms(1) occupied_key [of kvs "le_index e" _ k] assms(6) by (auto simp: represents_iff)
qed

lemma step_loop_correct:
  assumes "represents get sha kvs lv e" and "keys_ok kvs" and "get ptr = Inr e"
    and "length key = 32" and "le_index e \<noteq> key"
    and "lv \<le> length cp" and "copath_for get sha kvs key cp"
    and "take (length cp) (key_bits (le_index e)) = take (length cp) (key_bits key)"
  shows "\<exists>r cp'. step_loop sha key ptr e cp = Inr (r, cp') \<and>
    (case r of Continue q \<Rightarrow> goes_on get sha kvs key q cp' \<and> length cp < length cp'
     | _ \<Rightarrow> outcome_ok get sha kvs key r)"
  using assms(6-8)
proof (induction "256 - length cp" arbitrary: cp rule: less_induct)
  case less
  note cp = less.prems
  let ?k = "length cp"
  obtain l where e: "length (le_index e) = 32" "le_leaf e = Some l" "length (le_copath e) \<le> 256"
    "\<And>k. lv \<le> k \<Longrightarrow> k < length (le_copath e) \<Longrightarrow>
      node_at get sha kvs (sibling_path (le_index e) k) (le_copath e ! k)"
    "\<And>k. lv \<le> k \<Longrightarrow> length (le_copath e) \<le> k \<Longrightarrow> k < 256 \<Longrightarrow> \<not> occupied kvs (sibling_path (le_index e) k)"
    using assms(1) by (auto simp: represents_iff)
  have k: "?k < 256"
  proof (rule ccontr)
    assume "\<not> ?k < 256"
    then have "key_bits (le_index e) = key_bits key" using cp by simp
    then show False using key_bits_inj e(1) assms(4,5) by blast
  qed
  have bits: "bit_at (le_index e) ?k = Inr (get_bit (le_index e) ?k)" "bit_at key ?k = Inr (get_bit key ?k)"
    using k e(1) assms(4) by (simp_all add: bit_at_def)
  show ?case
  proof (cases "get_bit (le_index e) ?k = get_bit key ?k")
    case True
    have next_cp: "take (Suc ?k) (key_bits (le_index e)) = take (Suc ?k) (key_bits key)"
      using cp(3) True k by (simp add: take_Suc_key_bits)
    have sib: "sibling_path (le_index e) ?k = sibling_path key ?k"
      using next_cp k by (rule sibling_path_cong)
    define n where "n = (if ?k < length (le_copath e) then le_copath e ! ?k
        else \<lparr>pn_hash = stand_in, pn_ptr = None, pn_first_update_position = Some (le_first_update_position e)\<rparr>)"
    have "node_at get sha kvs (sibling_path key ?k) n"
      using e(4,5) [of ?k] cp(1) k sib by (auto simp: n_def node_at_def stand_in_def unoccupied_hash)
    then have "copath_for get sha kvs key (cp @ [n])" using cp(2) k by (intro copath_for_snoc)
    then have "\<exists>r cp'. step_loop sha key ptr e (cp @ [n]) = Inr (r, cp') \<and>
        (case r of Continue q \<Rightarrow> goes_on get sha kvs key q cp' \<and> length (cp @ [n]) < length cp'
         | _ \<Rightarrow> outcome_ok get sha kvs key r)"
      using k cp(1) next_cp by (intro less.hyps) auto
    moreover have "step_loop sha key ptr e cp = step_loop sha key ptr e (cp @ [n])"
      using True bits e(2) by (subst step_loop.simps) (simp add: n_def Let_def)
    ultimately show ?thesis by (fastforce split: step_result.splits)
  next
    case False
    define n where "n = \<lparr>pn_hash = rollup sha e (Suc ?k), pn_ptr = Some ptr, pn_first_update_position =
        (if ?k < length (le_copath e) then pn_first_update_position (le_copath e ! ?k)
         else Some (le_first_update_position e))\<rparr>"
    note off = turn_off [OF assms(1-3) cp(1) k cp(3) False]
    have n: "copath_for get sha kvs key (cp @ [n])"
      unfolding n_def using cp(2) k off(1) by (intro copath_for_snoc)
    show ?thesis
    proof (cases "?k < length (le_copath e) \<and> pn_ptr (le_copath e ! ?k) \<noteq> None")
      case True
      then obtain q where q: "?k < length (le_copath e)" "pn_ptr (le_copath e ! ?k) = Some q" by blast
      then have "goes_on get sha kvs key q (cp @ [n])"
        using n e(4) [of ?k] cp(1) off(2) k by (auto simp: goes_on_def node_at_def)
      moreover have "step_loop sha key ptr e cp = Inr (Continue q, cp @ [n])"
        using q False bits by (subst step_loop.simps) (simp add: n_def Let_def)
      ultimately show ?thesis by simp
    next
      case none: False
      then have "\<not> occupied kvs (take (Suc ?k) (key_bits key))"
        using e(4,5) [of ?k] cp(1) k off(2) by (cases "?k < length (le_copath e)") (auto simp: node_at_def)
      then have "outcome_ok get sha kvs key (Failed (cp @ [n]))" using n off(3) by simp
      moreover have "step_loop sha key ptr e cp = Inr (Failed (cp @ [n]), cp @ [n])"
        using none False bits e(2) by (subst step_loop.simps) (auto simp: n_def Let_def)
      ultimately show ?thesis by simp
    qed
  qed
qed

text \<open>One step from an entry the key's path leads to, and the walk as a whole.\<close>

lemma found_copath:
  assumes "represents get sha kvs (length cp) e" and "copath_for get sha kvs (le_index e) cp"
  shows "outcome_ok get sha kvs (le_index e) (Found (e\<lparr>le_copath := combine_copaths cp (le_copath e)\<rparr>))"
proof -
  have "copath_for get sha kvs (le_index e) (combine_copaths cp (le_copath e))"
    using assms by (auto simp: copath_for_def combine_copaths_def nth_append represents_iff)
  moreover have "empty_beyond kvs (le_index e) (length (combine_copaths cp (le_copath e)))"
    using assms(1) by (auto simp: empty_beyond_def combine_copaths_def represents_iff)
  ultimately show ?thesis using assms(1) by (auto simp: represents_iff)
qed

lemma walk_correct:
  assumes entries: "\<And>p e. get p = Inr e \<Longrightarrow> get_entry D st cached p overlay = Inr e"
    and keys: "keys_ok kvs" and key: "length key = 32"
    and start: "goes_on get sha kvs key ptr cp"
  shows "\<exists>cur e r. walk sha D st cached key overlay ptr cp = Inr (cur, e, r) \<and>
    outcome_ok get sha kvs key r \<and> length (le_index e) = 32 \<and>
    (\<exists>l. le_leaf e = Some l \<and> map_of kvs (le_index e) = Some (ln_commitment l)) \<and>
    ((\<exists>f. r = Found f) \<or> le_index e \<noteq> key)"
  using start
proof (induction "256 - length cp" arbitrary: ptr cp rule: less_induct)
  case less
  then obtain e where e: "get ptr = Inr e" "represents get sha kvs (length cp) e"
      "take (length cp) (key_bits (le_index e)) = take (length cp) (key_bits key)"
    and cp: "copath_for get sha kvs key cp" by (auto simp: goes_on_def)
  have leaf: "length (le_index e) = 32" "\<exists>l. le_leaf e = Some l \<and> map_of kvs (le_index e) = Some (ln_commitment l)"
    using e(2) by (auto simp: represents_iff)
  note unfold = walk.simps [of sha D st cached key overlay ptr cp] entries [OF e(1)]
  show ?case
  proof (cases "le_index e = key")
    case True
    then show ?thesis
      using unfold leaf found_copath [OF e(2), of ] cp by (auto simp: step_def)
  next
    case False
    obtain r cp' where r: "step_loop sha key ptr e cp = Inr (r, cp')"
      "case r of Continue q \<Rightarrow> goes_on get sha kvs key q cp' \<and> length cp < length cp'
       | _ \<Rightarrow> outcome_ok get sha kvs key r"
      using step_loop_correct [OF e(2) keys e(1) key False order_refl cp e(3)] by blast
    then have step: "step sha key ptr cp e = Inr (r, cp')" using False by (simp add: step_def)
    show ?thesis
    proof (cases r)
      case (Continue q)
      then have "goes_on get sha kvs key q cp'" "length cp < length cp'" using r(2) by auto
      moreover from this(1) have "length cp' \<le> 256" by (simp add: goes_on_def copath_for_def)
      ultimately show ?thesis
        using less.hyps [of cp' q] unfold step Continue by simp
    qed (use unfold step r(2) leaf False in auto)
  qed
qed

end
