(* ===== verification/PrefixInsert.thy ===== *)
theory PrefixInsert
  imports PrefixRep
begin

text \<open>
  Insertion refines the update of the map, in one batch and over batches: the roots are the
  map's, the entries written represent the longer map, and what older entries represent is
  left alone.
\<close>

section \<open>The map grows\<close>

lemma occupied_Cons: "occupied ((key, c) # kvs) p \<longleftrightarrow> take (length p) (key_bits key) = p \<or> occupied kvs p"
  by (simp add: occupied_def)

lemma level_hash_elsewhere:
  "take (length p) (key_bits key) \<noteq> p \<Longrightarrow> length p + n = 256 \<Longrightarrow>
    level_hash sha ((key, c) # kvs) n p = level_hash sha kvs n p"
proof (induction n arbitrary: p)
  case (Suc n)
  have "take (length (p @ [b])) (key_bits key) \<noteq> p @ [b]" for b
  proof
    assume "take (length (p @ [b])) (key_bits key) = p @ [b]"
    then have "take (length p) (take (length (p @ [b])) (key_bits key)) = p" by simp
    then show False using Suc.prems(1) by (simp add: min_def)
  qed
  then show ?case using Suc by (simp add: occupied_Cons)
qed simp

lemma subtree_hash_elsewhere:
  "take (length p) (key_bits key) \<noteq> p \<Longrightarrow> length p \<le> 256 \<Longrightarrow>
    subtree_hash sha ((key, c) # kvs) p = subtree_hash sha kvs p"
  by (simp add: subtree_hash_def level_hash_elsewhere)

lemma sibling_path_elsewhere:
  assumes "take lv (key_bits a) \<noteq> take lv (key_bits key)" and "lv \<le> k" and "k < 256"
  shows "take (Suc k) (key_bits key) \<noteq> sibling_path a k"
proof
  assume "take (Suc k) (key_bits key) = sibling_path a k"
  then have "take k (take (Suc k) (key_bits key)) = take k (key_bits a)"
    using assms(3) by (simp add: sibling_path_def)
  then have "take lv (take k (key_bits key)) = take lv (take k (key_bits a))" by simp
  then show False using assms(1,2) by (simp add: min_def)
qed

text \<open>An entry whose subtree the new key is not in represents the same subtree as before.\<close>

lemma represents_elsewhere:
  assumes "represents get sha kvs lv e" and more: "\<And>p e. get p = Inr e \<Longrightarrow> get' p = Inr e"
    and "take lv (key_bits (le_index e)) \<noteq> take lv (key_bits key)"
  shows "represents get' sha ((key, c) # kvs) lv e"
  using assms(1,3)
proof (induction rule: represents.induct)
  case (representsI e l lv)
  have away: "take (Suc k) (key_bits key) \<noteq> sibling_path (le_index e) k" if "lv \<le> k" "k < 256" for k
    using sibling_path_elsewhere [OF representsI.prems] that .
  show ?case
  proof (rule represents.representsI [OF representsI.hyps(1,2)])
    show "map_of ((key, c) # kvs) (le_index e) = Some (ln_commitment l)"
      using representsI.hyps(3) representsI.prems by auto
    fix k ptr assume k: "lv \<le> k" "k < length (le_copath e)"
    then have k': "k < 256" using representsI.hyps(4) by simp
    note away = away [OF k(1) k']
    show "pn_hash (le_copath e ! k) = subtree_hash sha ((key, c) # kvs) (sibling_path (le_index e) k)"
      using representsI.hyps(5) [OF k] away k' by (simp add: subtree_hash_elsewhere)
    show "\<not> occupied ((key, c) # kvs) (sibling_path (le_index e) k)" if "pn_ptr (le_copath e ! k) = None"
      using representsI.hyps(6) [OF k that] away k' by (simp add: occupied_Cons)
    assume "pn_ptr (le_copath e ! k) = Some ptr"
    from representsI.IH [OF k this] obtain e' where e': "get ptr = Inr e'"
      "take (Suc k) (key_bits (le_index e')) = sibling_path (le_index e) k"
      "take (Suc k) (key_bits (le_index e')) \<noteq> take (Suc k) (key_bits key) \<longrightarrow>
        represents get' sha ((key, c) # kvs) (Suc k) e'" by auto
    then show "\<exists>e'. get' ptr = Inr e' \<and> take (Suc k) (key_bits (le_index e')) = sibling_path (le_index e) k \<and>
        represents get' sha ((key, c) # kvs) (Suc k) e'"
      using away more by fastforce
  next
    fix k assume "lv \<le> k" "length (le_copath e) \<le> k" "k < 256"
    then show "\<not> occupied ((key, c) # kvs) (sibling_path (le_index e) k)"
      using representsI.hyps(7) [of k] away [of k] by (simp add: occupied_Cons)
  qed (use representsI.hyps(4) in simp)
qed

lemma node_at_elsewhere:
  assumes "node_at get sha kvs p n" and more: "\<And>p e. get p = Inr e \<Longrightarrow> get' p = Inr e"
    and "take (length p) (key_bits key) \<noteq> p" and "length p \<le> 256"
  shows "node_at get' sha ((key, c) # kvs) p n"
  using assms represents_elsewhere [of get sha kvs "length p" _ get' key c]
  by (fastforce simp: node_at_def subtree_hash_elsewhere occupied_Cons split: option.splits)

text \<open>More entries change nothing for those that are there.\<close>

lemma represents_more:
  "represents get sha kvs lv e \<Longrightarrow> (\<And>p e. get p = Inr e \<Longrightarrow> get' p = Inr e) \<Longrightarrow>
    represents get' sha kvs lv e"
proof (induction rule: represents.induct)
  case (representsI e l lv)
  show ?case
  proof (rule represents.representsI [OF representsI.hyps(1-6)])
    fix k ptr assume "lv \<le> k" "k < length (le_copath e)" "pn_ptr (le_copath e ! k) = Some ptr"
    from representsI.IH [OF this] show "\<exists>e'. get' ptr = Inr e' \<and>
        take (Suc k) (key_bits (le_index e')) = sibling_path (le_index e) k \<and> represents get' sha kvs (Suc k) e'"
      using representsI.prems by blast
  qed (use representsI.hyps(7) in auto)
qed

section \<open>A new entry\<close>

lemma failed_empty_beyond:
  assumes "\<not> occupied kvs (take n (key_bits key))"
  shows "empty_beyond kvs key n"
  unfolding empty_beyond_def
proof (intro allI impI notI)
  fix k assume "n \<le> k \<and> k < 256" "occupied kvs (sibling_path key k)"
  then show False
    using occupied_sibling_parent [of kvs key k] occupied_shorter [of kvs k key n] assms by blast
qed

lemma new_entry_represents:
  assumes "copath_for get sha kvs key cp" and "empty_beyond kvs key (length cp)" and "length key = 32"
    and more: "\<And>p e. get p = Inr e \<Longrightarrow> get' p = Inr e"
  shows "represents get' sha ((key, c) # kvs) 0 \<lparr>le_index = key, le_copath = cp,
    le_first_update_position = pos, le_leaf = Some \<lparr>ln_ctr = ctr, ln_commitment = c\<rparr>\<rparr>"
proof -
  have away: "take (Suc k) (key_bits key) \<noteq> sibling_path key k" if "k < 256" for k
    using sibling_path_neq that by blast
  have "node_at get' sha ((key, c) # kvs) (sibling_path key k) (cp ! k)" if "k < length cp" for k
    using assms(1) that away [of k] by (intro node_at_elsewhere [OF _ more]) (auto simp: copath_for_def)
  moreover have "\<not> occupied ((key, c) # kvs) (sibling_path key k)" if "length cp \<le> k" "k < 256" for k
    using assms(2) that away [of k] by (auto simp: occupied_Cons empty_beyond_def)
  ultimately show ?thesis using assms(1,3) by (auto simp: represents_iff copath_for_def)
qed

section \<open>The message codec\<close>

text \<open>
  What the model relies on of the generated message code: a message whose \<^verbatim>\<open>u32\<close> fields are in
  range decodes to itself, and so does a hex string.
\<close>

definition entry_in_range :: "log_entry \<Rightarrow> bool" where
  "entry_in_range e \<longleftrightarrow> (case le_leaf e of None \<Rightarrow> True | Some l \<Rightarrow> ln_ctr l \<le> U32_MAX)"

definition result_in_range :: "prefix_search_result \<Rightarrow> bool" where
  "result_in_range r \<longleftrightarrow> psr_result_type r \<le> U32_MAX \<and> psr_depth r \<le> U32_MAX"

definition update_in_range :: "auditor_update \<Rightarrow> bool" where
  "update_in_range u \<longleftrightarrow> (case au_proof u of None \<Rightarrow> True | Some pf \<Rightarrow> list_all result_in_range (pp_results pf))"

definition codec_laws :: "codec \<Rightarrow> bool" where
  "codec_laws D \<longleftrightarrow>
     (\<forall>e. entry_in_range e \<longrightarrow> dec_log_entry D (enc_log_entry D e) = Some e) \<and>
     (\<forall>u. update_in_range u \<longrightarrow> dec_auditor_update D (enc_auditor_update D u) = Some u) \<and>
     (\<forall>th. dec_tree_head D (enc_tree_head D th) = Some th) \<and>
     (\<forall>b. hex_decode D (hex_encode D b) = Some b)"

lemma wrapping_add_u32_le: "wrapping_add_u32 a b \<le> U32_MAX"
proof -
  have "(a + b) mod 4294967296 < 4294967296" by simp
  then show ?thesis unfolding wrapping_add_u32_def U32_MAX_def by linarith
qed

section \<open>The tree at a pointer\<close>

definition rep_by :: "(u64 \<Rightarrow> log_entry res) \<Rightarrow> (bytes \<Rightarrow> bytes) \<Rightarrow> u64 option \<Rightarrow> key_map \<Rightarrow> bool" where
  "rep_by get sha ptr kvs \<longleftrightarrow> keys_ok kvs \<and>
     (case ptr of
        None \<Rightarrow> kvs = []
      | Some p \<Rightarrow> \<exists>e. get p = Inr e \<and> represents get sha kvs 0 e)"

lemma rep_by_goes_on:
  "rep_by get sha (Some p) kvs \<Longrightarrow> goes_on get sha kvs key p []"
  by (auto simp: rep_by_def goes_on_def copath_for_def)

lemma rep_by_more:
  "rep_by get sha ptr kvs \<Longrightarrow> (\<And>p e. get p = Inr e \<Longrightarrow> get' p = Inr e) \<Longrightarrow> rep_by get' sha ptr kvs"
  using represents_more [of get sha kvs 0 _ get'] by (fastforce simp: rep_by_def split: option.splits)

lemma keys_ok_Cons [simp]: "keys_ok ((k, c) # kvs) \<longleftrightarrow> length k = 32 \<and> keys_ok kvs"
  by (simp add: keys_ok_def)

lemma insert_internal_correct:
  assumes rep: "rep_by get sha ptr kvs" and key: "length key = 32"
    and entries: "\<And>p e. get p = Inr e \<Longrightarrow> get_entry D st cached p overlay = Inr e"
    and more: "\<And>p e. get p = Inr e \<Longrightarrow> get' p = Inr e"
  shows "\<exists>res e. insert_internal sha D st cached pos ptr key c overlay =
      Inr (map_root sha ((key, c) # kvs), res, (pos, enc_log_entry D e), e) \<and>
    res_log_position res = pos \<and> res_commitment res = c \<and> entry_in_range e \<and>
    represents get' sha ((key, c) # kvs) 0 e"
proof -
  have keys: "keys_ok kvs" using rep by (simp add: rep_by_def)
  define f where "f = (case ptr of
          None \<Rightarrow> Inr ([], 0)
        | Some ptr \<Rightarrow>
            and_then (walk sha D st cached key overlay ptr []) (\<lambda>(cur, e, r).
            (case r of
               Found final \<Rightarrow>
                 and_then (unwrap_leaf final) (\<lambda>leaf.
                   Inr (le_copath final, wrapping_add_u32 (ln_ctr leaf) 1))
             | Failed failed_copath \<Rightarrow> Inr (failed_copath, 0)
             | Continue _ \<Rightarrow> Inl (Panic ''unreachable''))))"
  have "\<exists>cp ctr. f = Inr (cp, ctr) \<and> copath_for get sha kvs key cp \<and> empty_beyond kvs key (length cp) \<and>
      ctr \<le> U32_MAX"
  proof (cases ptr)
    case None
    then show ?thesis using rep by (simp add: f_def rep_by_def copath_for_def empty_beyond_def)
  next
    case (Some p)
    obtain cur e r where w: "walk sha D st cached key overlay p [] = Inr (cur, e, r)" "outcome_ok get sha kvs key r"
      using walk_correct [OF entries keys key rep_by_goes_on [OF rep [unfolded Some]]] by blast
    then show ?thesis
      using failed_empty_beyond
      by (cases r) (auto simp: f_def Some unwrap_leaf_def wrapping_add_u32_le)
  qed
  then obtain cp ctr where cp: "f = Inr (cp, ctr)" "copath_for get sha kvs key cp"
    "empty_beyond kvs key (length cp)" "ctr \<le> U32_MAX" by blast
  define e where "e = \<lparr>le_index = key, le_copath = cp, le_first_update_position = pos,
      le_leaf = Some \<lparr>ln_ctr = ctr, ln_commitment = c\<rparr>\<rparr>"
  have e: "represents get' sha ((key, c) # kvs) 0 e"
    unfolding e_def using cp key more by (intro new_entry_represents)
  have root: "rollup sha e 0 = map_root sha ((key, c) # kvs)"
    using rollup_eq [OF e, of 0] keys key by (simp add: map_root_def)
  have "insert_internal sha D st cached pos ptr key c overlay =
      Inr (rollup sha e 0, \<lparr>res_log_position = pos, res_commitment = c,
        res_inclusion_proof = map pn_hash cp, res_counter = ctr, res_depth = length cp\<rparr>,
        (pos, enc_log_entry D e), e)"
    unfolding insert_internal_def f_def [symmetric] cp(1) by (simp add: e_def Let_def)
  moreover have "entry_in_range e" using cp(4) by (simp add: e_def entry_in_range_def)
  ultimately show ?thesis using e root by (intro exI) auto
qed

section \<open>A batch\<close>

text \<open>The entry at a pointer, from the database alone and with a batch's overlay before it.\<close>

definition stored :: "codec \<Rightarrow> store \<Rightarrow> u64 \<Rightarrow> log_entry res" where
  "stored D st p = get_entry D st Map.empty p Map.empty"

definition overlaid :: "codec \<Rightarrow> store \<Rightarrow> node_cache \<Rightarrow> u64 \<Rightarrow> log_entry res" where
  "overlaid D st overlay p = (case overlay p of Some e \<Rightarrow> Inr e | None \<Rightarrow> stored D st p)"

definition cache_agrees :: "codec \<Rightarrow> store \<Rightarrow> node_cache \<Rightarrow> bool" where
  "cache_agrees D st cached \<longleftrightarrow> (\<forall>p e. cached p = Some e \<longrightarrow> stored D st p = Inr e)"

fun map_roots :: "(bytes \<Rightarrow> bytes) \<Rightarrow> key_map \<Rightarrow> key_map \<Rightarrow> bytes list" where
  "map_roots sha kvs [] = []"
| "map_roots sha kvs (e # es) = map_root sha (e # kvs) # map_roots sha (e # kvs) es"

lemma get_entry_overlaid:
  "cache_agrees D st cached \<Longrightarrow> overlaid D st overlay p = Inr e \<Longrightarrow> get_entry D st cached p overlay = Inr e"
  by (auto simp: cache_agrees_def overlaid_def stored_def get_entry_def split: option.splits)

lemma overlaid_upd: "overlaid D st (overlay(p \<mapsto> e)) q = (if q = p then Inr e else overlaid D st overlay q)"
  by (simp add: overlaid_def)

definition positions :: "u64 \<Rightarrow> nat \<Rightarrow> u64 list" where
  "positions start n = map (\<lambda>i. start + word_of_nat i) [0..<n]"

lemma positions_simps [simp]: "positions start 0 = []"
  "positions start (Suc n) = start # positions (start + 1) n"
  unfolding positions_def
  by (simp_all add: upt_conv_Cons map_Suc_upt [symmetric] o_def ac_simps del: upt_Suc)

lemma positions_later:
  assumes "q \<in> set (positions (start + 1) n)" and "n < 2 ^ 64"
  shows "q \<noteq> start"
proof -
  obtain i where i: "i < n" "q = start + word_of_nat (Suc i)"
    using assms(1) by (auto simp: positions_def ac_simps)
  then have "unat (word_of_nat (Suc i) :: u64) = Suc i"
    using assms(2) by (simp add: unat_of_nat take_bit_nat_eq_self del: of_nat_Suc)
  then have "(word_of_nat (Suc i) :: u64) \<noteq> 0" by (metis nat.distinct(1) unat_0)
  then show ?thesis using i(2) by simp
qed

lemma insert_loop_correct:
  assumes "cache_agrees D st cached" and "rep_by (overlaid D st overlay) sha ptr kvs" and "keys_ok entries"
    and "\<forall>p\<in>set (positions start (length entries)). \<forall>e. overlaid D st overlay p \<noteq> Inr e"
    and "length entries \<le> 2 ^ 64"
  shows "\<exists>results new. insert_loop sha D st cached start ptr entries overlay =
      Inr (map_roots sha kvs entries, results, map (\<lambda>(p, e). (p, enc_log_entry D e)) new, new,
        if entries = [] then ptr else Some (last (positions start (length entries)))) \<and>
    map res_log_position results = positions start (length entries) \<and>
    map res_commitment results = map snd entries \<and>
    map fst new = positions start (length entries) \<and> list_all entry_in_range (map snd new) \<and>
    distinct (map fst new) \<and>
    rep_by (overlaid D st (overlay ++ map_of new)) sha
      (if entries = [] then ptr else Some (last (positions start (length entries)))) (rev entries @ kvs)"
  using assms(2-)
proof (induction entries arbitrary: start ptr overlay kvs)
  case Nil
  then show ?case by simp
next
  case (Cons entry entries)
  obtain key c where entry: "entry = (key, c)" by fastforce
  have key: "length key = 32" and keys: "keys_ok entries" using Cons.prems(2) entry by simp_all
  have fresh: "overlaid D st overlay start \<noteq> Inr e" for e using Cons.prems(3) by simp
  obtain res e where ins: "insert_internal sha D st cached start ptr key c overlay =
        Inr (map_root sha ((key, c) # kvs), res, (start, enc_log_entry D e), e)"
      "res_log_position res = start" "res_commitment res = c" "entry_in_range e"
    and e: "represents (overlaid D st (overlay(start \<mapsto> e))) sha ((key, c) # kvs) 0 e"
  proof -
    have "\<exists>res e. insert_internal sha D st cached start ptr key c overlay =
        Inr (map_root sha ((key, c) # kvs), res, (start, enc_log_entry D e), e) \<and>
      res_log_position res = start \<and> res_commitment res = c \<and> entry_in_range e \<and>
      represents (overlaid D st overlay) sha ((key, c) # kvs) 0 e"
      using Cons.prems(1) key get_entry_overlaid [OF assms(1)] by (intro insert_internal_correct) auto
    then show ?thesis
      using that fresh represents_more [of "overlaid D st overlay" sha "(key, c) # kvs" 0]
      by (metis (no_types, lifting) overlaid_upd)
  qed
  let ?o = "overlay(start \<mapsto> e)"
  have rep: "rep_by (overlaid D st ?o) sha (Some start) ((key, c) # kvs)"
    using e Cons.prems(1) key by (simp add: rep_by_def overlaid_upd)
  have len: "length entries < 2 ^ 64" using Cons.prems(4) by simp
  have fresh': "\<forall>p\<in>set (positions (start + 1) (length entries)). \<forall>e'. overlaid D st ?o p \<noteq> Inr e'"
    using Cons.prems(3) positions_later [OF _ len] by (simp add: overlaid_upd)
  obtain results new where IH: "insert_loop sha D st cached (start + 1) (Some start) entries ?o =
      Inr (map_roots sha ((key, c) # kvs) entries, results, map (\<lambda>(p, e). (p, enc_log_entry D e)) new, new,
        if entries = [] then Some start else Some (last (positions (start + 1) (length entries))))"
    "map res_log_position results = positions (start + 1) (length entries)"
    "map res_commitment results = map snd entries"
    "map fst new = positions (start + 1) (length entries)" "list_all entry_in_range (map snd new)"
    "distinct (map fst new)"
    "rep_by (overlaid D st (?o ++ map_of new)) sha
      (if entries = [] then Some start else Some (last (positions (start + 1) (length entries))))
      (rev entries @ (key, c) # kvs)"
    using Cons.IH [OF rep keys fresh' less_imp_le [OF len]] by (elim exE conjE) (rule that)
  have start: "start \<notin> set (map fst new)" using IH(4) positions_later [OF _ len] by auto
  then have ov: "overlaid D st (?o ++ map_of new) = overlaid D st (overlay ++ map_of ((start, e) # new))"
    by (intro arg_cong [of _ _ "overlaid D st"]) (auto simp: map_add_upd_left dom_map_of_conv_image_fst)
  have ptr: "(if entries = [] then Some start else Some (last (positions (start + 1) (length entries)))) =
      Some (last (positions start (length (entry # entries))))"
    by (cases entries) simp_all
  show ?case
    using IH(1-6) IH(7) [unfolded ov ptr] ins start
    unfolding entry insert_loop.simps ins(1) ptr [symmetric] IH(1) ptr
    by (intro exI [of _ "res # results"] exI [of _ "(start, e) # new"])
      (simp add: res_simps IH(1) ptr [unfolded entry] del: map_of.simps)
qed

text \<open>What the batch writes is read back: the store after it holds the overlay's entries.\<close>

lemma map_of_rev_distinct: "distinct (map fst xs) \<Longrightarrow> map_of (rev xs) = map_of xs"
proof (induction xs)
  case (Cons x xs)
  then show ?case by (simp add: map_add_upd_left dom_map_of_conv_image_fst map_add_upd)
qed simp

lemma get_prefix_put_encoded:
  assumes "distinct (map fst new)"
  shows "get_prefix (put_prefix_batch (map (\<lambda>(p, e). (p, enc_log_entry D e)) new) st) q =
    (case map_of new q of Some e \<Rightarrow> Some (enc_log_entry D e) | None \<Rightarrow> get_prefix st q)"
proof -
  have "distinct (map fst (map (\<lambda>(p, e). (p, enc_log_entry D e)) new))"
    using assms by (simp add: comp_def split_beta)
  moreover have "map_of (map (\<lambda>(p, e). (p, enc_log_entry D e)) new) q = map_option (enc_log_entry D) (map_of new q)"
    by (induction new) auto
  ultimately show ?thesis
    by (simp add: put_batch_eq kv_prefix.get_put_list map_of_rev_distinct split: option.splits)
qed

lemma stored_put_encoded:
  assumes "codec_laws D" and "distinct (map fst new)" and "list_all entry_in_range (map snd new)"
  shows "stored D (put_prefix_batch (map (\<lambda>(p, e). (p, enc_log_entry D e)) new) st) = overlaid D st (map_of new)"
proof (intro ext)
  fix q
  have "entry_in_range e" if "map_of new q = Some e" for e
    using assms(3) map_of_SomeD [OF that] by (auto simp: list_all_iff)
  then show "stored D (put_prefix_batch (map (\<lambda>(p, e). (p, enc_log_entry D e)) new) st) q =
      overlaid D st (map_of new) q"
    using assms(1)
    by (auto simp: stored_def overlaid_def get_entry_def get_prefix_put_encoded [OF assms(2)] codec_laws_def
        res_simps split: option.splits)
qed

lemma cache_agrees_after:
  assumes "cache_agrees D st cached" and "\<forall>q\<in>fst ` set new. \<forall>e. stored D st q \<noteq> Inr e"
    and "distinct (map fst new)" and "stored D st' = overlaid D st (map_of new)"
  shows "cache_agrees D st' (fold (\<lambda>(k, v) c. c(k \<mapsto> v)) new cached)"
proof -
  have "fold (\<lambda>(k, v) c. c(k \<mapsto> v)) new cached = cached ++ map_of (rev new)"
    by (induction new arbitrary: cached) (auto simp: map_add_upd_left)
  then show ?thesis
    using assms by (auto simp: cache_agrees_def overlaid_def map_of_rev_distinct map_add_Some_iff
        dest: map_of_SomeD split: option.splits)
qed

lemma batch_insert_correct:
  assumes "codec_laws D" and "cache_agrees D st cached" and "rep_by (stored D st) sha ptr kvs"
    and "keys_ok entries" and "\<forall>p\<in>set (positions start (length entries)). get_prefix st p = None"
    and "length entries \<le> 2 ^ 64"
  defines "ptr' \<equiv> if entries = [] then ptr else Some (last (positions start (length entries)))"
  shows "\<exists>st' cached' results. batch_insert sha D start ptr entries (st, cached) =
      ((st', cached'), Inr (map_roots sha kvs entries, results, case ptr' of Some p \<Rightarrow> p | None \<Rightarrow> 0)) \<and>
    map res_log_position results = positions start (length entries) \<and>
    map res_commitment results = map snd entries \<and>
    rep_by (stored D st') sha ptr' (rev entries @ kvs) \<and> cache_agrees D st' cached' \<and>
    (\<forall>q kvs'. rep_by (stored D st) sha q kvs' \<longrightarrow> rep_by (stored D st') sha q kvs') \<and>
    (\<exists>batch. st' = put_prefix_batch batch st \<and> map fst batch = positions start (length entries))"
proof -
  have base: "overlaid D st Map.empty = stored D st" by (auto simp: overlaid_def)
  have free: "\<forall>p\<in>set (positions start (length entries)). \<forall>e. stored D st p \<noteq> Inr e"
    using assms(5) by (auto simp: stored_def get_entry_def res_simps)
  obtain results new where ins: "insert_loop sha D st cached start ptr entries Map.empty =
      Inr (map_roots sha kvs entries, results, map (\<lambda>(p, e). (p, enc_log_entry D e)) new, new, ptr')"
    "map res_log_position results = positions start (length entries)"
    "map res_commitment results = map snd entries"
    "map fst new = positions start (length entries)" "list_all entry_in_range (map snd new)"
    "distinct (map fst new)" "rep_by (overlaid D st (map_of new)) sha ptr' (rev entries @ kvs)"
    using insert_loop_correct [of D st cached Map.empty sha ptr kvs entries start] assms(2-4,6) base free
    unfolding ptr'_def by auto
  let ?batch = "map (\<lambda>(p, e). (p, enc_log_entry D e)) new"
  let ?st = "put_prefix_batch ?batch st"
  have st: "stored D ?st = overlaid D st (map_of new)" by (rule stored_put_encoded [OF assms(1) ins(6,5)])
  have "stored D ?st p = Inr e" if "stored D st p = Inr e" for p e
  proof -
    have "p \<notin> fst ` set new" using free that arg_cong [OF ins(4), of set] by auto
    then show ?thesis using that by (simp add: st overlaid_def map_of_eq_None_iff [THEN iffD2])
  qed
  then have "rep_by (stored D ?st) sha q kvs'" if "rep_by (stored D st) sha q kvs'" for q kvs'
    using rep_by_more that by blast
  moreover have "cache_agrees D ?st (fold (\<lambda>(k, v) c. c(k \<mapsto> v)) new cached)"
    using free arg_cong [OF ins(4), of set] by (intro cache_agrees_after [OF assms(2) _ ins(6) st]) auto
  moreover have "map fst ?batch = positions start (length entries)"
    using ins(4) by (simp add: comp_def split_beta)
  ultimately show ?thesis
    unfolding batch_insert_def using ins(1-3) ins(7) [folded st] by (intro exI conjI) auto
qed

end
