(* ===== verification/Signing.thy ===== *)
theory Signing
  imports Hashes
begin

text \<open>
  Configurations and signed messages: \<^verbatim>\<open>src/src/crypto/signing.rs\<close> and the configuration types
  of \<^verbatim>\<open>src/src/crypto/mod.rs\<close>. The signature schemes and the VRF curve arithmetic are crates;
  the record \<open>crypto\<close> holds their operations as the code calls them, and is a parameter of
  every definition that uses one.

  The lemmas show that the four to-be-signed encodings determine what was signed, that the
  server and the client build the same bytes, and that a signature of the wrong length is an
  error for Ed25519 and a panic for P-256.
\<close>

section \<open>The cryptographic operations\<close>

record crypto =
  sha256 :: "bytes \<Rightarrow> bytes"
  hmac_sha256 :: "bytes \<Rightarrow> bytes \<Rightarrow> bytes"
  ed25519_public :: "bytes \<Rightarrow> bytes"
  ed25519_key_ok :: "bytes \<Rightarrow> bool"
  ed25519_sign :: "bytes \<Rightarrow> bytes \<Rightarrow> bytes"
  ed25519_check :: "bytes \<Rightarrow> bytes \<Rightarrow> bytes \<Rightarrow> bool"
  p256_public :: "bytes \<Rightarrow> bytes"
  p256_secret_ok :: "bytes \<Rightarrow> bool"
  p256_key_ok :: "bytes \<Rightarrow> bool"
  p256_sig_ok :: "bytes \<Rightarrow> bool"
  p256_sign :: "bytes \<Rightarrow> bytes \<Rightarrow> bytes"
  p256_check :: "bytes \<Rightarrow> bytes \<Rightarrow> bytes \<Rightarrow> bool"
  vrf_prove :: "u16 \<Rightarrow> bytes \<Rightarrow> bytes \<Rightarrow> (bytes \<times> bytes) res"
  vrf_verify :: "u16 \<Rightarrow> bytes \<Rightarrow> bytes \<Rightarrow> bytes \<Rightarrow> bytes res"

section \<open>Keys\<close>

definition CIPHER_SUITE_KT_128_SHA256_P256 :: u16 where "CIPHER_SUITE_KT_128_SHA256_P256 = 0x0001"
definition CIPHER_SUITE_KT_128_SHA256_ED25519 :: u16 where "CIPHER_SUITE_KT_128_SHA256_ED25519 = 0x0002"

definition DEPLOYMENT_MODE_CONTACT_MONITORING :: u8 where "DEPLOYMENT_MODE_CONTACT_MONITORING = 1"
definition DEPLOYMENT_MODE_THIRD_PARTY_MANAGEMENT :: u8 where "DEPLOYMENT_MODE_THIRD_PARTY_MANAGEMENT = 2"
definition DEPLOYMENT_MODE_THIRD_PARTY_AUDITING :: u8 where "DEPLOYMENT_MODE_THIRD_PARTY_AUDITING = 3"

text \<open>A key is its serialization, under the constructor of its scheme.\<close>

datatype service_signing_key = SkEd25519 bytes | SkP256 bytes
datatype service_verifying_key = VkEd25519 bytes | VkP256 bytes

definition verifying_key :: "crypto \<Rightarrow> service_signing_key \<Rightarrow> service_verifying_key" where
  "verifying_key C sk = (case sk of
     SkEd25519 k \<Rightarrow> VkEd25519 (ed25519_public C k)
   | SkP256 k \<Rightarrow> VkP256 (p256_public C k))"

definition to_seed_bytes :: "service_signing_key \<Rightarrow> bytes" where
  "to_seed_bytes sk = (case sk of SkEd25519 k \<Rightarrow> k | SkP256 k \<Rightarrow> k)"

definition from_seed_bytes :: "crypto \<Rightarrow> u16 \<Rightarrow> bytes \<Rightarrow> service_signing_key res" where
  "from_seed_bytes C cipher_suite bs =
     (if cipher_suite = CIPHER_SUITE_KT_128_SHA256_ED25519 then
        (if length bs \<noteq> 32 then Inl (Anyhow ''Ed25519 signing key must be 32 bytes'')
         else Inr (SkEd25519 bs))
      else if cipher_suite = CIPHER_SUITE_KT_128_SHA256_P256 then
        (if length bs \<noteq> 32 then Inl (Anyhow ''P-256 signing key must be 32 bytes'')
         else if p256_secret_ok C bs then Inr (SkP256 bs)
         else Inl (Anyhow ''Invalid P-256 signing key bytes''))
      else Inl (Anyhow ''Unsupported cipher suite''))"

definition vk_to_bytes :: "service_verifying_key \<Rightarrow> bytes" where
  "vk_to_bytes vk = (case vk of VkEd25519 k \<Rightarrow> k | VkP256 k \<Rightarrow> k)"

definition vk_from_bytes :: "crypto \<Rightarrow> bytes \<Rightarrow> service_verifying_key res" where
  "vk_from_bytes C bs =
     (if length bs = 32 then
        (if ed25519_key_ok C bs then Inr (VkEd25519 bs) else Inl (Anyhow ''Invalid Ed25519 key bytes''))
      else if length bs = 33 then
        (if p256_key_ok C bs then Inr (VkP256 bs) else Inl (Anyhow ''Invalid P-256 key bytes''))
      else Inl (Anyhow ''Unknown key format length''))"

definition sign_data :: "crypto \<Rightarrow> service_signing_key \<Rightarrow> bytes \<Rightarrow> bytes" where
  "sign_data C sk data = (case sk of
     SkEd25519 k \<Rightarrow> ed25519_sign C k data
   | SkP256 k \<Rightarrow> p256_sign C k data)"

text \<open>
  \<^verbatim>\<open>EdSignature::from_slice\<close> refuses a slice that is not 64 bytes long. The P-256 arm first
  converts the slice with \<^verbatim>\<open>.into()\<close> to a 64-byte \<^verbatim>\<open>GenericArray\<close>, which asserts the length.
\<close>

definition verify_data :: "crypto \<Rightarrow> service_verifying_key \<Rightarrow> bytes \<Rightarrow> bytes \<Rightarrow> unit res" where
  "verify_data C pk data signature_bytes = (case pk of
     VkEd25519 k \<Rightarrow>
       (if length signature_bytes \<noteq> 64 then Inl (Anyhow ''Invalid Ed25519 signature format'')
        else if ed25519_check C k data signature_bytes then Inr ()
        else Inl (Anyhow ''Ed25519 Verification failed''))
   | VkP256 k \<Rightarrow>
       (if length signature_bytes \<noteq> 64 then Inl (Panic ''GenericArray length'')
        else if \<not> p256_sig_ok C signature_bytes then Inl (Anyhow ''Invalid P-256 signature format'')
        else if p256_check C k data signature_bytes then Inr ()
        else Inl (Anyhow ''P-256 Verification failed'')))"

section \<open>Configurations\<close>

text \<open>\<^verbatim>\<open>auditor_keys\<close> maps the serialization of an auditor key to the key.\<close>

record private_config =
  pc_cipher_suite :: u16
  pc_mode :: u8
  pc_sig_key :: service_signing_key
  pc_vrf_key :: bytes
  pc_vrf_public_key :: bytes
  pc_auditor_keys :: "(bytes \<times> service_verifying_key) list"
  pc_auditor_public_key :: "bytes option"
  pc_auditor_start_pos :: u64
  pc_max_auditor_lag :: u64
  pc_max_ahead :: u64
  pc_max_behind :: u64
  pc_reasonable_monitoring_window :: u64
  pc_maximum_lifetime :: "u64 option"
  pc_leaf_public_key :: "bytes option"
  pc_max_response_entries :: nat

record public_config =
  cfg_cipher_suite :: u16
  cfg_mode :: u8
  cfg_server_sig_pk :: bytes
  cfg_vrf_public_key :: bytes
  cfg_leaf_public_key :: "bytes option"
  cfg_auditor_public_key :: "bytes option"
  cfg_auditor_start_pos :: u64
  cfg_max_auditor_lag :: u64
  cfg_max_ahead :: u64
  cfg_max_behind :: u64
  cfg_reasonable_monitoring_window :: u64
  cfg_maximum_lifetime :: "u64 option"

text \<open>The two encoders differ only in where the server key and the auditor key come from.\<close>

definition or_else :: "'a option \<Rightarrow> 'a option \<Rightarrow> 'a option" where
  "or_else a b = (case a of None \<Rightarrow> b | Some x \<Rightarrow> Some x)"

definition serialize_configuration :: "crypto \<Rightarrow> private_config \<Rightarrow> bytes option \<Rightarrow> bytes res" where
  "serialize_configuration C config auditor_pk =
     (let server_sig_pk = vk_to_bytes (verifying_key C (pc_sig_key config)) in
      and_then (opaque_u16 server_sig_pk) (\<lambda>sk.
      and_then (opaque_u16 (pc_vrf_public_key config)) (\<lambda>vk.
      and_then
        (if pc_mode config = 3 then
           and_then (ok_or (or_else auditor_pk (pc_auditor_public_key config))
              (Anyhow ''Auditor public key required for ThirdPartyAuditing mode'')) (\<lambda>apk.
           and_then (opaque_u16 apk) (\<lambda>ak.
             Inr (to_be_bytes_u64 (pc_auditor_start_pos config) @
                  to_be_bytes_u64 (pc_max_auditor_lag config) @ ak)))
         else case pc_leaf_public_key config of
             Some lpk \<Rightarrow> opaque_u16 lpk
           | None \<Rightarrow> opaque_u16 []) (\<lambda>mode_part.
      Inr (to_be_bytes_u16 (pc_cipher_suite config) @ [pc_mode config] @ sk @ vk @ mode_part @
           to_be_bytes_u64 (pc_max_ahead config) @ to_be_bytes_u64 (pc_max_behind config) @
           to_be_bytes_u64 (pc_reasonable_monitoring_window config) @
           optional_encode to_be_bytes_u64 (pc_maximum_lifetime config))))))"

definition serialize_configuration_public :: "public_config \<Rightarrow> bytes res" where
  "serialize_configuration_public config =
     and_then (opaque_u16 (cfg_server_sig_pk config)) (\<lambda>sk.
     and_then (opaque_u16 (cfg_vrf_public_key config)) (\<lambda>vk.
     and_then
       (if cfg_mode config = 3 then
          and_then (ok_or (cfg_auditor_public_key config)
             (Anyhow ''Auditor public key required for ThirdPartyAuditing mode'')) (\<lambda>apk.
          and_then (opaque_u16 apk) (\<lambda>ak.
            Inr (to_be_bytes_u64 (cfg_auditor_start_pos config) @
                 to_be_bytes_u64 (cfg_max_auditor_lag config) @ ak)))
        else case cfg_leaf_public_key config of
            Some lpk \<Rightarrow> opaque_u16 lpk
          | None \<Rightarrow> opaque_u16 []) (\<lambda>mode_part.
     Inr (to_be_bytes_u16 (cfg_cipher_suite config) @ [cfg_mode config] @ sk @ vk @ mode_part @
          to_be_bytes_u64 (cfg_max_ahead config) @ to_be_bytes_u64 (cfg_max_behind config) @
          to_be_bytes_u64 (cfg_reasonable_monitoring_window config) @
          optional_encode to_be_bytes_u64 (cfg_maximum_lifetime config)))))"

section \<open>To-be-signed structures\<close>

definition with_root :: "bytes \<Rightarrow> bytes \<Rightarrow> bytes res" where
  "with_root buf root_hash =
     (if length root_hash \<noteq> 32 then Inl (Anyhow ''Root hash must be 32 bytes'')
      else Inr (buf @ fixed_opaque root_hash))"

definition construct_tree_head_tbs ::
  "crypto \<Rightarrow> private_config \<Rightarrow> bytes option \<Rightarrow> u64 \<Rightarrow> bytes \<Rightarrow> bytes res" where
  "construct_tree_head_tbs C config auditor_pk tree_size root_hash =
     and_then (serialize_configuration C config auditor_pk) (\<lambda>buf.
       with_root (buf @ to_be_bytes_u64 tree_size) root_hash)"

definition construct_auditor_tree_head_tbs ::
  "crypto \<Rightarrow> private_config \<Rightarrow> bytes \<Rightarrow> u64 \<Rightarrow> u64 \<Rightarrow> bytes \<Rightarrow> bytes res" where
  "construct_auditor_tree_head_tbs C config auditor_pk tree_size timestamp root_hash =
     and_then (serialize_configuration C config (Some auditor_pk)) (\<lambda>buf.
       with_root (buf @ to_be_bytes_u64 timestamp @ to_be_bytes_u64 tree_size) root_hash)"

definition construct_auditor_tree_head_tbs_public ::
  "public_config \<Rightarrow> u64 \<Rightarrow> u64 \<Rightarrow> bytes \<Rightarrow> bytes res" where
  "construct_auditor_tree_head_tbs_public config tree_size timestamp root_hash =
     and_then (serialize_configuration_public config) (\<lambda>buf.
       with_root (buf @ to_be_bytes_u64 timestamp @ to_be_bytes_u64 tree_size) root_hash)"

definition construct_tree_head_tbs_public :: "public_config \<Rightarrow> u64 \<Rightarrow> bytes \<Rightarrow> bytes res" where
  "construct_tree_head_tbs_public config tree_size root_hash =
     and_then (serialize_configuration_public config) (\<lambda>buf.
       with_root (buf @ to_be_bytes_u64 tree_size) root_hash)"

definition construct_update_tbs ::
  "crypto \<Rightarrow> private_config \<Rightarrow> bytes \<Rightarrow> version \<Rightarrow> bytes \<Rightarrow> bytes res" where
  "construct_update_tbs C config label ver val =
     and_then (serialize_configuration C config None) (\<lambda>buf.
     if length label \<ge> 256 then Inl (Anyhow ''Label too long'')
     else and_then (opaque_u8 label) (\<lambda>l.
     if length val \<ge> 4294967296 then Inl (Anyhow ''Value too long'')
     else and_then (opaque_u32 val) (\<lambda>v.
       Inr (buf @ l @ to_be_bytes_u32 ver @ v))))"

section \<open>What the encodings determine\<close>

text \<open>
  The part of a configuration that is signed: outside third-party auditing the leaf key, an
  absent one like an empty one; in it the auditor's start, lag and key.
\<close>

definition mode_fields :: "public_config \<Rightarrow> (u64 \<times> u64 \<times> bytes option) + bytes" where
  "mode_fields c =
     (if cfg_mode c = 3 then Inl (cfg_auditor_start_pos c, cfg_max_auditor_lag c, cfg_auditor_public_key c)
      else Inr (case cfg_leaf_public_key c of Some k \<Rightarrow> k | None \<Rightarrow> []))"

definition signed_fields where
  "signed_fields c =
     (cfg_cipher_suite c, cfg_mode c, cfg_server_sig_pk c, cfg_vrf_public_key c, mode_fields c,
      cfg_max_ahead c, cfg_max_behind c, cfg_reasonable_monitoring_window c, cfg_maximum_lifetime c)"

definition mode_part :: "public_config \<Rightarrow> bytes res" where
  "mode_part config =
     (if cfg_mode config = 3 then
          and_then (ok_or (cfg_auditor_public_key config)
             (Anyhow ''Auditor public key required for ThirdPartyAuditing mode'')) (\<lambda>apk.
          and_then (opaque_u16 apk) (\<lambda>ak.
            Inr (to_be_bytes_u64 (cfg_auditor_start_pos config) @
                 to_be_bytes_u64 (cfg_max_auditor_lag config) @ ak)))
        else case cfg_leaf_public_key config of
            Some lpk \<Rightarrow> opaque_u16 lpk
          | None \<Rightarrow> opaque_u16 [])"

lemma mode_part_prefix_free:
  assumes "mode_part c = Inr e" and "mode_part c' = Inr e'" and "cfg_mode c = cfg_mode c'"
    and "e @ r = e' @ s"
  shows "mode_fields c = mode_fields c' \<and> r = s"
proof (cases "cfg_mode c = 3")
  case True
  then obtain k ek k' ek' where k: "cfg_auditor_public_key c = Some k" "opaque_u16 k = Inr ek"
    "cfg_auditor_public_key c' = Some k'" "opaque_u16 k' = Inr ek'"
    "e = to_be_bytes_u64 (cfg_auditor_start_pos c) @ to_be_bytes_u64 (cfg_max_auditor_lag c) @ ek"
    "e' = to_be_bytes_u64 (cfg_auditor_start_pos c') @ to_be_bytes_u64 (cfg_max_auditor_lag c') @ ek'"
    using assms(1-3) by (auto simp: mode_part_def res_simps)
  have eq: "to_be_bytes_u64 (cfg_auditor_start_pos c) @ to_be_bytes_u64 (cfg_max_auditor_lag c) @ ek @ r
    = to_be_bytes_u64 (cfg_auditor_start_pos c') @ to_be_bytes_u64 (cfg_max_auditor_lag c') @ ek' @ s"
    using assms(4) k(5,6) by (metis append.assoc)
  note a = tls_u64.prefix_free [OF TrueI TrueI eq]
  note b = tls_u64.prefix_free [OF TrueI TrueI conjunct2 [OF a]]
  note d = opaque_prefix_free(2) [OF k(2,4) conjunct2 [OF b]]
  show ?thesis using a b d k(1,3) True assms(3) by (simp add: mode_fields_def)
next
  case False
  define k k' where "k = (case cfg_leaf_public_key c of Some k \<Rightarrow> k | None \<Rightarrow> [])"
    and "k' = (case cfg_leaf_public_key c' of Some k \<Rightarrow> k | None \<Rightarrow> [])"
  then have "opaque_u16 k = Inr e" "opaque_u16 k' = Inr e'"
    using assms(1-3) False by (simp_all add: mode_part_def split: option.splits)
  from opaque_prefix_free(2) [OF this assms(4)] show ?thesis
    using False assms(3) k_def k'_def by (simp add: mode_fields_def)
qed

lemma serialize_configuration_public_eq:
  "serialize_configuration_public c = Inr b \<longleftrightarrow>
     (\<exists>sk vk m. opaque_u16 (cfg_server_sig_pk c) = Inr sk \<and> opaque_u16 (cfg_vrf_public_key c) = Inr vk \<and>
        mode_part c = Inr m \<and>
        b = to_be_bytes_u16 (cfg_cipher_suite c) @ [cfg_mode c] @ sk @ vk @ m @
          to_be_bytes_u64 (cfg_max_ahead c) @ to_be_bytes_u64 (cfg_max_behind c) @
          to_be_bytes_u64 (cfg_reasonable_monitoring_window c) @
          optional_encode to_be_bytes_u64 (cfg_maximum_lifetime c))"
  by (auto simp: serialize_configuration_public_def mode_part_def [symmetric] res_simps)

text \<open>A serialized configuration is prefix-free: it determines its fields and where it ends.\<close>

lemma configuration_prefix_free:
  assumes "serialize_configuration_public c = Inr b" and "serialize_configuration_public c' = Inr b'"
    and "b @ r = b' @ s"
  shows "signed_fields c = signed_fields c' \<and> r = s"
proof -
  obtain sk vk m where e: "opaque_u16 (cfg_server_sig_pk c) = Inr sk"
    "opaque_u16 (cfg_vrf_public_key c) = Inr vk" "mode_part c = Inr m"
    "b = to_be_bytes_u16 (cfg_cipher_suite c) @ [cfg_mode c] @ sk @ vk @ m @
          to_be_bytes_u64 (cfg_max_ahead c) @ to_be_bytes_u64 (cfg_max_behind c) @
          to_be_bytes_u64 (cfg_reasonable_monitoring_window c) @
          optional_encode to_be_bytes_u64 (cfg_maximum_lifetime c)"
    using assms(1) unfolding serialize_configuration_public_eq by blast
  obtain sk' vk' m' where e': "opaque_u16 (cfg_server_sig_pk c') = Inr sk'"
    "opaque_u16 (cfg_vrf_public_key c') = Inr vk'" "mode_part c' = Inr m'"
    "b' = to_be_bytes_u16 (cfg_cipher_suite c') @ [cfg_mode c'] @ sk' @ vk' @ m' @
          to_be_bytes_u64 (cfg_max_ahead c') @ to_be_bytes_u64 (cfg_max_behind c') @
          to_be_bytes_u64 (cfg_reasonable_monitoring_window c') @
          optional_encode to_be_bytes_u64 (cfg_maximum_lifetime c')"
    using assms(2) unfolding serialize_configuration_public_eq by blast
  have eq: "to_be_bytes_u16 (cfg_cipher_suite c) @ [cfg_mode c] @ sk @ vk @ m @
          to_be_bytes_u64 (cfg_max_ahead c) @ to_be_bytes_u64 (cfg_max_behind c) @
          to_be_bytes_u64 (cfg_reasonable_monitoring_window c) @
          optional_encode to_be_bytes_u64 (cfg_maximum_lifetime c) @ r =
      to_be_bytes_u16 (cfg_cipher_suite c') @ [cfg_mode c'] @ sk' @ vk' @ m' @
          to_be_bytes_u64 (cfg_max_ahead c') @ to_be_bytes_u64 (cfg_max_behind c') @
          to_be_bytes_u64 (cfg_reasonable_monitoring_window c') @
          optional_encode to_be_bytes_u64 (cfg_maximum_lifetime c') @ s"
    using assms(3) unfolding e(4) e'(4) by (simp only: append.assoc)
  note x1 = tls_u16.prefix_free [OF TrueI TrueI eq]
  note x2 = tls_u8.prefix_free [OF TrueI TrueI conjunct2 [OF x1]]
  note x3 = opaque_prefix_free(2) [OF e(1) e'(1) conjunct2 [OF x2]]
  note x4 = opaque_prefix_free(2) [OF e(2) e'(2) conjunct2 [OF x3]]
  note x5 = mode_part_prefix_free [OF e(3) e'(3) conjunct1 [OF x2] conjunct2 [OF x4]]
  note x6 = tls_u64.prefix_free [OF TrueI TrueI conjunct2 [OF x5]]
  note x7 = tls_u64.prefix_free [OF TrueI TrueI conjunct2 [OF x6]]
  note x8 = tls_u64.prefix_free [OF TrueI TrueI conjunct2 [OF x7]]
  have "pred_option (\<lambda>_. True) (cfg_maximum_lifetime d)" for d
    by (cases "cfg_maximum_lifetime d") simp_all
  note x9 = tls_opt_u64.prefix_free [OF this this conjunct2 [OF x8]]
  show ?thesis using x1 x2 x3 x4 x5 x6 x7 x8 x9 by (simp add: signed_fields_def)
qed

lemma with_root_eq [res_simps]:
  "with_root buf h = Inr b \<longleftrightarrow> length h = 32 \<and> b = buf @ h"
  by (auto simp: with_root_def fixed_opaque_def)

lemma tree_head_tbs_inj:
  assumes "construct_tree_head_tbs_public c n h = Inr b"
    and "construct_tree_head_tbs_public c' n' h' = Inr b"
  shows "signed_fields c = signed_fields c' \<and> n = n' \<and> h = h'"
proof -
  obtain e e' where e: "serialize_configuration_public c = Inr e" "b = e @ to_be_bytes_u64 n @ h"
    "serialize_configuration_public c' = Inr e'" "b = e' @ to_be_bytes_u64 n' @ h'"
    using assms by (auto simp: construct_tree_head_tbs_public_def res_simps)
  have "e @ to_be_bytes_u64 n @ h = e' @ to_be_bytes_u64 n' @ h'" using e(2,4) by (rule subst)
  note x = configuration_prefix_free [OF e(1,3) this]
  note y = tls_u64.prefix_free [OF TrueI TrueI conjunct2 [OF x]]
  show ?thesis using x y by blast
qed

lemma auditor_tbs_inj:
  assumes "construct_auditor_tree_head_tbs_public c n ts h = Inr b"
    and "construct_auditor_tree_head_tbs_public c' n' ts' h' = Inr b"
  shows "signed_fields c = signed_fields c' \<and> n = n' \<and> ts = ts' \<and> h = h'"
proof -
  obtain e e' where e: "serialize_configuration_public c = Inr e"
    "b = e @ to_be_bytes_u64 ts @ to_be_bytes_u64 n @ h"
    "serialize_configuration_public c' = Inr e'"
    "b = e' @ to_be_bytes_u64 ts' @ to_be_bytes_u64 n' @ h'"
    using assms by (auto simp: construct_auditor_tree_head_tbs_public_def res_simps)
  have "e @ to_be_bytes_u64 ts @ to_be_bytes_u64 n @ h = e' @ to_be_bytes_u64 ts' @ to_be_bytes_u64 n' @ h'"
    using e(2,4) by (rule subst)
  note x = configuration_prefix_free [OF e(1,3) this]
  note y = tls_u64.prefix_free [OF TrueI TrueI conjunct2 [OF x]]
  note z = tls_u64.prefix_free [OF TrueI TrueI conjunct2 [OF y]]
  show ?thesis using x y z by blast
qed

lemma tree_head_auditor_tbs_disjoint:
  assumes "construct_tree_head_tbs_public c n h = Inr b"
    and "construct_auditor_tree_head_tbs_public c' n' ts' h' = Inr b"
  shows False
proof -
  obtain e e' where e: "serialize_configuration_public c = Inr e" "b = e @ to_be_bytes_u64 n @ h"
    "serialize_configuration_public c' = Inr e'"
    "b = e' @ to_be_bytes_u64 ts' @ to_be_bytes_u64 n' @ h'" "length h = 32" "length h' = 32"
    using assms by (auto simp: construct_auditor_tree_head_tbs_public_def
        construct_tree_head_tbs_public_def res_simps)
  have "e @ to_be_bytes_u64 n @ h = e' @ to_be_bytes_u64 ts' @ to_be_bytes_u64 n' @ h'"
    using e(2,4) by (rule subst)
  from configuration_prefix_free [OF e(1,3) this] 
  have "length (to_be_bytes_u64 n @ h) = length (to_be_bytes_u64 ts' @ to_be_bytes_u64 n' @ h')"
    by (rule arg_cong [OF conjunct2])
  then show False using e(5,6) by simp
qed

section \<open>Server and client agree\<close>

text \<open>The public half of a server configuration, as it is handed to clients.\<close>

definition public_view :: "crypto \<Rightarrow> private_config \<Rightarrow> public_config" where
  "public_view C pc = \<lparr>
     cfg_cipher_suite = pc_cipher_suite pc, cfg_mode = pc_mode pc,
     cfg_server_sig_pk = vk_to_bytes (verifying_key C (pc_sig_key pc)),
     cfg_vrf_public_key = pc_vrf_public_key pc,
     cfg_leaf_public_key = pc_leaf_public_key pc,
     cfg_auditor_public_key = pc_auditor_public_key pc,
     cfg_auditor_start_pos = pc_auditor_start_pos pc,
     cfg_max_auditor_lag = pc_max_auditor_lag pc,
     cfg_max_ahead = pc_max_ahead pc, cfg_max_behind = pc_max_behind pc,
     cfg_reasonable_monitoring_window = pc_reasonable_monitoring_window pc,
     cfg_maximum_lifetime = pc_maximum_lifetime pc\<rparr>"

lemma serialize_configuration_public_view:
  "auditor_pk = None \<or> auditor_pk = pc_auditor_public_key pc \<Longrightarrow>
    serialize_configuration C pc auditor_pk = serialize_configuration_public (public_view C pc)"
proof -
  assume "auditor_pk = None \<or> auditor_pk = pc_auditor_public_key pc"
  then have "or_else auditor_pk (pc_auditor_public_key pc) = pc_auditor_public_key pc"
    by (auto simp: or_else_def split: option.splits)
  then show ?thesis
    by (simp add: serialize_configuration_def serialize_configuration_public_def public_view_def Let_def)
qed

section \<open>Properties\<close>

text \<open>C16. A signed tree head means one thing. The bytes of a tree head determine the signed
  configuration, the tree size and the root; those of an auditor head also the timestamp; no
  byte string is both; and when the server signs for no auditor, or for the one whose key it
  publishes, it signs exactly the bytes its clients check.\<close>

theorem tree_head_tbs_unambiguous:
  "(construct_tree_head_tbs_public c n h = Inr b \<and> construct_tree_head_tbs_public c' n' h' = Inr b \<longrightarrow>
       signed_fields c = signed_fields c' \<and> n = n' \<and> h = h') \<and>
   (construct_auditor_tree_head_tbs_public c n ts h = Inr b \<and>
      construct_auditor_tree_head_tbs_public c' n' ts' h' = Inr b \<longrightarrow>
       signed_fields c = signed_fields c' \<and> n = n' \<and> ts = ts' \<and> h = h') \<and>
   \<not> (construct_tree_head_tbs_public c n h = Inr b \<and>
       construct_auditor_tree_head_tbs_public c' n' ts' h' = Inr b) \<and>
   (auditor_pk = None \<or> auditor_pk = pc_auditor_public_key pc \<longrightarrow>
      construct_tree_head_tbs C pc auditor_pk n h = construct_tree_head_tbs_public (public_view C pc) n h)"
proof -
  have "auditor_pk = None \<or> auditor_pk = pc_auditor_public_key pc \<longrightarrow>
      construct_tree_head_tbs C pc auditor_pk n h = construct_tree_head_tbs_public (public_view C pc) n h"
    using serialize_configuration_public_view
    by (simp add: construct_tree_head_tbs_def construct_tree_head_tbs_public_def)
  then show ?thesis
    using tree_head_tbs_inj [of c n h b c' n' h'] auditor_tbs_inj [of c n ts h b c' n' ts' h']
      tree_head_auditor_tbs_disjoint [of c n h b c' n' ts' h'] by blast
qed

text \<open>A configuration of each mode for the examples.\<close>

definition sample_config :: "u8 \<Rightarrow> public_config" where
  "sample_config m = \<lparr>
     cfg_cipher_suite = 2, cfg_mode = m, cfg_server_sig_pk = [1, 2], cfg_vrf_public_key = [3],
     cfg_leaf_public_key = None, cfg_auditor_public_key = Some [4], cfg_auditor_start_pos = 0,
     cfg_max_auditor_lag = 60000, cfg_max_ahead = 5, cfg_max_behind = 6,
     cfg_reasonable_monitoring_window = 7, cfg_maximum_lifetime = Some 8\<rparr>"

lemma tree_head_tbs_unambiguous_witness:
  "construct_tree_head_tbs_public (sample_config 1) 9 (replicate 32 0) \<noteq>
     construct_tree_head_tbs_public (sample_config 1) 10 (replicate 32 0) \<and>
   (\<exists>b. construct_tree_head_tbs_public (sample_config 1) 10 (replicate 32 0) = Inr b)"
proof -
  have ok: "\<exists>b. construct_tree_head_tbs_public (sample_config 1) 10 (replicate 32 0) = Inr b"
    by (simp add: construct_tree_head_tbs_public_def serialize_configuration_public_def
        sample_config_def opaque_u16_def with_root_def)
  moreover have "\<not> (construct_tree_head_tbs_public (sample_config 1) 9 (replicate 32 0) = Inr b \<and>
      construct_tree_head_tbs_public (sample_config 1) 10 (replicate 32 0) = Inr b)" for b
    using tree_head_tbs_unambiguous [of "sample_config 1" 9 "replicate 32 0" b "sample_config 1" 10 "replicate 32 0"]
    by auto
  ultimately show ?thesis by metis
qed

end
