(* ===== verification/BinaryLadder.thy ===== *)
theory BinaryLadder
  imports Proto
begin

text \<open>
  Binary ladders: the versions a server looks up to establish the greatest version of a
  label (\<^verbatim>\<open>src/src/tree/binary_ladder.rs\<close>), and the client's replay of that choice from the
  types of the results alone (\<^verbatim>\<open>decode_search_ladder\<close> of \<^verbatim>\<open>src/src/client/core.rs\<close>).

  The specification is \<open>ladder\<close>, the run of both loops as one stream of probes. The lemmas
  show that the source's loops compute it, that it contains \<open>n\<close> and \<open>n + 1\<close>, and that the
  replay inverts it.
\<close>

section \<open>Server side\<close>

text \<open>The clamp of \<open>2 ^ k - 1\<close> to the largest version, computed in \<open>u64\<close>.\<close>

definition ladder_power :: "nat \<Rightarrow> version" where
  "ladder_power k = (let value_u64 = 2 ^ k - 1 in if value_u64 > U32_MAX then U32_MAX else value_u64)"

lemma ladder_power_max: "32 \<le> k \<Longrightarrow> ladder_power k = U32_MAX"
proof -
  assume "32 \<le> k"
  then have "(2 :: nat) ^ 32 \<le> 2 ^ k" by (intro power_increasing) auto
  then show ?thesis by (auto simp: ladder_power_def U32_MAX_def Let_def)
qed

function powers_loop :: "version \<Rightarrow> version list \<Rightarrow> version list" where
  "powers_loop n out =
     (let value = ladder_power (length out) in
      if out \<noteq> [] \<and> value = last out then out
      else if value > n then out @ [value]
      else if value = U32_MAX then out @ [value]
      else powers_loop n (out @ [value]))"
  by pat_completeness auto
termination
proof (relation "measure (\<lambda>(n, out). 33 - length out)")
  show "((n, out @ [v]), n, out) \<in> measure (\<lambda>(n, out). 33 - length out)"
    if "v = ladder_power (length out)" "v \<noteq> U32_MAX" for n out v
    using that ladder_power_max [of "length out"] by (cases "32 \<le> length out") auto
qed simp

declare powers_loop.simps [simp del]

function bisect_loop :: "version \<Rightarrow> version \<Rightarrow> version \<Rightarrow> version list \<Rightarrow> version list" where
  "bisect_loop n lower_bound upper_bound out =
     (if lower_bound < upper_bound \<and> upper_bound - lower_bound > 1 then
        (let value = lower_bound + (upper_bound - lower_bound) div 2 in
         if value \<le> n then bisect_loop n value upper_bound (out @ [value])
         else bisect_loop n lower_bound value (out @ [value]))
      else out)"
  by pat_completeness auto
termination by (relation "measure (\<lambda>(n, l, u, out). u - l)") auto

declare bisect_loop.simps [simp del]

definition base_binary_ladder :: "version \<Rightarrow> version list" where
  "base_binary_ladder n =
     (let out = powers_loop n [] in
      if length out < 2 then out
      else if last out > n then
        bisect_loop n (out ! (length out - 2)) (out ! (length out - 1)) out
      else out)"

fun position :: "('a \<Rightarrow> bool) \<Rightarrow> 'a list \<Rightarrow> nat option" where
  "position P [] = None"
| "position P (x # xs) = (if P x then Some 0 else map_option Suc (position P xs))"

definition ladder_stop :: "version \<Rightarrow> version \<Rightarrow> version \<Rightarrow> bool" where
  "ladder_stop t n v \<longleftrightarrow> (v \<le> n \<and> v > t) \<or> (v > n \<and> v \<le> t)"

definition search_binary_ladder ::
  "version \<Rightarrow> version \<Rightarrow> version list \<Rightarrow> version list \<Rightarrow> version list" where
  "search_binary_ladder t n left_inclusion right_non_inclusion =
     (let out = base_binary_ladder n;
          end_pos = (case position (ladder_stop t n) out of Some i \<Rightarrow> i + 1 | None \<Rightarrow> length out)
      in filter (\<lambda>v. v \<notin> set left_inclusion \<and> v \<notin> set right_non_inclusion) (take end_pos out))"

definition monitoring_binary_ladder :: "version \<Rightarrow> version list \<Rightarrow> version list" where
  "monitoring_binary_ladder t left_inclusion =
     filter (\<lambda>v. v \<le> t \<and> v \<notin> set left_inclusion) (base_binary_ladder t)"

section \<open>Client side\<close>

record decoded_lookup =
  dl_version :: version
  dl_inclusion :: bool

definition decode_finish ::
  "decoded_lookup list \<Rightarrow> prefix_search_result list \<Rightarrow> decoded_lookup list res" where
  "decode_finish out rest =
     (if rest \<noteq> [] then Inl (Anyhow ''PrefixProof has more results than the ladder requires'')
      else Inr out)"

text \<open>
  The index into the results is the part of the list not yet read. \<open>decode_bisect\<close> is the
  second loop, \<open>decode_powers\<close> the first.
\<close>

fun decode_bisect :: "version \<Rightarrow> version \<Rightarrow> version \<Rightarrow> decoded_lookup list \<Rightarrow>
    prefix_search_result list \<Rightarrow> decoded_lookup list res" where
  "decode_bisect target lower upper out [] =
     (if lower + 1 < upper then
        Inl (Anyhow ''PrefixProof has fewer results than its ladder requires'')
      else decode_finish out [])"
| "decode_bisect target lower upper out (r # rest) =
     (if lower + 1 < upper then
        (let v = lower + (upper - lower) div 2; inc = (psr_result_type r = 1);
             out' = out @ [\<lparr>dl_version = v, dl_inclusion = inc\<rparr>] in
         if inc then
           (if v > target then decode_finish out' rest
            else decode_bisect target v upper out' rest)
         else
           (if v \<le> target then decode_finish out' rest
            else decode_bisect target lower v out' rest))
      else decode_finish out (r # rest))"

fun decode_powers :: "version \<Rightarrow> nat \<Rightarrow> version option \<Rightarrow> decoded_lookup list \<Rightarrow>
    prefix_search_result list \<Rightarrow> decoded_lookup list res" where
  "decode_powers target k last_included out [] =
     Inl (Anyhow ''PrefixProof has fewer results than its ladder requires'')"
| "decode_powers target k last_included out (r # rest) =
     (let v = ladder_power k; inc = (psr_result_type r = 1);
          out' = out @ [\<lparr>dl_version = v, dl_inclusion = inc\<rparr>] in
      if inc then
        (if v > target \<or> v = U32_MAX then decode_finish out' rest
         else decode_powers target (k + 1) (Some v) out' rest)
      else
        (if v \<le> target then decode_finish out' rest
         else case last_included of
             Some l \<Rightarrow> decode_bisect target l v out' rest
           | None \<Rightarrow> Inl (Panic ''internal error: entered unreachable code'')))"

definition decode_search_ladder ::
  "prefix_search_result list \<Rightarrow> version \<Rightarrow> decoded_lookup list res" where
  "decode_search_ladder results target = decode_powers target 0 None [] results"

section \<open>The ladder as one stream of probes\<close>

function bisect :: "version \<Rightarrow> version \<Rightarrow> version \<Rightarrow> version list" where
  "bisect n l u =
     (if l + 1 < u then
        (let v = l + (u - l) div 2 in v # (if v \<le> n then bisect n v u else bisect n l v))
      else [])"
  by pat_completeness auto
termination by (relation "measure (\<lambda>(n, l, u). u - l)") auto

declare bisect.simps [simp del]

function ladder :: "version \<Rightarrow> nat \<Rightarrow> version option \<Rightarrow> version list" where
  "ladder n k lo =
     (let v = ladder_power k in
      v # (if v > n then (case lo of Some l \<Rightarrow> bisect n l v | None \<Rightarrow> [])
           else if v = U32_MAX then [] else ladder n (k + 1) (Some v)))"
  by pat_completeness auto
termination
proof (relation "measure (\<lambda>(n, k, lo). 33 - k)")
  show "((n, k + 1, Some v), n, k, lo) \<in> measure (\<lambda>(n, k, lo). 33 - k)"
    if "v = ladder_power k" "v \<noteq> U32_MAX" for n k lo v
    using that ladder_power_max [of k] by (cases "32 \<le> k") auto
qed simp

declare ladder.simps [simp del]

lemma ladder_power_less: "k < 32 \<Longrightarrow> ladder_power k = 2 ^ k - 1"
proof -
  assume "k < 32"
  then have "(2 :: nat) ^ k \<le> 2 ^ 31" by (intro power_increasing) auto
  then show ?thesis by (auto simp: ladder_power_def U32_MAX_def Let_def)
qed

lemma ladder_power_le: "ladder_power k \<le> U32_MAX"
  by (simp add: ladder_power_def Let_def)

lemma ladder_power_eq_max: "ladder_power k = U32_MAX \<longleftrightarrow> 32 \<le> k"
proof (cases "32 \<le> k")
  case False
  then have "(2 :: nat) ^ k \<le> 2 ^ 31" by (intro power_increasing) auto
  with False show ?thesis by (auto simp: ladder_power_less U32_MAX_def)
qed (simp add: ladder_power_max)

lemma ladder_power_strict: "k < 32 \<Longrightarrow> ladder_power k < ladder_power (Suc k)"
proof -
  assume k: "k < 32"
  have "2 ^ k - 1 < (2 :: nat) ^ Suc k - 1" "(2 :: nat) ^ k \<le> 2 ^ 31"
    using k power_increasing [of k 31 "2 :: nat"] by (simp_all add: diff_less_mono)
  then show ?thesis
    using k by (cases "Suc k < 32") (simp_all add: ladder_power_less ladder_power_max U32_MAX_def)
qed

lemma bisect_loop_eq: "bisect_loop n l u out = out @ bisect n l u"
proof (induction n l u out rule: bisect_loop.induct)
  case (1 n l u out)
  have "l < u \<and> u - l > 1 \<longleftrightarrow> l + 1 < u" by auto
  with 1 show ?case
    by (simp add: bisect_loop.simps [of n l u] bisect.simps [of n l u] Let_def)
qed

text \<open>The first loop has pushed exactly the powers below its index when it comes to the next.\<close>

definition powers_of :: "nat \<Rightarrow> version list" where
  "powers_of k = map ladder_power [0..<k]"

lemma powers_of_simps [simp]:
  "length (powers_of k) = k" "powers_of (Suc k) = powers_of k @ [ladder_power k]" "powers_of 0 = []"
  by (simp_all add: powers_of_def)

lemma powers_of_nth [simp]: "i < k \<Longrightarrow> powers_of k ! i = ladder_power i"
  by (simp add: powers_of_def)

lemma powers_loop_step:
  assumes "k \<le> 32"
  shows "powers_loop n (powers_of k) =
    (if ladder_power k > n \<or> ladder_power k = U32_MAX then powers_of (Suc k)
     else powers_loop n (powers_of (Suc k)))"
proof -
  have "ladder_power k \<noteq> last (powers_of k)" if k: "0 < k"
  proof -
    obtain j where j: "k = Suc j" using k gr0_implies_Suc by blast
    then have "ladder_power j < ladder_power k" using assms ladder_power_strict by simp
    then show ?thesis using j by simp
  qed
  then have "\<not> (powers_of k \<noteq> [] \<and> ladder_power k = last (powers_of k))"
    by (cases k) auto
  then show ?thesis by (auto simp: powers_loop.simps [of n "powers_of k"] Let_def)
qed

definition ladder_finish :: "version \<Rightarrow> version list \<Rightarrow> version list" where
  "ladder_finish n out =
     (if length out < 2 then out
      else if last out > n then
        bisect_loop n (out ! (length out - 2)) (out ! (length out - 1)) out
      else out)"

lemma powers_loop_ladder:
  assumes "k \<le> 32" and "0 < k \<Longrightarrow> ladder_power (k - 1) \<le> n"
  shows "ladder_finish n (powers_loop n (powers_of k)) =
    powers_of k @ ladder n k (if k = 0 then None else Some (ladder_power (k - 1)))"
  using assms
proof (induction "32 - k" arbitrary: k rule: less_induct)
  case less
  show ?case
  proof (cases "ladder_power k > n \<or> ladder_power k = U32_MAX")
    case True
    have "ladder_power 0 = 0" by (simp add: ladder_power_less)
    with True have k: "0 < k" by (cases k) (auto simp: U32_MAX_def)
    have "powers_loop n (powers_of k) = powers_of k @ [ladder_power k]"
      using True powers_loop_step [OF less.prems(1), of n] by simp
    moreover have "ladder n k lo = ladder_power k #
        (if ladder_power k > n then (case lo of Some l \<Rightarrow> bisect n l (ladder_power k) | None \<Rightarrow> []) else [])"
      for lo using True by (auto simp: ladder.simps [of n k] Let_def)
    ultimately show ?thesis
      using k True by (auto simp: ladder_finish_def bisect_loop_eq nth_append)
  next
    case False
    then have lt: "k < 32" using ladder_power_eq_max [of k] by auto
    have "ladder_finish n (powers_loop n (powers_of (Suc k))) =
        powers_of (Suc k) @ ladder n (Suc k) (Some (ladder_power k))"
      using less.hyps [of "Suc k"] lt False by simp
    moreover have "powers_loop n (powers_of k) = powers_loop n (powers_of (Suc k))"
      using powers_loop_step [of k n] False lt by simp
    ultimately show ?thesis
      using False ladder.simps [of n k] by (simp add: Let_def)
  qed
qed

lemma base_binary_ladder_eq: "base_binary_ladder n = ladder n 0 None"
  using powers_loop_ladder [of 0 n] by (simp add: base_binary_ladder_def ladder_finish_def Let_def)

section \<open>What a ladder contains\<close>

lemma bisect_bounds: "v \<in> set (bisect n l u) \<Longrightarrow> l < v \<and> v < u"
proof (induction n l u rule: bisect.induct)
  case (1 n l u)
  show ?case
  proof (cases "l + 1 < u")
    case True
    let ?m = "l + (u - l) div 2"
    have "l < ?m" "?m < u" using True by auto
    with 1 True show ?thesis
      by (auto simp: bisect.simps [of n l u] Let_def split: if_splits)
  qed (use 1 in \<open>simp add: bisect.simps [of n l u]\<close>)
qed

lemma bisect_pins:
  "l \<le> n \<Longrightarrow> n < u \<Longrightarrow> n \<in> insert l (set (bisect n l u)) \<and> n + 1 \<in> insert u (set (bisect n l u))"
proof (induction n l u rule: bisect.induct)
  case (1 n l u)
  show ?case
  proof (cases "l + 1 < u")
    case True
    with 1 show ?thesis by (auto simp: bisect.simps [of n l u] Let_def not_le)
  qed (use 1 in auto)
qed

lemma ladder_first: "ladder_power k \<in> set (ladder n k lo)"
  by (simp add: ladder.simps [of n k] Let_def)

lemma ladder_pins:
  assumes "n \<le> U32_MAX" and "k \<le> 32" and "lo = None \<Longrightarrow> ladder_power k \<le> n"
    and "\<And>l. lo = Some l \<Longrightarrow> l \<le> n"
  shows "n \<in> set_option lo \<union> set (ladder n k lo) \<and>
    (n < U32_MAX \<longrightarrow> n + 1 \<in> set (ladder n k lo))"
  using assms
proof (induction n k lo rule: ladder.induct)
  case (1 n k lo)
  let ?v = "ladder_power k"
  show ?case
  proof (cases "?v > n")
    case True
    then obtain l where l: "lo = Some l" "l \<le> n" using 1 by (cases lo) auto
    then show ?thesis
      using True bisect_pins [of l n ?v] by (auto simp: ladder.simps [of n k] Let_def)
  next
    case False
    show ?thesis
    proof (cases "?v = U32_MAX")
      case True
      with False 1(2) have "n = ladder_power k" by simp
      then show ?thesis using True ladder_first [of k n lo] by simp
    next
      case nm: False
      then have "k < 32" by (simp add: ladder_power_eq_max)
      then have "n \<in> set_option (Some ?v) \<union> set (ladder n (k + 1) (Some ?v)) \<and>
          (n < U32_MAX \<longrightarrow> n + 1 \<in> set (ladder n (k + 1) (Some ?v)))"
        using 1 False nm by simp
      then show ?thesis using False nm by (auto simp: ladder.simps [of n k] Let_def)
    qed
  qed
qed

lemma base_ladder_pins:
  assumes "n \<le> U32_MAX"
  shows "n \<in> set (base_binary_ladder n)" and "n < U32_MAX \<Longrightarrow> n + 1 \<in> set (base_binary_ladder n)"
proof -
  have "ladder_power 0 = 0" by (simp add: ladder_power_less)
  then show "n \<in> set (base_binary_ladder n)"
    and "n < U32_MAX \<Longrightarrow> n + 1 \<in> set (base_binary_ladder n)"
    using ladder_pins [of n 0 None] assms by (simp_all add: base_binary_ladder_eq)
qed

text \<open>The length of a bisection is at most the logarithm of the gap.\<close>

lemma length_bisect: "u - l \<le> 2 ^ d \<Longrightarrow> length (bisect n l u) \<le> d"
proof (induction d arbitrary: l u)
  case 0
  then show ?case by (simp add: bisect.simps [of n l u])
next
  case (Suc d)
  show ?case
  proof (cases "l + 1 < u")
    case True
    let ?m = "l + (u - l) div 2"
    have "u - ?m \<le> 2 ^ d" "?m - l \<le> 2 ^ d" using Suc.prems by auto
    then show ?thesis using Suc.IH True by (simp add: bisect.simps [of n l u] Let_def)
  qed (simp add: bisect.simps [of n l u])
qed

lemma length_ladder: "k \<le> 32 \<Longrightarrow> length (ladder n k lo) \<le> 65 - k"
proof (induction n k lo rule: ladder.induct)
  case (1 n k lo)
  let ?v = "ladder_power k"
  have "?v - l \<le> 2 ^ 32" for l
    using ladder_power_le [of k] by (simp add: U32_MAX_def)
  then have b: "length (bisect n l ?v) \<le> 32" for l by (rule length_bisect)
  show ?case
  proof (cases "?v > n \<or> ?v = U32_MAX")
    case True
    then have "length (ladder n k lo) \<le> 33"
      using b by (cases lo) (auto simp: ladder.simps [of n k] Let_def)
    with 1(2) show ?thesis by simp
  next
    case False
    then have "k < 32" using ladder_power_eq_max [of k] by auto
    with 1(1) False show ?thesis by (auto simp: ladder.simps [of n k] Let_def)
  qed
qed

lemma ladder_le_max: "v \<in> set (ladder n k lo) \<Longrightarrow> v \<le> U32_MAX"
proof (induction n k lo rule: ladder.induct)
  case (1 n k lo)
  have "v \<in> set (bisect n l (ladder_power k)) \<Longrightarrow> v \<le> U32_MAX" for l
    using bisect_bounds [of v n l "ladder_power k"] ladder_power_le [of k] by simp
  with 1 show ?case
    using ladder_power_le [of k]
    by (auto simp: ladder.simps [of n k] Let_def split: if_splits option.splits)
qed

section \<open>Cutting the ladder at its first decisive probe\<close>

fun upto_stop :: "('a \<Rightarrow> bool) \<Rightarrow> 'a list \<Rightarrow> 'a list" where
  "upto_stop P [] = []"
| "upto_stop P (x # xs) = x # (if P x then [] else upto_stop P xs)"

lemma upto_stop_position:
  "take (case position P xs of Some i \<Rightarrow> i + 1 | None \<Rightarrow> length xs) xs = upto_stop P xs"
  by (induction xs) (auto split: option.splits)

lemma set_upto_stop: "set (upto_stop P xs) \<subseteq> set xs"
  by (induction xs) auto

lemma search_binary_ladder_eq:
  "search_binary_ladder t n li ri =
     filter (\<lambda>v. v \<notin> set li \<and> v \<notin> set ri) (upto_stop (ladder_stop t n) (ladder n 0 None))"
  by (simp add: search_binary_ladder_def base_binary_ladder_eq Let_def upto_stop_position)

text \<open>When the target is the greatest version the ladder is not cut.\<close>

lemma search_binary_ladder_greatest: "search_binary_ladder n n [] [] = base_binary_ladder n"
proof -
  have "upto_stop (ladder_stop n n) xs = xs" for xs
    by (induction xs) (auto simp: ladder_stop_def)
  then show ?thesis by (simp add: search_binary_ladder_eq base_binary_ladder_eq)
qed

section \<open>The client's replay\<close>

abbreviation answers :: "version \<Rightarrow> version list \<Rightarrow> decoded_lookup list" where
  "answers n vs \<equiv> map (\<lambda>v. \<lparr>dl_version = v, dl_inclusion = (v \<le> n)\<rparr>) vs"

abbreviation inclusion_types :: "prefix_search_result list \<Rightarrow> bool list" where
  "inclusion_types rs \<equiv> map (\<lambda>r. psr_result_type r = 1) rs"

lemma decode_bisect_honest:
  "inclusion_types rs = map (\<lambda>v. v \<le> n) (upto_stop (ladder_stop t n) (bisect n l u)) \<Longrightarrow>
   decode_bisect t l u out rs = Inr (out @ answers n (upto_stop (ladder_stop t n) (bisect n l u)))"
proof (induction t l u out rs rule: decode_bisect.induct)
  case (1 t l u out)
  then have "\<not> l + 1 < u" by (auto simp: bisect.simps [of n l u] Let_def)
  then show ?case by (simp add: bisect.simps [of n l u] decode_finish_def)
next
  case (2 t l u out r rest)
  then have lu: "l + 1 < u" by (auto simp: bisect.simps [of n l u] Let_def split: if_splits)
  let ?m = "l + (u - l) div 2"
  have inc: "psr_result_type r = 1 \<longleftrightarrow> ?m \<le> n"
    using 2(3) lu by (simp add: bisect.simps [of n l u] Let_def)
  show ?case
  proof (cases "ladder_stop t n ?m")
    case True
    then have "rest = []" using 2(3) lu by (simp add: bisect.simps [of n l u] Let_def)
    then show ?thesis
      using True lu inc
      by (auto simp: bisect.simps [of n l u] Let_def decode_finish_def ladder_stop_def)
  next
    case False
    then have rest: "inclusion_types rest = map (\<lambda>v. v \<le> n)
        (upto_stop (ladder_stop t n) (if ?m \<le> n then bisect n ?m u else bisect n l ?m))"
      using 2(3) lu by (simp add: bisect.simps [of n l u] Let_def)
    show ?thesis
    proof (cases "?m \<le> n")
      case True
      with False have "\<not> ?m > t" by (simp add: ladder_stop_def)
      then show ?thesis
        using 2(1) [OF lu refl refl refl] rest True lu inc False
        by (simp add: bisect.simps [of n l u] Let_def)
    next
      case gt: False
      with False have "\<not> ?m \<le> t" by (simp add: ladder_stop_def)
      then show ?thesis
        using 2(2) [OF lu refl refl refl] rest gt lu inc False
        by (simp add: bisect.simps [of n l u] Let_def)
    qed
  qed
qed

lemma decode_powers_honest:
  "inclusion_types rs = map (\<lambda>v. v \<le> n) (upto_stop (ladder_stop t n) (ladder n k lo)) \<Longrightarrow>
   (lo = None \<Longrightarrow> ladder_power k \<le> n) \<Longrightarrow>
   decode_powers t k lo out rs = Inr (out @ answers n (upto_stop (ladder_stop t n) (ladder n k lo)))"
proof (induction t k lo out rs rule: decode_powers.induct)
  case (1 t k lo out)
  then show ?case by (simp add: ladder.simps [of n k] Let_def)
next
  case (2 t k lo out r rest)
  let ?v = "ladder_power k"
  have inc: "psr_result_type r = 1 \<longleftrightarrow> ?v \<le> n"
    using 2(2) by (simp add: ladder.simps [of n k] Let_def)
  consider (stop) "ladder_stop t n ?v" | (above) "\<not> ladder_stop t n ?v" "?v > n"
    | (max) "\<not> ladder_stop t n ?v" "?v \<le> n" "?v = U32_MAX"
    | (go) "\<not> ladder_stop t n ?v" "?v \<le> n" "?v \<noteq> U32_MAX"
    by fastforce
  then show ?case
  proof cases
    case stop
    then have "rest = []" using 2(2) by (simp add: ladder.simps [of n k] Let_def)
    then show ?thesis
      using stop inc
      by (auto simp: ladder.simps [of n k] Let_def decode_finish_def ladder_stop_def)
  next
    case above
    then obtain l where l: "lo = Some l" using 2(3) by (cases lo) auto
    have "inclusion_types rest = map (\<lambda>v. v \<le> n) (upto_stop (ladder_stop t n) (bisect n l ?v))"
      using 2(2) above l by (simp add: ladder.simps [of n k] Let_def)
    from decode_bisect_honest [OF this] show ?thesis
      using above l inc by (simp add: ladder.simps [of n k] Let_def ladder_stop_def [of t n ?v])
  next
    case max
    then have "rest = []" using 2(2) by (simp add: ladder.simps [of n k] Let_def)
    then show ?thesis
      using max inc by (simp add: ladder.simps [of n k] Let_def decode_finish_def)
  next
    case go
    then have rest: "inclusion_types rest =
        map (\<lambda>v. v \<le> n) (upto_stop (ladder_stop t n) (ladder n (k + 1) (Some ?v)))"
      using 2(2) by (simp add: ladder.simps [of n k] Let_def)
    have "\<not> ?v > t" using go by (simp add: ladder_stop_def)
    then show ?thesis
      using 2(1) [OF refl refl refl] go inc rest
      by (simp add: ladder.simps [of n k] Let_def)
  qed
qed

lemma decode_search_ladder_honest:
  assumes "inclusion_types rs = map (\<lambda>v. v \<le> n) (search_binary_ladder t n [] [])"
  shows "decode_search_ladder rs t = Inr (answers n (search_binary_ladder t n [] []))"
proof -
  have "ladder_power 0 = 0" by (simp add: ladder_power_less)
  then show ?thesis
    using assms decode_powers_honest [of rs n t 0 None "[]"]
    by (simp add: decode_search_ladder_def search_binary_ladder_eq)
qed

text \<open>
  The converse: whatever the server sends, an accepted replay whose answers are those of
  greatest version \<open>n\<close> has probed exactly the ladder of \<open>n\<close>.
\<close>

lemma decode_finish_Inr [simp]: "decode_finish out rest = Inr res \<longleftrightarrow> rest = [] \<and> res = out"
  by (auto simp: decode_finish_def)

lemma decode_bisect_sound:
  "decode_bisect t l u out rs = Inr res \<Longrightarrow>
   \<exists>new. res = out @ new \<and>
     ((\<forall>d\<in>set new. dl_inclusion d \<longleftrightarrow> dl_version d \<le> n) \<longrightarrow>
        new = answers n (upto_stop (ladder_stop t n) (bisect n l u)))"
proof (induction t l u out rs rule: decode_bisect.induct)
  case (1 t l u out)
  then show ?case by (simp add: bisect.simps [of n l u] split: if_splits)
next
  case (2 t l u out r rest)
  let ?m = "l + (u - l) div 2" and ?i = "psr_result_type r = 1"
  let ?d = "\<lparr>dl_version = ?m, dl_inclusion = ?i\<rparr>"
  show ?case
  proof (cases "l + 1 < u")
    case True
    consider (stop) "?i \<and> ?m > t \<or> \<not> ?i \<and> ?m \<le> t" | (inc) ?i "\<not> ?m > t" | (exc) "\<not> ?i" "\<not> ?m \<le> t"
      by auto
    then show ?thesis
    proof cases
      case stop
      then have "res = out @ [?d]" using 2(3) True by (auto simp: Let_def)
      then show ?thesis
        using stop True by (auto simp: bisect.simps [of n l u] Let_def ladder_stop_def)
    next
      case inc
      then have "decode_bisect t ?m u (out @ [?d]) rest = Inr res"
        using 2(3) True by (simp add: Let_def)
      from 2(1) [OF True refl refl refl inc this] show ?thesis
        using inc True by (auto simp: bisect.simps [of n l u] Let_def ladder_stop_def)
    next
      case exc
      then have "decode_bisect t l ?m (out @ [?d]) rest = Inr res"
        using 2(3) True by (simp add: Let_def)
      from 2(2) [OF True refl refl refl exc this] show ?thesis
        using exc True by (auto simp: bisect.simps [of n l u] Let_def ladder_stop_def)
    qed
  qed (use 2(3) in \<open>simp add: bisect.simps [of n l u]\<close>)
qed

lemma decode_powers_sound:
  "decode_powers t k lo out rs = Inr res \<Longrightarrow>
   \<exists>new. res = out @ new \<and>
     ((\<forall>d\<in>set new. dl_inclusion d \<longleftrightarrow> dl_version d \<le> n) \<longrightarrow>
        new = answers n (upto_stop (ladder_stop t n) (ladder n k lo)))"
proof (induction t k lo out rs rule: decode_powers.induct)
  case (2 t k lo out r rest)
  let ?v = "ladder_power k" and ?i = "psr_result_type r = 1"
  let ?d = "\<lparr>dl_version = ?v, dl_inclusion = ?i\<rparr>"
  consider (stop) "?i \<and> ?v > t \<or> \<not> ?i \<and> ?v \<le> t" | (max) ?i "\<not> ?v > t" "?v = U32_MAX"
    | (inc) ?i "\<not> ?v > t" "?v \<noteq> U32_MAX" | (exc) "\<not> ?i" "\<not> ?v \<le> t"
    by blast
  then show ?case
  proof cases
    case stop
    then have "res = out @ [?d]" using 2(2) by (auto simp: Let_def)
    then show ?thesis
      using stop by (auto simp: ladder.simps [of n k] Let_def ladder_stop_def)
  next
    case max
    then have "res = out @ [?d]" using 2(2) by (auto simp: Let_def)
    then show ?thesis
      using max by (auto simp: ladder.simps [of n k] Let_def ladder_stop_def)
  next
    case inc
    then have "decode_powers t (k + 1) (Some ?v) (out @ [?d]) rest = Inr res"
      using 2(2) by (simp add: Let_def)
    from 2(1) [OF refl refl refl _ _ this] show ?thesis
      using inc by (auto simp: ladder.simps [of n k] Let_def ladder_stop_def)
  next
    case exc
    then obtain l where l: "lo = Some l" "decode_bisect t l ?v (out @ [?d]) rest = Inr res"
      using 2(2) by (cases lo) (auto simp: Let_def)
    from decode_bisect_sound [OF l(2), of n] show ?thesis
      using exc l(1) by (auto simp: ladder.simps [of n k] Let_def ladder_stop_def [of t n ?v])
  qed
qed simp

lemma decode_search_ladder_sound:
  assumes "decode_search_ladder rs t = Inr res"
    and "\<forall>d\<in>set res. dl_inclusion d \<longleftrightarrow> dl_version d \<le> n"
  shows "res = answers n (search_binary_ladder t n [] [])"
  using assms decode_powers_sound [of t 0 None "[]" rs res n]
  by (auto simp: decode_search_ladder_def search_binary_ladder_eq)

text \<open>The replay never reaches the source's unreachable arm.\<close>

lemma decode_bisect_no_panic: "decode_bisect t l u out rs \<noteq> Inl (Panic m)"
  by (induction t l u out rs rule: decode_bisect.induct) (auto simp: Let_def decode_finish_def)

lemma decode_powers_no_panic:
  "lo \<noteq> None \<or> ladder_power k \<le> t \<Longrightarrow> decode_powers t k lo out rs \<noteq> Inl (Panic m)"
  by (induction t k lo out rs rule: decode_powers.induct)
    (auto simp: Let_def decode_finish_def decode_bisect_no_panic split: option.splits)

section \<open>Properties\<close>

text \<open>C15. The client's replay inverts the server's ladder. From the result types alone, an
  honest answer for greatest version \<open>n\<close> is decoded to exactly the versions the server
  looked up; and any accepted answer that agrees with greatest version \<open>n\<close> has probed
  exactly that ladder.\<close>

theorem decode_inverts_search_ladder:
  "(map (\<lambda>r. psr_result_type r = 1) rs = map (\<lambda>v. v \<le> n) (search_binary_ladder t n [] []) \<longrightarrow>
      decode_search_ladder rs t =
        Inr (map (\<lambda>v. \<lparr>dl_version = v, dl_inclusion = (v \<le> n)\<rparr>) (search_binary_ladder t n [] []))) \<and>
   (\<forall>ds. decode_search_ladder rs t = Inr ds \<and> (\<forall>d\<in>set ds. dl_inclusion d \<longleftrightarrow> dl_version d \<le> n) \<longrightarrow>
      map dl_version ds = search_binary_ladder t n [] [])"
proof (intro conjI impI allI)
  fix ds
  assume "decode_search_ladder rs t = Inr ds \<and> (\<forall>d\<in>set ds. dl_inclusion d \<longleftrightarrow> dl_version d \<le> n)"
  then have "ds = answers n (search_binary_ladder t n [] [])"
    using decode_search_ladder_sound by blast
  then show "map dl_version ds = search_binary_ladder t n [] []" by (simp add: comp_def)
qed (rule decode_search_ladder_honest)

lemma decode_inverts_search_ladder_witness:
  "decode_search_ladder
     (map (\<lambda>v. \<lparr>psr_result_type = if v \<le> (6 :: nat) then 1 else 3, psr_leaf = None, psr_depth = 0\<rparr>) [0, 1, 3, 7, 5, 6]) 6
   = Inr (map (\<lambda>v. \<lparr>dl_version = v, dl_inclusion = (v \<le> 6)\<rparr>) [0, 1, 3, 7, 5, 6])"
proof -
  have l: "search_binary_ladder 6 6 [] [] = [0, 1, 3, 7, 5, 6]" by code_simp
  show ?thesis
    using decode_inverts_search_ladder [of
        "map (\<lambda>v. \<lparr>psr_result_type = if v \<le> (6 :: nat) then 1 else 3, psr_leaf = None, psr_depth = 0\<rparr>) [0, 1, 3, 7, 5, 6]"
        6 6]
    unfolding l by simp
qed

lemma base_ladder_settles:
  assumes "n \<le> U32_MAX" and "m \<le> U32_MAX"
    and "\<forall>v\<in>set (base_binary_ladder n). v \<le> m \<longleftrightarrow> v \<le> n"
  shows "m = n \<and> length (base_binary_ladder n) \<le> 65 \<and> (\<forall>v\<in>set (base_binary_ladder n). v \<le> U32_MAX)"
proof -
  have "n \<le> m" using base_ladder_pins(1) [OF assms(1)] assms(3) by blast
  moreover have "m \<le> n"
  proof (cases "n < U32_MAX")
    case True
    then show ?thesis using base_ladder_pins(2) [OF assms(1)] assms(3) by fastforce
  qed (use assms in simp)
  ultimately show ?thesis
    using length_ladder [of 0 n None] ladder_le_max by (auto simp: base_binary_ladder_eq)
qed

text \<open>C19. A ladder for greatest version \<open>n\<close> settles it: it looks up \<open>n\<close> and, below the
  largest version, \<open>n + 1\<close>, so its outcomes are those of no other greatest version; and it
  has at most 65 lookups, none above the largest version.\<close>

theorem base_ladder_settles_greatest:
  assumes "n \<le> U32_MAX" and "m \<le> U32_MAX"
    and "\<forall>v\<in>set (base_binary_ladder n). v \<le> m \<longleftrightarrow> v \<le> n"
  shows "m = n \<and> length (base_binary_ladder n) \<le> 65 \<and> (\<forall>v\<in>set (base_binary_ladder n). v \<le> U32_MAX)"
  using base_ladder_settles [OF assms] .

lemma base_ladder_settles_greatest_witness:
  "length (base_binary_ladder 6) \<le> 65"
  using base_ladder_settles_greatest [of 6 6] by (simp add: U32_MAX_def)

text \<open>The replay accepts or returns an error for every list of results the server can
  send; the arm the source marks unreachable is never taken.\<close>

lemma decode_search_ladder_total: "decode_search_ladder rs t \<noteq> Inl (Panic m)"
  by (simp add: decode_search_ladder_def decode_powers_no_panic ladder_power_less)

end
