(* ===== verification/Server.thy ===== *)
theory Server
  imports LogTree PrefixTree Signing BinaryLadder
begin

text \<open>
  The state of the server and what its request handlers share: \<^verbatim>\<open>src/src/tree/mod.rs\<close>, the
  helpers of \<^verbatim>\<open>src/src/tree/read.rs\<close> and \<^verbatim>\<open>src/src/tree/credential.rs\<close>, and the traversal
  session of \<^verbatim>\<open>src/src/tree/walker.rs\<close> that collects a combined tree proof in the order the
  client will read it.

  A session is dropped when an operation on it fails, so its operations return the new
  session or the error. A hash map whose iteration order shows is an association list in
  that order; one that is only looked up is a map.
\<close>

section \<open>State\<close>

text \<open>\<^verbatim>\<open>db::AuditorTreeHead\<close>.\<close>

record stored_auditor_head =
  sah_tree_size :: u64
  sah_timestamp :: i64
  sah_signature :: bytes
  sah_root_value :: bytes
  sah_consistency :: "bytes list"

record tree =
  tr_store :: store
  tr_node_cache :: node_cache
  tr_config :: private_config
  tr_latest :: "tree_head option"
  tr_auditors :: "(string \<times> stored_auditor_head) list"

record pre_update_data =
  pre_label :: bytes
  pre_value :: bytes
  pre_last :: u64
  pre_version :: version
  pre_index :: bytes
  pre_vrf_proof :: bytes
  pre_commitment :: bytes
  pre_opening :: bytes

record post_update_data =
  post_tree_head :: full_tree_head
  post_search_result :: search_result

definition tree_new :: "codec \<Rightarrow> store \<Rightarrow> private_config \<Rightarrow> tree res" where
  "tree_new D st config =
     and_then
       (case get_head st of
          Some b \<Rightarrow> and_then (ok_or (dec_tree_head D b) (Anyhow ''failed to decode Protobuf message''))
                     (\<lambda>th. Inr (Some th))
        | None \<Rightarrow> Inr None)
       (\<lambda>latest. Inr \<lparr>tr_store = st, tr_node_cache = Map.empty, tr_config = config,
          tr_latest = latest, tr_auditors = []\<rparr>)"

definition latest_size :: "tree \<Rightarrow> u64" where
  "latest_size T = (case tr_latest T of Some th \<Rightarrow> th_tree_size th | None \<Rightarrow> 0)"

definition config_vrf_prove :: "crypto \<Rightarrow> private_config \<Rightarrow> bytes \<Rightarrow> version \<Rightarrow> (bytes \<times> bytes) res" where
  "config_vrf_prove C config label ver =
     and_then (construct_vrf_input label ver)
       (vrf_prove C (pc_cipher_suite config) (pc_vrf_key config))"

section \<open>Reads\<close>

text \<open>\<^verbatim>\<open>max_by_key\<close> keeps the last of the greatest elements, \<^verbatim>\<open>unwrap_or\<close> does not catch a panic.\<close>

definition max_by_key :: "('a \<Rightarrow> u64) \<Rightarrow> 'a list \<Rightarrow> 'a option" where
  "max_by_key key xs =
     fold (\<lambda>x best. case best of
         None \<Rightarrow> Some x
       | Some y \<Rightarrow> if key y \<le> key x then Some x else Some y) xs None"

definition unwrap_or :: "'a res \<Rightarrow> 'a \<Rightarrow> 'a res" where
  "unwrap_or m d = (case m of
     Inr x \<Rightarrow> Inr x
   | Inl (Panic p) \<Rightarrow> Inl (Panic p)
   | Inl Hang \<Rightarrow> Inl Hang
   | Inl _ \<Rightarrow> Inr d)"

definition get_full_tree_head :: "tree \<Rightarrow> consistency_req option \<Rightarrow> full_tree_head" where
  "get_full_tree_head T consistency =
     (let current_size = latest_size T;
          last_seen = (case consistency of
             Some c \<Rightarrow> (case cr_last c of Some l \<Rightarrow> l | None \<Rightarrow> 0) | None \<Rightarrow> 0)
      in if last_seen = current_size \<and> current_size > 0 then
           \<lparr>fth_head_type = HEAD_TYPE_SAME, fth_tree_head = None, fth_auditor_tree_head = None\<rparr>
         else
           \<lparr>fth_head_type = HEAD_TYPE_UPDATED, fth_tree_head = tr_latest T,
             fth_auditor_tree_head =
               map_option (\<lambda>ath. \<lparr>ath_tree_size = sah_tree_size ath, ath_timestamp = sah_timestamp ath,
                   ath_signature = sah_signature ath\<rparr>)
                 (max_by_key sah_tree_size (map snd (tr_auditors T)))\<rparr>)"

definition prove_consistency :: "crypto \<Rightarrow> tree \<Rightarrow> u64 \<Rightarrow> u64 \<Rightarrow> bytes list res" where
  "prove_consistency C T m n = get_consistency_proof (sha256 C) (tr_store T) m n"

definition max_version :: "version list \<Rightarrow> version option" where
  "max_version vs = (if vs = [] then None else Some (fold max vs 0))"

definition get_max_version_at :: "tree \<Rightarrow> history \<Rightarrow> u64 \<Rightarrow> version option res" where
  "get_max_version_at T label_history log_pos =
     and_then (unwrap_or (get_prefix_ptr (tr_store T) log_pos) 0) (\<lambda>log_prefix_ptr.
       Inr (max_version (map fst (filter (\<lambda>(_, ptr). ptr \<le> log_prefix_ptr) label_history))))"

definition find_version :: "history \<Rightarrow> version \<Rightarrow> u64 option" where
  "find_version history ver = map_option snd (find (\<lambda>(v, _). v = ver) history)"

definition extract_value_and_opening :: "tree \<Rightarrow> history \<Rightarrow> version \<Rightarrow> (bytes \<times> bytes) res" where
  "extract_value_and_opening T history ver =
     (case find_version history ver of
        Some p \<Rightarrow>
          (let val = (case get_value (tr_store T) p of Some v \<Rightarrow> v | None \<Rightarrow> []) in
           case get_opening (tr_store T) p of
             Some op \<Rightarrow> Inr (val, op)
           | None \<Rightarrow> Inl (Kt Unavailable))
      | None \<Rightarrow> Inl (Kt Unavailable))"

fun ladder_proof_loop :: "crypto \<Rightarrow> codec \<Rightarrow> tree \<Rightarrow> u64 \<Rightarrow> bytes \<Rightarrow> version list \<Rightarrow>
    (prefix_search_result list \<times> bytes list \<times> (version \<times> bytes option) list) res" where
  "ladder_proof_loop C D T prefix_ptr label [] = Inr ([], [], [])"
| "ladder_proof_loop C D T prefix_ptr label (v # versions) =
     and_then (config_vrf_prove C (tr_config T) label v) (\<lambda>(idx, _).
     and_then (search_for_proof (sha256 C) D (tr_store T) (tr_node_cache T) prefix_ptr idx Map.empty) (\<lambda>r.
     let leaf = (if pr_result_type r = 2 then
           Some \<lparr>pl_vrf_output = (case pr_leaf_vrf_output r of Some x \<Rightarrow> x | None \<Rightarrow> []),
             pl_commitment = (case pr_leaf_commitment r of Some x \<Rightarrow> x | None \<Rightarrow> [])\<rparr>
         else None);
         result = \<lparr>psr_result_type = pr_result_type r, psr_leaf = leaf, psr_depth = pr_depth r\<rparr> in
     and_then (ladder_proof_loop C D T prefix_ptr label versions) (\<lambda>(results, elements, tuples).
     Inr (result # results, pr_inclusion_proof r @ elements, (v, pr_commitment r) # tuples))))"

definition generate_ladder_proof :: "crypto \<Rightarrow> codec \<Rightarrow> tree \<Rightarrow> u64 \<Rightarrow> bytes \<Rightarrow> version list \<Rightarrow>
    (prefix_proof \<times> (version \<times> bytes option) list) res" where
  "generate_ladder_proof C D T prefix_ptr label versions =
     and_then (ladder_proof_loop C D T prefix_ptr label versions) (\<lambda>(results, elements, tuples).
       Inr (\<lparr>pp_results = results, pp_elements = elements\<rparr>, tuples))"

section \<open>Distinguished entries\<close>

lemma ibst_right_loop_level: "ibst_right_loop n x = Some y \<Longrightarrow> level y \<le> level x"
proof (induction n x rule: ibst_right_loop.induct)
  case (1 n x)
  then show ?case
    using level_left_child [of x]
    by (subst (asm) ibst_right_loop.simps) (auto simp: Let_def split: if_splits)
qed

lemma ibst_right_child_level: "ibst_right_child x n = Some y \<Longrightarrow> level y < level x"
  using ibst_right_loop_level [of n "internal_right x" y] level_internal_right [of x]
  by (auto simp: ibst_right_child_def internal_right_def Let_def split: if_splits)

lemma left_child_level: "\<not> is_leaf x \<Longrightarrow> level (left_child x) < level x"
  by (simp add: level_left_child is_leaf_level)

function distinguished_wrapper :: "tree \<Rightarrow> u64 \<Rightarrow> u64 \<Rightarrow> u64 \<Rightarrow> u64 \<Rightarrow> u64 list res" where
  "distinguished_wrapper T node_idx left_ts right_ts tree_size =
     (if saturating_sub right_ts left_ts < pc_reasonable_monitoring_window (tr_config T) then Inr []
      else
        and_then (get_timestamp (tr_store T) node_idx) (\<lambda>node_ts.
        and_then
          (if \<not> is_leaf node_idx \<and> left_child node_idx < tree_size
           then distinguished_wrapper T (left_child node_idx) left_ts node_ts tree_size
           else Inr []) (\<lambda>left_res.
        and_then
          (if \<not> is_leaf node_idx then
             (case ibst_right_child node_idx tree_size of
                Some r \<Rightarrow> if r < tree_size \<and> r \<noteq> node_idx
                          then distinguished_wrapper T r node_ts right_ts tree_size else Inr []
              | None \<Rightarrow> Inr [])
           else Inr []) (\<lambda>right_res.
        Inr (node_idx # left_res @ right_res)))))"
  by pat_completeness auto

termination
  by (relation "measure (\<lambda>(T, node, _). level node)")
    (auto simp: left_child_level dest: ibst_right_child_level)

declare distinguished_wrapper.simps [simp del]

definition find_distinguished_nodes :: "tree \<Rightarrow> u64 \<Rightarrow> u64 list res" where
  "find_distinguished_nodes T tree_size =
     and_then (get_timestamp (tr_store T) (tree_size - 1)) (\<lambda>rightmost_ts.
     and_then (distinguished_wrapper T (root tree_size) 0 rightmost_ts tree_size) (\<lambda>results.
       Inr (sort results)))"

section \<open>Traversal sessions\<close>

record session =
  ses_label :: bytes
  ses_ts_order :: "u64 list"
  ses_ts_seen :: "u64 set"
  ses_timestamps :: "u64 \<rightharpoonup> u64"
  ses_prefix_proofs :: "(u64 \<times> prefix_proof) list"
  ses_available_roots :: "u64 \<rightharpoonup> bytes"
  ses_binary_ladder :: "binary_ladder_step list"
  ses_found_value :: "bytes option"
  ses_found_opening :: bytes
  ses_ladder_version_index :: "version \<rightharpoonup> nat"

definition session_new :: "bytes \<Rightarrow> session" where
  "session_new label = \<lparr>ses_label = label, ses_ts_order = [], ses_ts_seen = {},
     ses_timestamps = Map.empty, ses_prefix_proofs = [], ses_available_roots = Map.empty,
     ses_binary_ladder = [], ses_found_value = None, ses_found_opening = [],
     ses_ladder_version_index = Map.empty\<rparr>"

definition set_label :: "bytes \<Rightarrow> session \<Rightarrow> session" where
  "set_label label s = s\<lparr>ses_label := label\<rparr>"

definition add_node :: "u64 \<Rightarrow> u64 \<Rightarrow> session \<Rightarrow> session" where
  "add_node idx ts s =
     (if idx \<in> ses_ts_seen s then s
      else s\<lparr>ses_ts_seen := insert idx (ses_ts_seen s), ses_ts_order := ses_ts_order s @ [idx],
             ses_timestamps := (ses_timestamps s)(idx \<mapsto> ts)\<rparr>)"

definition add_proof :: "u64 \<Rightarrow> prefix_proof \<Rightarrow> session \<Rightarrow> session" where
  "add_proof idx pf s = s\<lparr>ses_prefix_proofs := ses_prefix_proofs s @ [(idx, pf)]\<rparr>"

definition visit_timestamp_only :: "tree \<Rightarrow> u64 \<Rightarrow> session \<Rightarrow> session res" where
  "visit_timestamp_only T node_idx s =
     and_then (get_timestamp (tr_store T) node_idx) (\<lambda>ts.
     let s = add_node node_idx ts s in
     (case get_prefix_root (tr_store T) node_idx of
        Inr rt \<Rightarrow>
          (case ses_available_roots s node_idx of
             Some _ \<Rightarrow> Inr s
           | None \<Rightarrow> Inr (s\<lparr>ses_available_roots := (ses_available_roots s)(node_idx \<mapsto> rt)\<rparr>))
      | Inl _ \<Rightarrow> Inr s))"

definition visit_frontier :: "tree \<Rightarrow> u64 \<Rightarrow> session \<Rightarrow> session res" where
  "visit_frontier T tree_size s = fold_res (visit_timestamp_only T) (get_frontier tree_size) s"

text \<open>One binary ladder step per version; a later node may fill in the commitment.\<close>

definition add_ladder_result :: "crypto \<Rightarrow> tree \<Rightarrow> version option \<Rightarrow> version \<times> bytes option \<Rightarrow>
    session \<Rightarrow> session res" where
  "add_ladder_result C T extract_target vc s =
     (case vc of (ver, comm) \<Rightarrow>
      let commitment = (if extract_target = Some ver then None else comm) in
      (case ses_ladder_version_index s ver of
         Some idx \<Rightarrow>
           if idx \<ge> length (ses_binary_ladder s) then Inl (Panic ''index out of bounds'')
           else if bls_commitment (ses_binary_ladder s ! idx) = None then
             Inr (s\<lparr>ses_binary_ladder := (ses_binary_ladder s)[idx :=
                (ses_binary_ladder s ! idx)\<lparr>bls_commitment := commitment\<rparr>]\<rparr>)
           else Inr s
       | None \<Rightarrow>
           and_then (config_vrf_prove C (tr_config T) (ses_label s) ver) (\<lambda>(_, vrf_proof).
           Inr (s\<lparr>ses_ladder_version_index :=
                  (ses_ladder_version_index s)(ver \<mapsto> length (ses_binary_ladder s)),
                ses_binary_ladder := ses_binary_ladder s @
                  [\<lparr>bls_proof = vrf_proof, bls_commitment = commitment\<rparr>]\<rparr>))))"

definition visit :: "crypto \<Rightarrow> codec \<Rightarrow> tree \<Rightarrow> u64 \<Rightarrow> version list \<Rightarrow> version option \<Rightarrow> session \<Rightarrow>
    session res" where
  "visit C D T node_idx versions_to_prove extract_target s =
     and_then (get_timestamp (tr_store T) node_idx) (\<lambda>ts.
     let s = add_node node_idx ts s in
     and_then (get_prefix_ptr (tr_store T) node_idx) (\<lambda>prefix_ptr.
     and_then (generate_ladder_proof C D T prefix_ptr (ses_label s) versions_to_prove)
       (\<lambda>(proof_struct, ladder_results).
     let s = add_proof node_idx proof_struct s in
     and_then (fold_res (add_ladder_result C T extract_target) ladder_results s) (\<lambda>s.
     (case extract_target of
        Some target_ver \<Rightarrow>
          and_then (extract_value_and_opening T (get_label_history (tr_store T) (ses_label s)) target_ver)
            (\<lambda>(val, op). Inr (s\<lparr>ses_found_value := Some val, ses_found_opening := op\<rparr>))
      | None \<Rightarrow> Inr s)))))"

definition max_auditor_size :: "tree \<Rightarrow> u64 list" where
  "max_auditor_size T =
     (case max_by_key id (map (sah_tree_size \<circ> snd) (tr_auditors T)) of None \<Rightarrow> [] | Some n \<Rightarrow> [n])"

type_synonym finalized_proof = "combined_tree_proof \<times> binary_ladder_step list \<times> bytes option \<times> bytes"

definition finalize :: "crypto \<Rightarrow> tree \<Rightarrow> u64 \<Rightarrow> u64 \<Rightarrow> session \<Rightarrow> finalized_proof res" where
  "finalize C T tree_size consistency_last s =
     and_then (map_res (\<lambda>idx. ok_or (ses_timestamps s idx) (Panic ''no entry found for key''))
         (ses_ts_order s)) (\<lambda>timestamps.
     let proof_nodes = set (map fst (ses_prefix_proofs s));
         rootless = sort (filter (\<lambda>idx. idx \<notin> proof_nodes) (ses_ts_order s));
         prefix_roots = concat (map (\<lambda>idx. case ses_available_roots s idx of
            Some rt \<Rightarrow> [rt] | None \<Rightarrow> []) rootless);
         visited = sort (ses_ts_order s) in
     and_then (get_batch_proof_for_nodes (sha256 C) (tr_store T) visited tree_size consistency_last
         (max_auditor_size T)) (\<lambda>inc_proof.
     Inr (\<lparr>ctp_timestamps = timestamps, ctp_prefix_proofs = map snd (ses_prefix_proofs s),
            ctp_prefix_roots = prefix_roots, ctp_inclusion = Some \<lparr>ip_elements = inc_proof\<rparr>\<rparr>,
          ses_binary_ladder s, ses_found_value s, ses_found_opening s)))"

section \<open>The standalone proof builder\<close>

record proof_builder =
  pb_visited_nodes :: "u64 list"
  pb_visited_set :: "u64 set"
  pb_timestamps :: "u64 \<rightharpoonup> u64"
  pb_prefix_proofs :: "u64 \<rightharpoonup> prefix_proof"
  pb_prefix_roots :: "u64 \<rightharpoonup> bytes"

definition builder_new :: proof_builder where
  "builder_new = \<lparr>pb_visited_nodes = [], pb_visited_set = {}, pb_timestamps = Map.empty,
     pb_prefix_proofs = Map.empty, pb_prefix_roots = Map.empty\<rparr>"

definition builder_add_node :: "u64 \<Rightarrow> u64 \<Rightarrow> proof_builder \<Rightarrow> proof_builder" where
  "builder_add_node idx ts b =
     (if idx \<in> pb_visited_set b then b
      else b\<lparr>pb_visited_set := insert idx (pb_visited_set b),
             pb_visited_nodes := pb_visited_nodes b @ [idx],
             pb_timestamps := (pb_timestamps b)(idx \<mapsto> ts)\<rparr>)"

definition builder_add_proof :: "u64 \<Rightarrow> prefix_proof \<Rightarrow> proof_builder \<Rightarrow> proof_builder" where
  "builder_add_proof idx pf b = b\<lparr>pb_prefix_proofs := (pb_prefix_proofs b)(idx \<mapsto> pf)\<rparr>"

definition get_sorted_nodes :: "proof_builder \<Rightarrow> u64 list" where
  "get_sorted_nodes b = sort (pb_visited_nodes b)"

text \<open>The visited nodes are distinct, so taking a proof out of the map is looking it up.\<close>

definition builder_finalize :: "inclusion_proof \<Rightarrow> proof_builder \<Rightarrow> combined_tree_proof" where
  "builder_finalize inclusion b =
     (let nodes = sort (pb_visited_nodes b) in
      \<lparr>ctp_timestamps = concat (map (\<lambda>i. case pb_timestamps b i of Some t \<Rightarrow> [t] | None \<Rightarrow> []) nodes),
       ctp_prefix_proofs = concat (map (\<lambda>i. case pb_prefix_proofs b i of Some p \<Rightarrow> [p] | None \<Rightarrow> []) nodes),
       ctp_prefix_roots = concat (map (\<lambda>i. case pb_prefix_proofs b i of
           Some p \<Rightarrow> []
         | None \<Rightarrow> (case pb_prefix_roots b i of Some r \<Rightarrow> [r] | None \<Rightarrow> [])) nodes),
       ctp_inclusion = Some inclusion\<rparr>)"

end
