(* ===== verification/Samples.thy ===== *)
theory Samples
  imports PrefixInsert Server LogTreeProps "HOL-Library.Countable"
begin

text \<open>
  Concrete parameters at which the theorems are instantiated: a codec with the laws of the
  generated one, built from the countability of the messages, and a digest that is no
  digest at all.
\<close>

section \<open>A codec\<close>

instance word :: (len) countable
  by (rule countable_classI [of unat]) (simp add: word_unat_eq_iff)

definition node_tuple :: "parent_node \<Rightarrow> bytes \<times> u64 option \<times> u64 option" where
  "node_tuple n = (pn_hash n, pn_ptr n, pn_first_update_position n)"

definition tuple_node :: "bytes \<times> u64 option \<times> u64 option \<Rightarrow> parent_node" where
  "tuple_node = (\<lambda>(h, p, f). \<lparr>pn_hash = h, pn_ptr = p, pn_first_update_position = f\<rparr>)"

definition entry_tuple :: "log_entry \<Rightarrow> bytes \<times> (bytes \<times> u64 option \<times> u64 option) list \<times> u64 \<times> (nat \<times> bytes) option" where
  "entry_tuple e = (le_index e, map node_tuple (le_copath e), le_first_update_position e,
     map_option (\<lambda>l. (ln_ctr l, ln_commitment l)) (le_leaf e))"

definition tuple_entry :: "bytes \<times> (bytes \<times> u64 option \<times> u64 option) list \<times> u64 \<times> (nat \<times> bytes) option \<Rightarrow> log_entry" where
  "tuple_entry = (\<lambda>(i, cp, f, l). \<lparr>le_index = i, le_copath = map tuple_node cp, le_first_update_position = f,
     le_leaf = map_option (\<lambda>(n, c). \<lparr>ln_ctr = n, ln_commitment = c\<rparr>) l\<rparr>)"

definition leaf_tuple :: "prefix_leaf \<Rightarrow> bytes \<times> bytes" where
  "leaf_tuple l = (pl_vrf_output l, pl_commitment l)"

definition tuple_leaf :: "bytes \<times> bytes \<Rightarrow> prefix_leaf" where
  "tuple_leaf = (\<lambda>(v, c). \<lparr>pl_vrf_output = v, pl_commitment = c\<rparr>)"

definition result_tuple :: "prefix_search_result \<Rightarrow> nat \<times> (bytes \<times> bytes) option \<times> nat" where
  "result_tuple r = (psr_result_type r, map_option leaf_tuple (psr_leaf r), psr_depth r)"

definition tuple_result :: "nat \<times> (bytes \<times> bytes) option \<times> nat \<Rightarrow> prefix_search_result" where
  "tuple_result = (\<lambda>(t, l, d). \<lparr>psr_result_type = t, psr_leaf = map_option tuple_leaf l, psr_depth = d\<rparr>)"

type_synonym update_tuple =
  "u64 \<times> (bytes \<times> bytes) list \<times> (bytes \<times> bytes) list \<times>
    ((nat \<times> (bytes \<times> bytes) option \<times> nat) list \<times> bytes list) option"

definition update_to_tuple :: "auditor_update \<Rightarrow> update_tuple" where
  "update_to_tuple u = (au_timestamp u, map leaf_tuple (au_added u), map leaf_tuple (au_removed u),
     map_option (\<lambda>p. (map result_tuple (pp_results p), pp_elements p)) (au_proof u))"

definition tuple_to_update :: "update_tuple \<Rightarrow> auditor_update" where
  "tuple_to_update = (\<lambda>(t, a, r, p). \<lparr>au_timestamp = t, au_added = map tuple_leaf a, au_removed = map tuple_leaf r,
     au_proof = map_option (\<lambda>(rs, es). \<lparr>pp_results = map tuple_result rs, pp_elements = es\<rparr>) p\<rparr>)"

definition head_tuple :: "tree_head \<Rightarrow> u64 \<times> i64 \<times> (bytes \<times> bytes) list" where
  "head_tuple h = (th_tree_size h, th_timestamp h, map (\<lambda>s. (sig_auditor_public_key s, sig_signature s)) (th_signatures h))"

definition tuple_head :: "u64 \<times> i64 \<times> (bytes \<times> bytes) list \<Rightarrow> tree_head" where
  "tuple_head = (\<lambda>(n, t, ss). \<lparr>th_tree_size = n, th_timestamp = t,
     th_signatures = map (\<lambda>(k, s). \<lparr>sig_auditor_public_key = k, sig_signature = s\<rparr>) ss\<rparr>)"

lemma tuple_inverses [simp]:
  "tuple_node (node_tuple n) = n" "tuple_leaf (leaf_tuple l) = l"
  by (simp_all add: tuple_node_def node_tuple_def tuple_leaf_def leaf_tuple_def)

lemma tuple_inverses_more [simp]:
  "tuple_entry (entry_tuple e) = e" "tuple_result (result_tuple r) = r" "tuple_head (head_tuple h) = h"
proof -
  show "tuple_entry (entry_tuple e) = e"
    by (cases e; cases "le_leaf e"; simp add: tuple_entry_def entry_tuple_def comp_def)
  show "tuple_result (result_tuple r) = r"
    by (cases r; cases "psr_leaf r"; simp add: tuple_result_def result_tuple_def)
  show "tuple_head (head_tuple h) = h"
    by (cases h) (simp add: tuple_head_def head_tuple_def comp_def map_idI)
qed

lemma tuple_to_update_inverse [simp]: "tuple_to_update (update_to_tuple u) = u"
  by (cases u; cases "au_proof u"; simp add: tuple_to_update_def update_to_tuple_def comp_def)

text \<open>A message is the unary numeral of its number.\<close>

definition unary :: "'a::countable \<Rightarrow> bytes" where
  "unary x = replicate (to_nat x) 0"

definition of_unary :: "bytes \<Rightarrow> 'a::countable" where
  "of_unary b = from_nat (length b)"

lemma of_unary [simp]: "of_unary (unary x) = x"
  by (simp add: of_unary_def unary_def)

definition sample_codec :: codec where
  "sample_codec = \<lparr>
     enc_log_entry = (\<lambda>e. unary (entry_tuple e)), dec_log_entry = (\<lambda>b. Some (tuple_entry (of_unary b))),
     enc_auditor_update = (\<lambda>u. unary (update_to_tuple u)), dec_auditor_update = (\<lambda>b. Some (tuple_to_update (of_unary b))),
     enc_tree_head = (\<lambda>h. unary (head_tuple h)), dec_tree_head = (\<lambda>b. Some (tuple_head (of_unary b))),
     hex_encode = (\<lambda>b. replicate (to_nat b) CHR ''0''), hex_decode = (\<lambda>s. Some (from_nat (length s)))\<rparr>"

lemma sample_codec_laws: "codec_laws sample_codec"
  by (simp add: codec_laws_def sample_codec_def)

section \<open>Cryptography and configuration\<close>

definition sample_crypto :: crypto where
  "sample_crypto = \<lparr>sha256 = pad32, hmac_sha256 = (\<lambda>k m. pad32 (k @ m)),
     ed25519_public = id, ed25519_key_ok = (\<lambda>k. length k = 32), ed25519_sign = (\<lambda>k m. pad32 k @ pad32 m),
     ed25519_check = (\<lambda>k m s. s = pad32 k @ pad32 m),
     p256_public = id, p256_secret_ok = (\<lambda>k. True), p256_key_ok = (\<lambda>k. True), p256_sig_ok = (\<lambda>s. True),
     p256_sign = (\<lambda>k m. pad32 m), p256_check = (\<lambda>k m s. s = pad32 m),
     vrf_prove = (\<lambda>suite k x. Inr (pad32 (rev x), x)),
     vrf_verify = (\<lambda>suite k x pf. if pf = x then Inr (pad32 (rev x)) else Inl (Anyhow ''bad proof''))\<rparr>"

definition sample_private_config :: private_config where
  "sample_private_config = \<lparr>pc_cipher_suite = 2, pc_mode = 1, pc_sig_key = SkEd25519 (replicate 32 1),
     pc_vrf_key = replicate 32 2, pc_vrf_public_key = replicate 32 2, pc_auditor_keys = [],
     pc_auditor_public_key = None, pc_auditor_start_pos = 0, pc_max_auditor_lag = 0,
     pc_max_ahead = 1000, pc_max_behind = 1000, pc_reasonable_monitoring_window = 10,
     pc_maximum_lifetime = None, pc_leaf_public_key = None, pc_max_response_entries = 100\<rparr>"

definition sample_tree :: "store \<Rightarrow> tree" where
  "sample_tree st = \<lparr>tr_store = st, tr_node_cache = Map.empty, tr_config = sample_private_config,
     tr_latest = None, tr_auditors = []\<rparr>"

end
