(* ===== verification/PrefixProps.thy ===== *)
theory PrefixProps
  imports Samples Verifier
begin

text \<open>
  What the prefix tree is for: proofs the server makes are accepted with the map's root, no
  accepted proof misstates the map unless the digest is broken at a place the theorem names, and
  the root depends on the map alone.
\<close>

section \<open>The root depends on the map alone\<close>

lemma occupied_cong: "map_of kvs = map_of kvs' \<Longrightarrow> occupied kvs p = occupied kvs' p"
  unfolding occupied_iff by (metis dom_map_of_conv_image_fst)

lemma find_cong:
  assumes "keys_ok kvs" and "keys_ok kvs'" and "map_of kvs = map_of kvs'"
  shows "find (\<lambda>(k, _). key_bits k = p) kvs = find (\<lambda>(k, _). key_bits k = p) kvs'"
proof (cases "\<exists>k\<in>fst ` set kvs. key_bits k = p")
  case True
  then obtain k where k: "k \<in> fst ` set kvs" "key_bits k = p" by blast
  moreover from this have "length k = 32" using assms(1) by (auto simp: keys_ok_def list_all_iff)
  ultimately show ?thesis
    using find_key_bits [OF assms(1)] find_key_bits [OF assms(2)] assms(3) by (simp flip: k(2))
next
  case False
  moreover have "fst ` set kvs = fst ` set kvs'" using assms(3) by (metis dom_map_of_conv_image_fst)
  ultimately have "find (\<lambda>(k, _). key_bits k = p) kvs = None" "find (\<lambda>(k, _). key_bits k = p) kvs' = None"
    by (force simp: find_None_iff)+
  then show ?thesis by simp
qed

lemma level_hash_cong:
  assumes "keys_ok kvs" and "keys_ok kvs'" and "map_of kvs = map_of kvs'"
  shows "level_hash sha kvs n p = level_hash sha kvs' n p"
  by (induction n arbitrary: p) (simp_all add: find_cong [OF assms] occupied_cong [OF assms(3)])

lemma map_root_cong:
  "keys_ok kvs \<Longrightarrow> keys_ok kvs' \<Longrightarrow> map_of kvs = map_of kvs' \<Longrightarrow> map_root sha kvs = map_root sha kvs'"
  unfolding map_root_def subtree_hash_def by (rule level_hash_cong)

section \<open>An honest search\<close>

text \<open>What the client computes from a copath of the key.\<close>

lemma fold_level_join: "fold_level sha key k sib h = join_level sha key k sib h"
  by (simp add: fold_level_def join_level_def)

lemma fold_path_copath:
  assumes "copath_for get sha kvs key cp" and "length cp \<le> n" and "n \<le> 256"
    and "\<And>k. length cp \<le> k \<Longrightarrow> k < n \<Longrightarrow> \<not> occupied kvs (sibling_path key k)"
    and "\<And>k. k < n \<Longrightarrow> occupied kvs (take k (key_bits key))"
  shows "fold_path sha key (map pn_hash cp) (length cp) n (subtree_hash sha kvs (take n (key_bits key))) =
    map_root sha kvs"
proof -
  have "sibling_at (map pn_hash cp) (length cp) k = subtree_hash sha kvs (sibling_path key k)"
    if "k < n" for k
    using assms(1,3,4) that
    by (auto simp: sibling_at_def copath_for_def node_at_def unoccupied_hash)
  then have "fold (\<lambda>k h. join_level sha key k (sibling_at (map pn_hash cp) (length cp) k) h) (rev [0..<n])
      (subtree_hash sha kvs (take n (key_bits key))) = subtree_hash sha kvs (take 0 (key_bits key))"
    using assms(3,5) by (intro fold_joins) auto
  then show ?thesis by (simp add: fold_path_def fold_level_join map_root_def)
qed

definition proof_for :: "(bytes \<Rightarrow> bytes) \<Rightarrow> key_map \<Rightarrow> bytes \<Rightarrow> proof_result \<Rightarrow> bool" where
  "proof_for sha kvs key r \<longleftrightarrow> pr_commitment r = map_of kvs key \<and>
     pr_depth r = length (pr_inclusion_proof r) \<and> pr_depth r \<le> 256 \<and>
     (case map_of kvs key of
        Some c \<Rightarrow> pr_result_type r = 1 \<and>
          fold_path sha key (pr_inclusion_proof r) (pr_depth r) 256 (leaf_hash sha key c) = map_root sha kvs
      | None \<Rightarrow> pr_result_type r = 2 \<and> (\<exists>k c. pr_leaf_vrf_output r = Some k \<and> k \<noteq> key \<and>
          pr_leaf_commitment r = Some c) \<and>
          fold_path sha key (pr_inclusion_proof r) (pr_depth r) (pr_depth r) ZERO_VALUE = map_root sha kvs)"

lemma search_for_proof_correct:
  assumes "rep_by get sha (Some ptr) kvs" and "length key = 32"
    and "\<And>p e. get p = Inr e \<Longrightarrow> get_entry D st cached p overlay = Inr e"
  shows "\<exists>r. search_for_proof sha D st cached ptr key overlay = Inr r \<and> proof_for sha kvs key r"
proof -
  have keys: "keys_ok kvs" using assms(1) by (simp add: rep_by_def)
  obtain cur e r where w: "walk sha D st cached key overlay ptr [] = Inr (cur, e, r)"
    "outcome_ok get sha kvs key r" "\<exists>l. le_leaf e = Some l" "(\<exists>f. r = Found f) \<or> le_index e \<noteq> key"
    using walk_correct [OF assms(3) keys assms(2) rep_by_goes_on [OF assms(1)]] by blast
  show ?thesis
  proof (cases r)
    case (Found f)
    then obtain l where l: "le_leaf f = Some l" "map_of kvs key = Some (ln_commitment l)"
      and cp: "copath_for get sha kvs key (le_copath f)" "empty_beyond kvs key (length (le_copath f))"
      using w(2) by auto
    have "fold_path sha key (map pn_hash (le_copath f)) (length (le_copath f)) 256
        (leaf_hash sha key (ln_commitment l)) = map_root sha kvs"
      using fold_path_copath [OF cp(1), of 256] cp occupied_key [OF l(2)]
        leaf_subtree_hash [OF keys assms(2) l(2), of sha]
      by (auto simp: copath_for_def empty_beyond_def)
    then show ?thesis
      using w(1) Found l cp(1)
      by (simp add: search_for_proof_def unwrap_leaf_def proof_for_def copath_for_def)
  next
    case (Failed cp)
    then have cp: "copath_for get sha kvs key cp" "\<not> occupied kvs (take (length cp) (key_bits key))"
      "cp \<noteq> [] \<Longrightarrow> occupied kvs (take (length cp - 1) (key_bits key))" using w(2) by auto
    have "occupied kvs (take k (key_bits key))" if "k < length cp" for k
    proof -
      have "cp \<noteq> []" "k \<le> length cp - 1" using that by auto
      then show ?thesis using cp(3) occupied_shorter by blast
    qed
    then have "fold_path sha key (map pn_hash cp) (length cp) (length cp) ZERO_VALUE = map_root sha kvs"
      using fold_path_copath [OF cp(1), of "length cp"] cp(1,2) by (auto simp: copath_for_def unoccupied_hash)
    moreover have "map_of kvs key = None" using cp(2) occupied_key by (cases "map_of kvs key") auto
    ultimately show ?thesis
      using w Failed cp(1) by (auto simp: search_for_proof_def proof_for_def copath_for_def)
  qed (use w(2) in simp)
qed

section \<open>Ladders of lookups\<close>

text \<open>
  A response proves several versions of a label at once: results in the order asked for, the
  copaths one after the other. \<open>offset_of\<close> is where a result's copath begins.
\<close>

definition offset_of :: "prefix_proof \<Rightarrow> nat \<Rightarrow> nat" where
  "offset_of pf j = sum_list (map psr_depth (take j (pp_results pf)))"

definition accepted_as :: "(bytes \<Rightarrow> bytes) \<Rightarrow> key_map \<Rightarrow> prefix_proof \<Rightarrow> nat \<Rightarrow> bytes \<Rightarrow> bool" where
  "accepted_as sha kvs pf j key \<longleftrightarrow>
     compute_root_from_result sha pf j key (map_of kvs key) (offset_of pf j) =
       Inr (map_root sha kvs, psr_depth (pp_results pf ! j)) \<and>
     (psr_result_type (pp_results pf ! j) = 1 \<longleftrightarrow> map_of kvs key \<noteq> None)"

lemma accepted_as_first:
  assumes "proof_for sha kvs key r" and "psr_result_type res = pr_result_type r" and "psr_depth res = pr_depth r"
    and "psr_leaf res = (if pr_result_type r = 2 then
           Some \<lparr>pl_vrf_output = (case pr_leaf_vrf_output r of Some x \<Rightarrow> x | None \<Rightarrow> []),
             pl_commitment = (case pr_leaf_commitment r of Some x \<Rightarrow> x | None \<Rightarrow> [])\<rparr>
         else None)"
  shows "accepted_as sha kvs \<lparr>pp_results = res # results, pp_elements = pr_inclusion_proof r @ elements\<rparr> 0 key"
  using assms
  by (auto simp: accepted_as_def proof_for_def compute_root_from_result_def start_of_result_def offset_of_def
      INDEX_LENGTH_def Let_def res_simps split: option.splits)

lemma accepted_as_rest:
  assumes "accepted_as sha kvs \<lparr>pp_results = results, pp_elements = elements\<rparr> j key" and "length es = psr_depth res"
  shows "accepted_as sha kvs \<lparr>pp_results = res # results, pp_elements = es @ elements\<rparr> (Suc j) key"
  using assms
  by (simp add: accepted_as_def compute_root_from_result_def offset_of_def add.assoc cong: if_cong split: if_splits)

lemma ladder_proof_loop_correct:
  assumes "rep_by (stored D (tr_store T)) (sha256 C) (Some ptr) kvs"
    and "cache_agrees D (tr_store T) (tr_node_cache T)"
    and "\<forall>v\<in>set versions. \<exists>pf. config_vrf_prove C (tr_config T) label v = Inr (idx v, pf) \<and> length (idx v) = 32"
  shows "\<exists>results elements. ladder_proof_loop C D T ptr label versions =
      Inr (results, elements, map (\<lambda>v. (v, map_of kvs (idx v))) versions) \<and>
    length results = length versions \<and> sum_list (map psr_depth results) = length elements \<and>
    (\<forall>j<length versions. accepted_as (sha256 C) kvs \<lparr>pp_results = results, pp_elements = elements\<rparr> j
      (idx (versions ! j)))"
  using assms(3)
proof (induction versions)
  case (Cons v versions)
  obtain pf where v: "config_vrf_prove C (tr_config T) label v = Inr (idx v, pf)" "length (idx v) = 32"
    using Cons.prems by auto
  have entries: "get_entry D (tr_store T) (tr_node_cache T) p Map.empty = Inr e"
    if "stored D (tr_store T) p = Inr e" for p e
    using get_entry_overlaid [OF assms(2)] that by (simp add: overlaid_def)
  obtain r where r: "search_for_proof (sha256 C) D (tr_store T) (tr_node_cache T) ptr (idx v) Map.empty = Inr r"
    "proof_for (sha256 C) kvs (idx v) r"
    using search_for_proof_correct [OF assms(1) v(2) entries] by blast
  let ?res = "\<lparr>psr_result_type = pr_result_type r, psr_leaf = (if pr_result_type r = 2 then
      Some \<lparr>pl_vrf_output = (case pr_leaf_vrf_output r of Some x \<Rightarrow> x | None \<Rightarrow> []),
        pl_commitment = (case pr_leaf_commitment r of Some x \<Rightarrow> x | None \<Rightarrow> [])\<rparr>
    else None), psr_depth = pr_depth r\<rparr>"
  have len: "length (pr_inclusion_proof r) = psr_depth ?res" using r(2) by (simp add: proof_for_def)
  obtain results elements where IH: "ladder_proof_loop C D T ptr label versions =
      Inr (results, elements, map (\<lambda>v. (v, map_of kvs (idx v))) versions)"
    "length results = length versions" "sum_list (map psr_depth results) = length elements"
    "\<And>j. j < length versions \<Longrightarrow>
      accepted_as (sha256 C) kvs \<lparr>pp_results = results, pp_elements = elements\<rparr> j (idx (versions ! j))"
    using Cons by auto
  have "accepted_as (sha256 C) kvs \<lparr>pp_results = ?res # results,
      pp_elements = pr_inclusion_proof r @ elements\<rparr> j (idx ((v # versions) ! j))" if "j < length (v # versions)" for j
    using that IH(4) accepted_as_first [OF r(2), of ?res] accepted_as_rest [OF _ len] by (cases j) auto
  then show ?case
    using v r(1) IH(1-3) len r(2)
    by (intro exI [of _ "?res # results"] exI [of _ "pr_inclusion_proof r @ elements"])
      (simp add: Let_def res_simps proof_for_def)
qed simp

section \<open>Soundness of a lookup\<close>

text \<open>
  The digest inputs of one level: the client's, from the proof, and the tree's, from the map.
\<close>

definition path_input :: "bytes \<Rightarrow> nat \<Rightarrow> bytes \<Rightarrow> bytes \<Rightarrow> bytes" where
  "path_input key k sib h = [0x03] @ (if get_bit key k = 1 then sib @ h else h @ sib)"

definition climb_value :: "(bytes \<Rightarrow> bytes) \<Rightarrow> bytes \<Rightarrow> bytes list \<Rightarrow> nat \<Rightarrow> nat \<Rightarrow> bytes \<Rightarrow> nat \<Rightarrow> bytes" where
  "climb_value sha key elements depth n start k =
     fold (\<lambda>lv h. fold_level sha key lv (sibling_at elements depth lv) h) (rev [k..<n]) start"

definition client_inputs :: "(bytes \<Rightarrow> bytes) \<Rightarrow> bytes \<Rightarrow> bytes list \<Rightarrow> nat \<Rightarrow> nat \<Rightarrow> bytes \<Rightarrow> bytes list" where
  "client_inputs sha key elements depth n start =
     map (\<lambda>k. path_input key k (sibling_at elements depth k) (climb_value sha key elements depth n start (Suc k))) [0..<n]"

definition tree_input :: "(bytes \<Rightarrow> bytes) \<Rightarrow> key_map \<Rightarrow> bytes \<Rightarrow> nat \<Rightarrow> bytes" where
  "tree_input sha kvs key k =
     (if k < 256 then path_input key k (subtree_hash sha kvs (sibling_path key k))
        (subtree_hash sha kvs (take (Suc k) (key_bits key)))
      else case map_of kvs key of Some c \<Rightarrow> [0x02] @ key @ c | None \<Rightarrow> [])"

definition broken_at :: "(bytes \<Rightarrow> bytes) \<Rightarrow> bytes list \<Rightarrow> bytes list \<Rightarrow> bool" where
  "broken_at sha xs ys \<longleftrightarrow>
     list_ex (\<lambda>(a, b). a \<noteq> b \<and> sha a = sha b) (zip xs ys) \<or> list_ex (\<lambda>a. sha a = ZERO_VALUE) (xs @ ys)"

lemma join_level_input: "join_level sha key k sib h = sha (path_input key k sib h)"
  by (simp add: join_level_def path_input_def parent_hash_def)

lemma path_input_inj:
  "path_input key k sib h = path_input key k sib' h' \<Longrightarrow> length h = length h' \<Longrightarrow> h = h'"
  by (auto simp: path_input_def split: if_splits)

lemma climb_value_step:
  "k < n \<Longrightarrow> climb_value sha key elements depth n start k =
    sha (client_inputs sha key elements depth n start ! k)"
  by (simp add: climb_value_def client_inputs_def upt_conv_Cons [of k] fold_level_join join_level_input)

lemma subtree_hash_input:
  assumes "occupied kvs (take k (key_bits key))" and "k < 256"
  shows "subtree_hash sha kvs (take k (key_bits key)) = sha (tree_input sha kvs key k)"
  using subtree_hash_join [OF assms] assms(2) by (simp add: tree_input_def join_level_input)

lemma length_subtree_hash:
  assumes "\<And>x. length (sha x) = 32"
  shows "length (subtree_hash sha kvs p) = 32"
  using assms by (cases "256 - length p")
    (auto simp: subtree_hash_def leaf_hash_def parent_hash_def ZERO_VALUE_def split: option.splits)

text \<open>Unless the digest breaks on the way, the client's values are the tree's.\<close>

lemma climb_agrees:
  assumes "climb_value sha key elements depth n start 0 = map_root sha kvs" and "n \<le> 256" and "k \<le> n"
    and "\<And>x. length (sha x) = 32" and "length start = 32"
    and ok: "\<not> broken_at sha (client_inputs sha key elements depth n start @ xs)
      (map (tree_input sha kvs key) [0..<n] @ ys)"
  shows "climb_value sha key elements depth n start k = subtree_hash sha kvs (take k (key_bits key))"
  using assms(3)
proof (induction k)
  case 0
  then show ?case using assms(1) by (simp add: map_root_def)
next
  case (Suc k)
  then have k: "k < n" by simp
  let ?c = "client_inputs sha key elements depth n start ! k"
  have len: "length (client_inputs sha key elements depth n start) = n" by (simp add: client_inputs_def)
  have eq: "sha ?c = subtree_hash sha kvs (take k (key_bits key))"
    using Suc climb_value_step [OF k, of sha key elements depth start] by simp
  have "sha ?c \<noteq> ZERO_VALUE"
    using ok k len by (fastforce simp: broken_at_def list_ex_iff)
  then have occ: "occupied kvs (take k (key_bits key))"
    using eq unoccupied_hash [of kvs "take k (key_bits key)" sha] by auto
  have eq': "sha ?c = sha (tree_input sha kvs key k)"
    using eq subtree_hash_input [OF occ] k assms(2) by simp
  have "(?c, tree_input sha kvs key k) \<in>
      set (zip (client_inputs sha key elements depth n start @ xs) (map (tree_input sha kvs key) [0..<n] @ ys))"
    using k len by (auto simp: set_zip nth_append intro!: exI [of _ k])
  then have same: "?c = tree_input sha kvs key k"
    using ok eq' by (auto simp: broken_at_def list_ex_iff)
  moreover have "length (climb_value sha key elements depth n start (Suc k)) = 32"
    using assms(4,5) climb_value_step [of "Suc k" n] by (cases "Suc k < n") (auto simp: climb_value_def)
  ultimately show ?case
    using k assms(2) length_subtree_hash [OF assms(4)]
    by (auto simp: client_inputs_def tree_input_def dest!: path_input_inj)
qed

text \<open>The inputs that matter for a lookup, level by level, and the leaf for an inclusion proof.\<close>

definition lookup_inputs :: "(bytes \<Rightarrow> bytes) \<Rightarrow> prefix_proof \<Rightarrow> nat \<Rightarrow> bytes \<Rightarrow> bytes option \<Rightarrow> nat \<Rightarrow> bytes list" where
  "lookup_inputs sha pf j key commitment offset =
     (let result = pp_results pf ! j; depth = psr_depth result;
          elements = take depth (drop offset (pp_elements pf)) in
      if psr_result_type result = 1 then
        (case commitment of
           Some c \<Rightarrow> client_inputs sha key elements depth 256 (leaf_hash sha key c) @ [[0x02] @ key @ c]
         | None \<Rightarrow> [])
      else client_inputs sha key elements depth depth ZERO_VALUE)"

definition tree_inputs :: "(bytes \<Rightarrow> bytes) \<Rightarrow> key_map \<Rightarrow> bytes \<Rightarrow> bytes list" where
  "tree_inputs sha kvs key = map (tree_input sha kvs key) [0..<257]"

lemma tree_inputs_split:
  "n \<le> 256 \<Longrightarrow> tree_inputs sha kvs key =
    map (tree_input sha kvs key) [0..<n] @ tree_input sha kvs key n # map (tree_input sha kvs key) [Suc n..<257]"
proof -
  assume "n \<le> 256"
  then have "[0..<257] = [0..<n] @ n # [Suc n..<257]"
    using upt_add_eq_append [of 0 n "257 - n"] upt_conv_Cons [of n 257] by simp
  then show ?thesis by (simp only: tree_inputs_def map_append list.map)
qed

text \<open>A key in the map has a preimage of its subtree's hash on the list at every level.\<close>

lemma present_hash:
  assumes "keys_ok kvs" and "length key = 32" and "map_of kvs key = Some c" and "n \<le> 256"
  shows "subtree_hash sha kvs (take n (key_bits key)) = sha (tree_input sha kvs key n)"
  using subtree_hash_input [OF occupied_key [OF assms(3)], of n sha] leaf_subtree_hash [OF assms(1-3), of sha] assms(3,4)
  by (cases "n = 256") (auto simp: tree_input_def leaf_hash_def)

lemma absent_climb:
  assumes "climb_value sha key elements depth n ZERO_VALUE 0 = map_root sha kvs" and "n \<le> 256"
    and "keys_ok kvs" and "length key = 32" and "\<And>x. length (sha x) = 32"
    and "\<not> broken_at sha (client_inputs sha key elements depth n ZERO_VALUE) (tree_inputs sha kvs key)"
  shows "map_of kvs key = None"
proof (rule ccontr)
  assume "map_of kvs key \<noteq> None"
  then obtain c where c: "map_of kvs key = Some c" by blast
  have "climb_value sha key elements depth n ZERO_VALUE n = subtree_hash sha kvs (take n (key_bits key))"
    using climb_agrees [where xs = "[]", OF assms(1,2) order_refl assms(5), of
        "tree_input sha kvs key n # map (tree_input sha kvs key) [Suc n..<257]"] assms(6)
    by (simp add: tree_inputs_split [OF assms(2)] ZERO_VALUE_def)
  then have "sha (tree_input sha kvs key n) = ZERO_VALUE"
    using present_hash [OF assms(3,4) c assms(2), of sha] by (simp add: climb_value_def)
  then show False
    using assms(6) by (simp add: tree_inputs_split [OF assms(2)] broken_at_def)
qed

lemma present_climb:
  assumes "climb_value sha key elements depth 256 (leaf_hash sha key c) 0 = map_root sha kvs"
    and "keys_ok kvs" and "length key = 32" and "\<And>x. length (sha x) = 32"
    and ok: "\<not> broken_at sha (client_inputs sha key elements depth 256 (leaf_hash sha key c) @ [[0x02] @ key @ c])
      (tree_inputs sha kvs key)"
  shows "map_of kvs key = Some c"
proof -
  have inputs: "tree_inputs sha kvs key = map (tree_input sha kvs key) [0..<256] @ [tree_input sha kvs key 256]"
    using tree_inputs_split [of 256] by simp
  have len: "length (client_inputs sha key elements depth 256 (leaf_hash sha key c)) = 256"
    by (simp add: client_inputs_def)
  have "climb_value sha key elements depth 256 (leaf_hash sha key c) 256 =
      subtree_hash sha kvs (take 256 (key_bits key))"
    using climb_agrees [OF assms(1) order_refl order_refl assms(4), of "[[0x02] @ key @ c]"
        "[tree_input sha kvs key 256]"] ok unfolding inputs by (simp add: leaf_hash_def assms(4))
  then have eq: "sha ([0x02] @ key @ c) = subtree_hash sha kvs (take 256 (key_bits key))"
    by (simp add: climb_value_def leaf_hash_def)
  moreover have "sha ([0x02] @ key @ c) \<noteq> ZERO_VALUE" using ok by (simp add: broken_at_def)
  ultimately obtain c' where c': "map_of kvs key = Some c'"
    using find_key_bits [OF assms(2,3)] by (cases "map_of kvs key") (auto simp: subtree_hash_def)
  have "sha ([0x02] @ key @ c) = sha (tree_input sha kvs key 256)"
    using eq present_hash [OF assms(2,3) c', of 256 sha] by simp
  moreover have "([0x02] @ key @ c, tree_input sha kvs key 256) \<in> set (zip
      (client_inputs sha key elements depth 256 (leaf_hash sha key c) @ [[0x02] @ key @ c]) (tree_inputs sha kvs key))"
    unfolding inputs by (subst zip_append) (simp_all add: len)
  ultimately have "[0x02] @ key @ c = tree_input sha kvs key 256"
    using ok unfolding broken_at_def list_ex_iff by blast
  then show ?thesis using c' by (simp add: tree_input_def)
qed

section \<open>Properties\<close>

text \<open>A concrete tree with one key.\<close>

lemma rep_by_empty [simp]: "rep_by get sha None []"
  by (simp add: rep_by_def keys_ok_def)

lemma cache_agrees_empty [simp]: "cache_agrees D st Map.empty"
  by (simp add: cache_agrees_def)

lemma keys_ok_Nil [simp]: "keys_ok []"
  by (simp add: keys_ok_def)

lemma get_prefix_empty [simp]: "get_prefix empty_store p = None"
  by (simp add: get_prefix_def empty_store_def)

lemma one_key_tree:
  assumes "length key = 32"
  obtains st cache results where
    "batch_insert pad32 sample_codec 5 None [(key, c)] (empty_store, Map.empty) =
      ((st, cache), Inr ([map_root pad32 [(key, c)]], results, 5))"
    "rep_by (stored sample_codec st) pad32 (Some 5) [(key, c)]" "cache_agrees sample_codec st cache"
  using batch_insert_correct [OF sample_codec_laws cache_agrees_empty rep_by_empty,
      of "[(key, c)]" 5 empty_store pad32] assms that by auto

lemma positions_two: "positions start 2 = [start, start + 1]"
  by (simp add: numeral_2_eq_2)

text \<open>The indices of the versions of the label \<open>[1]\<close>.\<close>

definition sample_index :: "version \<Rightarrow> bytes" where
  "sample_index v = pad32 (rev ([1, 1] @ to_be_bytes_u32 v))"

text \<open>C7. A batch insertion refines the update of the map. From a store whose entries represent
  the map \<open>kvs\<close> at the current pointer, with free positions ahead, it succeeds; the roots it
  returns are those of the maps after each insertion; the entries it leaves represent the final
  map at the pointer it returns; the node cache still agrees with the database; and every older
  pointer still represents the map it did, so that past tree versions stay answerable.\<close>

theorem batch_insert_refines_map:
  assumes "codec_laws D" and "cache_agrees D st cached" and "rep_by (stored D st) sha ptr kvs"
    and "keys_ok entries" and "\<forall>p\<in>set (positions start (length entries)). get_prefix st p = None"
    and "entries \<noteq> []" and "length entries \<le> 2 ^ 64"
  shows "\<exists>st' cached' results. batch_insert sha D start ptr entries (st, cached) =
      ((st', cached'), Inr (map_roots sha kvs entries, results, last (positions start (length entries)))) \<and>
    map res_log_position results = positions start (length entries) \<and>
    map res_commitment results = map snd entries \<and>
    rep_by (stored D st') sha (Some (last (positions start (length entries)))) (rev entries @ kvs) \<and>
    cache_agrees D st' cached' \<and>
    (\<forall>q kvs'. rep_by (stored D st) sha q kvs' \<longrightarrow> rep_by (stored D st') sha q kvs')"
  using batch_insert_correct [OF assms(1-5,7)] assms(6) by (elim exE conjE, intro exI conjI) auto

theorem batch_insert_refines_map_witness:
  "\<exists>st cache results. batch_insert pad32 sample_codec 5 None [(replicate 32 0, [7]), (replicate 32 1, [8])]
      (empty_store, Map.empty) =
      ((st, cache), Inr ([map_root pad32 [(replicate 32 0, [7])],
         map_root pad32 [(replicate 32 1, [8]), (replicate 32 0, [7])]], results, 6)) \<and>
    rep_by (stored sample_codec st) pad32 (Some 6) [(replicate 32 1, [8]), (replicate 32 0, [7])]"
  using batch_insert_refines_map [OF sample_codec_laws cache_agrees_empty rep_by_empty,
      of "[(replicate 32 0, [7]), (replicate 32 1, [8])]" 5 empty_store pad32]
  by (auto simp: positions_two)

lemma last_map_roots: "es \<noteq> [] \<Longrightarrow> last (map_roots sha kvs es) = map_root sha (rev es @ kvs)"
proof (induction es arbitrary: kvs)
  case (Cons e es)
  then show ?case by (cases es) simp_all
qed simp

lemma keys_ok_append [simp]: "keys_ok (xs @ ys) \<longleftrightarrow> keys_ok xs \<and> keys_ok ys" "keys_ok (rev xs) = keys_ok xs"
  by (auto simp: keys_ok_def list_all_iff)

text \<open>C12. The root commits to the map and not to how it came about: two batches, on whatever
  trees and at whatever positions, that end in the same map end in the same root.\<close>

theorem batch_root_history_independent:
  assumes "codec_laws D" and "keys_ok es" and "keys_ok es'" and "es \<noteq> []" and "es' \<noteq> []"
    and "length es \<le> 2 ^ 64" and "length es' \<le> 2 ^ 64"
    and "cache_agrees D st cached" and "rep_by (stored D st) sha ptr kvs"
    and "\<forall>p\<in>set (positions start (length es)). get_prefix st p = None"
    and "cache_agrees D st' cached'" and "rep_by (stored D st') sha ptr' kvs'"
    and "\<forall>p\<in>set (positions start' (length es')). get_prefix st' p = None"
    and "map_of (rev es @ kvs) = map_of (rev es' @ kvs')"
  shows "\<exists>s roots rs s' roots' rs'.
    batch_insert sha D start ptr es (st, cached) = (s, Inr (roots, rs)) \<and>
    batch_insert sha D start' ptr' es' (st', cached') = (s', Inr (roots', rs')) \<and> last roots = last roots'"
proof -
  have "keys_ok kvs" "keys_ok kvs'" using assms(9,12) by (simp_all add: rep_by_def)
  then have "last (map_roots sha kvs es) = last (map_roots sha kvs' es')"
    using assms by (simp add: last_map_roots map_root_cong del: map_of_append)
  then show ?thesis
    using batch_insert_correct [OF assms(1,8,9,2,10,6)] batch_insert_correct [OF assms(1,11,12,3,13,7)] by fastforce
qed

theorem batch_root_history_independent_witness:
  "\<exists>s roots rs s' roots' rs'.
    batch_insert pad32 sample_codec 5 None [(replicate 32 0, [7]), (replicate 32 1, [8])]
      (empty_store, Map.empty) = (s, Inr (roots, rs)) \<and>
    batch_insert pad32 sample_codec 9 None [(replicate 32 1, [3]), (replicate 32 1, [8]), (replicate 32 0, [7])]
      (empty_store, Map.empty) = (s', Inr (roots', rs')) \<and> last roots = last roots'"
proof -
  have "(replicate 32 0 :: bytes) \<noteq> replicate 32 1" by simp
  then show ?thesis
    by (intro batch_root_history_independent [OF sample_codec_laws, of _ _ _ _ pad32 None "[]" _ empty_store Map.empty None "[]"])
      (auto simp: fun_eq_iff)
qed

lemma length_sample_index: "length (sample_index v) = 32"
  by (simp add: sample_index_def)

lemma sample_vrf:
  "\<exists>pf. config_vrf_prove sample_crypto sample_private_config [1] v = Inr (sample_index v, pf) \<and>
    length (sample_index v) = 32"
  by (simp add: config_vrf_prove_def sample_crypto_def construct_vrf_input_def opaque_u8_def sample_index_def
      res_simps)

text \<open>C9. A proof of lookups the server generates is accepted. Against a tree that represents
  the map, \<open>generate_ladder_proof\<close> succeeds for every list of versions, returns the commitments
  the map has, and for each version in turn the client's computation over the same proof, at the
  offset where the earlier results end, gives the map's root; the result type says whether the
  version is there; and no proof element is left over.\<close>

theorem ladder_proof_accepted:
  assumes "rep_by (stored D (tr_store T)) (sha256 C) (Some ptr) kvs"
    and "cache_agrees D (tr_store T) (tr_node_cache T)"
    and "\<forall>v\<in>set versions. \<exists>pf. config_vrf_prove C (tr_config T) label v = Inr (idx v, pf) \<and> length (idx v) = 32"
  shows "\<exists>pf. generate_ladder_proof C D T ptr label versions =
      Inr (pf, map (\<lambda>v. (v, map_of kvs (idx v))) versions) \<and>
    length (pp_results pf) = length versions \<and> offset_of pf (length versions) = length (pp_elements pf) \<and>
    (\<forall>j<length versions.
      compute_root_from_result (sha256 C) pf j (idx (versions ! j)) (map_of kvs (idx (versions ! j))) (offset_of pf j) =
        Inr (map_root (sha256 C) kvs, psr_depth (pp_results pf ! j)) \<and>
      (psr_result_type (pp_results pf ! j) = 1 \<longleftrightarrow> map_of kvs (idx (versions ! j)) \<noteq> None))"
  using ladder_proof_loop_correct [OF assms]
  by (auto simp: generate_ladder_proof_def accepted_as_def offset_of_def)

theorem ladder_proof_accepted_witness:
  "\<exists>T pf. rep_by (stored sample_codec (tr_store T)) pad32 (Some 5) [(sample_index 0, [7])] \<and>
    generate_ladder_proof sample_crypto sample_codec T 5 [1] [0, 1] = Inr (pf, [(0, Some [7]), (1, None)]) \<and>
    compute_root_from_result pad32 pf 0 (sample_index 0) (Some [7]) 0 =
      Inr (map_root pad32 [(sample_index 0, [7])], psr_depth (pp_results pf ! 0))"
proof -
  obtain st cache where st: "rep_by (stored sample_codec st) pad32 (Some 5) [(sample_index 0, [7])]"
    "cache_agrees sample_codec st cache"
    using one_key_tree [of "sample_index 0" "[7]"] by (metis length_sample_index)
  define T where "T = sample_tree st\<lparr>tr_node_cache := cache\<rparr>"
  have T: "tr_store T = st" "tr_node_cache T = cache" "tr_config T = sample_private_config"
    by (simp_all add: T_def sample_tree_def)
  have vrf: "\<forall>v\<in>set [0, 1]. \<exists>pf. config_vrf_prove sample_crypto (tr_config T) [1] v = Inr (sample_index v, pf) \<and>
      length (sample_index v) = 32"
    using sample_vrf by (simp add: T)
  have "nat_to_be 4 0 \<noteq> nat_to_be 4 (Suc 0)"
  proof
    assume "nat_to_be 4 0 = nat_to_be 4 (Suc 0)"
    then have "be_to_nat (nat_to_be 4 0) = be_to_nat (nat_to_be 4 (Suc 0))" by (rule arg_cong)
    then show False by simp
  qed
  then have "sample_index 0 \<noteq> sample_index 1"
    by (simp add: sample_index_def pad32_def to_be_bytes_u32_def)
  then show ?thesis
    using ladder_proof_accepted [of sample_codec T sample_crypto 5 _ "[0, 1]" "[1]" sample_index, OF _ _ vrf] st
    by (intro exI [of _ T]) (fastforce simp: T sample_crypto_def offset_of_def)
qed

lemma lookup_agrees:
  assumes "keys_ok kvs" and "length key = 32" and "\<And>x. length (sha x) = 32"
    and "compute_root_from_result sha pf j key commitment offset = Inr (map_root sha kvs, consumed)"
  shows "(if psr_result_type (pp_results pf ! j) = 1
      then commitment \<noteq> None \<and> map_of kvs key = commitment else map_of kvs key = None) \<or>
    broken_at sha (lookup_inputs sha pf j key commitment offset) (tree_inputs sha kvs key)"
proof -
  let ?depth = "psr_depth (pp_results pf ! j)"
  let ?elements = "take ?depth (drop offset (pp_elements pf))"
  have path: "fold_path sha key ?elements ?depth n start = climb_value sha key ?elements ?depth n start 0" for n start
    by (simp add: fold_path_def climb_value_def)
  show ?thesis
  proof (cases "psr_result_type (pp_results pf ! j) = 1")
    case True
    then obtain c where c: "commitment = Some c"
      "climb_value sha key ?elements ?depth 256 (leaf_hash sha key c) 0 = map_root sha kvs"
      using assms(4) path
      by (auto simp: compute_root_from_result_def start_of_result_def INDEX_LENGTH_def Let_def res_simps
          split: if_splits option.splits)
    then show ?thesis
      using present_climb [OF c(2) assms(1-3)] True by (auto simp: lookup_inputs_def Let_def)
  next
    case False
    then have "climb_value sha key ?elements ?depth ?depth ZERO_VALUE 0 = map_root sha kvs" "?depth \<le> 256"
      using assms(4) path
      by (auto simp: compute_root_from_result_def start_of_result_def INDEX_LENGTH_def Let_def res_simps
          split: if_splits option.splits)
    then show ?thesis
      using absent_climb [OF _ _ assms(1-3)] False by (auto simp: lookup_inputs_def Let_def)
  qed
qed

text \<open>C3. No accepted proof misstates the map. When a result computes the root of a map, then
  either it is an inclusion of the commitment the map has for the key, or it is a non-inclusion
  and the map has none, or the digest is broken at a place that can be pointed at: a collision
  between the client's and the tree's input of one level, or a preimage of the zero value among
  those inputs.\<close>

theorem lookup_sound:
  assumes "keys_ok kvs" and "length key = 32" and "\<And>x. length (sha x) = 32"
    and "compute_root_from_result sha pf j key commitment offset = Inr (map_root sha kvs, consumed)"
  shows "(if psr_result_type (pp_results pf ! j) = 1
      then commitment \<noteq> None \<and> map_of kvs key = commitment else map_of kvs key = None) \<or>
    broken_at sha (lookup_inputs sha pf j key commitment offset) (tree_inputs sha kvs key)"
  using lookup_agrees [OF assms] .

theorem lookup_sound_witness:
  "compute_root_from_result pad32 \<lparr>pp_results = [\<lparr>psr_result_type = 1, psr_leaf = None, psr_depth = 0\<rparr>],
      pp_elements = []\<rparr> 0 (sample_index 0) (Some [7]) 0 = Inr (map_root pad32 [(sample_index 0, [7])], 0) \<and>
    (map_of [(sample_index 0, [7])] (sample_index 0) = Some [7] \<or>
     broken_at pad32 (lookup_inputs pad32 \<lparr>pp_results = [\<lparr>psr_result_type = 1, psr_leaf = None, psr_depth = 0\<rparr>],
         pp_elements = []\<rparr> 0 (sample_index 0) (Some [7]) 0)
       (tree_inputs pad32 [(sample_index 0, [7])] (sample_index 0)))"
proof -
  let ?kvs = "[(sample_index 0, [7])]"
  have keys: "keys_ok ?kvs" by (simp add: length_sample_index)
  have "\<not> occupied ?kvs (sibling_path (sample_index 0) k)" if "k < 256" for k
    using that sibling_path_neq [of k "sample_index 0"] by (simp add: occupied_def)
  then have "fold_path pad32 (sample_index 0) [] 0 256 (leaf_hash pad32 (sample_index 0) [7]) = map_root pad32 ?kvs"
    using fold_path_copath [of _ pad32 ?kvs "sample_index 0" "[]" 256]
      leaf_subtree_hash [OF keys length_sample_index, of 0 "[7]" pad32] occupied_key [of ?kvs "sample_index 0" "[7]"]
    by (simp add: copath_for_def)
  then have root: "compute_root_from_result pad32 \<lparr>pp_results = [\<lparr>psr_result_type = 1, psr_leaf = None, psr_depth = 0\<rparr>],
      pp_elements = []\<rparr> 0 (sample_index 0) (Some [7]) 0 = Inr (map_root pad32 ?kvs, 0)"
    by (simp add: compute_root_from_result_def start_of_result_def res_simps INDEX_LENGTH_def)
  then show ?thesis
    using lookup_sound [OF keys length_sample_index _ root] by simp
qed

end
