(* ===== verification/Traversal.thy ===== *)
theory Traversal
  imports Server
begin

text \<open>
  The traversals of the log's search tree that answer a request, \<^verbatim>\<open>src/src/tree/traversal.rs\<close>:
  update verification, fixed-version and greatest-version search, contact and owner
  monitoring, owner initialisation and the walk over distinguished entries. A loop that
  walks down the tree recurses on the level of its node.
\<close>

record search_result_data =
  srd_combined_proof :: combined_tree_proof
  srd_binary_ladder :: "binary_ladder_step list"
  srd_value :: "bytes option"
  srd_opening :: bytes
  srd_greatest_version :: version

definition finish_search :: "version \<Rightarrow> finalized_proof \<Rightarrow> search_result_data" where
  "finish_search ver f = (case f of (pf, bl, val, op) \<Rightarrow>
     \<lparr>srd_combined_proof = pf, srd_binary_ladder = bl, srd_value = val, srd_opening = op,
      srd_greatest_version = ver\<rparr>)"

section \<open>Update verification\<close>

definition traverse_update_verification :: "crypto \<Rightarrow> codec \<Rightarrow> tree \<Rightarrow> u64 \<Rightarrow> u64 \<Rightarrow> bytes \<Rightarrow>
    version \<Rightarrow> u64 \<Rightarrow> combined_tree_proof res" where
  "traverse_update_verification C D T current_tree_size insertion_log_index label new_version consistency_last =
     (let prev_frontier = get_frontier insertion_log_index;
          target_ver_frontier = (if new_version > 0 then new_version - 1 else 0);
          versions = base_binary_ladder target_ver_frontier;
          versions_new = base_binary_ladder new_version;
          versions_new = (if new_version \<in> set versions_new then versions_new
                          else versions_new @ [new_version])
      in and_then (fold_res (\<lambda>node. visit C D T node versions None) prev_frontier (session_new label)) (\<lambda>s.
         and_then (visit C D T insertion_log_index versions_new None s) (\<lambda>s.
         and_then (finalize C T current_tree_size consistency_last s) (\<lambda>(pf, _). Inr pf))))"

section \<open>Fixed-version search\<close>

definition right_child_in :: "u64 \<Rightarrow> u64 \<Rightarrow> u64 option" where
  "right_child_in tree_size cur = (if is_leaf cur then None else ibst_right_child cur tree_size)"

lemma right_child_in_level: "right_child_in n cur = Some rc \<Longrightarrow> level rc < level cur"
  by (auto simp: right_child_in_def dest: ibst_right_child_level split: if_splits)

definition past_lifetime :: "u64 option \<Rightarrow> u64 \<Rightarrow> u64 \<Rightarrow> bool" where
  "past_lifetime max_life rightmost_ts ts =
     (case max_life of Some ml \<Rightarrow> saturating_sub rightmost_ts ts \<ge> ml | None \<Rightarrow> False)"

record fixed_walk =
  fw_session :: session
  fw_expired_on_path :: bool
  fw_encountered_expired :: bool
  fw_left_path :: "(u64 \<times> u64) list"
  fw_inspected :: "(u64 \<times> version option) list"

text \<open>The versions a node's ladder looks up; an absent label is one look-up of version 0.\<close>

definition ladder_at :: "version \<Rightarrow> version option \<Rightarrow> version list" where
  "ladder_at target n = (case n of Some n \<Rightarrow> search_binary_ladder target n [] [] | None \<Rightarrow> [0])"

text \<open>The loop of \<open>traverse_fixed_search\<close>: the flag is \<^verbatim>\<open>success\<close>.\<close>

function fixed_search_loop :: "crypto \<Rightarrow> codec \<Rightarrow> tree \<Rightarrow> u64 \<Rightarrow> history \<Rightarrow> u64 \<Rightarrow> u64 list \<Rightarrow> version \<Rightarrow>
    u64 \<Rightarrow> fixed_walk \<Rightarrow> (bool \<times> fixed_walk) res" where
  "fixed_search_loop C D T tree_size label_history rightmost_ts distinguished target_ver cur w =
     and_then (get_timestamp (tr_store T) cur) (\<lambda>ts.
     let expired = past_lifetime (pc_maximum_lifetime (tr_config T)) rightmost_ts;
         unexpired_dist = (\<lambda>node ts. node \<in> set distinguished \<and> \<not> expired ts) in
     if expired ts then
       and_then (visit_timestamp_only T cur (fw_session w)) (\<lambda>s.
       let w = w\<lparr>fw_session := s, fw_encountered_expired := True, fw_expired_on_path := True\<rparr> in
       (case right_child_in tree_size cur of
          Some rc \<Rightarrow> fixed_search_loop C D T tree_size label_history rightmost_ts distinguished target_ver rc
                       (w\<lparr>fw_left_path := fw_left_path w @ [(cur, ts)]\<rparr>)
        | None \<Rightarrow> Inr (False, w)))
     else
       and_then (get_max_version_at T label_history cur) (\<lambda>n.
       and_then (visit C D T cur (ladder_at target_ver n)
           (if n = Some target_ver then Some target_ver else None) (fw_session w)) (\<lambda>s.
       let w = w\<lparr>fw_session := s, fw_inspected := fw_inspected w @ [(cur, n)]\<rparr> in
       if (case n of None \<Rightarrow> True | Some n \<Rightarrow> n < target_ver) then
         (case right_child_in tree_size cur of
            Some rc \<Rightarrow> fixed_search_loop C D T tree_size label_history rightmost_ts distinguished target_ver rc
                         (w\<lparr>fw_left_path := fw_left_path w @ [(cur, ts)]\<rparr>)
          | None \<Rightarrow> Inr (False, w))
       else if (case n of None \<Rightarrow> False | Some n \<Rightarrow> n > target_ver) then
         (if is_leaf cur then Inr (False, w)
          else fixed_search_loop C D T tree_size label_history rightmost_ts distinguished target_ver
                 (left_child cur) w)
       else if \<not> fw_expired_on_path w \<or> unexpired_dist cur ts
           \<or> list_ex (\<lambda>(node, node_ts). unexpired_dist node node_ts) (fw_left_path w) then
         Inr (True, w)
       else Inl (Kt Expired))))"
  by pat_completeness auto

termination
  by (relation "measure (\<lambda>(C, D, T, n, h, r, d, t, cur, w). level cur)")
    (auto simp: left_child_level dest: right_child_in_level)

declare fixed_search_loop.simps [simp del]

fun unexpired_before :: "tree \<Rightarrow> u64 \<Rightarrow> u64 \<Rightarrow> u64 list \<Rightarrow> bool res" where
  "unexpired_before T rightmost_ts identified [] = Inr False"
| "unexpired_before T rightmost_ts identified (d # ds) =
     (if d \<ge> identified then Inr False
      else and_then (get_timestamp (tr_store T) d) (\<lambda>ts.
        if \<not> past_lifetime (pc_maximum_lifetime (tr_config T)) rightmost_ts ts then Inr True
        else unexpired_before T rightmost_ts identified ds))"

definition min_u64 :: "u64 list \<Rightarrow> u64 option" where
  "min_u64 xs = (case xs of [] \<Rightarrow> None | x # xs \<Rightarrow> Some (fold min xs x))"

definition traverse_fixed_search :: "crypto \<Rightarrow> codec \<Rightarrow> tree \<Rightarrow> u64 \<Rightarrow> bytes \<Rightarrow> version \<Rightarrow> u64 \<Rightarrow>
    search_result_data res" where
  "traverse_fixed_search C D T tree_size label target_ver consistency_last =
     (let label_history = get_label_history (tr_store T) label in
      and_then (get_timestamp (tr_store T) (tree_size - 1)) (\<lambda>rightmost_ts.
      and_then (find_distinguished_nodes T tree_size) (\<lambda>distinguished.
      and_then (visit_frontier T tree_size (session_new label)) (\<lambda>s.
      and_then (fixed_search_loop C D T tree_size label_history rightmost_ts distinguished target_ver
          (root tree_size) \<lparr>fw_session = s, fw_expired_on_path = False, fw_encountered_expired = False,
            fw_left_path = [], fw_inspected = []\<rparr>) (\<lambda>(success, w).
      and_then
        (if success then Inr (fw_session w)
         else
           and_then (ok_or (min_u64 (map fst (filter
               (\<lambda>(_, n). case n of Some n \<Rightarrow> n > target_ver | None \<Rightarrow> False) (fw_inspected w))))
             (Kt Unavailable)) (\<lambda>identified.
           and_then
             (if fw_encountered_expired w then
                and_then (unexpired_before T rightmost_ts identified distinguished) (\<lambda>found.
                  if found then Inr () else Inl (Kt Expired))
              else Inr ()) (\<lambda>_.
           and_then (visit C D T identified [target_ver] (Some target_ver) (fw_session w)) (\<lambda>s.
             if ses_found_value s = None then Inl (Kt Unavailable) else Inr s)))) (\<lambda>s.
      and_then (finalize C T tree_size consistency_last s) (\<lambda>f.
        Inr (finish_search target_ver f))))))))"

section \<open>Greatest-version search\<close>

definition traverse_greatest_search :: "crypto \<Rightarrow> codec \<Rightarrow> tree \<Rightarrow> u64 \<Rightarrow> bytes \<Rightarrow> u64 \<Rightarrow>
    search_result_data res" where
  "traverse_greatest_search C D T tree_size label consistency_last =
     (let label_history = get_label_history (tr_store T) label; frontier = get_frontier tree_size in
      and_then (visit_frontier T tree_size (session_new label)) (\<lambda>s.
      if frontier = [] then Inl (Panic ''called `Option::unwrap()` on a `None` value'')
      else
        let rightmost = last frontier in
        and_then (get_max_version_at T label_history rightmost) (\<lambda>max_ver.
        and_then (ok_or max_ver (Kt Unavailable)) (\<lambda>target.
        and_then (fold_res (\<lambda>node s.
            and_then (get_max_version_at T label_history node) (\<lambda>n.
            visit C D T node (ladder_at target n)
              (if node = rightmost then Some target else None) s)) frontier s) (\<lambda>s.
        and_then (finalize C T tree_size consistency_last s) (\<lambda>f.
          Inr (finish_search target f)))))))"

section \<open>Contact monitoring\<close>

text \<open>
  The descent to an entry, with what it has established: bounds, whether every ancestor so far
  is distinguished, and which are. The descent steps to a child at every turn except at a
  leaf right of the entry, where it stays, so it is in a cycle when the fuel runs out: the
  tree has 65 levels, and at a leaf the bounds change once.
\<close>

record contact_walk =
  cw_session :: session
  cw_left :: u64
  cw_right :: u64
  cw_parent_dist :: bool
  cw_ancestor_dist :: "u64 \<rightharpoonup> bool"
  cw_curr :: u64

fun contact_descent :: "nat \<Rightarrow> tree \<Rightarrow> u64 \<Rightarrow> u64 \<Rightarrow> u64 \<Rightarrow> contact_walk \<Rightarrow> contact_walk res" where
  "contact_descent 0 T tree_size rmw pos w = Inl Hang"
| "contact_descent (Suc fuel) T tree_size rmw pos w =
     (let cur = cw_curr w in
      if cur = pos then Inr w
      else
        and_then (visit_timestamp_only T cur (cw_session w)) (\<lambda>s.
        and_then (get_timestamp (tr_store T) cur) (\<lambda>ts.
        let dist = (cw_parent_dist w \<and> saturating_sub (cw_right w) (cw_left w) \<ge> rmw);
            w = w\<lparr>cw_session := s, cw_ancestor_dist := (cw_ancestor_dist w)(cur \<mapsto> dist)\<rparr> in
        if \<not> dist then Inr (w\<lparr>cw_parent_dist := False\<rparr>)
        else if pos < cur then
          contact_descent fuel T tree_size rmw pos (w\<lparr>cw_right := ts, cw_curr := left_child cur\<rparr>)
        else
          (case ibst_right_child cur tree_size of
             Some rc \<Rightarrow> contact_descent fuel T tree_size rmw pos (w\<lparr>cw_left := ts, cw_curr := rc\<rparr>)
           | None \<Rightarrow> Inr (w\<lparr>cw_left := ts\<rparr>)))))"

definition CONTACT_FUEL :: nat where "CONTACT_FUEL = 70"

text \<open>Step 3 for one map entry: ladders up its ancestors until one has been visited.\<close>

fun visit_ancestors :: "crypto \<Rightarrow> codec \<Rightarrow> tree \<Rightarrow> version \<Rightarrow> u64 list \<Rightarrow> session \<times> (u64 \<rightharpoonup> version) \<Rightarrow>
    (session \<times> (u64 \<rightharpoonup> version)) res" where
  "visit_ancestors C D T ver [] (s, ladder_targets) = Inr (s, ladder_targets)"
| "visit_ancestors C D T ver (e # es) (s, ladder_targets) =
     (if ladder_targets e \<noteq> None then Inr (s, ladder_targets)
      else and_then (visit C D T e (monitoring_binary_ladder ver []) None s) (\<lambda>s.
        visit_ancestors C D T ver es (s, ladder_targets(e \<mapsto> ver))))"

definition ancestors_to_visit :: "u64 \<Rightarrow> u64 \<Rightarrow> (u64 \<rightharpoonup> bool) \<Rightarrow> u64 list" where
  "ancestors_to_visit pos tree_size ancestor_dist =
     (let lst = sort (filter (\<lambda>a. a > pos) (ibst_direct_path pos tree_size)) in
      case position (\<lambda>a. ancestor_dist a = Some True) lst of
        Some i \<Rightarrow> take (i + 1) lst
      | None \<Rightarrow> lst)"

definition visit_contact_entry :: "crypto \<Rightarrow> codec \<Rightarrow> tree \<Rightarrow> u64 \<Rightarrow> u64 \<Rightarrow> monitor_map_entry \<Rightarrow>
    session \<times> (u64 \<rightharpoonup> version) \<Rightarrow> (session \<times> (u64 \<rightharpoonup> version)) res" where
  "visit_contact_entry C D T tree_size rightmost_ts entry st =
     (case st of (s, ladder_targets) \<Rightarrow>
      let pos = mme_position entry;
          rmw = pc_reasonable_monitoring_window (tr_config T) in
      and_then (contact_descent CONTACT_FUEL T tree_size rmw pos
          \<lparr>cw_session = s, cw_left = 0, cw_right = rightmost_ts, cw_parent_dist = True,
           cw_ancestor_dist = Map.empty, cw_curr = root tree_size\<rparr>) (\<lambda>w.
      let pos_dist = (cw_parent_dist w \<and> cw_curr w = pos \<and>
            saturating_sub (cw_right w) (cw_left w) \<ge> rmw) in
      if pos_dist then Inr (cw_session w, ladder_targets)
      else visit_ancestors C D T (mme_version entry)
             (ancestors_to_visit pos tree_size (cw_ancestor_dist w)) (cw_session w, ladder_targets)))"

definition visit_contact_entries :: "crypto \<Rightarrow> codec \<Rightarrow> tree \<Rightarrow> monitor_map_entry list \<Rightarrow> u64 \<Rightarrow> session \<Rightarrow>
    session res" where
  "visit_contact_entries C D T entries tree_size s =
     and_then (get_timestamp (tr_store T) (tree_size - 1)) (\<lambda>rightmost_ts.
     and_then (fold_res (visit_contact_entry C D T tree_size rightmost_ts) (rev entries) (s, Map.empty))
       (\<lambda>(s, _). Inr s))"

definition traverse_contact_monitoring :: "crypto \<Rightarrow> codec \<Rightarrow> tree \<Rightarrow> u64 \<Rightarrow> bytes \<Rightarrow>
    monitor_map_entry list \<Rightarrow> u64 \<Rightarrow> combined_tree_proof res" where
  "traverse_contact_monitoring C D T tree_size label entries last_size =
     and_then (visit_frontier T tree_size (session_new label)) (\<lambda>s.
     and_then (visit_contact_entries C D T entries tree_size s) (\<lambda>s.
     and_then (finalize C T tree_size last_size s) (\<lambda>(pf, _). Inr pf)))"

section \<open>Owner initialisation\<close>

text \<open>The loop over the list, with the versions seen so far, the last one at the end.\<close>

fun owner_init_loop :: "crypto \<Rightarrow> codec \<Rightarrow> tree \<Rightarrow> history \<Rightarrow> u64 \<Rightarrow> u64 list \<Rightarrow>
    session \<times> version option list \<Rightarrow> (session \<times> version option list) res" where
  "owner_init_loop C D T history rightmost_ts [] st = Inr st"
| "owner_init_loop C D T history rightmost_ts (node # nodes) (s, versions) =
     and_then (get_timestamp (tr_store T) node) (\<lambda>ts.
     if past_lifetime (pc_maximum_lifetime (tr_config T)) rightmost_ts ts then Inr (s, versions)
     else
       and_then (get_max_version_at T history node) (\<lambda>ver.
       if (case (if versions = [] then None else last versions, ver) of
             (Some prev, Some v) \<Rightarrow> v > prev | _ \<Rightarrow> False)
       then Inl (Anyhow ''Owner-init greatest versions are not monotonic'')
       else
         and_then (visit C D T node (case ver of Some t \<Rightarrow> ladder_at t ver | None \<Rightarrow> [0]) None s) (\<lambda>s.
           owner_init_loop C D T history rightmost_ts nodes (s, versions @ [ver]))))"

definition traverse_owner_init :: "crypto \<Rightarrow> codec \<Rightarrow> tree \<Rightarrow> u64 \<Rightarrow> bytes \<Rightarrow> u64 \<Rightarrow> u64 \<Rightarrow>
    (combined_tree_proof \<times> binary_ladder_step list \<times> version list) res" where
  "traverse_owner_init C D T tree_size label start last_size =
     (let history = get_label_history (tr_store T) label in
      and_then (get_timestamp (tr_store T) (tree_size - 1)) (\<lambda>rightmost_ts.
      and_then (visit_frontier T tree_size (session_new label)) (\<lambda>s.
      and_then (owner_init_loop C D T history rightmost_ts (owner_init_list start tree_size) (s, []))
        (\<lambda>(s, versions).
      and_then (finalize C T tree_size last_size s) (\<lambda>(pf, bl, _, _).
        Inr (pf, bl, concat (map (\<lambda>v. case v of Some v \<Rightarrow> [v] | None \<Rightarrow> []) versions)))))))"

section \<open>Distinguished entries\<close>

definition stack_size :: "u64 list \<Rightarrow> nat" where
  "stack_size xs = sum_list (map (\<lambda>x. 3 ^ level x) xs)"

lemma stack_size_simps [simp]: "stack_size [] = 0" "stack_size (x # xs) = 3 ^ level x + stack_size xs"
  by (simp_all add: stack_size_def)

lemma push_size: "level x < level cur \<Longrightarrow> 3 * 3 ^ level x \<le> (3 :: nat) ^ level cur"
  using power_increasing [of "Suc (level x)" "level cur" "3 :: nat"] by simp

text \<open>The right-first walk with its stack, the top first.\<close>

function distinguished_loop :: "tree \<Rightarrow> u64 \<Rightarrow> u64 set \<Rightarrow> u64 set \<Rightarrow> u64 option \<Rightarrow> u64 list \<Rightarrow> session \<Rightarrow>
    session res" where
  "distinguished_loop T tree_size dset recent stop [] s = Inr s"
| "distinguished_loop T tree_size dset recent stop (cur # stack) s =
     (if cur \<notin> dset then distinguished_loop T tree_size dset recent stop stack s
      else
        and_then (visit_timestamp_only T cur s) (\<lambda>s.
        let stack = (if \<not> is_leaf cur \<and> (case stop of None \<Rightarrow> True | Some x \<Rightarrow> cur > x) \<and> cur \<in> recent
              then left_child cur # stack else stack);
            stack = (case right_child_in tree_size cur of Some rc \<Rightarrow> rc # stack | None \<Rightarrow> stack) in
        distinguished_loop T tree_size dset recent stop stack s))"
  by pat_completeness auto

termination
proof (relation "measures [\<lambda>(T, n, d, r, stop, stack, s). stack_size stack, \<lambda>(T, n, d, r, stop, stack, s). length stack]",
    goal_cases)
  case (3 T tree_size dset recent stop cur stack s x xa xb)
  have pos: "(0 :: nat) < 3 ^ level cur" by simp
  have xa: "stack_size xa \<le> stack_size stack + (if is_leaf cur then 0 else 3 ^ level (left_child cur))"
    using 3 by auto
  have "3 * (if is_leaf cur then 0 else 3 ^ level (left_child cur)) \<le> (3 :: nat) ^ level cur"
    using push_size left_child_level by simp
  then have left: "3 * stack_size xa \<le> 3 * stack_size stack + 3 ^ level cur" using xa by linarith
  have "stack_size xb < 3 ^ level cur + stack_size stack"
  proof (cases "right_child_in tree_size cur")
    case None
    then have "stack_size xb = stack_size xa" using 3(4) by simp
    then show ?thesis using left pos by linarith
  next
    case (Some rc)
    then have "stack_size xb = 3 ^ level rc + stack_size xa" using 3(4) by simp
    moreover have "3 * 3 ^ level rc \<le> (3 :: nat) ^ level cur"
      using Some by (intro push_size right_child_in_level)
    ultimately show ?thesis using left pos by linarith
  qed
  then show ?case by simp
qed auto

definition traverse_distinguished :: "crypto \<Rightarrow> tree \<Rightarrow> u64 \<Rightarrow> u64 option \<Rightarrow> u64 \<Rightarrow> combined_tree_proof res" where
  "traverse_distinguished C T tree_size stop last_size =
     and_then (visit_frontier T tree_size (session_new [])) (\<lambda>s.
     and_then (find_distinguished_nodes T tree_size) (\<lambda>distinguished.
     let recent = set (take (pc_max_response_entries (tr_config T)) (rev distinguished)) in
     and_then (distinguished_loop T tree_size (set distinguished) recent stop [root tree_size] s) (\<lambda>s.
     and_then (finalize C T tree_size last_size s) (\<lambda>(pf, _). Inr pf))))"

section \<open>Owner monitoring\<close>

text \<open>The actions of the walk, in order: a timestamp, or a ladder for a version.\<close>

function owner_walk_actions :: "tree \<Rightarrow> history \<Rightarrow> u64 \<Rightarrow> u64 \<Rightarrow> u64 \<Rightarrow> u64 \<Rightarrow> u64 \<Rightarrow> u64 \<Rightarrow>
    (u64 \<times> version option) list res" where
  "owner_walk_actions T history node left_ts right_ts start tree_size rmw =
     (if saturating_sub right_ts left_ts < rmw then Inr []
      else
        and_then (get_timestamp (tr_store T) node) (\<lambda>node_ts.
        if node \<le> start then
          and_then
            (case right_child_in tree_size node of
               Some rc \<Rightarrow> owner_walk_actions T history rc node_ts right_ts start tree_size rmw
             | None \<Rightarrow> Inr []) (\<lambda>right.
          Inr ((node, None) # right))
        else
          and_then
            (if is_leaf node then Inr []
             else owner_walk_actions T history (left_child node) left_ts node_ts start tree_size rmw) (\<lambda>left.
          and_then (get_max_version_at T history node) (\<lambda>ver.
          and_then
            (case right_child_in tree_size node of
               Some rc \<Rightarrow> owner_walk_actions T history rc node_ts right_ts start tree_size rmw
             | None \<Rightarrow> Inr []) (\<lambda>right.
          Inr ((node, None) # left @ (node, Some (case ver of Some v \<Rightarrow> v | None \<Rightarrow> 0)) # right))))))"
  by pat_completeness auto

termination
  by (relation "measure (\<lambda>(T, h, node, _). level node)")
    (auto simp: left_child_level dest: right_child_in_level)

declare owner_walk_actions.simps [simp del]

definition run_owner_action :: "crypto \<Rightarrow> codec \<Rightarrow> tree \<Rightarrow> history \<Rightarrow> u64 \<times> version option \<Rightarrow> session \<Rightarrow>
    session res" where
  "run_owner_action C D T history action s =
     (case action of
        (node, None) \<Rightarrow> visit_timestamp_only T node s
      | (node, Some _) \<Rightarrow>
          and_then (get_max_version_at T history node) (\<lambda>ver.
          visit C D T node (case ver of Some t \<Rightarrow> ladder_at t ver | None \<Rightarrow> [0]) None s))"

definition traverse_owner_monitor :: "crypto \<Rightarrow> codec \<Rightarrow> tree \<Rightarrow> u64 \<Rightarrow> bytes \<Rightarrow> monitor_map_entry list \<Rightarrow>
    u64 \<Rightarrow> u64 \<Rightarrow> (combined_tree_proof \<times> binary_ladder_step list) res" where
  "traverse_owner_monitor C D T tree_size label entries start last_size =
     (let history = get_label_history (tr_store T) label;
          rmw = pc_reasonable_monitoring_window (tr_config T) in
      and_then (get_timestamp (tr_store T) (tree_size - 1)) (\<lambda>rightmost_ts.
      and_then (visit_frontier T tree_size (session_new label)) (\<lambda>s.
      and_then (visit_contact_entries C D T entries tree_size s) (\<lambda>s.
      and_then (owner_walk_actions T history (root tree_size) 0 rightmost_ts start tree_size rmw) (\<lambda>actions.
      and_then (fold_res (run_owner_action C D T history) actions s) (\<lambda>s.
      and_then (finalize C T tree_size last_size s) (\<lambda>(pf, bl, _). Inr (pf, bl))))))))"

end
