(* ===== verification/Handlers.thy ===== *)
theory Handlers
  imports Traversal
begin

text \<open>
  The read-only request handlers and the operations on auditor heads and user data:
  \<^verbatim>\<open>search\<close> of \<^verbatim>\<open>src/src/tree/read.rs\<close>, \<^verbatim>\<open>monitor.rs\<close>, \<^verbatim>\<open>audit.rs\<close>, \<^verbatim>\<open>credential.rs\<close> and
  \<^verbatim>\<open>prune.rs\<close>. An operation that changes the state returns the tree it leaves, also when it
  fails, with its result.
\<close>

definition or_zero :: "u64 option \<Rightarrow> u64" where
  "or_zero x = (case x of Some v \<Rightarrow> v | None \<Rightarrow> 0)"

definition last_seen :: "u64 option \<Rightarrow> consistency_req option" where
  "last_seen l = Some \<lparr>cr_last = l, cr_distinguished = None\<rparr>"

section \<open>Search\<close>

definition empty_proof :: combined_tree_proof where
  "empty_proof = \<lparr>ctp_timestamps = [], ctp_prefix_proofs = [], ctp_prefix_roots = [], ctp_inclusion = None\<rparr>"

definition search :: "crypto \<Rightarrow> codec \<Rightarrow> tree \<Rightarrow> search_request \<Rightarrow> search_response res" where
  "search C D T req =
     (let tree_size = latest_size T in
      if tree_size = 0 then
        Inr \<lparr>sr_full_tree_head = Some (get_full_tree_head T None), sr_version = None, sr_opening = [],
          sr_value = None, sr_binary_ladder = [], sr_search = Some empty_proof\<rparr>
      else
        and_then
          (case sreq_version req of
             Some target_ver \<Rightarrow> traverse_fixed_search C D T tree_size (sreq_label req) target_ver (or_zero (sreq_last req))
           | None \<Rightarrow> traverse_greatest_search C D T tree_size (sreq_label req) (or_zero (sreq_last req))) (\<lambda>r.
        Inr \<lparr>sr_full_tree_head = Some (get_full_tree_head T (last_seen (sreq_last req))),
          sr_version = (if sreq_version req = None then Some (srd_greatest_version r) else None),
          sr_opening = srd_opening r, sr_value = srd_value r, sr_binary_ladder = srd_binary_ladder r,
          sr_search = Some (srd_combined_proof r)\<rparr>))"

section \<open>Monitoring\<close>

definition monitored_tree_size :: "tree \<Rightarrow> u64 res" where
  "monitored_tree_size T =
     (if latest_size T = 0 then Inl (Kt (InvalidArgument ''Cannot monitor an empty tree''))
      else Inr (latest_size T))"

fun validate_loop :: "u64 \<Rightarrow> u64 option \<Rightarrow> monitor_map_entry list \<Rightarrow> unit res" where
  "validate_loop tree_size prev [] = Inr ()"
| "validate_loop tree_size prev (entry # entries) =
     (if mme_position entry \<ge> tree_size then
        Inl (Kt (InvalidArgument ''Entry position outside tree''))
      else if (case prev of Some p \<Rightarrow> mme_position entry \<le> p | None \<Rightarrow> False) then
        Inl (Kt (InvalidArgument ''Entries must be sorted ascending by position without duplicates''))
      else validate_loop tree_size (Some (mme_position entry)) entries)"

definition validate_monitor_entries :: "monitor_map_entry list \<Rightarrow> u64 \<Rightarrow> unit res" where
  "validate_monitor_entries entries tree_size = validate_loop tree_size None entries"

definition contact_monitor :: "crypto \<Rightarrow> codec \<Rightarrow> tree \<Rightarrow> contact_monitor_request \<Rightarrow> contact_monitor_response res" where
  "contact_monitor C D T req =
     and_then (monitored_tree_size T) (\<lambda>tree_size.
     and_then (validate_monitor_entries (cmreq_entries req) tree_size) (\<lambda>_.
     and_then (traverse_contact_monitoring C D T tree_size (cmreq_label req) (cmreq_entries req)
         (or_zero (cmreq_last req))) (\<lambda>pf.
     Inr \<lparr>cmr_full_tree_head = Some (get_full_tree_head T (last_seen (cmreq_last req))),
       cmr_monitor = Some pf\<rparr>)))"

definition owner_init :: "crypto \<Rightarrow> codec \<Rightarrow> tree \<Rightarrow> owner_init_request \<Rightarrow> owner_init_response res" where
  "owner_init C D T req =
     and_then (monitored_tree_size T) (\<lambda>tree_size.
     if oireq_start req \<ge> tree_size then Inl (Kt (InvalidArgument ''Start position outside tree''))
     else
       and_then (traverse_owner_init C D T tree_size (oireq_label req) (oireq_start req)
           (or_zero (oireq_last req))) (\<lambda>(pf, bl, greatest_versions).
       Inr \<lparr>oir_full_tree_head = Some (get_full_tree_head T (last_seen (oireq_last req))),
         oir_greatest_versions = greatest_versions, oir_binary_ladder = bl, oir_init = Some pf\<rparr>))"

definition distinguished :: "crypto \<Rightarrow> tree \<Rightarrow> distinguished_request \<Rightarrow> distinguished_response res" where
  "distinguished C T req =
     and_then (monitored_tree_size T) (\<lambda>tree_size.
     if (case dreq_stop req of Some stop \<Rightarrow> stop \<ge> tree_size | None \<Rightarrow> False) then
       Inl (Kt (InvalidArgument ''Stop position outside tree''))
     else
       and_then (traverse_distinguished C T tree_size (dreq_stop req) (or_zero (dreq_last req))) (\<lambda>pf.
       Inr \<lparr>dr_full_tree_head = Some (get_full_tree_head T (last_seen (dreq_last req))),
         dr_distinguished = Some pf\<rparr>))"

definition owner_monitor :: "crypto \<Rightarrow> codec \<Rightarrow> tree \<Rightarrow> owner_monitor_request \<Rightarrow> owner_monitor_response res" where
  "owner_monitor C D T req =
     and_then (monitored_tree_size T) (\<lambda>tree_size.
     and_then (validate_monitor_entries (omreq_entries req) tree_size) (\<lambda>_.
     if omreq_start req \<ge> tree_size then Inl (Kt (InvalidArgument ''Start position outside tree''))
     else
       let history = get_label_history (tr_store T) (omreq_label req);
           actual = (if history = [] then None else Some (fst (last history))) in
       if (case omreq_greatest_version req of
             Some claimed \<Rightarrow> (case actual of None \<Rightarrow> True | Some a \<Rightarrow> claimed > a)
           | None \<Rightarrow> False) then
         Inl (Kt (InvalidArgument ''greatest_version exceeds the label's actual greatest version''))
       else
         and_then (traverse_owner_monitor C D T tree_size (omreq_label req) (omreq_entries req)
             (omreq_start req) (or_zero (omreq_last req))) (\<lambda>(pf, bl).
         Inr \<lparr>omr_full_tree_head = Some (get_full_tree_head T (last_seen (omreq_last req))),
           omr_monitor = Some pf, omr_binary_ladder = bl\<rparr>)))"

section \<open>Auditing\<close>

text \<open>The sum of start and limit wraps; a range that ends before it starts is empty.\<close>

definition u64_range :: "u64 \<Rightarrow> u64 \<Rightarrow> u64 list" where
  "u64_range start stop = map word_of_nat [unat start..<unat stop]"

definition audit :: "codec \<Rightarrow> tree \<Rightarrow> u64 \<Rightarrow> u64 \<Rightarrow> (auditor_update list \<times> bool) res" where
  "audit D T start limit =
     (let current_size = latest_size T in
      if start > current_size then Inl (Anyhow ''Auditing cannot start past end of tree'')
      else if start = current_size then Inr ([], False)
      else
        let stop = start + limit; stop = (if stop > current_size then current_size else stop) in
        and_then (map_res (\<lambda>i.
            and_then (ok_or (get_audit_blob (tr_store T) i) (Anyhow ''Missing audit blob''))
              (\<lambda>blob. ok_or (dec_auditor_update D blob) (Anyhow ''failed to decode Protobuf message'')))
            (u64_range start stop)) (\<lambda>updates.
        Inr (updates, stop < current_size)))"

text \<open>The first key that verifies the signature; a panic of the verification is not caught.\<close>

fun match_auditor :: "crypto \<Rightarrow> private_config \<Rightarrow> auditor_tree_head \<Rightarrow> bytes \<Rightarrow>
    (bytes \<times> service_verifying_key) list \<Rightarrow> bytes option res" where
  "match_auditor C config head root_hash [] = Inr None"
| "match_auditor C config head root_hash ((pk, key) # keys) =
     and_then (construct_auditor_tree_head_tbs C config pk (ath_tree_size head) (as_u64 (ath_timestamp head))
         root_hash) (\<lambda>tbs.
     (case verify_data C key tbs (ath_signature head) of
        Inr _ \<Rightarrow> Inr (Some pk)
      | Inl (Panic p) \<Rightarrow> Inl (Panic p)
      | Inl _ \<Rightarrow> match_auditor C config head root_hash keys))"

definition auditor_regresses :: "stored_auditor_head option \<Rightarrow> auditor_tree_head \<Rightarrow> unit res" where
  "auditor_regresses existing head =
     (case existing of
        Some ex \<Rightarrow>
          if ath_tree_size head < sah_tree_size ex then Inl (Anyhow ''Auditor tree size regression'')
          else if sint (ath_timestamp head) < sint (sah_timestamp ex) then Inl (Anyhow ''Auditor timestamp regression'')
          else Inr ()
      | None \<Rightarrow> Inr ())"

text \<open>Insertion into the map of auditor heads, wherever the hash map then iterates the key.\<close>

fun insert_auditor :: "string \<Rightarrow> stored_auditor_head \<Rightarrow> (string \<times> stored_auditor_head) list \<Rightarrow>
    (string \<times> stored_auditor_head) list" where
  "insert_auditor k v [] = [(k, v)]"
| "insert_auditor k v ((k', v') # m) = (if k' = k then (k, v) # m else (k', v') # insert_auditor k v m)"

definition accept_auditor_head :: "crypto \<Rightarrow> codec \<Rightarrow> tree \<Rightarrow> auditor_tree_head \<Rightarrow>
    (bytes \<times> service_verifying_key) list \<Rightarrow> (string \<times> stored_auditor_head) res" where
  "accept_auditor_head C D T head auditor_keys =
     (let current_size = latest_size T in
      if ath_tree_size head > current_size then
        Inl (Anyhow ''Auditor tree head is ahead of service tree head'')
      else
        and_then (get_root (sha256 C) (tr_store T) (ath_tree_size head)) (\<lambda>root_hash.
        and_then (match_auditor C (tr_config T) head root_hash auditor_keys) (\<lambda>matched.
        and_then (ok_or matched (Anyhow ''Failed to verify auditor signature'')) (\<lambda>pk.
        let name = hex_encode D pk in
        and_then (auditor_regresses (map_of (tr_auditors T) name) head) (\<lambda>_.
        and_then
          (if ath_tree_size head < current_size
           then get_consistency_proof (sha256 C) (tr_store T) (ath_tree_size head) current_size
           else Inr []) (\<lambda>consistency.
        Inr (name, \<lparr>sah_tree_size = ath_tree_size head, sah_timestamp = ath_timestamp head,
          sah_signature = ath_signature head, sah_root_value = root_hash,
          sah_consistency = consistency\<rparr>)))))))"

definition set_auditor_head :: "crypto \<Rightarrow> codec \<Rightarrow> auditor_tree_head \<Rightarrow>
    (bytes \<times> service_verifying_key) list \<Rightarrow> tree \<Rightarrow> tree \<times> unit res" where
  "set_auditor_head C D head auditor_keys T =
     (case accept_auditor_head C D T head auditor_keys of
        Inl e \<Rightarrow> (T, Inl e)
      | Inr (name, ath) \<Rightarrow> (T\<lparr>tr_auditors := insert_auditor name ath (tr_auditors T)\<rparr>, Inr ()))"

section \<open>Credentials\<close>

definition get_credential_update :: "crypto \<Rightarrow> codec \<Rightarrow> tree \<Rightarrow> credential_update_request \<Rightarrow>
    credential_update res" where
  "get_credential_update C D T req =
     (let tree_size = latest_size T in
      if tree_size = 0 then Inl (Anyhow ''Log is empty'')
      else
        and_then (find_distinguished_nodes T tree_size) (\<lambda>distinguished.
        and_then (ok_or (find (\<lambda>d. d > crureq_terminal_position req) distinguished)
            (Anyhow ''No distinguished log entry to the right of the terminal entry yet'')) (\<lambda>pos.
        and_then (traverse_contact_monitoring C D T (pos + 1) (crureq_label req)
            [\<lparr>mme_position = crureq_terminal_position req, mme_version = crureq_terminal_version req\<rparr>] 0)
          (\<lambda>monitor. Inr \<lparr>cru_position = pos, cru_monitor = Some monitor\<rparr>))))"

fun find_standard :: "tree \<Rightarrow> u64 \<Rightarrow> u64 list \<Rightarrow> u64 option res" where
  "find_standard T target_ptr [] = Inr None"
| "find_standard T target_ptr (node # nodes) =
     and_then (get_prefix_ptr (tr_store T) node) (\<lambda>log_ptr.
       if log_ptr \<ge> target_ptr then Inr (Some node) else find_standard T target_ptr nodes)"

definition credential_step :: "crypto \<Rightarrow> tree \<Rightarrow> bytes \<Rightarrow> version \<Rightarrow> version \<times> bytes option \<Rightarrow>
    binary_ladder_step res" where
  "credential_step C T label target_ver vc =
     (case vc of (ver, comm) \<Rightarrow>
      and_then (config_vrf_prove C (tr_config T) label ver) (\<lambda>(_, vrf_proof).
      Inr \<lparr>bls_proof = vrf_proof, bls_commitment = (if ver = target_ver then None else comm)\<rparr>))"

definition get_credential :: "crypto \<Rightarrow> codec \<Rightarrow> tree \<Rightarrow> bytes \<Rightarrow> credential res" where
  "get_credential C D T label =
     (let tree_size = latest_size T; label_history = get_label_history (tr_store T) label in
      if tree_size = 0 then Inl (Anyhow ''Log is empty'')
      else if label_history = [] then Inl (Anyhow ''Key not found'')
      else
        let target_ver = fst (last label_history) in
        and_then (ok_or (find_version label_history target_ver)
            (Panic ''called `Option::unwrap()` on a `None` value'')) (\<lambda>target_ptr.
        and_then (find_distinguished_nodes T tree_size) (\<lambda>distinguished_nodes.
        and_then (find_standard T target_ptr (rev distinguished_nodes)) (\<lambda>standard_node.
        and_then (extract_value_and_opening T label_history target_ver) (\<lambda>(val, opening).
        (case standard_node of
           Some dist_node \<Rightarrow>
             and_then (get_max_version_at T label_history dist_node) (\<lambda>n_opt.
             and_then (ok_or n_opt (Anyhow ''Label absent at its own distinguished entry'')) (\<lambda>n.
             and_then (get_prefix_ptr (tr_store T) dist_node) (\<lambda>prefix_ptr.
             and_then (generate_ladder_proof C D T prefix_ptr label (search_binary_ladder target_ver n [] []))
               (\<lambda>(pf, ladder_results).
             and_then (map_res (credential_step C T label target_ver) ladder_results) (\<lambda>steps.
             Inr \<lparr>crd_label = label, crd_version = target_ver, crd_opening = opening,
               crd_value = Some val, crd_binary_ladder = steps, crd_position = dist_node,
               crd_credential_type = CREDENTIAL_TYPE_STANDARD, crd_distinguished = Some pf,
               crd_tree_head = None, crd_search = None\<rparr>)))))
         | None \<Rightarrow>
             if distinguished_nodes = [] then
               Inl (Anyhow ''No distinguished log entry to anchor a credential'')
             else
               let pos = last distinguished_nodes in
               and_then (traverse_greatest_search C D T tree_size label (pos + 1)) (\<lambda>r.
               Inr \<lparr>crd_label = label, crd_version = srd_greatest_version r,
                 crd_opening = srd_opening r, crd_value = srd_value r,
                 crd_binary_ladder = srd_binary_ladder r, crd_position = pos,
                 crd_credential_type = CREDENTIAL_TYPE_PROVISIONAL, crd_distinguished = None,
                 crd_tree_head = tr_latest T, crd_search = Some (srd_combined_proof r)\<rparr>)))))))"

section \<open>Finding the log entry of an insertion\<close>

lemma mid_bounds:
  fixes lo hi :: u64
  assumes "lo < hi"
  shows "unat (lo + (hi - lo) div 2) = unat lo + (unat hi - unat lo) div 2"
    and "unat (lo + (hi - lo) div 2 + 1) = unat lo + (unat hi - unat lo) div 2 + 1"
proof -
  have lt: "unat lo < unat hi" "unat hi < 2 ^ 64"
    using assms unsigned_less [of hi] by (simp_all add: word_less_nat_alt)
  have half: "unat ((hi - lo) div 2) = (unat hi - unat lo) div 2"
    using lt(1) by (simp add: unat_div unat_sub_if_size)
  have b: "unat lo + (unat hi - unat lo) div 2 < unat hi" using lt(1) by linarith
  then show 1: "unat (lo + (hi - lo) div 2) = unat lo + (unat hi - unat lo) div 2"
    using lt(2) unfolding unat_word_ariths(1) half by simp
  show "unat (lo + (hi - lo) div 2 + 1) = unat lo + (unat hi - unat lo) div 2 + 1"
    using b lt(2) by (subst unat_word_ariths) (simp add: 1)
qed

function find_entry_loop :: "tree \<Rightarrow> u64 \<Rightarrow> u64 \<Rightarrow> u64 \<Rightarrow> u64 res" where
  "find_entry_loop T pos lo hi =
     (if lo < hi then
        let mid = lo + (hi - lo) div 2 in
        and_then (get_prefix_ptr (tr_store T) mid) (\<lambda>ptr.
          if ptr \<ge> pos then find_entry_loop T pos lo mid
          else find_entry_loop T pos (mid + 1) hi)
      else Inr lo)"
  by pat_completeness auto

termination
proof (relation "measure (\<lambda>(T, pos, lo, hi). unat hi - unat lo)", goal_cases)
  case (2 T pos lo hi mid ptr)
  then show ?case using mid_bounds(1) [of lo hi] by (simp add: word_less_nat_alt, linarith?)
next
  case (3 T pos lo hi mid ptr)
  then show ?case using mid_bounds(2) [of lo hi] by (simp add: word_less_nat_alt, linarith?)
qed simp

declare find_entry_loop.simps [simp del]

definition find_log_entry_for_prefix_pos :: "tree \<Rightarrow> u64 \<Rightarrow> u64 \<Rightarrow> u64 res" where
  "find_log_entry_for_prefix_pos T pos tree_size = find_entry_loop T pos 0 (tree_size - 1)"

section \<open>Erasure and pruning\<close>

definition drop_user_data :: "u64 \<Rightarrow> tree \<Rightarrow> tree" where
  "drop_user_data pos T = T\<lparr>tr_store := delete_opening pos (delete_value pos (tr_store T))\<rparr>"

definition erase :: "bytes \<Rightarrow> version \<Rightarrow> tree \<Rightarrow> tree \<times> unit res" where
  "erase label ver T =
     (case find_version (get_label_history (tr_store T) label) ver of
        None \<Rightarrow> (T, Inl (Anyhow ''Unknown label version''))
      | Some pos \<Rightarrow> (drop_user_data pos T, Inr ()))"

fun prune_loop :: "u64 \<Rightarrow> u64 \<Rightarrow> u64 \<Rightarrow> version \<Rightarrow> history \<Rightarrow> u64 \<Rightarrow> tree \<Rightarrow> tree \<times> u64 res" where
  "prune_loop tree_size rightmost_ts max_life greatest [] pruned T = (T, Inr pruned)"
| "prune_loop tree_size rightmost_ts max_life greatest ((ver, pos) # history) pruned T =
     (if ver = greatest then prune_loop tree_size rightmost_ts max_life greatest history pruned T
      else
        case and_then (find_log_entry_for_prefix_pos T pos tree_size) (get_timestamp (tr_store T)) of
          Inl e \<Rightarrow> (T, Inl e)
        | Inr ts \<Rightarrow>
            if saturating_sub rightmost_ts ts \<ge> max_life then
              prune_loop tree_size rightmost_ts max_life greatest history (pruned + 1) (drop_user_data pos T)
            else prune_loop tree_size rightmost_ts max_life greatest history pruned T)"

definition prune_expired_versions :: "bytes \<Rightarrow> tree \<Rightarrow> tree \<times> u64 res" where
  "prune_expired_versions label T =
     (case pc_maximum_lifetime (tr_config T) of
        None \<Rightarrow> (T, Inr 0)
      | Some max_life \<Rightarrow>
          let tree_size = latest_size T in
          if tree_size = 0 then (T, Inr 0)
          else
            case get_timestamp (tr_store T) (tree_size - 1) of
              Inl e \<Rightarrow> (T, Inl e)
            | Inr rightmost_ts \<Rightarrow>
                let history = get_label_history (tr_store T) label in
                if history = [] then (T, Inr 0)
                else prune_loop tree_size rightmost_ts max_life (fst (last history)) history 0 T)"

end
