(* ===== verification/WritePath.thy ===== *)
theory WritePath
  imports Handlers
begin

text \<open>
  The write path, \<^verbatim>\<open>src/src/tree/write.rs\<close>: a batch of precomputed updates is versioned,
  searched for its audit proof, inserted into the prefix tree, sealed by one log entry, and
  published by a signed tree head; the answers to update requests. The clock is the
  parameter \<open>now\<close>. A failure leaves the writes made before it.
\<close>

definition refresh_head_timestamp :: "codec \<Rightarrow> u64 \<Rightarrow> tree \<Rightarrow> tree \<times> tree_head option" where
  "refresh_head_timestamp D now T =
     (case tr_latest T of
        None \<Rightarrow> (T, None)
      | Some th \<Rightarrow>
          if as_u64 (th_timestamp th) \<ge> now then (T, Some th)
          else
            let th = th\<lparr>th_timestamp := as_i64 now\<rparr> in
            (T\<lparr>tr_store := set_head (enc_tree_head D th) (tr_store T), tr_latest := Some th\<rparr>, Some th))"

section \<open>Versions of a batch\<close>

definition next_version :: "store \<Rightarrow> (bytes \<rightharpoonup> version) \<Rightarrow> bytes \<Rightarrow> version" where
  "next_version st overlay label =
     (let history = get_label_history st label;
          current_ver = (if history = [] then 0 else fst (last history));
          current_ver = (case overlay label of Some v \<Rightarrow> v | None \<Rightarrow> current_ver)
      in if history = [] \<and> overlay label = None then 0 else wrapping_add_u32 current_ver 1)"

text \<open>One slot per update: the version it gets, or that its version was raced.\<close>

fun assign_versions :: "store \<Rightarrow> pre_update_data list \<Rightarrow> (bytes \<rightharpoonup> version) \<Rightarrow>
    (pre_update_data \<times> version) res list" where
  "assign_versions st [] overlay = []"
| "assign_versions st (u # us) overlay =
     (let next_ver = next_version st overlay (pre_label u) in
      if pre_version u \<noteq> next_ver then
        Inl (Anyhow ''Version assignment raced'') # assign_versions st us overlay
      else Inr (u, next_ver) # assign_versions st us (overlay(pre_label u \<mapsto> next_ver)))"

definition valid_updates :: "(pre_update_data \<times> version) res list \<Rightarrow> (pre_update_data \<times> version) list" where
  "valid_updates slots = concat (map (\<lambda>s. case s of Inr x \<Rightarrow> [x] | Inl _ \<Rightarrow> []) slots)"

fun fill_slots :: "(pre_update_data \<times> version) res list \<Rightarrow> post_update_data list \<Rightarrow>
    post_update_data res list" where
  "fill_slots [] posts = []"
| "fill_slots (Inl e # slots) posts = Inl e # fill_slots slots posts"
| "fill_slots (Inr x # slots) (post # posts) = Inr post # fill_slots slots posts"
| "fill_slots (Inr x # slots) [] =
     Inl (Anyhow ''update slot left unresolved by apply_batch'') # fill_slots slots []"

section \<open>Audit proof\<close>

definition audit_result :: "proof_result \<Rightarrow> prefix_search_result" where
  "audit_result r =
     \<lparr>psr_result_type = pr_result_type r,
      psr_leaf = (if pr_result_type r = 2 then
          Some \<lparr>pl_vrf_output = (case pr_leaf_vrf_output r of Some x \<Rightarrow> x | None \<Rightarrow> []),
            pl_commitment = (case pr_leaf_commitment r of Some x \<Rightarrow> x | None \<Rightarrow> [])\<rparr>
        else None),
      psr_depth = pr_depth r\<rparr>"

text \<open>
  For the added keys in order: their leaves, the removed leaves with the results that repeat
  their search, the results and the elements.
\<close>

fun audit_searches :: "crypto \<Rightarrow> codec \<Rightarrow> tree \<Rightarrow> u64 option \<Rightarrow> (bytes \<times> bytes) list \<Rightarrow>
    (prefix_leaf list \<times> prefix_leaf list \<times> (prefix_search_result \<times> bytes list) list \<times>
     prefix_search_result list \<times> bytes list) res" where
  "audit_searches C D T ptr [] = Inr ([], [], [], [], [])"
| "audit_searches C D T None ((idx, comm) # keys) =
     and_then (audit_searches C D T None keys) (\<lambda>(added, removed, removed_results, results, elements).
     Inr (\<lparr>pl_vrf_output = idx, pl_commitment = comm\<rparr> # added, removed, removed_results,
       \<lparr>psr_result_type = 3, psr_leaf = None, psr_depth = 0\<rparr> # results, elements))"
| "audit_searches C D T (Some ptr) ((idx, comm) # keys) =
     and_then (search_for_proof (sha256 C) D (tr_store T) (tr_node_cache T) ptr idx Map.empty) (\<lambda>r.
     and_then (audit_searches C D T (Some ptr) keys) (\<lambda>(added, removed, removed_results, results, elements).
     let result = audit_result r;
         (removed, removed_results) =
           (case pr_commitment r of
              Some old_c \<Rightarrow> (\<lparr>pl_vrf_output = idx, pl_commitment = old_c\<rparr> # removed,
                             (result, pr_inclusion_proof r) # removed_results)
            | None \<Rightarrow> (removed, removed_results)) in
     Inr (\<lparr>pl_vrf_output = idx, pl_commitment = comm\<rparr> # added, removed, removed_results,
       result # results, pr_inclusion_proof r @ elements)))"

definition make_audit_update :: "crypto \<Rightarrow> codec \<Rightarrow> tree \<Rightarrow> u64 \<Rightarrow> u64 option \<Rightarrow>
    (pre_update_data \<times> version) list \<Rightarrow> auditor_update res" where
  "make_audit_update C D T timestamp current_log_ptr valid =
     (let audit_keys = sort_key fst (map (\<lambda>(u, _). (pre_index u, pre_commitment u)) valid) in
      and_then (audit_searches C D T current_log_ptr audit_keys)
        (\<lambda>(added, removed, removed_results, results, elements).
      Inr \<lparr>au_timestamp = timestamp, au_added = added, au_removed = removed,
        au_proof = Some \<lparr>pp_results = results @ map fst removed_results,
          pp_elements = elements @ concat (map snd removed_results)\<rparr>\<rparr>))"

section \<open>Applying a batch\<close>

definition sign_head :: "crypto \<Rightarrow> private_config \<Rightarrow> u64 \<Rightarrow> u64 \<Rightarrow> bytes \<Rightarrow> tree_head res" where
  "sign_head C config timestamp new_size new_log_root =
     (let auditor_pk = (if pc_mode config = DEPLOYMENT_MODE_THIRD_PARTY_AUDITING \<and> pc_auditor_keys config \<noteq> []
            then Some (fst (hd (pc_auditor_keys config))) else None) in
      and_then (construct_tree_head_tbs C config auditor_pk new_size new_log_root) (\<lambda>tbs.
      Inr \<lparr>th_tree_size = new_size, th_timestamp = as_i64 timestamp,
        th_signatures = [\<lparr>sig_auditor_public_key = vk_to_bytes (verifying_key C (pc_sig_key config)),
          sig_signature = sign_data C (pc_sig_key config) tbs\<rparr>]\<rparr>))"

definition put_user_data :: "(pre_update_data \<times> version) list \<Rightarrow> search_result list \<Rightarrow> store \<Rightarrow> store" where
  "put_user_data valid search_results st =
     (let rows = zip valid (map res_log_position search_results) in
      put_history_batch (map (\<lambda>((u, ver), ptr). (pre_label u, ver, ptr)) rows)
        (put_opening_batch (map (\<lambda>((u, ver), ptr). (ptr, pre_opening u)) rows)
          (put_value_batch (map (\<lambda>((u, ver), ptr). (ptr, pre_value u)) rows) st)))"

text \<open>The database writes of a batch, up to the log root and the search results.\<close>

definition write_batch :: "crypto \<Rightarrow> codec \<Rightarrow> u64 \<Rightarrow> (pre_update_data \<times> version) list \<Rightarrow> tree \<Rightarrow>
    tree \<times> (bytes \<times> search_result list) res" where
  "write_batch C D timestamp valid T =
     (let start_size = latest_size T in
      case and_then (get_next_prefix_version (tr_store T)) (\<lambda>start_prefix_version.
           and_then (if start_size > 0
                     then and_then (get_prefix_ptr (tr_store T) (start_size - 1)) (\<lambda>p. Inr (Some p))
                     else Inr None) (\<lambda>current_log_ptr.
           and_then (make_audit_update C D T timestamp current_log_ptr valid) (\<lambda>audit_update.
             Inr (start_prefix_version, current_log_ptr, audit_update)))) of
        Inl e \<Rightarrow> (T, Inl e)
      | Inr (start_prefix_version, current_log_ptr, audit_update) \<Rightarrow>
          (case batch_insert (sha256 C) D start_prefix_version current_log_ptr
              (map (\<lambda>(u, _). (pre_index u, pre_commitment u)) valid) (tr_store T, tr_node_cache T) of
             ((st, cache), Inl e) \<Rightarrow> (T\<lparr>tr_store := st, tr_node_cache := cache\<rparr>, Inl e)
           | ((st, cache), Inr (roots, search_results, final_prefix_ptr)) \<Rightarrow>
               (let st = set_next_prefix_version (final_prefix_ptr + 1)
                      (put_prefix_ptr start_size final_prefix_ptr st) in
                if roots = [] then
                  (T\<lparr>tr_store := st, tr_node_cache := cache\<rparr>,
                   Inl (Panic ''called `Option::unwrap()` on a `None` value''))
                else
                  case batch_append (sha256 C) start_size [(timestamp, last roots)] st of
                    (st, Inl e) \<Rightarrow> (T\<lparr>tr_store := st, tr_node_cache := cache\<rparr>, Inl e)
                  | (st, Inr new_log_root) \<Rightarrow>
                      (T\<lparr>tr_store := put_user_data valid search_results
                           (put_audit_blob start_size (enc_auditor_update D audit_update) st),
                         tr_node_cache := cache\<rparr>,
                       Inr (new_log_root, search_results)))))"

definition apply_batch :: "crypto \<Rightarrow> codec \<Rightarrow> u64 \<Rightarrow> pre_update_data list \<Rightarrow> tree \<Rightarrow>
    tree \<times> (post_update_data res list \<times> tree_head) res" where
  "apply_batch C D now updates T =
     (if updates = [] then (T, Inl (Anyhow ''Empty batch''))
      else
        let slots = assign_versions (tr_store T) updates Map.empty; valid = valid_updates slots in
        if valid = [] then
          (T, and_then (ok_or (tr_latest T) (Anyhow ''No tree head available'')) (\<lambda>th.
                Inr (fill_slots slots [], th)))
        else
          (case write_batch C D now valid T of
             (T', Inl e) \<Rightarrow> (T', Inl e)
           | (T', Inr (new_log_root, search_results)) \<Rightarrow>
               (case sign_head C (tr_config T) now (latest_size T + 1) new_log_root of
                  Inl e \<Rightarrow> (T', Inl e)
                | Inr th \<Rightarrow>
                    (let T' = T'\<lparr>tr_store := set_head (enc_tree_head D th) (tr_store T'), tr_latest := Some th\<rparr>;
                         fth = get_full_tree_head T' None;
                         posts = map (\<lambda>r. \<lparr>post_tree_head = fth, post_search_result = r\<rparr>) search_results
                     in (T', Inr (fill_slots slots posts, th))))))"

section \<open>Answers to update requests\<close>

definition catch_up_item :: "crypto \<Rightarrow> tree \<Rightarrow> bytes \<Rightarrow> version \<times> u64 \<Rightarrow>
    (bytes \<times> update_info \<times> binary_ladder_step) res" where
  "catch_up_item C T label vp =
     (case vp of (v, p) \<Rightarrow>
      and_then (ok_or (get_value (tr_store T) p) (Anyhow ''Value was pruned'')) (\<lambda>val.
      and_then (ok_or (get_opening (tr_store T) p) (Anyhow ''Opening was pruned'')) (\<lambda>opening.
      and_then (config_vrf_prove C (tr_config T) label v) (\<lambda>(_, vrf_proof).
      Inr (val, \<lparr>ui_opening = opening, ui_suffix_signature = None\<rparr>,
        \<lparr>bls_proof = vrf_proof, bls_commitment = None\<rparr>)))))"

definition catch_up_update :: "crypto \<Rightarrow> codec \<Rightarrow> tree \<Rightarrow> update_request \<Rightarrow> update_response res" where
  "catch_up_update C D T req =
     and_then (ok_or (map_option th_tree_size (tr_latest T)) (Anyhow ''Empty tree'')) (\<lambda>tree_size.
     let history = get_label_history (tr_store T) (ureq_label req);
         first_missing = (case ureq_greatest_version req of Some g \<Rightarrow> wrapping_add_u32 g 1 | None \<Rightarrow> 0) in
     and_then (ok_or (find_version history first_missing) (Anyhow ''Version missing from label history'')) (\<lambda>first_pos.
     and_then (find_log_entry_for_prefix_pos T first_pos tree_size) (\<lambda>pos.
     and_then (get_prefix_ptr (tr_store T) pos) (\<lambda>entry_hi.
     let created = filter (\<lambda>(v, p). v \<ge> first_missing \<and> p \<le> entry_hi) history;
         new_greatest = (if created = [] then first_missing else fst (last created)) in
     and_then (map_res (catch_up_item C T (ureq_label req)) created) (\<lambda>items.
     and_then (traverse_update_verification C D T tree_size pos (ureq_label req) new_greatest
         (or_zero (ureq_last req))) (\<lambda>pf.
     Inr \<lparr>ur_full_tree_head = Some (get_full_tree_head T None), ur_position = pos,
       ur_values = map fst items, ur_info = map (fst \<circ> snd) items,
       ur_binary_ladder = map (snd \<circ> snd) items, ur_update = Some pf\<rparr>))))))"

definition post_update :: "crypto \<Rightarrow> codec \<Rightarrow> tree \<Rightarrow> pre_update_data list \<Rightarrow> post_update_data \<Rightarrow>
    update_response res" where
  "post_update C D T pres post =
     (if pres = [] then Inl (Anyhow ''Empty update group'')
      else
        let newest = last pres in
        and_then (ok_or (fth_tree_head (post_tree_head post))
            (Panic ''called `Option::unwrap()` on a `None` value'')) (\<lambda>th.
        let tree_size = th_tree_size th; insertion_log_index = tree_size - 1 in
        and_then (traverse_update_verification C D T tree_size insertion_log_index (pre_label newest)
            (pre_version newest) (pre_last newest)) (\<lambda>pf.
        Inr \<lparr>ur_full_tree_head = Some (post_tree_head post), ur_position = insertion_log_index,
          ur_values = [],
          ur_info = map (\<lambda>p. \<lparr>ui_opening = pre_opening p, ui_suffix_signature = None\<rparr>) pres,
          ur_binary_ladder = map (\<lambda>p. \<lparr>bls_proof = pre_vrf_proof p, bls_commitment = None\<rparr>) pres,
          ur_update = Some pf\<rparr>)))"

end
