(* ===== verification/TreeState.thy ===== *)
theory TreeState
  imports PrefixProps WritePath
begin

text \<open>
  The state of the server over its operations. A tree version is what one log entry seals: its
  timestamp, the pointer of its prefix tree and the map that tree represents. \<open>tree_inv\<close> ties the
  database, the node cache and the signed head to the list of versions; a batch appends one
  version, and no other operation changes any.
\<close>

section \<open>The invariant\<close>

record tree_version =
  tv_timestamp :: u64
  tv_ptr :: u64
  tv_map :: key_map

definition log_leaves :: "(bytes \<Rightarrow> bytes) \<Rightarrow> tree_version list \<Rightarrow> bytes list" where
  "log_leaves sha vs = map (\<lambda>v. log_leaf_value sha (tv_timestamp v) (map_root sha (tv_map v))) vs"

definition latest_map :: "tree_version list \<Rightarrow> key_map" where
  "latest_map vs = (if vs = [] then [] else tv_map (last vs))"

definition latest_ptr :: "tree_version list \<Rightarrow> u64 option" where
  "latest_ptr vs = (if vs = [] then None else Some (tv_ptr (last vs)))"

definition version_stored :: "codec \<Rightarrow> (bytes \<Rightarrow> bytes) \<Rightarrow> store \<Rightarrow> u64 \<Rightarrow> tree_version \<Rightarrow> bool" where
  "version_stored D sha st i v \<longleftrightarrow>
     get_timestamp st i = Inr (tv_timestamp v) \<and> get_prefix_root st i = Inr (map_root sha (tv_map v)) \<and>
     get_prefix_ptr st i = Inr (tv_ptr v) \<and> rep_by (stored D st) sha (Some (tv_ptr v)) (tv_map v)"

definition store_inv :: "codec \<Rightarrow> (bytes \<Rightarrow> bytes) \<Rightarrow> store \<Rightarrow> u64 \<Rightarrow> tree_version list \<Rightarrow> bool" where
  "store_inv D sha st next vs \<longleftrightarrow>
     log_rep st (log_leaves sha vs) \<and>
     (\<forall>i<length vs. version_stored D sha st (word_of_nat i) (vs ! i)) \<and>
     sorted_wrt (<) (map tv_ptr vs) \<and> list_all (\<lambda>v. tv_ptr v < next) vs \<and>
     get_next_prefix_version st = Inr next \<and> (\<forall>p\<ge>next. get_prefix st p = None)"

definition head_of :: "crypto \<Rightarrow> private_config \<Rightarrow> tree_version list \<Rightarrow> tree_head option \<Rightarrow> bool" where
  "head_of C config vs head \<longleftrightarrow>
     (case head of
        None \<Rightarrow> vs = []
      | Some th \<Rightarrow> vs \<noteq> [] \<and> (\<exists>t. sign_head C config t (word_of_nat (length vs))
          (root_value (sha256 C) (log_leaves (sha256 C) vs)) = Inr th))"

definition tree_inv :: "crypto \<Rightarrow> codec \<Rightarrow> tree \<Rightarrow> u64 \<Rightarrow> tree_version list \<Rightarrow> bool" where
  "tree_inv C D T next vs \<longleftrightarrow>
     store_inv D (sha256 C) (tr_store T) next vs \<and> cache_agrees D (tr_store T) (tr_node_cache T) \<and>
     head_of C (tr_config T) vs (tr_latest T) \<and>
     get_head (tr_store T) = map_option (enc_tree_head D) (tr_latest T) \<and> length vs \<le> 2 ^ 63"

section \<open>What writes to a family leave alone\<close>

lemma stored_cong: "get_prefix st = get_prefix st' \<Longrightarrow> stored D st = stored D st'"
  by (simp add: stored_def get_entry_def fun_eq_iff)

lemma log_rep_cong: "get_log st = get_log st' \<Longrightarrow> log_rep st ls = log_rep st' ls"
  by (simp add: log_rep_def)

lemma store_inv_cong:
  assumes "get_log st = get_log st'" and "get_prefix st = get_prefix st'"
    and "get_timestamp_cf st = get_timestamp_cf st'" and "get_prefix_root_cf st = get_prefix_root_cf st'"
    and "get_prefix_ptr_cf st = get_prefix_ptr_cf st'"
    and "get_meta st NEXT_PREFIX_VERSION_KEY = get_meta st' NEXT_PREFIX_VERSION_KEY"
  shows "store_inv D sha st next vs = store_inv D sha st' next vs"
  using log_rep_cong [OF assms(1)] stored_cong [OF assms(2), of D] assms(2-6)
  by (simp add: store_inv_def version_stored_def get_timestamp_def get_prefix_root_def get_prefix_ptr_def
      get_next_prefix_version_def)

lemma cache_agrees_cong: "get_prefix st = get_prefix st' \<Longrightarrow> cache_agrees D st c = cache_agrees D st' c"
  by (simp add: cache_agrees_def stored_cong [of st st'])

lemma next_key_not_head [simp]:
  "NEXT_PREFIX_VERSION_KEY \<noteq> ascii ''head''" "ascii ''head'' \<noteq> NEXT_PREFIX_VERSION_KEY"
  by (simp_all add: NEXT_PREFIX_VERSION_KEY_def ascii_def)

lemma user_data_families [simp]:
  "cf_log (put_user_data valid rs st) = cf_log st" "cf_prefix (put_user_data valid rs st) = cf_prefix st"
  "cf_timestamp (put_user_data valid rs st) = cf_timestamp st"
  "cf_prefix_root (put_user_data valid rs st) = cf_prefix_root st"
  "cf_prefix_ptr (put_user_data valid rs st) = cf_prefix_ptr st" "cf_meta (put_user_data valid rs st) = cf_meta st"
  "cf_audit (put_user_data valid rs st) = cf_audit st"
  by (simp_all add: put_user_data_def put_history_batch_def put_opening_batch_def put_value_batch_def Let_def)

text \<open>The reads of a family, as functions of it.\<close>

lemma families:
  "get_log st = (\<lambda>k. cf_log st (to_be_bytes_u64 k))" "get_prefix st = (\<lambda>k. cf_prefix st (to_be_bytes_u64 k))"
  "get_timestamp_cf st = (\<lambda>k. cf_timestamp st (to_be_bytes_u64 k))"
  "get_prefix_root_cf st = (\<lambda>k. cf_prefix_root st (to_be_bytes_u64 k))"
  "get_prefix_ptr_cf st = (\<lambda>k. cf_prefix_ptr st (to_be_bytes_u64 k))" "get_meta st = cf_meta st"
  by (simp_all add: store_defs fun_eq_iff)

section \<open>One batch on the store\<close>

lemma length_log_leaves [simp]: "length (log_leaves sha vs) = length vs"
  by (simp add: log_leaves_def)

lemma positions_ge:
  assumes "q \<in> set (positions start n)" and "unat start + n \<le> 2 ^ 64"
  shows "start \<le> q" and "unat q < unat start + n"
proof -
  obtain i where i: "i < n" "q = start + word_of_nat i" using assms(1) by (auto simp: positions_def)
  then have "unat q = unat start + i"
    using assms(2) by (simp add: unat_word_ariths unat_of_nat take_bit_eq_mod)
  then show "start \<le> q" "unat q < unat start + n" using i(1) by (simp_all add: word_le_nat_alt)
qed

lemma positions_le_last:
  assumes "q \<in> set (positions start n)" and "unat start + n \<le> 2 ^ 64"
  shows "q \<le> last (positions start n)"
proof -
  obtain i where i: "i < n" "q = start + word_of_nat i" using assms(1) by (auto simp: positions_def)
  obtain m where m: "n = Suc m" using i(1) by (cases n) auto
  then have "last (positions start n) = start + word_of_nat m" by (simp add: positions_def)
  then show ?thesis
    using i assms(2) m by (simp add: word_le_nat_alt unat_word_ariths unat_of_nat take_bit_eq_mod)
qed

lemma store_inv_version:
  "store_inv D sha st next vs \<Longrightarrow> i < length vs \<Longrightarrow> version_stored D sha st (word_of_nat i) (vs ! i)"
  by (simp add: store_inv_def)

lemma store_inv_rep:
  assumes "store_inv D sha st next vs"
  shows "rep_by (stored D st) sha (latest_ptr vs) (latest_map vs)"
proof (cases "vs = []")
  case False
  then have "version_stored D sha st (word_of_nat (length vs - 1)) (vs ! (length vs - 1))"
    using assms by (simp add: store_inv_def)
  then show ?thesis using False by (simp add: version_stored_def latest_ptr_def latest_map_def last_conv_nth)
qed (simp add: latest_ptr_def latest_map_def)

lemma length_map_root:
  assumes "\<And>x. length (sha x) = 32" shows "length (map_root sha kvs) = 32"
  unfolding map_root_def by (rule length_subtree_hash [OF assms])

text \<open>The store a batch leaves, before the data of the users is added.\<close>

definition sealed :: "u64 \<Rightarrow> u64 \<Rightarrow> (u64 \<times> bytes) list \<Rightarrow> u64 \<Rightarrow> bytes \<Rightarrow> (u64 \<times> bytes) list \<Rightarrow> store \<Rightarrow> store" where
  "sealed n ptr log_batch ts rt prefix_batch st =
     put_log_batch log_batch (put_prefix_root_cf n rt (put_timestamp_cf n (to_be_bytes_u64 ts)
       (set_next_prefix_version (ptr + 1) (put_prefix_ptr n ptr (put_prefix_batch prefix_batch st)))))"

lemma u64_of_slice_be [simp]: "u64_of_slice (to_be_bytes_u64 x) = Inr x"
  by (simp add: u64_of_slice_def)

lemma sealed_gets:
  "get_timestamp (sealed n ptr lb ts rt pb st) i = (if i = n then Inr ts else get_timestamp st i)"
  "get_prefix_root (sealed n ptr lb ts rt pb st) i = (if i = n then Inr rt else get_prefix_root st i)"
  "get_prefix_ptr (sealed n ptr lb ts rt pb st) i = (if i = n then Inr ptr else get_prefix_ptr st i)"
  "get_prefix (sealed n ptr lb ts rt pb st) = get_prefix (put_prefix_batch pb st)"
  "get_next_prefix_version (sealed n ptr lb ts rt pb st) = Inr (ptr + 1)"
  "get_head (sealed n ptr lb ts rt pb st) = get_head st"
  by (auto simp: sealed_def get_timestamp_def get_prefix_root_def get_prefix_ptr_def put_prefix_ptr_def
      set_next_prefix_version_def get_next_prefix_version_def store_defs fun_eq_iff)

lemma sealed_log: "get_log (sealed n ptr lb ts rt pb st) = get_log (put_log_batch lb st)"
  by (simp add: sealed_def put_prefix_ptr_def set_next_prefix_version_def store_defs fun_eq_iff)

lemma store_inv_sealed:
  assumes inv: "store_inv D sha st next vs" and n: "unat n = length vs" "length vs < 2 ^ 63"
    and ptr: "next \<le> ptr" "ptr \<noteq> - 1"
    and rep: "rep_by (stored D (put_prefix_batch pb st)) sha (Some ptr) kvs"
    and old: "\<And>q kvs'. rep_by (stored D st) sha q kvs' \<Longrightarrow> rep_by (stored D (put_prefix_batch pb st)) sha q kvs'"
    and pb: "\<forall>q\<in>fst ` set pb. next \<le> q \<and> q \<le> ptr"
    and log: "log_rep (put_log_batch lb st) (log_leaves sha vs @ [log_leaf_value sha ts (map_root sha kvs)])"
  shows "store_inv D sha (sealed n ptr lb ts (map_root sha kvs) pb st) (ptr + 1)
    (vs @ [\<lparr>tv_timestamp = ts, tv_ptr = ptr, tv_map = kvs\<rparr>])"
proof -
  let ?st = "sealed n ptr lb ts (map_root sha kvs) pb st"
  let ?v = "\<lparr>tv_timestamp = ts, tv_ptr = ptr, tv_map = kvs\<rparr>"
  have stored: "stored D ?st = stored D (put_prefix_batch pb st)"
    by (rule stored_cong) (simp add: sealed_gets)
  have n': "n = word_of_nat (length vs)" using n(1) [symmetric] by simp
  have "version_stored D sha ?st (word_of_nat i) ((vs @ [?v]) ! i)" if "i < length (vs @ [?v])" for i
  proof (cases "i = length vs")
    case True
    then show ?thesis using rep by (simp add: version_stored_def sealed_gets stored flip: n')
  next
    case False
    then have i: "i < length vs" using that by simp
    then have "unat (word_of_nat i :: u64) = i" using n by (simp add: unat_of_nat take_bit_nat_eq_self)
    then have "(word_of_nat i :: u64) \<noteq> n" using i n(1) by auto
    then show ?thesis
      using inv i old by (auto simp: store_inv_def version_stored_def sealed_gets stored nth_append)
  qed
  moreover have after: "ptr < ptr + 1"
  proof -
    have "1 + ptr \<noteq> 0" using ptr(2) by (metis add_eq_0_iff add.commute)
    then show ?thesis using unatSuc [of ptr] by (simp add: word_less_nat_alt add.commute)
  qed
  moreover have "tv_ptr v < ptr" if "v \<in> set vs" for v
    using inv that ptr(1) by (auto simp: store_inv_def list_all_iff)
  moreover have "get_prefix ?st p = None" if "ptr + 1 \<le> p" for p
  proof -
    have "ptr < p" using after that by (rule less_le_trans)
    then have "map_of (rev pb) p = None" using pb by (force simp: map_of_eq_None_iff)
    then show ?thesis
      using inv ptr(1) \<open>ptr < p\<close>
      by (simp add: sealed_gets put_batch_eq kv_prefix.get_put_list store_inv_def)
  qed
  moreover have "log_rep ?st (log_leaves sha (vs @ [?v]))"
    using log log_rep_cong [OF sealed_log] by (simp add: log_leaves_def)
  ultimately show ?thesis
    using inv by (auto simp: store_inv_def sealed_gets sorted_wrt_append list_all_iff intro: less_trans)
qed

section \<open>Applying a batch\<close>

lemma audit_searches_ok:
  assumes "rep_by (stored D (tr_store T)) (sha256 C) ptr kvs" and "cache_agrees D (tr_store T) (tr_node_cache T)"
    and "keys_ok keys"
  shows "\<exists>a. audit_searches C D T ptr keys = Inr a"
  using assms(3)
proof (induction keys)
  case (Cons k keys)
  obtain idx c where k: "k = (idx, c)" by fastforce
  obtain a where a: "audit_searches C D T ptr keys = Inr a" using Cons by (cases k) auto
  show ?case
  proof (cases ptr)
    case None
    then show ?thesis using a k by (cases a) simp
  next
    case (Some p)
    have entries: "get_entry D (tr_store T) (tr_node_cache T) q Map.empty = Inr e"
      if "stored D (tr_store T) q = Inr e" for q e
      using get_entry_overlaid [OF assms(2)] that by (simp add: overlaid_def)
    obtain r where "search_for_proof (sha256 C) D (tr_store T) (tr_node_cache T) p idx Map.empty = Inr r"
      using search_for_proof_correct [OF assms(1) [unfolded Some] _ entries, of idx] Cons.prems k by auto
    then show ?thesis using a k Some by (cases a) (simp add: Let_def split: option.split)
  qed
qed (cases ptr; simp)

lemma make_audit_update_ok:
  assumes "rep_by (stored D (tr_store T)) (sha256 C) ptr kvs" and "cache_agrees D (tr_store T) (tr_node_cache T)"
    and "keys_ok (map (\<lambda>(u, v). (pre_index u, pre_commitment u)) valid)"
  shows "\<exists>u. make_audit_update C D T ts ptr valid = Inr u"
proof -
  have "keys_ok (sort_key fst (map (\<lambda>(u, v). (pre_index u, pre_commitment u)) valid))"
    using assms(3) by (simp add: keys_ok_def list_all_iff)
  from audit_searches_ok [OF assms(1,2) this] show ?thesis
    by (auto simp: make_audit_update_def Let_def split: prod.split)
qed

definition entries_of :: "(pre_update_data \<times> version) list \<Rightarrow> key_map" where
  "entries_of valid = map (\<lambda>(u, v). (pre_index u, pre_commitment u)) valid"

lemma length_entries_of [simp]: "length (entries_of valid) = length valid"
  by (simp add: entries_of_def)

lemma map_roots_Nil_iff [simp]: "map_roots sha kvs es = [] \<longleftrightarrow> es = []"
  by (cases es) auto

text \<open>The prefix tree a batch builds on.\<close>

lemma current_ptr:
  assumes "store_inv D sha st next vs" and "unat n = length vs"
  shows "(if 0 < n then and_then (get_prefix_ptr st (n - 1)) (\<lambda>p. Inr (Some p)) else Inr None) = Inr (latest_ptr vs)"
proof -
  have n0: "0 < n \<longleftrightarrow> vs \<noteq> []" using assms(2) by (auto simp: word_gt_0 unat_eq_0)
  show ?thesis
  proof (cases "vs = []")
    case False
    then have "unat (n - 1) = length vs - 1" using assms(2) n0 by (simp add: unat_minus_one word_gt_0)
    from this [symmetric] have "word_of_nat (length vs - 1) = n - 1" by simp
    with False have "get_prefix_ptr st (n - 1) = Inr (tv_ptr (last vs))"
      using store_inv_version [OF assms(1), of "length vs - 1"] by (simp add: version_stored_def last_conv_nth)
    then show ?thesis using False n0 by (simp add: latest_ptr_def)
  qed (use n0 in \<open>simp add: latest_ptr_def\<close>)
qed

lemma append_sealed:
  fixes ts :: u64
  assumes inv: "store_inv D sha st next vs" and n: "unat n = length vs" "length vs < 2 ^ 63"
    and sha: "\<And>x. length (sha x) = 32"
    and ptr: "next \<le> ptr" "ptr \<noteq> - 1"
    and rep: "rep_by (stored D (put_prefix_batch pb st)) sha (Some ptr) kvs"
    and old: "\<And>q kvs'. rep_by (stored D st) sha q kvs' \<Longrightarrow> rep_by (stored D (put_prefix_batch pb st)) sha q kvs'"
    and pb: "\<forall>q\<in>fst ` set pb. next \<le> q \<and> q \<le> ptr"
  defines "vs' \<equiv> vs @ [\<lparr>tv_timestamp = ts, tv_ptr = ptr, tv_map = kvs\<rparr>]"
  obtains st2 where
    "batch_append sha n [(ts, map_root sha kvs)]
      (set_next_prefix_version (ptr + 1) (put_prefix_ptr n ptr (put_prefix_batch pb st))) =
      (st2, Inr (root_value sha (log_leaves sha vs')))"
    "store_inv D sha st2 (ptr + 1) vs'" "get_prefix st2 = get_prefix (put_prefix_batch pb st)"
    "get_head st2 = get_head st" "cf_value st2 = cf_value st" "cf_openings st2 = cf_openings st"
    "cf_history st2 = cf_history st"
proof -
  let ?st2 = "set_next_prefix_version (ptr + 1) (put_prefix_ptr n ptr (put_prefix_batch pb st))"
  have "log_rep ?st2 (log_leaves sha vs)"
    using inv log_rep_cong [of ?st2 st]
    by (simp add: store_inv_def put_prefix_ptr_def set_next_prefix_version_def store_defs fun_eq_iff)
  then obtain lb where app: "batch_append sha n [(ts, map_root sha kvs)] ?st2 =
      (put_log_batch lb (entry_records n [(ts, map_root sha kvs)] ?st2),
       Inr (root_value sha (log_leaves sha vs @ [log_leaf_value sha ts (map_root sha kvs)])))"
    "log_rep (put_log_batch lb (entry_records n [(ts, map_root sha kvs)] ?st2))
      (log_leaves sha vs @ [log_leaf_value sha ts (map_root sha kvs)])"
    using batch_append_spec [of ?st2 "log_leaves sha vs" n "[(ts, map_root sha kvs)]" sha] n sha by auto
  let ?sealed = "sealed n ptr lb ts (map_root sha kvs) pb st"
  have sealed: "put_log_batch lb (entry_records n [(ts, map_root sha kvs)] ?st2) = ?sealed"
    by (simp add: sealed_def entry_records_Cons) (simp add: entry_records_def)
  have "log_rep (put_log_batch lb st) (log_leaves sha vs @ [log_leaf_value sha ts (map_root sha kvs)])"
    using app(2) log_rep_cong [OF sealed_log, of n ptr lb ts "map_root sha kvs" pb st] unfolding sealed by simp
  then have "store_inv D sha ?sealed (ptr + 1) vs'"
    using inv n ptr rep old pb unfolding vs'_def by (intro store_inv_sealed)
  moreover have "cf_value ?sealed = cf_value st" "cf_openings ?sealed = cf_openings st" "cf_history ?sealed = cf_history st"
    by (simp_all add: sealed_def put_prefix_ptr_def set_next_prefix_version_def store_defs)
  ultimately show ?thesis
    using that [of ?sealed] app(1) unfolding sealed by (simp add: log_leaves_def vs'_def sealed_gets)
qed

lemma batch_sealed:
  fixes ts :: u64
  assumes inv: "store_inv D sha st next vs" and cache: "cache_agrees D st cached"
    and n: "unat n = length vs" "length vs < 2 ^ 63"
    and D: "codec_laws D" and sha: "\<And>x. length (sha x) = 32"
    and es: "es \<noteq> []" "keys_ok es" "unat next + length es < 2 ^ 64"
  defines "kvs \<equiv> rev es @ latest_map vs" and "ptr \<equiv> last (positions next (length es))"
  defines "vs' \<equiv> vs @ [\<lparr>tv_timestamp = ts, tv_ptr = ptr, tv_map = kvs\<rparr>]"
  obtains st1 cache' roots results st2 where
    "batch_insert sha D next (latest_ptr vs) es (st, cached) = ((st1, cache'), Inr (roots, results, ptr))"
    "roots \<noteq> []" "last roots = map_root sha kvs" "map res_log_position results = positions next (length es)"
    "batch_append sha n [(ts, map_root sha kvs)] (set_next_prefix_version (ptr + 1) (put_prefix_ptr n ptr st1)) =
      (st2, Inr (root_value sha (log_leaves sha vs')))"
    "store_inv D sha st2 (ptr + 1) vs'" "cache_agrees D st2 cache'" "get_head st2 = get_head st"
    "unat ptr < unat next + length es"
    "cf_value st2 = cf_value st" "cf_openings st2 = cf_openings st" "cf_history st2 = cf_history st"
proof -
  have rep: "rep_by (stored D st) sha (latest_ptr vs) (latest_map vs)"
    using inv by (rule store_inv_rep)
  have free: "\<forall>p\<in>set (positions next (length es)). get_prefix st p = None"
    using inv positions_ge(1) es(3) by (fastforce simp: store_inv_def)
  obtain st1 cache' results pb where ins: "batch_insert sha D next (latest_ptr vs) es (st, cached) =
      ((st1, cache'), Inr (map_roots sha (latest_map vs) es, results, ptr))"
    "map res_log_position results = positions next (length es)"
    "rep_by (stored D st1) sha (Some ptr) kvs" "cache_agrees D st1 cache'"
    "\<And>q kvs'. rep_by (stored D st) sha q kvs' \<Longrightarrow> rep_by (stored D st1) sha q kvs'"
    "st1 = put_prefix_batch pb st" "map fst pb = positions next (length es)"
    using batch_insert_correct [OF D cache rep es(2) free] es(1,3) by (auto simp: ptr_def kvs_def)
  have roots: "last (map_roots sha (latest_map vs) es) = map_root sha kvs"
    using es(1) unfolding kvs_def by (intro last_map_roots)
  have ptr_at: "ptr \<in> set (positions next (length es))"
    unfolding ptr_def using es(1) by (intro last_in_set) (simp add: positions_def)
  then have ptr_bound: "next \<le> ptr" "unat ptr < unat next + length es"
    using positions_ge [OF ptr_at] es(3) by simp_all
  then have "unat ptr < 2 ^ 64 - 1" using es(3) by simp
  then have last: "ptr \<noteq> - 1" by (auto simp: unsigned_minus_1_eq_mask mask_eq_exp_minus_1)
  have pb: "\<forall>q\<in>fst ` set pb. next \<le> q \<and> q \<le> ptr"
    using positions_ge(1) positions_le_last es(3) arg_cong [OF ins(7), of set] by (simp add: ptr_def)
  obtain st2 where st2: "batch_append sha n [(ts, map_root sha kvs)]
      (set_next_prefix_version (ptr + 1) (put_prefix_ptr n ptr st1)) = (st2, Inr (root_value sha (log_leaves sha vs')))"
    "store_inv D sha st2 (ptr + 1) vs'" "get_prefix st2 = get_prefix st1"
    "get_head st2 = get_head st" "cf_value st2 = cf_value st" "cf_openings st2 = cf_openings st"
    "cf_history st2 = cf_history st"
    unfolding vs'_def ins(6)
    by (rule append_sealed [OF inv n sha ptr_bound(1) last ins(3,5) [unfolded ins(6)] pb])
  then show ?thesis
    using that [OF ins(1) _ roots ins(2)] es(1) ptr_bound(2) cache_agrees_cong [of st2 st1] ins(4) by simp
qed

lemma write_batch_correct:
  fixes C :: crypto and T :: tree
  defines "sha \<equiv> sha256 C"
  assumes inv: "store_inv D sha (tr_store T) next vs" and cache: "cache_agrees D (tr_store T) (tr_node_cache T)"
    and n: "unat (latest_size T) = length vs" "length vs < 2 ^ 63"
    and D: "codec_laws D" and sha: "\<And>x. length (sha x) = 32"
    and valid: "valid \<noteq> []" "keys_ok (entries_of valid)" "unat next + length valid < 2 ^ 64"
  shows "\<exists>st cache' results ptr. write_batch C D ts valid T =
      (T\<lparr>tr_store := st, tr_node_cache := cache'\<rparr>,
       Inr (root_value sha (log_leaves sha (vs @ [\<lparr>tv_timestamp = ts, tv_ptr = ptr,
              tv_map = rev (entries_of valid) @ latest_map vs\<rparr>])), results)) \<and>
    length results = length valid \<and>
    store_inv D sha st (ptr + 1) (vs @ [\<lparr>tv_timestamp = ts, tv_ptr = ptr,
      tv_map = rev (entries_of valid) @ latest_map vs\<rparr>]) \<and>
    cache_agrees D st cache' \<and> get_head st = get_head (tr_store T) \<and> unat ptr < unat next + length valid"
proof -
  let ?st = "tr_store T" and ?es = "entries_of valid" and ?n = "latest_size T"
  have next_version: "get_next_prefix_version ?st = Inr next" using inv by (simp add: store_inv_def)
  note ptr = current_ptr [OF inv n(1)]
  obtain u where audit: "make_audit_update C D T ts (latest_ptr vs) valid = Inr u"
    using make_audit_update_ok [OF store_inv_rep [OF inv, unfolded sha_def] cache valid(2) [unfolded entries_of_def]] by blast
  have es: "?es \<noteq> []" "keys_ok ?es" "unat next + length ?es < 2 ^ 64"
    using valid by (simp_all add: entries_of_def)
  let ?ptr = "last (positions next (length ?es))" and ?kvs = "rev ?es @ latest_map vs"
  let ?vs = "vs @ [\<lparr>tv_timestamp = ts, tv_ptr = ?ptr, tv_map = ?kvs\<rparr>]"
  obtain st1 cache' roots results st2 where sealed:
    "batch_insert sha D next (latest_ptr vs) ?es (?st, tr_node_cache T) = ((st1, cache'), Inr (roots, results, ?ptr))"
    "roots \<noteq> []" "last roots = map_root sha ?kvs" "map res_log_position results = positions next (length ?es)"
    "batch_append sha ?n [(ts, map_root sha ?kvs)] (set_next_prefix_version (?ptr + 1) (put_prefix_ptr ?n ?ptr st1)) =
      (st2, Inr (root_value sha (log_leaves sha ?vs)))"
    "store_inv D sha st2 (?ptr + 1) ?vs" "cache_agrees D st2 cache'" "get_head st2 = get_head ?st"
    "unat ?ptr < unat next + length ?es"
    "cf_value st2 = cf_value ?st" "cf_openings st2 = cf_openings ?st" "cf_history st2 = cf_history ?st"
    by (rule batch_sealed [OF inv cache n D sha es])
  define stf where "stf = put_user_data valid results (put_audit_blob ?n (enc_auditor_update D u) st2)"
  have "write_batch C D ts valid T = (T\<lparr>tr_store := stf, tr_node_cache := cache'\<rparr>,
      Inr (root_value sha (log_leaves sha ?vs), results))"
    using sealed(1-3,5) next_version ptr audit unfolding write_batch_def stf_def
    by (simp add: Let_def sha_def entries_of_def [symmetric])
  moreover have "length results = length valid"
    using arg_cong [OF sealed(4), of length] by (simp add: positions_def)
  moreover have "store_inv D sha stf = store_inv D sha st2" "cache_agrees D stf = cache_agrees D st2"
    "get_head stf = get_head st2"
    using store_inv_cong [of stf st2] cache_agrees_cong [of stf st2]
    by (simp_all add: fun_eq_iff stf_def put_audit_blob_def get_head_def families)
  ultimately show ?thesis using sealed(6-9)
    by (intro exI [of _ stf] exI [of _ cache'] exI [of _ results] exI [of _ ?ptr]) simp
qed

text \<open>The head is signed under the configuration whatever the size and the root.\<close>

definition config_signs :: "crypto \<Rightarrow> private_config \<Rightarrow> bool" where
  "config_signs C config \<longleftrightarrow>
     (\<forall>now n rt. length rt = 32 \<longrightarrow> (\<exists>th. sign_head C config now n rt = Inr th))"

lemma sign_head_size: "sign_head C config now n rt = Inr th \<Longrightarrow> th_tree_size th = n"
  by (auto simp: sign_head_def res_simps)

lemma tree_inv_size:
  assumes "tree_inv C D T next vs"
  shows "unat (latest_size T) = length vs"
proof -
  have "latest_size T = word_of_nat (length vs)"
    using assms sign_head_size by (auto simp: tree_inv_def head_of_def latest_size_def split: option.splits)
  then show ?thesis using assms by (simp add: tree_inv_def unat_of_nat take_bit_nat_eq_self)
qed

lemma length_subtree_value:
  "(\<And>x. length (sha x) = 32) \<Longrightarrow> (\<And>i. lo \<le> i \<Longrightarrow> i < n \<Longrightarrow> length (leaf i) = 32) \<Longrightarrow> lo < n \<Longrightarrow>
    length (subtree_value sha leaf n k lo) = 32"
  by (induction k) (simp_all add: log_parent_value_def)

lemma length_root_value:
  "(\<And>x. length (sha x) = 32) \<Longrightarrow> (\<And>x. x \<in> set ls \<Longrightarrow> length x = 32) \<Longrightarrow> ls \<noteq> [] \<Longrightarrow>
    length (root_value sha ls) = 32"
  by (auto simp: root_value_def intro!: length_subtree_value)

lemma valid_updates_subset: "(u, v) \<in> set (valid_updates (assign_versions st us ov)) \<Longrightarrow> u \<in> set us"
  by (induction st us ov rule: assign_versions.induct) (auto simp: valid_updates_def Let_def split: if_splits)

lemma length_valid_updates: "length (valid_updates (assign_versions st us ov)) \<le> length us"
  by (induction us arbitrary: ov) (simp_all add: valid_updates_def Let_def le_SucI)

lemma length_assign_versions [simp]: "length (assign_versions st us ov) = length us"
  by (induction us arbitrary: ov) (simp_all add: Let_def)

lemma length_fill_slots [simp]: "length (fill_slots slots posts) = length slots"
  by (induction slots posts rule: fill_slots.induct) auto

definition indices_ok :: "pre_update_data list \<Rightarrow> bool" where
  "indices_ok us \<longleftrightarrow> list_all (\<lambda>u. length (pre_index u) = 32) us"

lemma keys_ok_valid:
  "indices_ok us \<Longrightarrow> keys_ok (entries_of (valid_updates (assign_versions st us ov)))"
  using valid_updates_subset by (fastforce simp: indices_ok_def keys_ok_def entries_of_def list_all_iff)

lemma published_inv:
  assumes "store_inv D (sha256 C) st next vs" and "cache_agrees D st cache" and "vs \<noteq> []" and "length vs \<le> 2 ^ 63"
    and "tr_config T = config"
    and "sign_head C config t (word_of_nat (length vs)) (root_value (sha256 C) (log_leaves (sha256 C) vs)) = Inr th"
  shows "tree_inv C D (T\<lparr>tr_store := set_head (enc_tree_head D th) st, tr_node_cache := cache,
    tr_latest := Some th\<rparr>) next vs"
proof -
  let ?st = "set_head (enc_tree_head D th) st"
  have "store_inv D (sha256 C) ?st next vs"
    using assms(1) store_inv_cong [of ?st st] by (simp add: set_head_def families)
  moreover have "cache_agrees D ?st cache"
    using assms(2) cache_agrees_cong [of ?st st] by (simp add: set_head_def families)
  moreover have "get_head ?st = Some (enc_tree_head D th)"
    by (simp add: set_head_def get_head_def)
  ultimately show ?thesis using assms(3-6) by (auto simp: tree_inv_def head_of_def)
qed

lemma apply_batch_spec:
  assumes inv: "tree_inv C D T next vs" and D: "codec_laws D" and sha: "\<And>x. length (sha256 C x) = 32"
    and signs: "config_signs C (tr_config T)" and us: "indices_ok us"
    and room: "length vs < 2 ^ 63" "unat next + length us < 2 ^ 64"
  defines "valid \<equiv> valid_updates (assign_versions (tr_store T) us Map.empty)"
  assumes some: "valid \<noteq> []"
  shows "\<exists>T' results th ptr. apply_batch C D now us T = (T', Inr (results, th)) \<and> length results = length us \<and>
    tr_latest T' = Some th \<and> tr_config T' = tr_config T \<and>
    tree_inv C D T' (ptr + 1) (vs @ [\<lparr>tv_timestamp = now, tv_ptr = ptr,
      tv_map = rev (entries_of valid) @ latest_map vs\<rparr>]) \<and> unat ptr < unat next + length us"
proof -
  have us_some: "us \<noteq> []" using some by (auto simp: valid_def valid_updates_def)
  have keys: "keys_ok (entries_of valid)" using keys_ok_valid [OF us] by (simp add: valid_def)
  have "unat next + length valid < 2 ^ 64"
    using room(2) length_valid_updates [of "tr_store T" us Map.empty] by (simp add: valid_def)
  then obtain st cache results ptr where wb: "write_batch C D now valid T =
      (T\<lparr>tr_store := st, tr_node_cache := cache\<rparr>,
       Inr (root_value (sha256 C) (log_leaves (sha256 C) (vs @ [\<lparr>tv_timestamp = now, tv_ptr = ptr,
          tv_map = rev (entries_of valid) @ latest_map vs\<rparr>])), results))"
    "store_inv D (sha256 C) st (ptr + 1) (vs @ [\<lparr>tv_timestamp = now, tv_ptr = ptr,
        tv_map = rev (entries_of valid) @ latest_map vs\<rparr>])" "cache_agrees D st cache"
      "unat ptr < unat next + length valid"
    using write_batch_correct [OF _ _ tree_inv_size [OF inv] room(1) D sha some keys] inv
    unfolding tree_inv_def by blast
  let ?vs = "vs @ [\<lparr>tv_timestamp = now, tv_ptr = ptr, tv_map = rev (entries_of valid) @ latest_map vs\<rparr>]"
  let ?rt = "root_value (sha256 C) (log_leaves (sha256 C) ?vs)"
  have "length ?rt = 32" using sha by (intro length_root_value) (auto simp: log_leaves_def log_leaf_value_def)
  then obtain th where th: "sign_head C (tr_config T) now (latest_size T + 1) ?rt = Inr th"
    using signs unfolding config_signs_def by blast
  let ?T = "T\<lparr>tr_store := set_head (enc_tree_head D th) st, tr_node_cache := cache, tr_latest := Some th\<rparr>"
  have size: "latest_size T + 1 = word_of_nat (length ?vs)"
    using tree_inv_size [OF inv, symmetric] by (simp add: add.commute)
  have "tree_inv C D ?T (ptr + 1) ?vs"
    using published_inv [OF wb(2,3) _ _ refl, of T now th] th size room(1) by simp
  moreover obtain slots where "apply_batch C D now us T = (?T, Inr (slots, th))" "length slots = length us"
    using us_some some wb(1) th unfolding apply_batch_def
    by (simp add: Let_def flip: valid_def)
  moreover have "unat ptr < unat next + length us"
    using wb(4) length_valid_updates [of "tr_store T" us Map.empty] by (simp add: valid_def)
  ultimately show ?thesis by fastforce
qed

section \<open>The other operations\<close>

lemma tree_inv_same:
  assumes "tree_inv C D T next vs" and "tr_config T' = tr_config T" and "tr_latest T' = tr_latest T"
    and "get_log (tr_store T') = get_log (tr_store T)" and "get_prefix (tr_store T') = get_prefix (tr_store T)"
    and "get_timestamp_cf (tr_store T') = get_timestamp_cf (tr_store T)"
    and "get_prefix_root_cf (tr_store T') = get_prefix_root_cf (tr_store T)"
    and "get_prefix_ptr_cf (tr_store T') = get_prefix_ptr_cf (tr_store T)"
    and "get_meta (tr_store T') = get_meta (tr_store T)"
    and "cache_agrees D (tr_store T) (tr_node_cache T')"
  shows "tree_inv C D T' next vs"
  using assms store_inv_cong [of "tr_store T'" "tr_store T"] cache_agrees_cong [of "tr_store T'" "tr_store T"]
  by (simp add: tree_inv_def families get_head_def)

lemma refresh_inv:
  assumes "tree_inv C D T next vs"
  shows "tree_inv C D (fst (refresh_head_timestamp D now T)) next vs"
proof (cases "tr_latest T")
  case None
  then show ?thesis using assms by (simp add: refresh_head_timestamp_def)
next
  case (Some th)
  let ?th = "th\<lparr>th_timestamp := as_i64 now\<rparr>"
  have "sign_head C config t n rt = Inr th \<Longrightarrow> sign_head C config now n rt = Inr ?th" for config t n rt
    by (auto simp: sign_head_def res_simps)
  then have "head_of C (tr_config T) vs (Some ?th)"
    using assms Some by (auto simp: tree_inv_def head_of_def) blast
  then show ?thesis
    using assms Some store_inv_cong [of "set_head (enc_tree_head D ?th) (tr_store T)" "tr_store T"]
      cache_agrees_cong [of "set_head (enc_tree_head D ?th) (tr_store T)" "tr_store T"]
    by (simp add: refresh_head_timestamp_def tree_inv_def Let_def set_head_def families get_head_def)
qed

text \<open>Erasure, pruning and auditor heads stay outside the families of the invariant.\<close>

definition same_tree :: "tree \<Rightarrow> tree \<Rightarrow> bool" where
  "same_tree T T' \<longleftrightarrow> tr_config T' = tr_config T \<and> tr_latest T' = tr_latest T \<and>
     tr_node_cache T' = tr_node_cache T \<and>
     cf_log (tr_store T') = cf_log (tr_store T) \<and> cf_prefix (tr_store T') = cf_prefix (tr_store T) \<and>
     cf_meta (tr_store T') = cf_meta (tr_store T) \<and> cf_history (tr_store T') = cf_history (tr_store T) \<and>
     cf_audit (tr_store T') = cf_audit (tr_store T) \<and> cf_timestamp (tr_store T') = cf_timestamp (tr_store T) \<and>
     cf_prefix_root (tr_store T') = cf_prefix_root (tr_store T) \<and>
     cf_prefix_ptr (tr_store T') = cf_prefix_ptr (tr_store T)"

lemma same_tree_refl [simp]: "same_tree T T"
  by (simp add: same_tree_def)

lemma same_tree_trans: "same_tree T T' \<Longrightarrow> same_tree T' T'' \<Longrightarrow> same_tree T T''"
  by (simp add: same_tree_def)

lemma same_tree_inv:
  assumes "same_tree T T'" and inv: "tree_inv C D T next vs"
  shows "tree_inv C D T' next vs"
proof (rule tree_inv_same [OF inv])
  show "cache_agrees D (tr_store T) (tr_node_cache T')"
    using inv assms(1) by (simp add: tree_inv_def same_tree_def)
qed (use assms(1) in \<open>simp_all add: same_tree_def families\<close>)

lemma drop_user_data_same: "same_tree T (drop_user_data pos T)"
  by (simp add: same_tree_def drop_user_data_def delete_value_def delete_opening_def)

lemma erase_same: "same_tree T (fst (erase label ver T))"
  by (simp add: erase_def drop_user_data_same split: option.split)

lemma prune_loop_same:
  "same_tree T (fst (prune_loop n ts life greatest history pruned T))"
proof (induction history arbitrary: pruned T)
  case (Cons h history)
  obtain ver pos where h: "h = (ver, pos)" by fastforce
  have drop: "same_tree T (fst (prune_loop n ts life greatest history (pruned + 1) (drop_user_data pos T)))"
    using same_tree_trans [OF drop_user_data_same Cons.IH] .
  show ?case
    by (cases "and_then (find_log_entry_for_prefix_pos T pos n) (get_timestamp (tr_store T))")
      (simp_all add: h drop Cons.IH)
qed simp

lemma prune_same: "same_tree T (fst (prune_expired_versions label T))"
  by (simp add: prune_expired_versions_def Let_def prune_loop_same split: option.split sum.split)

lemma set_auditor_head_same: "same_tree T (fst (set_auditor_head C D head keys T))"
  by (simp add: set_auditor_head_def split: sum.split prod.split) (simp add: same_tree_def)

text \<open>A restart on the database: the cache is empty and the auditor heads are forgotten.\<close>

lemma restart_inv:
  assumes "tree_inv C D T next vs" and "codec_laws D"
  shows "\<exists>T'. tree_new D (tr_store T) (tr_config T) = Inr T' \<and> tree_inv C D T' next vs"
proof -
  have head: "get_head (tr_store T) = map_option (enc_tree_head D) (tr_latest T)"
    using assms(1) by (simp add: tree_inv_def)
  have dec: "dec_tree_head D (enc_tree_head D th) = Some th" for th
    using assms(2) by (simp add: codec_laws_def)
  let ?T = "\<lparr>tr_store = tr_store T, tr_node_cache = Map.empty, tr_config = tr_config T, tr_latest = tr_latest T,
      tr_auditors = []\<rparr>"
  have "tree_new D (tr_store T) (tr_config T) = Inr ?T"
    using head by (cases "tr_latest T") (simp_all add: tree_new_def dec ok_or_def)
  moreover have "tree_inv C D ?T next vs"
    using assms(1) by (simp add: tree_inv_def)
  ultimately show ?thesis by blast
qed

section \<open>Steps\<close>

text \<open>
  One operation of the server, with the capacity of the counters it needs. The node cache may
  lose entries at any time, and gains those that reads load.
\<close>

inductive tree_step :: "crypto \<Rightarrow> codec \<Rightarrow> tree \<Rightarrow> tree \<Rightarrow> bool" for C :: crypto and D :: codec where
  step_batch: "indices_ok us \<Longrightarrow> get_next_prefix_version (tr_store T) = Inr next \<Longrightarrow>
    unat next + length us < 2 ^ 64 \<Longrightarrow> unat (latest_size T) < 2 ^ 63 \<Longrightarrow>
    tree_step C D T (fst (apply_batch C D now us T))"
| step_refresh: "tree_step C D T (fst (refresh_head_timestamp D now T))"
| step_auditor: "tree_step C D T (fst (set_auditor_head C D head keys T))"
| step_erase: "tree_step C D T (fst (erase label ver T))"
| step_prune: "tree_step C D T (fst (prune_expired_versions label T))"
| step_cache: "(\<And>p e. cache p = Some e \<Longrightarrow> tr_node_cache T p = Some e \<or> stored D (tr_store T) p = Inr e) \<Longrightarrow>
    tree_step C D T (T\<lparr>tr_node_cache := cache\<rparr>)"
| step_restart: "tree_new D (tr_store T) (tr_config T) = Inr T' \<Longrightarrow> tree_step C D T T'"

inductive tree_steps :: "crypto \<Rightarrow> codec \<Rightarrow> tree \<Rightarrow> tree \<Rightarrow> bool" for C :: crypto and D :: codec where
  steps_refl: "tree_steps C D T T"
| steps_more: "tree_steps C D T T' \<Longrightarrow> tree_step C D T' T'' \<Longrightarrow> tree_steps C D T T''"

lemma apply_batch_unchanged:
  "valid_updates (assign_versions (tr_store T) us Map.empty) = [] \<Longrightarrow> fst (apply_batch C D now us T) = T"
  by (simp add: apply_batch_def Let_def)

lemma no_new_version:
  "tree_inv C D T next vs \<Longrightarrow> \<exists>next' new. tree_inv C D T next' (vs @ new) \<and> length new \<le> 1"
  by (intro exI [of _ "next"] exI [of _ "[]"]) simp

lemma same_tree_step:
  "same_tree T T' \<Longrightarrow> tree_inv C D T next vs \<Longrightarrow>
    tr_config T' = tr_config T \<and> (\<exists>next' new. tree_inv C D T' next' (vs @ new) \<and> length new \<le> 1)"
  using no_new_version [OF same_tree_inv] by (simp add: same_tree_def)

lemma tree_step_inv:
  assumes "tree_step C D T T'" and inv: "tree_inv C D T next vs" and D: "codec_laws D"
    and sha: "\<And>x. length (sha256 C x) = 32" and signs: "config_signs C (tr_config T)"
  shows "tr_config T' = tr_config T \<and> (\<exists>next' new. tree_inv C D T' next' (vs @ new) \<and> length new \<le> 1)"
  using assms(1)
proof (cases rule: tree_step.cases)
  case (step_batch us n now)
  have next_eq: "n = next" using step_batch(3) inv by (simp add: tree_inv_def store_inv_def)
  show ?thesis
  proof (cases "valid_updates (assign_versions (tr_store T) us Map.empty) = []")
    case True
    then show ?thesis using inv step_batch(1) apply_batch_unchanged no_new_version by simp
  next
    case False
    have "length vs < 2 ^ 63" using step_batch(5) tree_inv_size [OF inv] by simp
    from apply_batch_spec [OF inv D sha signs step_batch(2) this _ False] step_batch(4) next_eq
    obtain T2 ptr v where "fst (apply_batch C D now us T) = T2" "tr_config T2 = tr_config T"
      "tree_inv C D T2 (ptr + 1) (vs @ [v])" by (metis fst_conv)
    then show ?thesis using step_batch(1) by (intro conjI exI [of _ "ptr + 1"] exI [of _ "[v]"]) simp_all
  qed
next
  case (step_refresh now)
  have "tr_config (fst (refresh_head_timestamp D now T)) = tr_config T"
    by (simp add: refresh_head_timestamp_def Let_def split: option.split)
  then show ?thesis using no_new_version [OF refresh_inv [OF inv]] step_refresh by simp
next
  case (step_auditor head keys)
  then show ?thesis using same_tree_step [OF set_auditor_head_same inv] by simp
next
  case (step_erase label ver)
  then show ?thesis using same_tree_step [OF erase_same inv] by simp
next
  case (step_prune label)
  then show ?thesis using same_tree_step [OF prune_same inv] by simp
next
  case (step_cache cache)
  have "cache_agrees D (tr_store T) cache"
    using step_cache(2) inv by (fastforce simp: tree_inv_def cache_agrees_def)
  then have "tree_inv C D T' next vs" using step_cache(1) by (intro tree_inv_same [OF inv]) simp_all
  then show ?thesis using step_cache(1) no_new_version by simp
next
  case step_restart
  obtain T2 where T2: "tree_new D (tr_store T) (tr_config T) = Inr T2" "tree_inv C D T2 next vs"
    using restart_inv [OF inv D] by blast
  moreover from T2(1) have "tr_config T2 = tr_config T" by (auto simp: tree_new_def res_simps)
  ultimately show ?thesis using step_restart no_new_version by simp
qed

lemma tree_steps_inv:
  assumes "tree_steps C D T T'" and "tree_inv C D T next vs" and "codec_laws D"
    and "\<And>x. length (sha256 C x) = 32" and "config_signs C (tr_config T)"
  shows "tr_config T' = tr_config T \<and> (\<exists>next' new. tree_inv C D T' next' (vs @ new))"
  using assms
proof (induction rule: tree_steps.induct)
  case (steps_refl T)
  then show ?case using no_new_version by blast
next
  case (steps_more T T' T'')
  then obtain next' new where "tree_inv C D T' next' (vs @ new)" and config: "tr_config T' = tr_config T"
    by blast
  from tree_step_inv [OF steps_more.hyps(2) this(1) steps_more.prems(2,3)] steps_more.prems(4) config
  show ?case by (metis append_assoc)
qed

lemma tree_inv_empty:
  "tree_new D empty_store config = Inr T \<Longrightarrow> tree_inv C D T 0 []"
  by (auto simp: tree_new_def get_head_def empty_store_def res_simps tree_inv_def store_inv_def log_leaves_def
      log_rep_empty [unfolded empty_store_def] get_next_prefix_version_def get_meta_def get_prefix_def
      head_of_def NEXT_PREFIX_VERSION_KEY_def)

end
