(* ===== verification/TreeProps.thy ===== *)
theory TreeProps
  imports TreeState
begin

text \<open>
  What the invariant of the server's state gives: versions are sealed one after the other and
  never change, each stays answerable with proofs the client accepts, and the log entry of
  a prefix tree position is found by binary search.
\<close>

section \<open>Finding the log entry of a position\<close>

lemma find_entry_loop_correct:
  assumes "\<And>i. i < n \<Longrightarrow> get_prefix_ptr (tr_store T) (word_of_nat i) = Inr (ptrs i)"
    and "\<And>i j. i < j \<Longrightarrow> j < n \<Longrightarrow> ptrs i < ptrs j" and "n \<le> 2 ^ 63"
    and "unat lo \<le> unat hi" and "unat hi < n" and "pos \<le> ptrs (unat hi)"
    and "\<And>j. j < unat lo \<Longrightarrow> ptrs j < pos"
  shows "\<exists>i<n. find_entry_loop T pos lo hi = Inr (word_of_nat i) \<and> pos \<le> ptrs i \<and> (\<forall>j<i. ptrs j < pos)"
  using assms(4-)
proof (induction "unat hi - unat lo" arbitrary: lo hi rule: less_induct)
  case less
  have word: "word_of_nat (unat x) = x" for x :: u64 by simp
  show ?case
  proof (cases "lo < hi")
    case False
    then have "lo = hi" using less.prems(1) by (simp add: word_le_nat_alt word_unat_eq_iff not_less)
    then show ?thesis
      using less.prems by (intro exI [of _ "unat lo"]) (simp add: find_entry_loop.simps [of T pos hi hi])
  next
    case True
    let ?m = "lo + (hi - lo) div 2"
    have m: "unat ?m = unat lo + (unat hi - unat lo) div 2" "unat (?m + 1) = Suc (unat ?m)"
      using mid_bounds [OF True] by simp_all
    have lt: "unat lo < unat hi" using True by (simp add: word_less_nat_alt)
    then have b: "unat lo \<le> unat ?m" "unat ?m < unat hi" unfolding m(1) by linarith+
    have "get_prefix_ptr (tr_store T) ?m = Inr (ptrs (unat ?m))"
      using assms(1) [of "unat ?m"] b less.prems(2) unfolding word by simp
    then have step: "find_entry_loop T pos lo hi =
        (if pos \<le> ptrs (unat ?m) then find_entry_loop T pos lo ?m else find_entry_loop T pos (?m + 1) hi)"
      using True by (simp add: find_entry_loop.simps [of T pos lo hi])
    show ?thesis
    proof (cases "pos \<le> ptrs (unat ?m)")
      case True
      then show ?thesis
        unfolding step using b lt less.prems by (simp only: if_True) (intro less.hyps; simp)
    next
      case False
      have "ptrs j < pos" if "j < unat (?m + 1)" for j
      proof (cases "j = unat ?m")
        case True
        then show ?thesis using False by simp
      next
        case j: False
        then have "j < unat ?m" using that m(2) by simp
        then have "ptrs j < ptrs (unat ?m)" using assms(2) b(2) less.prems(2) by simp
        then show ?thesis using False by simp
      qed
      then show ?thesis
        unfolding step using False b lt less.prems(1-3) m(2) by (simp only: if_False) (intro less.hyps; simp)
    qed
  qed
qed

text \<open>C11. The log entry of a prefix tree position. In a server state of the invariant, for a
  position some version covers, the binary search of \<open>find_log_entry_for_prefix_pos\<close> returns
  the first log entry whose prefix tree reaches that position; it reads no entry outside the
  log and does not overflow at any size.\<close>

theorem find_log_entry_correct:
  assumes "tree_inv C D T nxt vs" and "vs \<noteq> []" and "pos \<le> tv_ptr (last vs)"
  shows "\<exists>i<length vs. find_log_entry_for_prefix_pos T pos (latest_size T) = Inr (word_of_nat i) \<and>
    pos \<le> tv_ptr (vs ! i) \<and> (\<forall>j<i. tv_ptr (vs ! j) < pos)"
proof -
  have hi: "unat (latest_size T - 1) = length vs - 1"
    using tree_inv_size [OF assms(1)] assms(2) by (subst unat_minus_one) auto
  have ptrs: "get_prefix_ptr (tr_store T) (word_of_nat i) = Inr (tv_ptr (vs ! i))" if "i < length vs" for i
    using assms(1) that store_inv_version by (auto simp: tree_inv_def version_stored_def)
  have mono: "tv_ptr (vs ! i) < tv_ptr (vs ! j)" if "i < j" "j < length vs" for i j
    using assms(1) that by (auto simp: tree_inv_def store_inv_def sorted_wrt_iff_nth_less)
  have n: "length vs \<le> 2 ^ 63" using assms(1) by (simp add: tree_inv_def)
  show ?thesis
    unfolding find_log_entry_for_prefix_pos_def
    using find_entry_loop_correct [of "length vs" T "\<lambda>i. tv_ptr (vs ! i)" 0 "latest_size T - 1" pos, OF ptrs mono n]
      assms(2,3) hi by (simp add: last_conv_nth)
qed

section \<open>A sample server\<close>

lemma sample_sha [simp]: "sha256 sample_crypto = pad32"
  by (simp add: sample_crypto_def)

lemma sample_signs: "config_signs sample_crypto sample_private_config"
  by (simp add: config_signs_def sign_head_def construct_tree_head_tbs_def serialize_configuration_def
      sample_crypto_def sample_private_config_def verifying_key_def vk_to_bytes_def opaque_u16_def with_root_def
      res_simps Let_def DEPLOYMENT_MODE_THIRD_PARTY_AUDITING_def)

definition sample_update :: "version \<Rightarrow> bytes \<Rightarrow> pre_update_data" where
  "sample_update v c = \<lparr>pre_label = [1], pre_value = c, pre_last = 0, pre_version = v, pre_index = sample_index v,
     pre_vrf_proof = [], pre_commitment = c, pre_opening = []\<rparr>"

lemma sample_server: "tree_new D empty_store sample_private_config = Inr (sample_tree empty_store)"
  by (simp add: tree_new_def get_head_def empty_store_def sample_tree_def)

lemma sample_tree_config [simp]: "tr_config (sample_tree st) = sample_private_config"
  by (simp add: sample_tree_def)

lemma sample_tree_store [simp]: "tr_store (sample_tree st) = st"
  by (simp add: sample_tree_def)

lemma sample_valid:
  "valid_updates (assign_versions empty_store [sample_update 0 [7]] Map.empty) = [(sample_update 0 [7], 0)]"
  by (simp add: valid_updates_def next_version_def get_label_history_def empty_store_def sample_update_def)

lemma sample_update_ok:
  "indices_ok [sample_update 0 [7]]" "entries_of [(sample_update 0 [7], 0)] = [(sample_index 0, [7])]"
  by (simp_all add: indices_ok_def entries_of_def sample_update_def length_sample_index)

lemma sample_inv: "tree_inv sample_crypto sample_codec (sample_tree empty_store) 0 []"
  using tree_inv_empty [OF sample_server] .

lemma sample_batch:
  obtains T results th ptr where
    "apply_batch sample_crypto sample_codec 9 [sample_update 0 [7]] (sample_tree empty_store) = (T, Inr (results, th))"
    "tr_config T = sample_private_config"
    "tree_inv sample_crypto sample_codec T (ptr + 1)
      [\<lparr>tv_timestamp = 9, tv_ptr = ptr, tv_map = [(sample_index 0, [7])]\<rparr>]"
  using apply_batch_spec [OF sample_inv sample_codec_laws, of "[sample_update 0 [7]]" 9] that
  by (auto simp: sample_signs sample_valid sample_update_ok latest_map_def simp del: assign_versions.simps)

section \<open>Properties\<close>

text \<open>C6. Sealing a version. In a server state of the invariant, a batch of updates of which at
  least one is not raced succeeds: it answers every update in order, appends exactly one
  version to the log, at the given time, whose map is the latest one with the accepted updates
  inserted in order, publishes a signed head of the new size over the new root, and keeps
  the invariant.\<close>

theorem apply_batch_seals_version:
  assumes "tree_inv C D T nxt vs" and "codec_laws D" and "\<And>x. length (sha256 C x) = 32"
    and "config_signs C (tr_config T)" and "indices_ok us"
    and "length vs < 2 ^ 63" and "unat nxt + length us < 2 ^ 64"
    and "valid_updates (assign_versions (tr_store T) us Map.empty) \<noteq> []"
  shows "\<exists>T' results th ptr. apply_batch C D now us T = (T', Inr (results, th)) \<and> length results = length us \<and>
    tr_latest T' = Some th \<and>
    tree_inv C D T' (ptr + 1) (vs @ [\<lparr>tv_timestamp = now, tv_ptr = ptr,
      tv_map = rev (entries_of (valid_updates (assign_versions (tr_store T) us Map.empty))) @ latest_map vs\<rparr>])"
  using apply_batch_spec [OF assms] by blast

theorem apply_batch_seals_version_witness:
  "\<exists>T' results th ptr.
    apply_batch sample_crypto sample_codec 9 [sample_update 0 [7]] (sample_tree empty_store) = (T', Inr (results, th)) \<and>
    length results = 1 \<and> tr_latest T' = Some th \<and>
    tree_inv sample_crypto sample_codec T' (ptr + 1)
      [\<lparr>tv_timestamp = 9, tv_ptr = ptr, tv_map = [(sample_index 0, [7])]\<rparr>]"
  using apply_batch_seals_version [OF sample_inv sample_codec_laws, of "[sample_update 0 [7]]" 9]
  by (auto simp: sample_signs sample_valid sample_update_ok latest_map_def simp del: assign_versions.simps)

text \<open>C1. The log of versions is append-only. Whatever operations a server goes through from an
  empty database, batches, head refreshes, auditor heads, erasures, prunings, losses and loads
  of the node cache, restarts, its state satisfies the invariant for some list of versions,
  and in every later state the earlier list is a prefix of the later one.\<close>

theorem versions_append_only:
  assumes "tree_new D empty_store config = Inr T0" and "tree_steps C D T0 T" and "tree_steps C D T T'"
    and "codec_laws D" and "\<And>x. length (sha256 C x) = 32" and "config_signs C config"
  shows "\<exists>nxt vs nxt' more. tree_inv C D T nxt vs \<and> tree_inv C D T' nxt' (vs @ more)"
proof -
  have config: "tr_config T0 = config" using assms(1) by (auto simp: tree_new_def res_simps)
  obtain nxt vs where T: "tr_config T = config" "tree_inv C D T nxt vs"
    using tree_steps_inv [OF assms(2) tree_inv_empty [OF assms(1)] assms(4,5)] assms(6) config by auto
  then show ?thesis using tree_steps_inv [OF assms(3) T(2) assms(4,5)] assms(6) by blast
qed

theorem versions_append_only_witness:
  "\<exists>T nxt vs nxt' more. tree_inv sample_crypto sample_codec (sample_tree empty_store) nxt vs \<and>
    tree_inv sample_crypto sample_codec T nxt' (vs @ more) \<and>
    T = fst (apply_batch sample_crypto sample_codec 9 [sample_update 0 [7]] (sample_tree empty_store))"
proof -
  let ?T = "fst (apply_batch sample_crypto sample_codec 9 [sample_update 0 [7]] (sample_tree empty_store))"
  have "tree_step sample_crypto sample_codec (sample_tree empty_store) ?T"
    by (rule tree_step.step_batch [of _ _ 0])
      (simp_all add: sample_update_ok get_next_prefix_version_def get_meta_def
        empty_store_def latest_size_def sample_tree_def)
  then have "tree_steps sample_crypto sample_codec (sample_tree empty_store) ?T"
    using steps_refl steps_more by blast
  from versions_append_only [OF sample_server steps_refl this sample_codec_laws] sample_signs
  show ?thesis by simp
qed

text \<open>C5. Every version stays answerable. In a server state of the invariant, for every log
  entry the server finds its prefix tree, proves any list of versions of a label against it, and
  the client computes from each result the prefix root on record for that entry, with the
  commitments of that entry's map.\<close>

theorem past_version_answered:
  assumes "tree_inv C D T nxt vs" and "i < length vs"
    and "\<forall>v\<in>set versions. \<exists>pf. config_vrf_prove C (tr_config T) label v = Inr (idx v, pf) \<and> length (idx v) = 32"
  shows "\<exists>ptr pf rt. get_prefix_ptr (tr_store T) (word_of_nat i) = Inr ptr \<and>
    get_prefix_root (tr_store T) (word_of_nat i) = Inr rt \<and>
    get_timestamp (tr_store T) (word_of_nat i) = Inr (tv_timestamp (vs ! i)) \<and>
    generate_ladder_proof C D T ptr label versions =
      Inr (pf, map (\<lambda>v. (v, map_of (tv_map (vs ! i)) (idx v))) versions) \<and>
    (\<forall>j<length versions. compute_root_from_result (sha256 C) pf j (idx (versions ! j))
        (map_of (tv_map (vs ! i)) (idx (versions ! j))) (offset_of pf j) =
      Inr (rt, psr_depth (pp_results pf ! j)))"
proof -
  have v: "version_stored D (sha256 C) (tr_store T) (word_of_nat i) (vs ! i)"
    using assms(1,2) store_inv_version by (auto simp: tree_inv_def)
  then have rep: "rep_by (stored D (tr_store T)) (sha256 C) (Some (tv_ptr (vs ! i))) (tv_map (vs ! i))"
    by (simp add: version_stored_def)
  have "cache_agrees D (tr_store T) (tr_node_cache T)" using assms(1) by (simp add: tree_inv_def)
  from ladder_proof_loop_correct [OF rep this assms(3)] v show ?thesis
    by (auto simp: generate_ladder_proof_def accepted_as_def offset_of_def version_stored_def)
qed

theorem past_version_answered_witness:
  "\<exists>T ptr pf rt.
    apply_batch sample_crypto sample_codec 9 [sample_update 0 [7]] (sample_tree empty_store) = T \<and>
    get_prefix_ptr (tr_store (fst T)) 0 = Inr ptr \<and> get_prefix_root (tr_store (fst T)) 0 = Inr rt \<and>
    generate_ladder_proof sample_crypto sample_codec (fst T) ptr [1] [0] = Inr (pf, [(0, Some [7])]) \<and>
    compute_root_from_result pad32 pf 0 (sample_index 0) (Some [7]) 0 = Inr (rt, psr_depth (pp_results pf ! 0))"
proof -
  obtain T results th ptr where T:
    "apply_batch sample_crypto sample_codec 9 [sample_update 0 [7]] (sample_tree empty_store) = (T, Inr (results, th))"
    "tr_config T = sample_private_config"
    "tree_inv sample_crypto sample_codec T (ptr + 1)
      [\<lparr>tv_timestamp = 9, tv_ptr = ptr, tv_map = [(sample_index 0, [7])]\<rparr>]"
    by (rule sample_batch)
  show ?thesis
    using past_version_answered [OF T(3), of 0 "[0]" "[1]" sample_index] sample_vrf T(1,2)
    by (fastforce simp: offset_of_def)
qed

theorem find_log_entry_correct_witness:
  "\<exists>T ptr. fst (apply_batch sample_crypto sample_codec 9 [sample_update 0 [7]] (sample_tree empty_store)) = T \<and>
    find_log_entry_for_prefix_pos T ptr (latest_size T) = Inr 0"
proof -
  obtain T results th ptr where T:
    "apply_batch sample_crypto sample_codec 9 [sample_update 0 [7]] (sample_tree empty_store) = (T, Inr (results, th))"
    "tr_config T = sample_private_config"
    "tree_inv sample_crypto sample_codec T (ptr + 1)
      [\<lparr>tv_timestamp = 9, tv_ptr = ptr, tv_map = [(sample_index 0, [7])]\<rparr>]"
    by (rule sample_batch)
  show ?thesis
    using find_log_entry_correct [OF T(3), of ptr] T(1) by auto
qed

end
