(* ===== verification/Batcher.thy ===== *)
theory Batcher
  imports WritePath
begin

text \<open>
  The batching of update requests, \<^verbatim>\<open>process_batch\<close> of \<^verbatim>\<open>src/src/batcher.rs\<close>: under the write lock
  every request is compared with the label's greatest version and given its versions, then the
  batch is committed; the answers are computed on the tree the batch left. A job is known by
  a number, standing for its reply channel, and the model returns the replies in the order
  they are sent. The randomness of the openings is a parameter: the \<open>i\<close>-th new version of
  the batch gets \<open>openings i\<close>.
\<close>

record update_job =
  job_reply :: nat
  job_req :: update_request

type_synonym reply = "nat \<times> update_response res"

section \<open>Phase 1: versions\<close>

definition current_greatest :: "store \<Rightarrow> (bytes \<rightharpoonup> version) \<Rightarrow> bytes \<Rightarrow> version option" where
  "current_greatest st overlay label =
     (case overlay label of
        Some v \<Rightarrow> Some v
      | None \<Rightarrow> let history = get_label_history st label in
                if history = [] then None else Some (fst (last history)))"

definition is_behind :: "version option \<Rightarrow> version option \<Rightarrow> bool" where
  "is_behind claimed actual =
     (case (claimed, actual) of
        (None, Some _) \<Rightarrow> True
      | (Some c, Some a) \<Rightarrow> c < a
      | _ \<Rightarrow> False)"

definition new_versions :: "version option \<Rightarrow> nat \<Rightarrow> version list" where
  "new_versions greatest count =
     (let start_ver = (case greatest of Some v \<Rightarrow> wrapping_add_u32 v 1 | None \<Rightarrow> 0)
      in map (wrapping_add_u32 start_ver) [0..<count])"

record sorted_jobs =
  sj_replies :: "reply list"
  sj_catchups :: "update_job list"
  sj_accepted :: "(update_job \<times> version list) list"

fun sort_jobs :: "store \<Rightarrow> (bytes \<rightharpoonup> version) \<Rightarrow> update_job list \<Rightarrow> sorted_jobs" where
  "sort_jobs st overlay [] = \<lparr>sj_replies = [], sj_catchups = [], sj_accepted = []\<rparr>"
| "sort_jobs st overlay (job # jobs) =
     (let req = job_req job; label = ureq_label req; greatest = current_greatest st overlay label in
      if ureq_greatest_version req \<noteq> greatest then
        (let r = sort_jobs st overlay jobs in
         if is_behind (ureq_greatest_version req) greatest then r\<lparr>sj_catchups := job # sj_catchups r\<rparr>
         else r\<lparr>sj_replies := (job_reply job, Inl (Kt VersionConflict)) # sj_replies r\<rparr>)
      else if ureq_values req = [] then
        (let r = sort_jobs st overlay jobs in
         r\<lparr>sj_replies := (job_reply job, Inl (Anyhow ''Empty values'')) # sj_replies r\<rparr>)
      else if length label > 255 then
        (let r = sort_jobs st overlay jobs in
         r\<lparr>sj_replies := (job_reply job, Inl (Anyhow ''Label exceeds 255 bytes'')) # sj_replies r\<rparr>)
      else
        let versions = new_versions greatest (length (ureq_values req));
            r = sort_jobs st (overlay(label \<mapsto> last versions)) jobs in
        r\<lparr>sj_accepted := (job, versions) # sj_accepted r\<rparr>)"

section \<open>Phase 2: cryptography\<close>

definition crypto_jobs :: "(update_job \<times> version list) list \<Rightarrow> (bytes \<times> bytes \<times> u64 \<times> version) list" where
  "crypto_jobs accepted =
     concat (map (\<lambda>(job, versions). map (\<lambda>(val, ver).
        (ureq_label (job_req job), val, or_zero (ureq_last (job_req job)), ver))
       (zip (ureq_values (job_req job)) versions)) accepted)"

definition precompute :: "crypto \<Rightarrow> private_config \<Rightarrow> (nat \<Rightarrow> bytes) \<Rightarrow>
    nat \<times> bytes \<times> bytes \<times> u64 \<times> version \<Rightarrow> pre_update_data res" where
  "precompute C config openings cj =
     (case cj of (i, label, val, last_size, ver) \<Rightarrow>
      and_then (config_vrf_prove C config label ver) (\<lambda>(index, vrf_proof).
      and_then (commit (hmac_sha256 C) label ver val None (openings i)) (\<lambda>commitment.
      Inr \<lparr>pre_label = label, pre_value = val, pre_last = last_size, pre_version = ver,
        pre_index = index, pre_vrf_proof = vrf_proof, pre_commitment = commitment,
        pre_opening = openings i\<rparr>)))"

section \<open>Phases 3 and 4: commit and answer\<close>

text \<open>
  A task that answers a request sends its result; a task that panics drops the reply channel, which
  \<^verbatim>\<open>submit\<close> reports to the caller, and that report is its reply here. The reads of an update have no
  unbounded loop, so every task ends.
\<close>

definition sent_by_task :: "'a res \<Rightarrow> 'a res" where
  "sent_by_task r = (case r of Inl (Panic p) \<Rightarrow> Inl (Anyhow ''Batcher dropped response'') | _ \<Rightarrow> r)"

definition process_catchups :: "crypto \<Rightarrow> codec \<Rightarrow> tree \<Rightarrow> update_job list \<Rightarrow> reply list" where
  "process_catchups C D T jobs = map (\<lambda>job. (job_reply job, sent_by_task (catch_up_update C D T (job_req job)))) jobs"

definition first_error :: "'a res list \<Rightarrow> err option" where
  "first_error xs = (case filter isl xs of [] \<Rightarrow> None | x # _ \<Rightarrow> Some (projl x))"

fun answer_jobs :: "crypto \<Rightarrow> codec \<Rightarrow> tree \<Rightarrow> (update_job \<times> version list) list \<Rightarrow>
    pre_update_data list \<Rightarrow> post_update_data res list \<Rightarrow> reply list" where
  "answer_jobs C D T [] pres results = []"
| "answer_jobs C D T ((job, versions) # jobs) pres results =
     (let n = length versions; group = take n results in
      (job_reply job,
        case first_error group of
          Some e \<Rightarrow> Inl e
        | None \<Rightarrow> sent_by_task (and_then (last group) (post_update C D T (take n pres))))
      # answer_jobs C D T jobs (drop n pres) (drop n results))"

text \<open>A panic while the batch is applied ends the worker: the waiting requests get no reply from it.\<close>

definition process_batch :: "crypto \<Rightarrow> codec \<Rightarrow> u64 \<Rightarrow> (nat \<Rightarrow> bytes) \<Rightarrow> update_job list \<Rightarrow> tree \<Rightarrow>
    tree \<times> reply list" where
  "process_batch C D now openings batch T =
     (let sorted = sort_jobs (tr_store T) Map.empty batch;
          accepted = sj_accepted sorted; catchups = sj_catchups sorted; replies = sj_replies sorted in
      if accepted = [] then (T, replies @ process_catchups C D T catchups)
      else
        case map_res (precompute C (tr_config T) openings) (enumerate 0 (crypto_jobs accepted)) of
          Inl e \<Rightarrow>
            (T, replies @ process_catchups C D T catchups @
                map (\<lambda>(job, _). (job_reply job, Inl (Anyhow ''Batch crypto failed''))) accepted)
        | Inr pres \<Rightarrow>
            (case apply_batch C D now pres T of
               (T', Inl (Panic p)) \<Rightarrow> (T', replies)
             | (T', Inl e) \<Rightarrow>
                 (T', replies @ process_catchups C D T' catchups @
                    map (\<lambda>(job, _). (job_reply job, Inl (Anyhow ''Batch commit failed''))) accepted)
             | (T', Inr (results, _)) \<Rightarrow>
                 (T', replies @ process_catchups C D T' catchups @
                    answer_jobs C D T' accepted pres results)))"

section \<open>The worker's queue\<close>

text \<open>
  The worker collects jobs until there are 4000 or its timer fires, and then processes them;
  a step of it is a job received, with the current time and randomness for the case that it
  fills the batch, the timer, or the channel found closed, which ends it: the jobs it still holds
  are dropped, and it takes no further step. A panic while a batch is applied would end it as well;
  in the states a server reaches there is none (\<open>process_batch_spec\<close>).
\<close>

definition MAX_BATCH_SIZE :: nat where "MAX_BATCH_SIZE = 4000"

datatype worker_event = Received update_job | Closed | Timer

record worker =
  wk_tree :: tree
  wk_batch :: "update_job list"
  wk_running :: bool

definition worker_step :: "crypto \<Rightarrow> codec \<Rightarrow> u64 \<Rightarrow> (nat \<Rightarrow> bytes) \<Rightarrow> worker_event \<Rightarrow> worker \<Rightarrow>
    worker \<times> reply list" where
  "worker_step C D now openings ev w =
     (let process = (\<lambda>batch. case process_batch C D now openings batch (wk_tree w) of
            (T, replies) \<Rightarrow> (w\<lparr>wk_tree := T, wk_batch := []\<rparr>, replies))
      in if \<not> wk_running w then (w, []) else case ev of
           Received job \<Rightarrow>
             (let batch = wk_batch w @ [job] in
              if length batch \<ge> MAX_BATCH_SIZE then process batch else (w\<lparr>wk_batch := batch\<rparr>, []))
         | Closed \<Rightarrow> (w\<lparr>wk_batch := [], wk_running := False\<rparr>, [])
         | Timer \<Rightarrow> if wk_batch w \<noteq> [] then process (wk_batch w) else (w, []))"

end
