(* ===== verification/BatcherProps.thy ===== *)
theory BatcherProps
  imports TreeProps Batcher "HOL-Library.Multiset"
begin

text \<open>
  The batching of updates: the versions a batch gives out are those the commit assigns, so no
  accepted update is raced, and every request of a batch gets exactly one reply.
\<close>

section \<open>Versions\<close>

lemma wrapping_add_u32_Suc:
  "wrapping_add_u32 (wrapping_add_u32 a i) 1 = wrapping_add_u32 a (Suc i)"
  by (simp add: wrapping_add_u32_def mod_Suc_eq)

definition following :: "version option \<Rightarrow> version" where
  "following greatest = (case greatest of None \<Rightarrow> 0 | Some v \<Rightarrow> wrapping_add_u32 v 1)"

lemma next_version_following: "next_version st overlay label = following (current_greatest st overlay label)"
  by (simp add: next_version_def current_greatest_def following_def Let_def split: option.split)

lemma new_versions_Cons:
  "new_versions greatest (Suc n) = following greatest # new_versions (Some (following greatest)) n"
proof -
  have eq: "new_versions g m = map (wrapping_add_u32 (following g)) [0..<m]" for g m
    by (simp add: new_versions_def following_def Let_def)
  have upt: "[0..<Suc n] = 0 # map Suc [0..<n]" by (simp add: upt_conv_Cons map_Suc_upt del: upt_Suc)
  have "following greatest mod 4294967296 = following greatest"
    by (simp add: following_def wrapping_add_u32_def split: option.split)
  then have zero: "wrapping_add_u32 (following greatest) 0 = following greatest"
    by (simp add: wrapping_add_u32_def)
  have shift: "wrapping_add_u32 (following greatest) (Suc i) =
      wrapping_add_u32 (following (Some (following greatest))) i" for i
    by (simp add: following_def [of "Some _"] wrapping_add_u32_def mod_simps)
  show ?thesis unfolding eq upt using zero shift by simp
qed

lemma current_greatest_upd:
  "current_greatest st (overlay(label \<mapsto> v)) l = (if l = label then Some v else current_greatest st overlay l)"
  by (simp add: current_greatest_def)

text \<open>The updates of one job in order.\<close>

definition unraced :: "store \<Rightarrow> (bytes \<rightharpoonup> version) \<Rightarrow> pre_update_data list \<Rightarrow> bool" where
  "unraced st overlay us \<longleftrightarrow> assign_versions st us overlay = map (\<lambda>u. Inr (u, pre_version u)) us"

lemma unraced_Nil: "unraced st overlay []"
  by (simp add: unraced_def)

lemma unraced_Cons:
  "pre_version u = following (current_greatest st overlay (pre_label u)) \<Longrightarrow>
    unraced st (overlay(pre_label u \<mapsto> pre_version u)) us \<Longrightarrow> unraced st overlay (u # us)"
  unfolding unraced_def assign_versions.simps next_version_following Let_def by simp

lemma unraced_job:
  assumes "map pre_version us = new_versions (current_greatest st overlay label) (length us)"
    and "\<forall>u\<in>set us. pre_label u = label" and "us \<noteq> []"
    and "unraced st (overlay(label \<mapsto> pre_version (last us))) rest"
  shows "unraced st overlay (us @ rest)"
  using assms
proof (induction us arbitrary: overlay)
  case (Cons u us)
  have u: "pre_version u = following (current_greatest st overlay label)" "pre_label u = label"
    "map pre_version us = new_versions (Some (pre_version u)) (length us)"
    using Cons.prems(1,2) by (auto simp: new_versions_Cons)
  have "unraced st (overlay(label \<mapsto> pre_version u)) (us @ rest)"
  proof (cases "us = []")
    case True
    then have "last (u # us) = u" by simp
    then show ?thesis using Cons.prems(4) unfolding True append_Nil by (simp only:)
  next
    case False
    have a: "map pre_version us =
        new_versions (current_greatest st (overlay(label \<mapsto> pre_version u)) label) (length us)"
      unfolding current_greatest_upd using u(3) by simp
    have b: "unraced st ((overlay(label \<mapsto> pre_version u))(label \<mapsto> pre_version (last us))) rest"
      unfolding fun_upd_upd using Cons.prems(4) False by (simp only: last.simps if_False)
    have "\<forall>u\<in>set us. pre_label u = label" using Cons.prems(2) by simp
    then show ?thesis by (rule Cons.IH [OF a _ False b])
  qed
  then have "unraced st overlay (u # (us @ rest))" using u(1,2) by (intro unraced_Cons) (simp_all only:)
  then show ?case unfolding append_Cons .
qed simp

lemma length_new_versions [simp]: "length (new_versions greatest n) = n"
  by (simp add: new_versions_def)

text \<open>What the cryptography phase makes of the accepted jobs.\<close>

definition job_updates :: "(update_job \<times> version list) list \<Rightarrow> (bytes \<times> version) list" where
  "job_updates accepted = map (\<lambda>(label, val, last_size, ver). (label, ver)) (crypto_jobs accepted)"

definition key_of :: "pre_update_data \<Rightarrow> bytes \<times> version" where
  "key_of u = (pre_label u, pre_version u)"

lemma crypto_jobs_Cons:
  "length versions = length (ureq_values (job_req job)) \<Longrightarrow>
    job_updates ((job, versions) # accepted) = map (Pair (ureq_label (job_req job))) versions @ job_updates accepted"
  by (auto simp: job_updates_def crypto_jobs_def comp_def intro!: nth_equalityI)

lemma sort_jobs_unraced:
  "map key_of us = job_updates (sj_accepted (sort_jobs st overlay jobs)) \<Longrightarrow> unraced st overlay us"
proof (induction jobs arbitrary: overlay us)
  case Nil
  then show ?case by (simp add: job_updates_def crypto_jobs_def unraced_def)
next
  case (Cons job jobs)
  let ?req = "job_req job"
  let ?g = "current_greatest st overlay (ureq_label ?req)"
  show ?case
  proof (cases "ureq_greatest_version ?req \<noteq> ?g \<or> ureq_values ?req = [] \<or> length (ureq_label ?req) > 255")
    case True
    then have "sj_accepted (sort_jobs st overlay (job # jobs)) = sj_accepted (sort_jobs st overlay jobs)"
      by (auto simp: Let_def)
    then show ?thesis using Cons by simp
  next
    case False
    let ?vs = "new_versions ?g (length (ureq_values ?req))"
    let ?rest = "sort_jobs st (overlay(ureq_label ?req \<mapsto> last ?vs)) jobs"
    have "sj_accepted (sort_jobs st overlay (job # jobs)) = (job, ?vs) # sj_accepted ?rest"
      using False by (simp add: Let_def)
    then have keys: "map key_of us = map (Pair (ureq_label ?req)) ?vs @ job_updates (sj_accepted ?rest)"
      using Cons.prems by (simp add: crypto_jobs_Cons)
    define us1 us2 where "us1 = take (length ?vs) us" and "us2 = drop (length ?vs) us"
    have us: "us = us1 @ us2" by (simp add: us1_def us2_def)
    have split: "map key_of us1 = map (Pair (ureq_label ?req)) ?vs" "map key_of us2 = job_updates (sj_accepted ?rest)"
      using keys by (simp_all add: us1_def us2_def take_map [symmetric] drop_map [symmetric])
    have versions: "map pre_version us1 = ?vs"
      using arg_cong [OF split(1), of "map snd"] by (simp add: key_of_def comp_def)
    have labels: "\<forall>u\<in>set us1. pre_label u = ureq_label ?req"
      using arg_cong [OF split(1), of "\<lambda>xs. set (map fst xs)"] by (auto simp: key_of_def image_iff)
    have len: "length us1 = length (ureq_values ?req)" using arg_cong [OF versions, of length] by simp
    then have some: "us1 \<noteq> []" using False by auto
    then have "pre_version (last us1) = last ?vs" using versions by (metis last_map)
    then have rest: "unraced st (overlay(ureq_label ?req \<mapsto> pre_version (last us1))) us2"
      using Cons.IH [OF split(2)] by (simp only:)
    have "map pre_version us1 = new_versions ?g (length us1)" using versions len by (simp only:)
    then show ?thesis unfolding us using labels some rest by (rule unraced_job)
  qed
qed

lemma job_updates_length:
  fixes jobs :: "update_job list" and st :: store and overlay :: "bytes \<rightharpoonup> version"
  defines "acc \<equiv> sj_accepted (sort_jobs st overlay jobs)"
  shows "length (job_updates acc) \<le> sum_list (map (length \<circ> ureq_values \<circ> job_req) jobs) \<and>
    (acc \<noteq> [] \<longrightarrow> job_updates acc \<noteq> [])"
  unfolding acc_def
proof (induction jobs arbitrary: overlay)
  case Nil
  then show ?case by (simp add: job_updates_def crypto_jobs_def)
next
  case (Cons job jobs)
  let ?req = "job_req job"
  let ?vs = "new_versions (current_greatest st overlay (ureq_label ?req)) (length (ureq_values ?req))"
  let ?skip = "sort_jobs st overlay jobs" and ?rest = "sort_jobs st (overlay(ureq_label ?req \<mapsto> last ?vs)) jobs"
  consider "sj_accepted (sort_jobs st overlay (job # jobs)) = sj_accepted ?skip"
    | "sj_accepted (sort_jobs st overlay (job # jobs)) = (job, ?vs) # sj_accepted ?rest" "ureq_values ?req \<noteq> []"
    by (cases "ureq_greatest_version ?req \<noteq> current_greatest st overlay (ureq_label ?req) \<or>
        ureq_values ?req = [] \<or> length (ureq_label ?req) > 255") (auto simp: Let_def)
  then show ?case
  proof cases
    case 1
    then show ?thesis using Cons.IH [of overlay] by simp
  next
    case 2
    define acc where "acc = sj_accepted ?rest"
    have ih: "length (job_updates acc) \<le> sum_list (map (length \<circ> ureq_values \<circ> job_req) jobs)"
      unfolding acc_def by (rule conjunct1 [OF Cons.IH])
    have "job_updates ((job, ?vs) # acc) = map (Pair (ureq_label ?req)) ?vs @ job_updates acc"
      by (rule crypto_jobs_Cons) simp
    then have "length (job_updates ((job, ?vs) # acc)) = length (ureq_values ?req) + length (job_updates acc)"
      by simp
    then show ?thesis unfolding 2(1) acc_def [symmetric] using ih 2(2) by (auto simp: comp_def)
  qed
qed

section \<open>One reply each\<close>

definition ids :: "sorted_jobs \<Rightarrow> nat multiset" where
  "ids s = mset (map fst (sj_replies s)) + mset (map job_reply (sj_catchups s)) +
     mset (map (job_reply \<circ> fst) (sj_accepted s))"

lemma ids_add:
  "ids (r\<lparr>sj_catchups := job # sj_catchups r\<rparr>) = add_mset (job_reply job) (ids r)"
  "ids (r\<lparr>sj_replies := (n, x) # sj_replies r\<rparr>) = add_mset n (ids r)"
  "ids (r\<lparr>sj_accepted := (job, versions) # sj_accepted r\<rparr>) = add_mset (job_reply job) (ids r)"
  by (simp_all add: ids_def)

lemma sort_jobs_partition: "ids (sort_jobs st overlay jobs) = mset (map job_reply jobs)"
proof (induction jobs arbitrary: overlay)
  case Nil
  then show ?case by (simp add: ids_def)
next
  case (Cons job jobs)
  show ?case by (simp only: sort_jobs.simps Let_def ids_add Cons.IH if_distrib [of ids] list.map mset.simps
        if_cancel)
qed

lemma replies_process_catchups: "map fst (process_catchups C D T jobs) = map job_reply jobs"
  by (simp add: process_catchups_def)

lemma replies_answer_jobs: "map fst (answer_jobs C D T jobs pres results) = map (job_reply \<circ> fst) jobs"
  by (induction C D T jobs pres results rule: answer_jobs.induct) (simp_all add: Let_def)

text \<open>VRF outputs are indices of the tree: 32 bytes.\<close>

definition vrf_ok :: "crypto \<Rightarrow> bool" where
  "vrf_ok C \<longleftrightarrow> (\<forall>suite k x out pf. vrf_prove C suite k x = Inr (out, pf) \<longrightarrow> length out = 32)"

lemma vrf_okD: "vrf_ok C \<Longrightarrow> vrf_prove C suite k x = Inr (out, pf) \<Longrightarrow> length out = 32"
  unfolding vrf_ok_def by blast

lemma precompute_updates:
  assumes "map_res (precompute C config openings) (enumerate i xs) = Inr pres"
  shows "map key_of pres = map (\<lambda>(label, val, last_size, ver). (label, ver)) xs"
    and "vrf_ok C \<Longrightarrow> indices_ok pres"
  using assms
proof (induction xs arbitrary: i pres)
  case (Cons x xs)
  {
    case 1
    then show ?case using Cons(1) by (auto simp: res_simps precompute_def key_of_def split: prod.splits)
  next
    case 2
    then show ?case using Cons(2)
      by (auto simp: res_simps precompute_def indices_ok_def config_vrf_prove_def vrf_okD split: prod.splits)
  }
qed (auto simp: indices_ok_def)

lemma process_batch_spec:
  assumes inv: "tree_inv C D T nxt vs" and D: "codec_laws D" and sha: "\<And>x. length (sha256 C x) = 32"
    and signs: "config_signs C (tr_config T)" and vrf: "vrf_ok C"
    and room: "length vs < 2 ^ 63" "unat nxt + sum_list (map (length \<circ> ureq_values \<circ> job_req) batch) < 2 ^ 64"
  shows "\<exists>T' replies nxt' new. process_batch C D now openings batch T = (T', replies) \<and>
    mset (map fst replies) = mset (map job_reply batch) \<and> tree_inv C D T' nxt' (vs @ new) \<and> length new \<le> 1 \<and>
    tr_config T' = tr_config T \<and> unat nxt' \<le> unat nxt + sum_list (map (length \<circ> ureq_values \<circ> job_req) batch)"
proof -
  define s where "s = sort_jobs (tr_store T) Map.empty batch"
  have part: "ids s = mset (map job_reply batch)" by (simp add: s_def sort_jobs_partition)
  show ?thesis
  proof (cases "sj_accepted s = []")
    case True
    then show ?thesis
      using part inv
      by (intro exI [of _ T] exI [of _ "sj_replies s @ process_catchups C D T (sj_catchups s)"]
          exI [of _ nxt] exI [of _ "[]"]) (simp add: process_batch_def Let_def replies_process_catchups ids_def del: mset_map flip: s_def)
  next
    case False
    show ?thesis
    proof (cases "map_res (precompute C (tr_config T) openings) (enumerate 0 (crypto_jobs (sj_accepted s)))")
      case (Inl e)
      then show ?thesis
        using part inv False
        by (intro exI [of _ T] exI [of _ "sj_replies s @ process_catchups C D T (sj_catchups s) @
              map (\<lambda>(job, _). (job_reply job, Inl (Anyhow ''Batch crypto failed''))) (sj_accepted s)"]
            exI [of _ nxt] exI [of _ "[]"]) (simp add: process_batch_def Let_def replies_process_catchups ids_def comp_def split_beta add.assoc
            del: mset_map flip: s_def)
    next
      case (Inr pres)
      note pres = precompute_updates [OF Inr]
      have keys: "map key_of pres = job_updates (sj_accepted s)"
        using pres(1) by (simp add: job_updates_def)
      then have unraced: "unraced (tr_store T) Map.empty pres"
        unfolding s_def by (rule sort_jobs_unraced)
      then have valid: "valid_updates (assign_versions (tr_store T) pres Map.empty) = map (\<lambda>u. (u, pre_version u)) pres"
        by (simp add: unraced_def valid_updates_def comp_def)
      have "length pres = length (job_updates (sj_accepted s))" using keys by (metis length_map)
      then have some: "pres \<noteq> []" and len: "unat nxt + length pres < 2 ^ 64"
        using job_updates_length [of "tr_store T" Map.empty batch] False room(2) by (auto simp: s_def [symmetric])
      obtain T' results th ptr v where ab: "apply_batch C D now pres T = (T', Inr (results, th))"
        "tr_config T' = tr_config T" "tree_inv C D T' (ptr + 1) (vs @ [v])" "unat ptr < unat nxt + length pres"
        using apply_batch_spec [OF inv D sha signs pres(2) [OF vrf] room(1) len] some valid by fastforce
      moreover have "unat (ptr + 1) \<le> unat ptr + 1" by (simp add: unat_word_ariths)
      then have "unat (ptr + 1) \<le> unat nxt + sum_list (map (length \<circ> ureq_values \<circ> job_req) batch)"
        using ab(4) \<open>length pres = length (job_updates (sj_accepted s))\<close>
          job_updates_length [of "tr_store T" Map.empty batch] by (simp add: s_def [symmetric])
      ultimately show ?thesis
        using part False Inr
        by (intro exI [of _ T'] exI [of _ "sj_replies s @ process_catchups C D T' (sj_catchups s) @
              answer_jobs C D T' (sj_accepted s) pres results"] exI [of _ "ptr + 1"] exI [of _ "[v]"])
          (simp add: process_batch_def Let_def replies_process_catchups replies_answer_jobs ids_def add.assoc
            del: mset_map flip: s_def)
    qed
  qed
qed

section \<open>Properties\<close>

text \<open>C10. No accepted update is raced. For the jobs a batch accepts, in any state of the store, the
  versions handed out before the cryptography are exactly those the commit then assigns, also
  when a label occurs in several jobs of the batch and when a version wraps around: the commit
  rejects no slot as raced.\<close>

theorem accepted_jobs_unraced:
  assumes "map_res (precompute C config openings)
      (enumerate 0 (crypto_jobs (sj_accepted (sort_jobs st Map.empty batch)))) = Inr pres"
  shows "assign_versions st pres Map.empty = map (\<lambda>u. Inr (u, pre_version u)) pres"
proof -
  have "map key_of pres = job_updates (sj_accepted (sort_jobs st Map.empty batch))"
    using precompute_updates(1) [OF assms] by (simp add: job_updates_def)
  then show ?thesis using sort_jobs_unraced by (fastforce simp: unraced_def)
qed

definition sample_job :: "nat \<Rightarrow> version option \<Rightarrow> bytes list \<Rightarrow> update_job" where
  "sample_job n greatest values = \<lparr>job_reply = n, job_req = \<lparr>ureq_last = None, ureq_label = [1],
     ureq_greatest_version = greatest, ureq_values = values\<rparr>\<rparr>"

theorem accepted_jobs_unraced_witness:
  "\<exists>pres. map_res (precompute sample_crypto sample_private_config (\<lambda>i. replicate 16 0))
      (enumerate 0 (crypto_jobs (sj_accepted (sort_jobs empty_store Map.empty
        [sample_job 0 None [[5], [6]], sample_job 1 (Some 1) [[7]]])))) = Inr pres \<and>
    map pre_version pres = [0, 1, 2] \<and>
    assign_versions empty_store pres Map.empty = map (\<lambda>u. Inr (u, pre_version u)) pres"
proof -
  have "sj_accepted (sort_jobs empty_store Map.empty [sample_job 0 None [[5], [6]], sample_job 1 (Some 1) [[7]]]) =
      [(sample_job 0 None [[5], [6]], [0, 1]), (sample_job 1 (Some 1) [[7]], [2])]"
    by (simp add: sample_job_def current_greatest_def get_label_history_def empty_store_def new_versions_def
        wrapping_add_u32_def is_behind_def Let_def numeral_2_eq_2)
  then have jobs: "crypto_jobs (sj_accepted (sort_jobs empty_store Map.empty
        [sample_job 0 None [[5], [6]], sample_job 1 (Some 1) [[7]]])) =
      [([1], [5], 0, 0), ([1], [6], 0, 1), ([1], [7], 0, 2)]"
    by (simp add: crypto_jobs_def sample_job_def or_zero_def)
  let ?pre = "precompute sample_crypto sample_private_config (\<lambda>i. replicate 16 0)"
  have ok: "\<exists>p. ?pre (i, [1], [x], 0, v) = Inr p \<and> pre_version p = v" for i x v
    by (simp add: precompute_def config_vrf_prove_def sample_crypto_def construct_vrf_input_def opaque_u8_def
        commit_def commitment_value_def opaque_u32_def fixed_opaque_def U32_MAX_def Let_def)
  obtain p where p: "?pre (0, [1], [5], 0, 0) = Inr p" "pre_version p = 0"
    using ok [of 0 5 0] by (elim exE conjE) (rule that)
  obtain q where q: "?pre (1, [1], [6], 0, 1) = Inr q" "pre_version q = 1"
    using ok [of 1 6 1] by (elim exE conjE) (rule that)
  obtain r where r: "?pre (2, [1], [7], 0, 2) = Inr r" "pre_version r = 2"
    using ok [of 2 7 2] by (elim exE conjE) (rule that)
  have pres: "map_res ?pre (enumerate 0 [([1], [5], 0, 0), ([1], [6], 0, 1), ([1], [7], 0, 2)]) = Inr [p, q, r]"
    using p q r by (simp add: numeral_2_eq_2)
  note unraced = accepted_jobs_unraced [of sample_crypto sample_private_config "\<lambda>i. replicate 16 0" empty_store
      "[sample_job 0 None [[5], [6]], sample_job 1 (Some 1) [[7]]]", unfolded jobs, OF pres]
  show ?thesis
    unfolding jobs by (intro exI [of _ "[p, q, r]"] conjI pres unraced) (simp add: p q r)
qed

text \<open>C8. Every request of a batch is answered exactly once. In a server state of the invariant,
  with room for the batch, \<open>process_batch\<close> never ends the worker: the replies, whether an answer, a
  catch-up, a conflict, an error or the report of a channel that a panicking task dropped, go to each job of the batch exactly once; the state keeps the
  invariant, and at most one version is added, however many jobs there are.\<close>

theorem every_job_answered:
  assumes "tree_inv C D T nxt vs" and "codec_laws D" and "\<And>x. length (sha256 C x) = 32"
    and "config_signs C (tr_config T)" and "vrf_ok C" and "length vs < 2 ^ 63"
    and "unat nxt + sum_list (map (length \<circ> ureq_values \<circ> job_req) batch) < 2 ^ 64"
  shows "\<exists>T' replies nxt' new. process_batch C D now openings batch T = (T', replies) \<and>
    mset (map fst replies) = mset (map job_reply batch) \<and> tree_inv C D T' nxt' (vs @ new) \<and> length new \<le> 1"
  using process_batch_spec [OF assms] by blast

theorem every_job_answered_witness:
  "\<exists>T' replies. process_batch sample_crypto sample_codec 9 (\<lambda>i. replicate 16 0)
      [sample_job 0 None [[5], [6]], sample_job 1 None [], sample_job 2 None [[7]]] (sample_tree empty_store) =
      (T', replies) \<and> mset (map fst replies) = {#0, 1, 2#}"
proof -
  have vrf: "vrf_ok sample_crypto" by (simp add: vrf_ok_def sample_crypto_def)
  show ?thesis
    using every_job_answered [OF sample_inv sample_codec_laws _ _ vrf, of "[sample_job 0 None [[5], [6]],
        sample_job 1 None [], sample_job 2 None [[7]]]" 9 "\<lambda>i. replicate 16 0"]
    by (auto simp: sample_signs sample_job_def)
qed

end
