(* ===== verification/ProofReader.thy ===== *)
theory ProofReader
  imports Verifier Signing BinaryLadder Store
begin

text \<open>
  What every verified operation of the client is made of, in \<^verbatim>\<open>src/src/client/core.rs\<close>: the
  reader that hands out the parts of a combined proof in the order they are asked for, the
  prefix roots recorded per log entry, the client's state, and the checks of tree heads.

  A \<^verbatim>\<open>BTreeMap\<close> that is iterated is its list of entries in ascending order.
\<close>

section \<open>Ordered maps\<close>

fun bt_insert :: "'k :: linorder \<Rightarrow> 'v \<Rightarrow> ('k \<times> 'v) list \<Rightarrow> ('k \<times> 'v) list" where
  "bt_insert k v [] = [(k, v)]"
| "bt_insert k v ((k', v') # m) =
     (if k < k' then (k, v) # (k', v') # m
      else if k = k' then (k, v) # m
      else (k', v') # bt_insert k v m)"

definition bt_remove :: "'k \<Rightarrow> ('k \<times> 'v) list \<Rightarrow> ('k \<times> 'v) list" where
  "bt_remove k m = filter (\<lambda>(k', _). k' \<noteq> k) m"

lemma map_of_bt_insert [simp]: "map_of (bt_insert k v m) k' = (if k' = k then Some v else map_of m k')"
  by (induction k v m rule: bt_insert.induct) auto

interpretation kv_btree: kv_store map_of bt_insert
  by unfold_locales simp

lemma keys_bt_insert [simp]: "fst ` set (bt_insert k v m) = insert k (fst ` set m)"
  by (induction k v m rule: bt_insert.induct) auto

definition bt_ordered :: "('k :: linorder \<times> 'v) list \<Rightarrow> bool" where
  "bt_ordered m \<longleftrightarrow> sorted_wrt (<) (map fst m)"

lemma bt_ordered_insert: "bt_ordered m \<Longrightarrow> bt_ordered (bt_insert k v m)"
proof (induction k v m rule: bt_insert.induct)
  case (2 k v k' v' m)
  have "k' < x" if "k' < k" "x \<in> insert k (fst ` set m)" for x
    using 2 that by (auto simp: bt_ordered_def)
  then show ?case using 2 by (auto simp: bt_ordered_def)
qed (simp add: bt_ordered_def)

section \<open>The proof reader\<close>

record proof_reader =
  rd_proof :: combined_tree_proof
  rd_ts_idx :: nat
  rd_proof_idx :: nat
  rd_assigned_ts :: "(u64 \<times> u64) list"

definition reader_new :: "combined_tree_proof \<Rightarrow> proof_reader" where
  "reader_new pf = \<lparr>rd_proof = pf, rd_ts_idx = 0, rd_proof_idx = 0, rd_assigned_ts = []\<rparr>"

text \<open>\<^verbatim>\<open>range(..pos).next_back()\<close> and \<^verbatim>\<open>range(pos + 1..).next()\<close>.\<close>

definition left_neighbour :: "u64 \<Rightarrow> (u64 \<times> 'a) list \<Rightarrow> 'a option" where
  "left_neighbour pos m = (let l = filter (\<lambda>(k, _). k < pos) m in if l = [] then None else Some (snd (last l)))"

definition right_neighbour :: "u64 \<Rightarrow> (u64 \<times> 'a) list \<Rightarrow> 'a option" where
  "right_neighbour pos m = map_option snd (find (\<lambda>(k, _). k \<ge> pos + 1) m)"

definition rd_timestamp :: "u64 \<Rightarrow> proof_reader \<Rightarrow> (u64 \<times> proof_reader) res" where
  "rd_timestamp pos rd =
     (case map_of (rd_assigned_ts rd) pos of
        Some ts \<Rightarrow> Inr (ts, rd)
      | None \<Rightarrow>
          if rd_ts_idx rd \<ge> length (ctp_timestamps (rd_proof rd)) then
            Inl (Anyhow ''Timestamp queue exhausted'')
          else
            let ts = ctp_timestamps (rd_proof rd) ! rd_ts_idx rd; m = rd_assigned_ts rd in
            if (case left_neighbour pos m of Some left_ts \<Rightarrow> ts < left_ts | None \<Rightarrow> False) then
              Inl (Anyhow ''Timestamp is older than an entry to its left'')
            else if (case right_neighbour pos m of Some right_ts \<Rightarrow> ts > right_ts | None \<Rightarrow> False) then
              Inl (Anyhow ''Timestamp is newer than an entry to its right'')
            else
              Inr (ts, rd\<lparr>rd_ts_idx := rd_ts_idx rd + 1, rd_assigned_ts := bt_insert pos ts m\<rparr>))"

definition rd_prefix_proof :: "proof_reader \<Rightarrow> (prefix_proof \<times> proof_reader) res" where
  "rd_prefix_proof rd =
     (if rd_proof_idx rd \<ge> length (ctp_prefix_proofs (rd_proof rd)) then
        Inl (Anyhow ''PrefixProof queue exhausted'')
      else Inr (ctp_prefix_proofs (rd_proof rd) ! rd_proof_idx rd,
             rd\<lparr>rd_proof_idx := rd_proof_idx rd + 1\<rparr>))"

definition rd_frontier :: "u64 \<Rightarrow> proof_reader \<Rightarrow> proof_reader res" where
  "rd_frontier tree_size rd =
     fold_res (\<lambda>f rd. and_then (rd_timestamp f rd) (\<lambda>(_, rd). Inr rd)) (get_frontier tree_size) rd"

text \<open>The loop of \<open>finish\<close>: the list of prefix roots is the part not yet popped.\<close>

type_synonym entry_roots = "(u64 \<times> bytes) list"

fun finish_loop :: "entry_roots \<Rightarrow> (u64 \<times> u64) list \<Rightarrow> bytes list \<Rightarrow> (u64 \<times> u64 \<times> bytes) list res" where
  "finish_loop roots [] rest =
     (if rest \<noteq> [] then Inl (Anyhow ''unused prefix roots in proof'') else Inr [])"
| "finish_loop roots ((pos, ts) # entries) rest =
     (case map_of roots pos of
        Some rt \<Rightarrow> and_then (finish_loop roots entries rest) (\<lambda>out. Inr ((pos, ts, rt) # out))
      | None \<Rightarrow>
          (case rest of
             [] \<Rightarrow> Inl (Anyhow ''Missing prefix root'')
           | rt # rest \<Rightarrow> and_then (finish_loop roots entries rest) (\<lambda>out. Inr ((pos, ts, rt) # out))))"

definition rd_finish :: "entry_roots \<Rightarrow> proof_reader \<Rightarrow> (u64 \<times> u64 \<times> bytes) list res" where
  "rd_finish roots rd =
     (if rd_ts_idx rd \<noteq> length (ctp_timestamps (rd_proof rd)) then
        Inl (Anyhow ''unused timestamps in proof'')
      else if rd_proof_idx rd \<noteq> length (ctp_prefix_proofs (rd_proof rd)) then
        Inl (Anyhow ''unused PrefixProofs in proof'')
      else finish_loop roots (rd_assigned_ts rd) (ctp_prefix_roots (rd_proof rd)))"

definition record_entry_root :: "u64 \<Rightarrow> bytes \<Rightarrow> entry_roots \<Rightarrow> entry_roots res" where
  "record_entry_root entry rt m =
     (case map_of m entry of
        Some prev \<Rightarrow>
          if prev \<noteq> rt then Inl (Anyhow ''PrefixProofs for entry disagree on the prefix-tree root'')
          else Inr (bt_insert entry rt m)
      | None \<Rightarrow> Inr (bt_insert entry rt m))"

section \<open>Client state\<close>

record trusted_state =
  ts_tree_size :: u64
  ts_root_hash :: bytes
  ts_timestamp :: u64

type_synonym material = "version \<rightharpoonup> (bytes \<times> bytes option)"
type_synonym monitoring_map = "(u64 \<times> version) list"

text \<open>The bytes of the retained head: the encoding of a message, or what a state file held.\<close>

datatype head_bytes = Encoded tree_head | Loaded bytes

record client =
  cl_sig_pk :: service_verifying_key
  cl_vrf_pk :: bytes
  cl_state :: "trusted_state option"
  cl_label_versions :: "bytes \<rightharpoonup> version"
  cl_retained_subtrees :: "u64 \<rightharpoonup> bytes"
  cl_auditor_head :: "(u64 \<times> u64) option"
  cl_monitoring_map :: "bytes \<rightharpoonup> monitoring_map"
  cl_version_material :: "bytes \<rightharpoonup> material"
  cl_distinguished_entries :: "(u64 \<times> u64 \<times> bytes \<times> bytes list) list"
  cl_retained_head :: "head_bytes option"
  cl_config :: public_config

definition with_channel :: "crypto \<Rightarrow> public_config \<Rightarrow> client res" where
  "with_channel C config =
     (if cfg_mode config = DEPLOYMENT_MODE_THIRD_PARTY_MANAGEMENT then
        Inl (Anyhow ''Third-party management mode is not supported'')
      else
        and_then (vk_from_bytes C (cfg_server_sig_pk config)) (\<lambda>pk.
        Inr \<lparr>cl_sig_pk = pk, cl_vrf_pk = cfg_vrf_public_key config, cl_state = None,
          cl_label_versions = Map.empty, cl_retained_subtrees = Map.empty, cl_auditor_head = None,
          cl_monitoring_map = Map.empty, cl_version_material = Map.empty,
          cl_distinguished_entries = [], cl_retained_head = None, cl_config = config\<rparr>))"

definition get_consistency_req :: "client \<Rightarrow> consistency_req option" where
  "get_consistency_req cl =
     map_option (\<lambda>s. \<lparr>cr_last = Some (ts_tree_size s), cr_distinguished = None\<rparr>) (cl_state cl)"

section \<open>Tree heads\<close>

text \<open>The local clock is the parameter \<open>now\<close>.\<close>

definition check_timestamp_bounds :: "client \<Rightarrow> u64 \<Rightarrow> u64 \<Rightarrow> unit res" where
  "check_timestamp_bounds cl now ts =
     (if ts > saturating_add now (cfg_max_ahead (cl_config cl)) then
        Inl (Anyhow ''Tree head timestamp is too far ahead of local clock'')
      else if now > saturating_add ts (cfg_max_behind (cl_config cl)) then
        Inl (Anyhow ''Tree head timestamp is too far behind local clock'')
      else Inr ())"

definition tree_size_for_fth :: "client \<Rightarrow> u64 \<Rightarrow> full_tree_head \<Rightarrow> (u64 \<times> u64 option \<times> bool) res" where
  "tree_size_for_fth cl now fth =
     (if fth_head_type fth = HEAD_TYPE_SAME then
        and_then (ok_or (cl_state cl)
            (Anyhow ''Server returned head_type=SAME but client has no previous tree head'')) (\<lambda>prev.
        and_then (check_timestamp_bounds cl now (ts_timestamp prev)) (\<lambda>_.
        Inr (ts_tree_size prev, Some (ts_timestamp prev), False)))
      else if fth_head_type fth = HEAD_TYPE_UPDATED then
        and_then (ok_or (fth_tree_head fth)
            (Anyhow ''FullTreeHead.head_type=updated but TreeHead is missing'')) (\<lambda>th.
        if (case cl_state cl of Some prev \<Rightarrow> th_tree_size th \<le> ts_tree_size prev | None \<Rightarrow> False) then
          Inl (Anyhow ''Updated head does not advance the tree'')
        else Inr (th_tree_size th, Some (as_u64 (th_timestamp th)), True))
      else Inl (Anyhow ''Unknown FullTreeHeadType''))"

fun any_signature :: "crypto \<Rightarrow> service_verifying_key \<Rightarrow> bytes \<Rightarrow> signature_msg list \<Rightarrow> err \<Rightarrow> unit res" where
  "any_signature C pk tbs [] last_err = Inl last_err"
| "any_signature C pk tbs (sig # sigs) last_err =
     (case verify_data C pk tbs (sig_signature sig) of
        Inr _ \<Rightarrow> Inr ()
      | Inl (Panic p) \<Rightarrow> Inl (Panic p)
      | Inl e \<Rightarrow> any_signature C pk tbs sigs e)"

definition verify_tree_head_signature :: "crypto \<Rightarrow> client \<Rightarrow> tree_head \<Rightarrow> u64 \<Rightarrow> bytes \<Rightarrow> unit res" where
  "verify_tree_head_signature C cl th tree_size root_hash =
     (if th_tree_size th \<noteq> tree_size then Inl (Anyhow ''TreeHead.tree_size mismatch'')
      else if th_signatures th = [] then Inl (Anyhow ''TreeHead has no signatures'')
      else
        and_then (construct_tree_head_tbs_public (cl_config cl) tree_size root_hash) (\<lambda>tbs.
        any_signature C (cl_sig_pk cl) tbs (th_signatures th) (Anyhow ''No matching TreeHead signature'')))"

text \<open>The value of every one of the nodes, if all are known.\<close>

fun all_captured :: "(u64 \<rightharpoonup> bytes) \<Rightarrow> u64 list \<Rightarrow> bytes list option" where
  "all_captured captured [] = Some []"
| "all_captured captured (n # ns) =
     (case (captured n, all_captured captured ns) of
        (Some v, Some vs) \<Rightarrow> Some (v # vs)
      | _ \<Rightarrow> None)"

definition verify_auditor_tree_head :: "crypto \<Rightarrow> client \<Rightarrow> full_tree_head \<Rightarrow> tree_head \<Rightarrow> u64 \<Rightarrow> bytes \<Rightarrow>
    (u64 \<rightharpoonup> bytes) \<Rightarrow> client res" where
  "verify_auditor_tree_head C cl fth th tree_size candidate_root captured =
     and_then (ok_or (fth_auditor_tree_head fth)
         (Anyhow ''Missing AuditorTreeHead in third-party-auditing mode'')) (\<lambda>ath.
     if (case cl_auditor_head cl of
           Some (prev_size, _) \<Rightarrow> prev_size < cfg_auditor_start_pos (cl_config cl) | None \<Rightarrow> False) then
       Inl (Anyhow ''Auditor started after the previously verified auditor position'')
     else
       let rightmost_ts = as_u64 (th_timestamp th); auditor_ts = as_u64 (ath_timestamp ath) in
       if auditor_ts > rightmost_ts then
         Inl (Anyhow ''Auditor timestamp is ahead of the rightmost log entry'')
       else if rightmost_ts - auditor_ts > cfg_max_auditor_lag (cl_config cl) then
         Inl (Anyhow ''Auditor tree head exceeds max_auditor_lag'')
       else if ath_tree_size ath > th_tree_size th then
         Inl (Anyhow ''Auditor tree size exceeds the log's tree size'')
       else
         and_then
           (if ath_tree_size ath = tree_size then Inr candidate_root
            else
              and_then (ok_or (all_captured captured (get_roots (ath_tree_size ath)))
                  (Anyhow ''Proof lacks the data to derive the root at the auditor's tree size'')) (\<lambda>peaks.
              accumulator_from_peaks (sha256 C) (ath_tree_size ath) peaks)) (\<lambda>auditor_root.
         and_then (construct_auditor_tree_head_tbs_public (cl_config cl) (ath_tree_size ath) auditor_ts
             auditor_root) (\<lambda>tbs.
         and_then (ok_or (cfg_auditor_public_key (cl_config cl))
             (Anyhow ''No auditor public key configured'')) (\<lambda>apk_bytes.
         and_then (vk_from_bytes C apk_bytes) (\<lambda>apk.
         and_then (verify_data C apk tbs (ath_signature ath)) (\<lambda>_.
         Inr (cl\<lparr>cl_auditor_head := Some (ath_tree_size ath, auditor_ts)\<rparr>)))))))"

section \<open>The common tail\<close>

definition wanted_nodes :: "client \<Rightarrow> full_tree_head \<Rightarrow> u64 \<Rightarrow> u64 set \<Rightarrow> u64 set" where
  "wanted_nodes cl fth tree_size extra_wanted =
     set (get_roots tree_size) \<union> extra_wanted \<union>
     (if cfg_mode (cl_config cl) = DEPLOYMENT_MODE_THIRD_PARTY_AUDITING then
        (case fth_auditor_tree_head fth of
           Some ath \<Rightarrow> if ath_tree_size ath > 0 \<and> ath_tree_size ath < tree_size
                       then set (get_roots (ath_tree_size ath)) else {}
         | None \<Rightarrow> {})
      else {})"

definition restrict_to :: "u64 list \<Rightarrow> (u64 \<rightharpoonup> bytes) \<Rightarrow> (u64 \<rightharpoonup> bytes)" where
  "restrict_to ns m = (\<lambda>n. if n \<in> set ns then m n else None)"

definition verify_head_and_commit :: "crypto \<Rightarrow> full_tree_head \<Rightarrow> u64 \<Rightarrow> u64 option \<Rightarrow> bool \<Rightarrow> u64 list \<Rightarrow>
    bytes list \<Rightarrow> bytes list \<Rightarrow> u64 set \<Rightarrow> client \<Rightarrow> (client \<times> (u64 \<rightharpoonup> bytes)) res" where
  "verify_head_and_commit C fth tree_size timestamp_opt fth_is_updated positions leaf_hashes
     inclusion_elements extra_wanted cl =
     and_then (calculate_root_capturing (sha256 C) positions leaf_hashes tree_size inclusion_elements
         (cl_retained_subtrees cl) (wanted_nodes cl fth tree_size extra_wanted))
       (\<lambda>(candidate_root, captured).
     if fth_is_updated then
       and_then (ok_or (fth_tree_head fth)
           (Anyhow ''FullTreeHead.head_type=updated but TreeHead is missing'')) (\<lambda>th.
       and_then (verify_tree_head_signature C cl th tree_size candidate_root) (\<lambda>_.
       and_then
         (if cfg_mode (cl_config cl) = DEPLOYMENT_MODE_THIRD_PARTY_AUDITING
          then verify_auditor_tree_head C cl fth th tree_size candidate_root captured
          else Inr cl) (\<lambda>cl.
       Inr (cl\<lparr>cl_retained_head := Some (Encoded th),
              cl_state := Some \<lparr>ts_tree_size = tree_size, ts_root_hash = candidate_root,
                ts_timestamp = (case timestamp_opt of Some t \<Rightarrow> t | None \<Rightarrow> 0)\<rparr>,
              cl_retained_subtrees := restrict_to (get_roots tree_size) captured\<rparr>, captured))))
     else
       and_then (ok_or (cl_state cl) (Anyhow ''SAME head without previous state'')) (\<lambda>prev.
       if candidate_root \<noteq> ts_root_hash prev then
         Inl (Anyhow ''SAME head but proofs do not reconstruct the retained root'')
       else Inr (cl, captured)))"

text \<open>
  The end of an operation: exact consumption of the proof, then the head, from the touched
  entries' leaf values.
\<close>

definition leaf_hashes_of :: "crypto \<Rightarrow> (u64 \<times> u64 \<times> bytes) list \<Rightarrow> bytes list" where
  "leaf_hashes_of C leaf_data = map (\<lambda>(_, ts, rt). log_leaf_value (sha256 C) ts rt) leaf_data"

definition finish_and_commit :: "crypto \<Rightarrow> full_tree_head \<Rightarrow> u64 \<Rightarrow> u64 option \<Rightarrow> bool \<Rightarrow>
    combined_tree_proof \<Rightarrow> proof_reader \<Rightarrow> entry_roots \<Rightarrow> ((u64 \<times> u64 \<times> bytes) list \<Rightarrow> u64 set) \<Rightarrow> client \<Rightarrow>
    (client \<times> (u64 \<rightharpoonup> bytes) \<times> (u64 \<times> u64 \<times> bytes) list) res" where
  "finish_and_commit C fth tree_size timestamp_opt fth_is_updated pf rd roots extra cl =
     and_then (rd_finish roots rd) (\<lambda>leaf_data.
     and_then (ok_or (ctp_inclusion pf) (Anyhow ''Missing inclusion proof'')) (\<lambda>inclusion.
     and_then (verify_head_and_commit C fth tree_size timestamp_opt fth_is_updated (map fst leaf_data)
         (leaf_hashes_of C leaf_data) (ip_elements inclusion) (extra leaf_data) cl) (\<lambda>(cl, captured).
     Inr (cl, captured, leaf_data))))"

text \<open>The checks every operation starts with.\<close>

definition open_head :: "client \<Rightarrow> u64 \<Rightarrow> full_tree_head \<Rightarrow> string \<Rightarrow> (u64 \<times> u64 option \<times> bool) res" where
  "open_head cl now fth empty_msg =
     and_then (tree_size_for_fth cl now fth) (\<lambda>(tree_size, timestamp_opt, updated).
     if tree_size = 0 then Inl (Anyhow empty_msg)
     else
       and_then
         (case timestamp_opt of
            Some head_ts \<Rightarrow> if updated then check_timestamp_bounds cl now head_ts else Inr ()
          | None \<Rightarrow> Inr ()) (\<lambda>_.
       Inr (tree_size, timestamp_opt, updated)))"

end
