(* ===== verification/ClientLadders.thy ===== *)
theory ClientLadders
  imports ProofReader
begin

text \<open>
  The client's checks of one prefix proof: a search ladder, a single lookup, a monitoring
  ladder and an owner's ladder (\<^verbatim>\<open>verify_ladder_proof\<close>, \<^verbatim>\<open>verify_single_lookup\<close>,
  \<^verbatim>\<open>verify_monitoring_ladder\<close>, \<^verbatim>\<open>verify_owner_ladder\<close> of \<^verbatim>\<open>src/src/client/core.rs\<close>). The slots of
  the response's binary ladder and the verified VRF outputs are shared by the proofs of one
  response; \<open>ladder_ctx\<close> holds them.
\<close>

text \<open>The number of slots is kept beside the map: versions get the slots in the order asked for.\<close>

record ladder_ctx =
  lc_wire_index :: "version \<rightharpoonup> nat"
  lc_slots :: nat
  lc_vrf_cache :: "version \<rightharpoonup> bytes"

definition ctx_new :: ladder_ctx where
  "ctx_new = \<lparr>lc_wire_index = Map.empty, lc_slots = 0, lc_vrf_cache = Map.empty\<rparr>"

text \<open>The ladder of a greatest-version response lists the versions of the base ladder in order.\<close>

definition ctx_of_base :: "version list \<Rightarrow> ladder_ctx" where
  "ctx_of_base base =
     \<lparr>lc_wire_index = map_of (rev (map (\<lambda>(i, v). (v, i)) (enumerate 0 base))),
      lc_slots = card (set base), lc_vrf_cache = Map.empty\<rparr>"

definition wire_slot :: "version \<Rightarrow> ladder_ctx \<Rightarrow> nat \<times> ladder_ctx" where
  "wire_slot ver cx =
     (case lc_wire_index cx ver of
        Some i \<Rightarrow> (i, cx)
      | None \<Rightarrow> (lc_slots cx, cx\<lparr>lc_wire_index := (lc_wire_index cx)(ver \<mapsto> lc_slots cx),
                                lc_slots := lc_slots cx + 1\<rparr>))"

text \<open>The VRF output of a version, verified against its ladder step unless it has been before.\<close>

definition vrf_output_of :: "crypto \<Rightarrow> client \<Rightarrow> bytes \<Rightarrow> version \<Rightarrow> binary_ladder_step \<Rightarrow> ladder_ctx \<Rightarrow>
    (bytes \<times> ladder_ctx) res" where
  "vrf_output_of C cl label ver bl_step cx =
     (case lc_vrf_cache cx ver of
        Some out \<Rightarrow> Inr (out, cx)
      | None \<Rightarrow>
          and_then (construct_vrf_input label ver) (\<lambda>vrf_input.
          and_then (vrf_verify C (cfg_cipher_suite (cl_config cl)) (cl_vrf_pk cl) vrf_input (bls_proof bl_step)) (\<lambda>out.
          Inr (out, cx\<lparr>lc_vrf_cache := (lc_vrf_cache cx)(ver \<mapsto> out)\<rparr>))))"

definition slot_and_output :: "crypto \<Rightarrow> client \<Rightarrow> bytes \<Rightarrow> binary_ladder_step list \<Rightarrow> version \<Rightarrow> ladder_ctx \<Rightarrow>
    (binary_ladder_step \<times> bytes \<times> ladder_ctx) res" where
  "slot_and_output C cl label binary_ladder ver cx =
     (case wire_slot ver cx of (wi, cx) \<Rightarrow>
      if wi \<ge> length binary_ladder then Inl (Anyhow ''Ladder step missing'')
      else
        let bl_step = binary_ladder ! wi in
        and_then (vrf_output_of C cl label ver bl_step cx) (\<lambda>(out, cx). Inr (bl_step, out, cx)))"

text \<open>The results of one proof must all give the same root.\<close>

definition same_root :: "bytes option \<Rightarrow> bytes \<Rightarrow> bytes option res" where
  "same_root computed rt =
     (case computed of
        None \<Rightarrow> Inr (Some rt)
      | Some prev \<Rightarrow>
          if prev = rt then Inr (Some prev)
          else Inl (Anyhow ''PrefixProof results disagree on prefix-tree root''))"

section \<open>Search ladders\<close>

text \<open>How the greatest version of an entry compares to the target.\<close>

datatype ordering = Less | Equal | Greater

record ladder_walk =
  lw_ctx :: ladder_ctx
  lw_material :: "version \<rightharpoonup> bytes option"
  lw_relation :: ordering
  lw_offset :: nat
  lw_root :: "bytes option"

definition lookup_relation :: "bool \<Rightarrow> bool \<Rightarrow> version \<Rightarrow> decoded_lookup \<Rightarrow> ordering \<Rightarrow> ordering res" where
  "lookup_relation greatest is_rightmost target lk rel =
     (if dl_inclusion lk \<and> dl_version lk > target then
        (if greatest then Inl (Anyhow ''Inclusion proof contradicts claimed greatest version'')
         else Inr Greater)
      else if \<not> dl_inclusion lk \<and> dl_version lk \<le> target then
        (if greatest \<and> is_rightmost then
           Inl (Anyhow ''Non-inclusion proof at the rightmost entry contradicts claimed greatest version'')
         else Inr Less)
      else Inr rel)"

definition lookup_commitment :: "bool \<Rightarrow> version \<Rightarrow> bytes \<Rightarrow> decoded_lookup \<Rightarrow> binary_ladder_step \<Rightarrow>
    bytes option res" where
  "lookup_commitment greatest target target_commitment lk bl_step =
     (if dl_inclusion lk then
        (if dl_version lk = target then
           (if (case bls_commitment bl_step of Some c \<Rightarrow> c \<noteq> target_commitment | None \<Rightarrow> False) then
              Inl (Anyhow ''Target-version commitment mismatch'')
            else Inr (Some target_commitment))
         else
           and_then (ok_or (bls_commitment bl_step)
               (Anyhow ''Inclusion result but binary ladder has no commitment'')) (\<lambda>c. Inr (Some c)))
      else if greatest \<and> bls_commitment bl_step \<noteq> None \<and> dl_version lk > target then
        Inl (Anyhow ''Commitment provided for non-existent version'')
      else Inr None)"

definition verify_lookup :: "crypto \<Rightarrow> client \<Rightarrow> bytes \<Rightarrow> prefix_proof \<Rightarrow> version \<Rightarrow> binary_ladder_step list \<Rightarrow>
    bytes \<Rightarrow> bool \<Rightarrow> bool \<Rightarrow> nat \<times> decoded_lookup \<Rightarrow> ladder_walk \<Rightarrow> ladder_walk res" where
  "verify_lookup C cl label pf target binary_ladder target_commitment greatest is_rightmost jlk w =
     (case jlk of (j, lk) \<Rightarrow>
      and_then (lookup_relation greatest is_rightmost target lk (lw_relation w)) (\<lambda>rel.
      and_then (slot_and_output C cl label binary_ladder (dl_version lk) (lw_ctx w)) (\<lambda>(bl_step, out, cx).
      and_then (lookup_commitment greatest target target_commitment lk bl_step) (\<lambda>commitment.
      let mat = (if dl_inclusion lk then (lw_material w)(dl_version lk \<mapsto> commitment) else lw_material w) in
      and_then (compute_root_from_result (sha256 C) pf j out commitment (lw_offset w)) (\<lambda>(rt, consumed).
      and_then (same_root (lw_root w) rt) (\<lambda>computed.
      Inr \<lparr>lw_ctx = cx, lw_material = mat, lw_relation = rel, lw_offset = lw_offset w + consumed,
        lw_root = computed\<rparr>))))))"

definition verify_ladder_proof :: "crypto \<Rightarrow> client \<Rightarrow> bytes \<Rightarrow> prefix_proof \<Rightarrow> version \<Rightarrow>
    binary_ladder_step list \<Rightarrow> bytes \<Rightarrow> bool \<Rightarrow> bool \<Rightarrow> ladder_ctx \<times> (version \<rightharpoonup> bytes option) \<Rightarrow>
    (bytes \<times> ordering \<times> ladder_ctx \<times> (version \<rightharpoonup> bytes option)) res" where
  "verify_ladder_proof C cl label pf target binary_ladder target_commitment greatest is_rightmost st =
     (case st of (cx, mat) \<Rightarrow>
      and_then (decode_search_ladder (pp_results pf) target) (\<lambda>decoded.
      and_then (fold_res (verify_lookup C cl label pf target binary_ladder target_commitment greatest is_rightmost)
          (enumerate 0 decoded)
          \<lparr>lw_ctx = cx, lw_material = mat, lw_relation = Equal, lw_offset = 0, lw_root = None\<rparr>) (\<lambda>w.
      if lw_offset w \<noteq> length (pp_elements pf) then Inl (Anyhow ''PrefixProof: unused proof elements'')
      else if greatest \<and> is_rightmost \<and> map dl_version decoded \<noteq> base_binary_ladder target then
        Inl (Anyhow ''Rightmost entry ladder incomplete'')
      else
        and_then (ok_or (lw_root w) (Anyhow ''PrefixProof contained no results'')) (\<lambda>rt.
        Inr (rt, lw_relation w, lw_ctx w, lw_material w)))))"

section \<open>Single lookups\<close>

definition verify_single_lookup :: "crypto \<Rightarrow> client \<Rightarrow> bytes \<Rightarrow> prefix_proof \<Rightarrow> version \<Rightarrow>
    binary_ladder_step list \<Rightarrow> bytes \<Rightarrow> ladder_ctx \<Rightarrow> (bytes \<times> bool \<times> ladder_ctx) res" where
  "verify_single_lookup C cl label pf ver binary_ladder target_commitment cx =
     (case pp_results pf of
        [result] \<Rightarrow>
          (let inclusion = (psr_result_type result = 1) in
           and_then (slot_and_output C cl label binary_ladder ver cx) (\<lambda>(_, out, cx).
           and_then (compute_root_from_result (sha256 C) pf 0 out
               (if inclusion then Some target_commitment else None) 0) (\<lambda>(rt, consumed).
           if consumed \<noteq> length (pp_elements pf) then
             Inl (Anyhow ''Single-lookup PrefixProof has unused elements'')
           else Inr (rt, inclusion, cx))))
      | _ \<Rightarrow> Inl (Anyhow ''Expected a single-lookup PrefixProof''))"

section \<open>Monitoring ladders\<close>

definition verify_monitoring_lookup :: "crypto \<Rightarrow> material \<Rightarrow> prefix_proof \<Rightarrow> nat \<times> version \<Rightarrow>
    nat \<times> bytes option \<Rightarrow> (nat \<times> bytes option) res" where
  "verify_monitoring_lookup C mat pf jv st =
     (case (jv, st) of ((j, v), (elements_offset, computed)) \<Rightarrow>
      if psr_result_type (pp_results pf ! j) \<noteq> 1 then
        Inl (Anyhow ''Monitoring lookup is not an inclusion proof'')
      else
        and_then (ok_or (mat v) (Anyhow ''No retained material'')) (\<lambda>(vrf_output, commitment).
        and_then (ok_or commitment (Anyhow ''No retained commitment'')) (\<lambda>commitment.
        and_then (compute_root_from_result (sha256 C) pf j vrf_output (Some commitment) elements_offset)
          (\<lambda>(rt, consumed).
        and_then (same_root computed rt) (\<lambda>computed.
        Inr (elements_offset + consumed, computed))))))"

definition verify_monitoring_ladder :: "crypto \<Rightarrow> material \<Rightarrow> prefix_proof \<Rightarrow> version \<Rightarrow> bytes res" where
  "verify_monitoring_ladder C mat pf target =
     (let versions = monitoring_binary_ladder target [] in
      if length (pp_results pf) \<noteq> length versions then
        Inl (Anyhow ''Monitoring ladder has an unexpected number of results'')
      else
        and_then (fold_res (verify_monitoring_lookup C mat pf) (enumerate 0 versions) (0, None))
          (\<lambda>(elements_offset, computed).
        if elements_offset \<noteq> length (pp_elements pf) then
          Inl (Anyhow ''Monitoring ladder has unused proof elements'')
        else ok_or computed (Anyhow ''Monitoring ladder contained no results'')))"

section \<open>Owner ladders\<close>

text \<open>
  The candidates \<^verbatim>\<open>0..=results.len()\<close> are tried in turn; the first whose ladder has the shape
  of the results decides, and the greatest version it shows included is the answer.
\<close>

fun owner_candidate :: "prefix_search_result list \<Rightarrow> version list \<Rightarrow> version option" where
  "owner_candidate results [] = None"
| "owner_candidate results (cand # cands) =
     (case decode_search_ladder results cand of
        Inr d \<Rightarrow>
          if length d = length results then
            (let vs = map dl_version (filter dl_inclusion d) in
             if vs = [] then None else Some (fold max vs 0))
          else owner_candidate results cands
      | Inl _ \<Rightarrow> owner_candidate results cands)"

definition owner_greatest :: "prefix_search_result list \<Rightarrow> version option" where
  "owner_greatest results =
     (if (case results of [r] \<Rightarrow> psr_result_type r \<noteq> 1 | _ \<Rightarrow> False) then None
      else owner_candidate results [0..<Suc (length results)])"

definition verify_owner_lookup :: "crypto \<Rightarrow> client \<Rightarrow> bytes \<Rightarrow> prefix_proof \<Rightarrow> version option \<Rightarrow>
    binary_ladder_step list \<Rightarrow> nat \<times> decoded_lookup \<Rightarrow> ladder_ctx \<times> nat \<times> bytes option \<Rightarrow>
    (ladder_ctx \<times> nat \<times> bytes option) res" where
  "verify_owner_lookup C cl label pf greatest binary_ladder jlk st =
     (case (jlk, st) of ((j, lk), (cx, elements_offset, computed)) \<Rightarrow>
      if dl_inclusion lk \<and> (case greatest of None \<Rightarrow> True | Some g \<Rightarrow> dl_version lk > g) then
        Inl (Anyhow ''Owner ladder shows a version beyond the claimed greatest'')
      else
        and_then (slot_and_output C cl label binary_ladder (dl_version lk) cx) (\<lambda>(bl_step, out, cx).
        and_then
          (if dl_inclusion lk then
             and_then (ok_or (bls_commitment bl_step) (Anyhow ''Inclusion but ladder has no commitment''))
               (\<lambda>c. Inr (Some c))
           else Inr None) (\<lambda>commitment.
        and_then (compute_root_from_result (sha256 C) pf j out commitment elements_offset) (\<lambda>(rt, consumed).
        and_then (same_root computed rt) (\<lambda>computed.
        Inr (cx, elements_offset + consumed, computed))))))"

definition verify_owner_ladder :: "crypto \<Rightarrow> client \<Rightarrow> bytes \<Rightarrow> prefix_proof \<Rightarrow> binary_ladder_step list \<Rightarrow>
    ladder_ctx \<Rightarrow> (bytes \<times> version option \<times> ladder_ctx) res" where
  "verify_owner_ladder C cl label pf binary_ladder cx =
     (let greatest = owner_greatest (pp_results pf);
          target = (case greatest of Some g \<Rightarrow> g | None \<Rightarrow> 0) in
      and_then (decode_search_ladder (pp_results pf) target) (\<lambda>decoded.
      if length decoded \<noteq> length (pp_results pf) then
        Inl (Anyhow ''Owner ladder does not match target version'')
      else
        and_then (fold_res (verify_owner_lookup C cl label pf greatest binary_ladder)
            (enumerate 0 decoded) (cx, 0, None)) (\<lambda>(cx, elements_offset, computed).
        if elements_offset \<noteq> length (pp_elements pf) then
          Inl (Anyhow ''Owner ladder has unused proof elements'')
        else
          and_then (ok_or computed (Anyhow ''Owner ladder contained no results'')) (\<lambda>rt.
          Inr (rt, greatest, cx)))))"

end
