(* ===== verification/Client.thy ===== *)
theory Client
  imports ClientLadders Handlers
begin

text \<open>
  The client's verified operations, \<^verbatim>\<open>src/src/client/core.rs\<close>: search, contact and owner
  monitoring, owner initialisation, the walk over distinguished heads, and update. Each
  replays the server's algorithm on the response's proof and, when everything is consumed
  and the head verifies, returns the client it leaves; on an error the client is unchanged.
  The network is not modelled: an operation takes the response it received.
\<close>

record op_state =
  op_reader :: proof_reader
  op_ctx :: ladder_ctx
  op_material :: "version \<rightharpoonup> bytes option"
  op_roots :: entry_roots

text \<open>Reads the next prefix proof as a search ladder of the entry and records its root.\<close>

definition read_ladder :: "crypto \<Rightarrow> client \<Rightarrow> bytes \<Rightarrow> version \<Rightarrow> binary_ladder_step list \<Rightarrow> bytes \<Rightarrow>
    bool \<Rightarrow> bool \<Rightarrow> u64 \<Rightarrow> op_state \<Rightarrow> (ordering \<times> op_state) res" where
  "read_ladder C cl label target binary_ladder target_commitment greatest is_rightmost entry st =
     and_then (rd_prefix_proof (op_reader st)) (\<lambda>(pp, rd).
     and_then (verify_ladder_proof C cl label pp target binary_ladder target_commitment greatest is_rightmost
         (op_ctx st, op_material st)) (\<lambda>(rt, rel, cx, mat).
     and_then (record_entry_root entry rt (op_roots st)) (\<lambda>roots.
     Inr (rel, \<lparr>op_reader = rd, op_ctx = cx, op_material = mat, op_roots = roots\<rparr>))))"

section \<open>Greatest-version search\<close>

text \<open>One ladder per frontier entry; the first entry whose ladder reaches the target is kept.\<close>

definition greatest_entry :: "crypto \<Rightarrow> client \<Rightarrow> bytes \<Rightarrow> version \<Rightarrow> binary_ladder_step list \<Rightarrow> bytes \<Rightarrow>
    u64 \<Rightarrow> u64 \<Rightarrow> u64 option \<times> op_state \<Rightarrow> (u64 option \<times> op_state) res" where
  "greatest_entry C cl label target binary_ladder target_commitment rightmost entry st =
     (case st of (first_equal, st) \<Rightarrow>
      and_then (read_ladder C cl label target binary_ladder target_commitment True (entry = rightmost) entry st)
        (\<lambda>(rel, st).
      Inr (if rel = Equal \<and> first_equal = None then Some entry else first_equal, st)))"

definition replay_greatest_search :: "crypto \<Rightarrow> client \<Rightarrow> bytes \<Rightarrow> u64 \<Rightarrow> version \<Rightarrow> binary_ladder_step list \<Rightarrow>
    bytes \<Rightarrow> op_state \<Rightarrow> (u64 \<times> op_state) res" where
  "replay_greatest_search C cl label tree_size target binary_ladder target_commitment st =
     (let frontier = get_frontier tree_size in
      if frontier = [] then Inl (Panic ''called `Option::unwrap()` on a `None` value'')
      else
        let rightmost = last frontier in
        and_then (fold_res (greatest_entry C cl label target binary_ladder target_commitment rightmost)
            frontier (None, st)) (\<lambda>(first_equal, st).
        Inr (case first_equal of Some e \<Rightarrow> e | None \<Rightarrow> rightmost, st)))"

section \<open>Fixed-version search\<close>

text \<open>The walk of the replay: the bounds of the current entry, and what it has seen.\<close>

record client_walk =
  kw_st :: op_state
  kw_left :: u64
  kw_right :: u64
  kw_parent_dist :: bool
  kw_expired_on_path :: bool
  kw_encountered_expired :: bool
  kw_left_path :: "(u64 \<times> bool) list"
  kw_inspected :: "(u64 \<times> ordering) list"

function simulate_loop :: "crypto \<Rightarrow> client \<Rightarrow> bytes \<Rightarrow> u64 \<Rightarrow> version \<Rightarrow> binary_ladder_step list \<Rightarrow> bytes \<Rightarrow>
    u64 \<Rightarrow> u64 \<Rightarrow> client_walk \<Rightarrow> (u64 option \<times> client_walk) res" where
  "simulate_loop C cl label tree_size target binary_ladder target_commitment rightmost_ts cur w =
     and_then (rd_timestamp cur (op_reader (kw_st w))) (\<lambda>(ts, rd).
     let w = w\<lparr>kw_st := (kw_st w)\<lparr>op_reader := rd\<rparr>\<rparr>;
         expired = past_lifetime (cfg_maximum_lifetime (cl_config cl)) rightmost_ts ts;
         is_dist = (kw_parent_dist w \<and>
           saturating_sub (kw_right w) (kw_left w) \<ge> cfg_reasonable_monitoring_window (cl_config cl)) in
     if expired then
       (let w = w\<lparr>kw_encountered_expired := True, kw_expired_on_path := True\<rparr> in
        case right_child_in tree_size cur of
          Some rc \<Rightarrow> simulate_loop C cl label tree_size target binary_ladder target_commitment rightmost_ts rc
                       (w\<lparr>kw_left_path := kw_left_path w @ [(cur, False)], kw_left := ts,
                          kw_parent_dist := is_dist\<rparr>)
        | None \<Rightarrow> Inr (None, w))
     else
       and_then (read_ladder C cl label target binary_ladder target_commitment False False cur (kw_st w))
         (\<lambda>(rel, st).
       let w = w\<lparr>kw_st := st, kw_inspected := kw_inspected w @ [(cur, rel)]\<rparr> in
       (case rel of
          Less \<Rightarrow>
            (case right_child_in tree_size cur of
               Some rc \<Rightarrow> simulate_loop C cl label tree_size target binary_ladder target_commitment rightmost_ts rc
                            (w\<lparr>kw_left_path := kw_left_path w @ [(cur, is_dist \<and> \<not> expired)], kw_left := ts,
                               kw_parent_dist := is_dist\<rparr>)
             | None \<Rightarrow> Inr (None, w))
        | Greater \<Rightarrow>
            if is_leaf cur then Inr (None, w)
            else simulate_loop C cl label tree_size target binary_ladder target_commitment rightmost_ts
                   (left_child cur) (w\<lparr>kw_right := ts, kw_parent_dist := is_dist\<rparr>)
        | Equal \<Rightarrow>
            if \<not> kw_expired_on_path w \<or> is_dist \<or> list_ex snd (kw_left_path w) then Inr (Some cur, w)
            else Inl (Anyhow ''Requested version of the label is expired''))))"
  by pat_completeness auto

termination
  by (relation "measure (\<lambda>(C, cl, l, n, t, b, c, r, cur, w). level cur)")
    (auto simp: left_child_level dest: right_child_in_level)

declare simulate_loop.simps [simp del]

definition simulate_fixed_search :: "crypto \<Rightarrow> client \<Rightarrow> bytes \<Rightarrow> u64 \<Rightarrow> version \<Rightarrow> binary_ladder_step list \<Rightarrow>
    bytes \<Rightarrow> op_state \<Rightarrow> (u64 \<times> op_state) res" where
  "simulate_fixed_search C cl label tree_size target binary_ladder target_commitment st =
     and_then (rd_timestamp (tree_size - 1) (op_reader st)) (\<lambda>(rightmost_ts, rd).
     and_then (simulate_loop C cl label tree_size target binary_ladder target_commitment rightmost_ts (root tree_size)
         \<lparr>kw_st = st\<lparr>op_reader := rd\<rparr>, kw_left = 0, kw_right = rightmost_ts, kw_parent_dist = True,
          kw_expired_on_path = False, kw_encountered_expired = False, kw_left_path = [], kw_inspected = []\<rparr>)
       (\<lambda>(terminal, w).
     (case terminal of
        Some t \<Rightarrow> Inr (t, kw_st w)
      | None \<Rightarrow>
          and_then (ok_or (min_u64 (map fst (filter (\<lambda>(_, r). r = Greater) (kw_inspected w))))
              (Anyhow ''Requested version of the label does not exist'')) (\<lambda>identified.
          if kw_encountered_expired w \<and>
             \<not> list_ex (\<lambda>(p, d). p < identified \<and> d) (kw_left_path w) then
            Inl (Anyhow ''Requested version of the label is expired'')
          else
            let st = kw_st w in
            and_then (rd_prefix_proof (op_reader st)) (\<lambda>(pp, rd).
            and_then (verify_single_lookup C cl label pp target binary_ladder target_commitment (op_ctx st))
              (\<lambda>(rt, included, cx).
            and_then (record_entry_root identified rt (op_roots st)) (\<lambda>roots.
            if \<not> included then Inl (Anyhow ''Requested version of the label does not exist'')
            else Inr (identified, st\<lparr>op_reader := rd, op_ctx := cx, op_roots := roots\<rparr>))))))))"

section \<open>Search\<close>

definition stash_material :: "op_state \<Rightarrow> material \<Rightarrow> material" where
  "stash_material st m = (\<lambda>v.
     case (op_material st v, lc_vrf_cache (op_ctx st) v) of
       (Some comm, Some out) \<Rightarrow> Some (out, comm)
     | _ \<Rightarrow> m v)"

definition material_of :: "client \<Rightarrow> bytes \<Rightarrow> material" where
  "material_of cl label = (case cl_version_material cl label of Some m \<Rightarrow> m | None \<Rightarrow> Map.empty)"

definition monitoring_of :: "client \<Rightarrow> bytes \<Rightarrow> monitoring_map" where
  "monitoring_of cl label = (case cl_monitoring_map cl label of Some m \<Rightarrow> m | None \<Rightarrow> [])"

definition start_reading :: "combined_tree_proof \<Rightarrow> u64 \<Rightarrow> proof_reader res" where
  "start_reading pf tree_size = rd_frontier tree_size (reader_new pf)"

definition verify_search_response :: "crypto \<Rightarrow> u64 \<Rightarrow> bytes \<Rightarrow> version option \<Rightarrow> search_response \<Rightarrow> client \<Rightarrow>
    client res" where
  "verify_search_response C now label requested_version resp cl =
     and_then (ok_or (sr_full_tree_head resp) (Anyhow ''Missing FullTreeHead'')) (\<lambda>fth.
     and_then (ok_or (sr_search resp) (Anyhow ''Missing CombinedTreeProof'')) (\<lambda>pf.
     and_then (tree_size_for_fth cl now fth) (\<lambda>(tree_size, timestamp_opt, updated).
     if tree_size = 0 then Inl (Anyhow ''Server returned empty tree for search'')
     else
       and_then (ok_or (sr_value resp) (Anyhow ''Missing UpdateValue'')) (\<lambda>val.
       and_then (case requested_version of
           Some v \<Rightarrow> Inr v
         | None \<Rightarrow> ok_or (sr_version resp)
             (Anyhow ''Greatest-version search response missing TreeSearchResponse.version'')) (\<lambda>target.
       let greatest = (requested_version = None); base = base_binary_ladder target in
       if greatest \<and> length (sr_binary_ladder resp) \<noteq> length base then
         Inl (Anyhow ''Binary ladder length mismatch'')
       else
         and_then (commit (hmac_sha256 C) label target val None (sr_opening resp)) (\<lambda>target_commitment.
         and_then
           (case timestamp_opt of
              Some head_ts \<Rightarrow> if updated then check_timestamp_bounds cl now head_ts else Inr ()
            | None \<Rightarrow> Inr ()) (\<lambda>_.
         and_then (start_reading pf tree_size) (\<lambda>rd.
         let st = \<lparr>op_reader = rd, op_ctx = (if greatest then ctx_of_base base else ctx_new),
               op_material = Map.empty, op_roots = []\<rparr> in
         and_then
           (if greatest
            then replay_greatest_search C cl label tree_size target (sr_binary_ladder resp) target_commitment st
            else simulate_fixed_search C cl label tree_size target (sr_binary_ladder resp) target_commitment st)
           (\<lambda>(terminal, st).
         if length (sr_binary_ladder resp) \<noteq> lc_slots (op_ctx st) then
           Inl (Anyhow ''Binary ladder has steps that were not looked up'')
         else
           and_then (finish_and_commit C fth tree_size timestamp_opt updated pf (op_reader st) (op_roots st)
               (\<lambda>_. {}) cl) (\<lambda>(cl, _).
           Inr (cl\<lparr>cl_version_material := (cl_version_material cl)(label \<mapsto>
                     stash_material st (material_of cl label)),
                  cl_monitoring_map := (cl_monitoring_map cl)(label \<mapsto>
                     bt_insert terminal target (monitoring_of cl label))\<rparr>)))))))))))"

definition client_search :: "crypto \<Rightarrow> u64 \<Rightarrow> bytes \<Rightarrow> version option \<Rightarrow> search_response \<Rightarrow> client \<Rightarrow>
    client res" where
  "client_search C now user ver resp cl =
     and_then (verify_search_response C now user ver resp cl) (\<lambda>cl.
     Inr (case (ver, sr_version resp) of
            (None, Some greatest) \<Rightarrow> cl\<lparr>cl_label_versions := (cl_label_versions cl)(user \<mapsto> greatest)\<rparr>
          | _ \<Rightarrow> cl))"

definition search_request_of :: "client \<Rightarrow> bytes \<Rightarrow> version option \<Rightarrow> search_request" where
  "search_request_of cl user ver =
     \<lparr>sreq_last = (case get_consistency_req cl of Some c \<Rightarrow> cr_last c | None \<Rightarrow> None),
      sreq_label = user, sreq_version = ver\<rparr>"

section \<open>Contact monitoring\<close>

text \<open>The descent to a monitored entry, as on the server; the fuel is the server's.\<close>

record client_descent =
  kd_reader :: proof_reader
  kd_left :: u64
  kd_right :: u64
  kd_parent_dist :: bool
  kd_ancestor_dist :: "u64 \<rightharpoonup> bool"
  kd_curr :: u64

fun client_descend :: "nat \<Rightarrow> u64 \<Rightarrow> u64 \<Rightarrow> u64 \<Rightarrow> client_descent \<Rightarrow> client_descent res" where
  "client_descend 0 tree_size rmw pos w = Inl Hang"
| "client_descend (Suc fuel) tree_size rmw pos w =
     (let cur = kd_curr w in
      if cur = pos then Inr w
      else
        and_then (rd_timestamp cur (kd_reader w)) (\<lambda>(ts, rd).
        let dist = (kd_parent_dist w \<and> saturating_sub (kd_right w) (kd_left w) \<ge> rmw);
            w = w\<lparr>kd_reader := rd, kd_ancestor_dist := (kd_ancestor_dist w)(cur \<mapsto> dist)\<rparr> in
        if \<not> dist then Inr (w\<lparr>kd_parent_dist := False\<rparr>)
        else if pos < cur then
          client_descend fuel tree_size rmw pos (w\<lparr>kd_right := ts, kd_curr := left_child cur\<rparr>)
        else
          (case ibst_right_child cur tree_size of
             Some rc \<Rightarrow> client_descend fuel tree_size rmw pos (w\<lparr>kd_left := ts, kd_curr := rc\<rparr>)
           | None \<Rightarrow> Inr (w\<lparr>kd_left := ts\<rparr>))))"

record monitor_replay =
  mr_reader :: proof_reader
  mr_roots :: entry_roots
  mr_targets :: "u64 \<rightharpoonup> version"
  mr_new_map :: monitoring_map

text \<open>
  Step 3 for one entry of the map: ladders up its ancestors, until one already has a ladder.
  The result says where the entry has moved to.
\<close>

fun replay_ancestors :: "crypto \<Rightarrow> material \<Rightarrow> u64 \<Rightarrow> version \<Rightarrow> u64 list \<Rightarrow> u64 option \<Rightarrow> monitor_replay \<Rightarrow>
    (u64 option \<times> monitor_replay) res" where
  "replay_ancestors C mat pos ver [] moved_to m = Inr (moved_to, m)"
| "replay_ancestors C mat pos ver (e # es) moved_to m =
     (case mr_targets m e of
        Some t \<Rightarrow>
          if t > ver then Inr (None, m\<lparr>mr_new_map := bt_remove pos (mr_new_map m)\<rparr>)
          else Inl (Anyhow ''Entry already covered by a ladder with non-greater target'')
      | None \<Rightarrow>
          and_then (rd_timestamp e (mr_reader m)) (\<lambda>(_, rd).
          and_then (rd_prefix_proof rd) (\<lambda>(pp, rd).
          and_then (verify_monitoring_ladder C mat pp ver) (\<lambda>rt.
          and_then (record_entry_root e rt (mr_roots m)) (\<lambda>roots.
          replay_ancestors C mat pos ver es (Some e)
            (m\<lparr>mr_reader := rd, mr_roots := roots, mr_targets := (mr_targets m)(e \<mapsto> ver)\<rparr>))))))"

definition replay_contact_entry :: "crypto \<Rightarrow> u64 \<Rightarrow> u64 \<Rightarrow> material \<Rightarrow> u64 \<Rightarrow> u64 \<times> version \<Rightarrow>
    monitor_replay \<Rightarrow> monitor_replay res" where
  "replay_contact_entry C tree_size rmw mat rightmost_ts pv m =
     (case pv of (pos, ver) \<Rightarrow>
      and_then (client_descend CONTACT_FUEL tree_size rmw pos
          \<lparr>kd_reader = mr_reader m, kd_left = 0, kd_right = rightmost_ts, kd_parent_dist = True,
           kd_ancestor_dist = Map.empty, kd_curr = root tree_size\<rparr>) (\<lambda>w.
      let m = m\<lparr>mr_reader := kd_reader w\<rparr>;
          pos_dist = (kd_parent_dist w \<and> kd_curr w = pos \<and>
            saturating_sub (kd_right w) (kd_left w) \<ge> rmw) in
      if pos_dist then Inr (m\<lparr>mr_new_map := bt_remove pos (mr_new_map m)\<rparr>)
      else
        and_then (replay_ancestors C mat pos ver (ancestors_to_visit pos tree_size (kd_ancestor_dist w)) None m)
          (\<lambda>(moved_to, m).
        Inr (case moved_to of
               None \<Rightarrow> m
             | Some newpos \<Rightarrow>
                 (let m' = bt_remove pos (mr_new_map m) in
                  m\<lparr>mr_new_map := (if kd_ancestor_dist w newpos = Some True then m'
                                  else bt_insert newpos ver m')\<rparr>)))))"

definition replay_contact_ladders :: "crypto \<Rightarrow> monitoring_map \<Rightarrow> u64 \<Rightarrow> u64 \<Rightarrow> material \<Rightarrow>
    proof_reader \<times> entry_roots \<Rightarrow> (proof_reader \<times> entry_roots \<times> monitoring_map) res" where
  "replay_contact_ladders C obligations tree_size rmw mat st =
     (case st of (rd, roots) \<Rightarrow>
      and_then (rd_timestamp (tree_size - 1) rd) (\<lambda>(rightmost_ts, rd).
      and_then (fold_res (replay_contact_entry C tree_size rmw mat rightmost_ts) (rev obligations)
          \<lparr>mr_reader = rd, mr_roots = roots, mr_targets = Map.empty, mr_new_map = obligations\<rparr>) (\<lambda>m.
      Inr (mr_reader m, mr_roots m, mr_new_map m))))"

definition verify_contact_monitor :: "crypto \<Rightarrow> u64 \<Rightarrow> bytes \<Rightarrow> monitoring_map \<Rightarrow> contact_monitor_response \<Rightarrow>
    client \<Rightarrow> client res" where
  "verify_contact_monitor C now label obligations resp cl =
     and_then (ok_or (cmr_full_tree_head resp) (Anyhow ''Missing FullTreeHead'')) (\<lambda>fth.
     and_then (ok_or (cmr_monitor resp) (Anyhow ''Missing monitor proof'')) (\<lambda>pf.
     and_then (open_head cl now fth ''Cannot monitor an empty tree'') (\<lambda>(tree_size, timestamp_opt, updated).
     and_then (start_reading pf tree_size) (\<lambda>rd.
     and_then (rd_timestamp (tree_size - 1) rd) (\<lambda>(_, rd).
     and_then (replay_contact_ladders C obligations tree_size (cfg_reasonable_monitoring_window (cl_config cl))
         (material_of cl label) (rd, [])) (\<lambda>(rd, roots, new_map).
     and_then (finish_and_commit C fth tree_size timestamp_opt updated pf rd roots (\<lambda>_. {}) cl) (\<lambda>(cl, _).
     Inr (cl\<lparr>cl_monitoring_map := (cl_monitoring_map cl)(label \<mapsto> new_map)\<rparr>))))))))"

definition contact_monitor_request_of :: "client \<Rightarrow> bytes \<Rightarrow> contact_monitor_request res" where
  "contact_monitor_request_of cl user =
     (let obligations = monitoring_of cl user in
      if obligations = [] then Inl (Anyhow ''No monitoring obligations recorded for this label'')
      else Inr \<lparr>cmreq_last = map_option ts_tree_size (cl_state cl), cmreq_label = user,
             cmreq_entries = map (\<lambda>(p, v). \<lparr>mme_position = p, mme_version = v\<rparr>) obligations\<rparr>)"

definition client_contact_monitor :: "crypto \<Rightarrow> u64 \<Rightarrow> bytes \<Rightarrow> contact_monitor_response \<Rightarrow> client \<Rightarrow> client res" where
  "client_contact_monitor C now user resp cl =
     and_then (contact_monitor_request_of cl user) (\<lambda>_.
     verify_contact_monitor C now user (monitoring_of cl user) resp cl)"

section \<open>Owner initialisation\<close>

record owner_walk =
  ow_reader :: proof_reader
  ow_ctx :: ladder_ctx
  ow_roots :: entry_roots
  ow_prev :: "version option"
  ow_existing :: nat

fun replay_owner_init :: "crypto \<Rightarrow> client \<Rightarrow> bytes \<Rightarrow> u64 \<Rightarrow> binary_ladder_step list \<Rightarrow> u64 list \<Rightarrow>
    owner_walk \<Rightarrow> owner_walk res" where
  "replay_owner_init C cl label rightmost_ts binary_ladder [] w = Inr w"
| "replay_owner_init C cl label rightmost_ts binary_ladder (node # nodes) w =
     and_then (rd_timestamp node (ow_reader w)) (\<lambda>(ts, rd).
     if past_lifetime (cfg_maximum_lifetime (cl_config cl)) rightmost_ts ts then Inr (w\<lparr>ow_reader := rd\<rparr>)
     else
       and_then (rd_prefix_proof rd) (\<lambda>(pp, rd).
       and_then (verify_owner_ladder C cl label pp binary_ladder (ow_ctx w)) (\<lambda>(rt, greatest, cx).
       if (case (ow_prev w, greatest) of (Some p, Some t) \<Rightarrow> t > p | _ \<Rightarrow> False) then
         Inl (Anyhow ''Owner-init versions are not monotonic'')
       else
         and_then (record_entry_root node rt (ow_roots w)) (\<lambda>roots.
         replay_owner_init C cl label rightmost_ts binary_ladder nodes
           \<lparr>ow_reader = rd, ow_ctx = cx, ow_roots = roots,
            ow_prev = (if greatest = None then ow_prev w else greatest),
            ow_existing = ow_existing w + (if greatest = None then 0 else 1)\<rparr>))))"

fun descending :: "version list \<Rightarrow> bool" where
  "descending (a # b # vs) \<longleftrightarrow> \<not> a < b \<and> descending (b # vs)"
| "descending _ \<longleftrightarrow> True"

definition verify_owner_init :: "crypto \<Rightarrow> u64 \<Rightarrow> bytes \<Rightarrow> u64 \<Rightarrow> owner_init_response \<Rightarrow> client \<Rightarrow> client res" where
  "verify_owner_init C now label start resp cl =
     and_then (ok_or (oir_full_tree_head resp) (Anyhow ''Missing FullTreeHead'')) (\<lambda>fth.
     and_then (ok_or (oir_init resp) (Anyhow ''Missing init proof'')) (\<lambda>pf.
     and_then (tree_size_for_fth cl now fth) (\<lambda>(tree_size, timestamp_opt, updated).
     if tree_size = 0 \<or> start \<ge> tree_size then Inl (Anyhow ''Invalid start position for owner init'')
     else
       and_then
         (case timestamp_opt of
            Some head_ts \<Rightarrow> if updated then check_timestamp_bounds cl now head_ts else Inr ()
          | None \<Rightarrow> Inr ()) (\<lambda>_.
       if \<not> descending (oir_greatest_versions resp) then
         Inl (Anyhow ''greatest_versions are not in descending order'')
       else
         and_then (start_reading pf tree_size) (\<lambda>rd.
         and_then (rd_timestamp (tree_size - 1) rd) (\<lambda>(rightmost_ts, rd).
         and_then (replay_owner_init C cl label rightmost_ts (oir_binary_ladder resp)
             (owner_init_list start tree_size)
             \<lparr>ow_reader = rd, ow_ctx = ctx_new, ow_roots = [], ow_prev = None, ow_existing = 0\<rparr>) (\<lambda>w.
         if ow_existing w \<noteq> length (oir_greatest_versions resp) then
           Inl (Anyhow ''greatest_versions count does not match the entries where the label existed'')
         else if length (oir_binary_ladder resp) \<noteq> lc_slots (ow_ctx w) then
           Inl (Anyhow ''Owner-init binary ladder has unused steps'')
         else
           and_then (finish_and_commit C fth tree_size timestamp_opt updated pf (ow_reader w) (ow_roots w)
               (\<lambda>_. {}) cl) (\<lambda>(cl, _).
           Inr (cl\<lparr>cl_monitoring_map := (cl_monitoring_map cl)(label \<mapsto> monitoring_of cl label)\<rparr>)))))))))"

section \<open>Distinguished heads\<close>

text \<open>The right-first walk; the stack has the bounds of each entry.\<close>

function distinguished_walk :: "u64 \<Rightarrow> u64 \<Rightarrow> u64 option \<Rightarrow> (u64 \<times> u64 \<times> u64) list \<Rightarrow> proof_reader \<Rightarrow>
    (u64 list \<times> proof_reader) res" where
  "distinguished_walk tree_size rmw stop [] rd = Inr ([], rd)"
| "distinguished_walk tree_size rmw stop ((cur, lo, hi) # stack) rd =
     (if saturating_sub hi lo < rmw then distinguished_walk tree_size rmw stop stack rd
      else
        and_then (rd_timestamp cur rd) (\<lambda>(ts, rd).
        let stack = (if \<not> is_leaf cur \<and> (case stop of None \<Rightarrow> True | Some x \<Rightarrow> cur > x)
              then (left_child cur, lo, ts) # stack else stack);
            stack = (case right_child_in tree_size cur of Some rc \<Rightarrow> (rc, ts, hi) # stack | None \<Rightarrow> stack) in
        and_then (distinguished_walk tree_size rmw stop stack rd) (\<lambda>(walked, rd). Inr (cur # walked, rd))))"
  by pat_completeness auto

termination
proof (relation "measures [\<lambda>(n, r, s, stack, rd). stack_size (map fst stack), \<lambda>(n, r, s, stack, rd). length stack]",
    goal_cases)
  case (3 tree_size rmw stop cur lo hi stack rd x ts rd' xa xb)
  have pos: "(0 :: nat) < 3 ^ level cur" by simp
  have xa: "stack_size (map fst xa) \<le>
      stack_size (map fst stack) + (if is_leaf cur then 0 else 3 ^ level (left_child cur))"
    using 3 by auto
  have "3 * (if is_leaf cur then 0 else 3 ^ level (left_child cur)) \<le> (3 :: nat) ^ level cur"
    using push_size left_child_level by simp
  then have left: "3 * stack_size (map fst xa) \<le> 3 * stack_size (map fst stack) + 3 ^ level cur"
    using xa by linarith
  have "stack_size (map fst xb) < 3 ^ level cur + stack_size (map fst stack)"
  proof (cases "right_child_in tree_size cur")
    case None
    then have "stack_size (map fst xb) = stack_size (map fst xa)" using 3 by simp
    then show ?thesis using left pos by linarith
  next
    case (Some rc)
    then have "stack_size (map fst xb) = 3 ^ level rc + stack_size (map fst xa)" using 3 by simp
    moreover have "3 * 3 ^ level rc \<le> (3 :: nat) ^ level cur"
      using Some by (intro push_size right_child_in_level)
    ultimately show ?thesis using left pos by linarith
  qed
  then show ?case by simp
qed auto

definition entry_of_walk :: "(u64 \<rightharpoonup> bytes) \<Rightarrow> (u64 \<times> u64 \<times> bytes) list \<Rightarrow> u64 \<Rightarrow>
    (u64 \<times> u64 \<times> bytes \<times> bytes list) option" where
  "entry_of_walk captured leaf_data p =
     (case (map_of leaf_data p, all_captured captured (get_roots (p + 1))) of
        (Some (ts, rt), Some peaks) \<Rightarrow> Some (p, ts, rt, peaks)
      | _ \<Rightarrow> None)"

definition verify_distinguished :: "crypto \<Rightarrow> u64 \<Rightarrow> u64 option \<Rightarrow> distinguished_response \<Rightarrow> client \<Rightarrow>
    client res" where
  "verify_distinguished C now stop resp cl =
     and_then (ok_or (dr_full_tree_head resp) (Anyhow ''Missing FullTreeHead'')) (\<lambda>fth.
     and_then (ok_or (dr_distinguished resp) (Anyhow ''Missing distinguished proof'')) (\<lambda>pf.
     and_then (open_head cl now fth ''Empty tree'') (\<lambda>(tree_size, timestamp_opt, updated).
     and_then (ok_or timestamp_opt (Anyhow ''Missing head timestamp'')) (\<lambda>rightmost_ts.
     and_then (start_reading pf tree_size) (\<lambda>rd.
     and_then (distinguished_walk tree_size (cfg_reasonable_monitoring_window (cl_config cl)) stop
         [(root tree_size, 0, rightmost_ts)] rd) (\<lambda>(walked, rd).
     and_then (finish_and_commit C fth tree_size timestamp_opt updated pf rd []
         (\<lambda>_. \<Union> ((\<lambda>p. set (get_roots (p + 1))) ` set walked)) cl) (\<lambda>(cl, captured, leaf_data).
     Inr (cl\<lparr>cl_distinguished_entries :=
       fold (\<lambda>p m. case entry_of_walk captured leaf_data p of
           Some (k, v) \<Rightarrow> bt_insert k v m | None \<Rightarrow> m) walked []\<rparr>))))))))"

section \<open>Owner monitoring\<close>

record owner_replay =
  or_reader :: proof_reader
  or_ctx :: ladder_ctx
  or_roots :: entry_roots

function replay_owner_walk :: "crypto \<Rightarrow> client \<Rightarrow> bytes \<Rightarrow> u64 \<Rightarrow> u64 \<Rightarrow> u64 \<Rightarrow> u64 \<Rightarrow> u64 \<Rightarrow> u64 \<Rightarrow> version \<Rightarrow>
    binary_ladder_step list \<Rightarrow> owner_replay \<Rightarrow> owner_replay res" where
  "replay_owner_walk C cl label node left_ts right_ts start tree_size rmw bound binary_ladder w =
     (if saturating_sub right_ts left_ts < rmw then Inr w
      else
        and_then (rd_timestamp node (or_reader w)) (\<lambda>(node_ts, rd).
        let w = w\<lparr>or_reader := rd\<rparr>;
            go_right = (\<lambda>w. case right_child_in tree_size node of
              Some rc \<Rightarrow> replay_owner_walk C cl label rc node_ts right_ts start tree_size rmw bound binary_ladder w
            | None \<Rightarrow> Inr w) in
        if node \<le> start then go_right w
        else
          and_then
            (if is_leaf node then Inr w
             else replay_owner_walk C cl label (left_child node) left_ts node_ts start tree_size rmw bound
                    binary_ladder w) (\<lambda>w.
          and_then (rd_prefix_proof (or_reader w)) (\<lambda>(pp, rd).
          and_then (verify_owner_ladder C cl label pp binary_ladder (or_ctx w)) (\<lambda>(rt, greatest, cx).
          if (case greatest of Some g \<Rightarrow> g > bound | None \<Rightarrow> False) then
            Inl (Anyhow ''Unexpected version exceeds advertised greatest'')
          else
            and_then (record_entry_root node rt (or_roots w)) (\<lambda>roots.
            go_right \<lparr>or_reader = rd, or_ctx = cx, or_roots = roots\<rparr>))))))"
  by pat_completeness auto

termination
  by (relation "measure (\<lambda>(C, cl, l, node, _). level node)")
    (auto simp: left_child_level dest: right_child_in_level)

declare replay_owner_walk.simps [simp del]

definition verify_owner_monitor :: "crypto \<Rightarrow> u64 \<Rightarrow> bytes \<Rightarrow> monitoring_map \<Rightarrow> u64 \<Rightarrow> version option \<Rightarrow>
    owner_monitor_response \<Rightarrow> client \<Rightarrow> client res" where
  "verify_owner_monitor C now label obligations start greatest_version resp cl =
     and_then (ok_or (omr_full_tree_head resp) (Anyhow ''Missing FullTreeHead'')) (\<lambda>fth.
     and_then (ok_or (omr_monitor resp) (Anyhow ''Missing monitor proof'')) (\<lambda>pf.
     and_then (open_head cl now fth ''Cannot monitor an empty tree'') (\<lambda>(tree_size, timestamp_opt, updated).
     let bound = (case greatest_version of Some v \<Rightarrow> v | None \<Rightarrow> U32_MAX);
         rmw = cfg_reasonable_monitoring_window (cl_config cl) in
     and_then (start_reading pf tree_size) (\<lambda>rd.
     and_then (rd_timestamp (tree_size - 1) rd) (\<lambda>(rightmost_ts, rd).
     and_then (replay_contact_ladders C obligations tree_size rmw (material_of cl label) (rd, [])) (\<lambda>(rd, roots, _).
     and_then (replay_owner_walk C cl label (root tree_size) 0 rightmost_ts start tree_size rmw bound
         (omr_binary_ladder resp) \<lparr>or_reader = rd, or_ctx = ctx_new, or_roots = roots\<rparr>) (\<lambda>w.
     if \<not> (length (omr_binary_ladder resp) = lc_slots (or_ctx w) \<or> lc_slots (or_ctx w) = 0) then
       Inl (Anyhow ''Owner-monitor binary ladder step count mismatch'')
     else
       and_then (finish_and_commit C fth tree_size timestamp_opt updated pf (or_reader w) (or_roots w)
           (\<lambda>_. {}) cl) (\<lambda>(cl, _). Inr cl))))))))"

section \<open>Update\<close>

definition check_update_step :: "crypto \<Rightarrow> client \<Rightarrow> bytes \<Rightarrow> version \<Rightarrow> nat \<times> binary_ladder_step \<Rightarrow> unit res" where
  "check_update_step C cl label start_ver ks =
     (case ks of (k, bl_step) \<Rightarrow>
      and_then (construct_vrf_input label (wrapping_add_u32 start_ver k)) (\<lambda>vrf_input.
      and_then (vrf_verify C (cfg_cipher_suite (cl_config cl)) (cl_vrf_pk cl) vrf_input (bls_proof bl_step)) (\<lambda>_.
      if bls_commitment bl_step \<noteq> None then
        Inl (Anyhow ''Commitment provided for a version greater than advertised greatest_version'')
      else Inr ())))"

definition verify_update_response :: "crypto \<Rightarrow> client \<Rightarrow> bytes \<Rightarrow> version option \<Rightarrow> bytes list \<Rightarrow>
    update_response \<Rightarrow> unit res" where
  "verify_update_response C cl label advertised_greatest sent_values resp =
     and_then (ok_or (ur_update resp) (Anyhow ''Missing update proof'')) (\<lambda>pf.
     and_then (ok_or (ur_full_tree_head resp) (Anyhow ''Missing FullTreeHead'')) (\<lambda>fth.
     and_then (ok_or (fth_tree_head fth) (Anyhow ''Missing TreeHead'')) (\<lambda>th.
     if th_tree_size th = 0 then Inl (Anyhow ''Tree size is 0'')
     else if ur_position resp \<ge> th_tree_size th then Inl (Anyhow ''Insertion position outside tree'')
     else
       let effective_values = (if ur_values resp = [] then sent_values else ur_values resp);
           start_ver = (case advertised_greatest of Some v \<Rightarrow> wrapping_add_u32 v 1 | None \<Rightarrow> 0) in
       if ur_info resp = [] then Inl (Anyhow ''Empty UpdateResponse.info'')
       else if length (ur_info resp) \<noteq> length effective_values then
         Inl (Anyhow ''info length does not match covered values'')
       else if length (ur_binary_ladder resp) \<noteq> length effective_values then
         Inl (Anyhow ''Binary ladder length does not match covered versions'')
       else
         and_then (map_res (check_update_step C cl label start_ver) (enumerate 0 (ur_binary_ladder resp))) (\<lambda>_.
         and_then (map_res (\<lambda>(k, info, val).
             commit (hmac_sha256 C) label (wrapping_add_u32 start_ver k) val None (ui_opening info))
             (enumerate 0 (zip (ur_info resp) effective_values))) (\<lambda>_.
         if ctp_prefix_proofs pf = [] then Inl (Anyhow ''Missing prefix proof'') else Inr ())))))"

text \<open>
  The loop of \<open>update\<close>: the \<open>i\<close>-th answer of the service is \<open>respond i\<close> of the request. Each
  round counts down from 32.
\<close>

fun update_loop :: "crypto \<Rightarrow> (nat \<Rightarrow> update_request \<Rightarrow> update_response res) \<Rightarrow> bytes \<Rightarrow> bytes \<Rightarrow> nat \<Rightarrow>
    client \<Rightarrow> client \<times> update_response res" where
  "update_loop C respond user val 0 cl =
     (cl, Inl (Anyhow ''Update did not converge while catching up on existing versions''))"
| "update_loop C respond user val (Suc i) cl =
     (let greatest_version = cl_label_versions cl user;
          req = \<lparr>ureq_last = (case get_consistency_req cl of Some c \<Rightarrow> cr_last c | None \<Rightarrow> None),
                 ureq_label = user, ureq_greatest_version = greatest_version, ureq_values = [val]\<rparr>;
          start = (case greatest_version of Some v \<Rightarrow> wrapping_add_u32 v 1 | None \<Rightarrow> 0)
      in case and_then (respond i req) (\<lambda>resp.
             and_then (verify_update_response C cl user greatest_version [val] resp) (\<lambda>_. Inr resp)) of
           Inl e \<Rightarrow> (cl, Inl e)
         | Inr resp \<Rightarrow>
             if ur_values resp = [] then
               (cl\<lparr>cl_label_versions := (cl_label_versions cl)(user \<mapsto> start)\<rparr>, Inr resp)
             else
               update_loop C respond user val i
                 (cl\<lparr>cl_label_versions := (cl_label_versions cl)(user \<mapsto>
                    wrapping_add_u32 start (length (ur_values resp) - 1))\<rparr>))"

definition client_update :: "crypto \<Rightarrow> (nat \<Rightarrow> update_request \<Rightarrow> update_response res) \<Rightarrow> bytes \<Rightarrow> bytes \<Rightarrow>
    client \<Rightarrow> client \<times> update_response res" where
  "client_update C respond user val cl = update_loop C respond user val 32 cl"

end
