(* ===== verification/Credentials.thy ===== *)
theory Credentials
  imports Client
begin

text \<open>
  Credentials on the client, \<^verbatim>\<open>src/src/client/core.rs\<close>: the offline check of a standard or
  provisional credential against the distinguished entries the client retains, the terminal
  entry of a provisional one, and its later anchoring by a credential update. None of them
  changes the client.
\<close>

definition credential_commitment :: "crypto \<Rightarrow> credential \<Rightarrow> bytes res" where
  "credential_commitment C cred =
     and_then (ok_or (crd_value cred) (Anyhow ''Missing credential value'')) (\<lambda>val.
     commit (hmac_sha256 C) (crd_label cred) (crd_version cred) val None (crd_opening cred))"

section \<open>The terminal entry\<close>

text \<open>The ladder loop of \<open>credential_terminal\<close> records no roots.\<close>

definition terminal_entry :: "crypto \<Rightarrow> client \<Rightarrow> credential \<Rightarrow> bytes \<Rightarrow> u64 \<Rightarrow> u64 \<Rightarrow>
    u64 option \<times> proof_reader \<times> ladder_ctx \<times> (version \<rightharpoonup> bytes option) \<Rightarrow>
    (u64 option \<times> proof_reader \<times> ladder_ctx \<times> (version \<rightharpoonup> bytes option)) res" where
  "terminal_entry C cl cred target_commitment rightmost entry st =
     (case st of (first_equal, rd, cx, mat) \<Rightarrow>
      and_then (rd_prefix_proof rd) (\<lambda>(pp, rd).
      and_then (verify_ladder_proof C cl (crd_label cred) pp (crd_version cred) (crd_binary_ladder cred)
          target_commitment True (entry = rightmost) (cx, mat)) (\<lambda>(_, rel, cx, mat).
      Inr (if rel = Equal \<and> first_equal = None then Some entry else first_equal, rd, cx, mat))))"

definition credential_terminal :: "crypto \<Rightarrow> client \<Rightarrow> credential \<Rightarrow> u64 res" where
  "credential_terminal C cl cred =
     and_then (ok_or (crd_tree_head cred) (Anyhow ''Provisional credential missing TreeHead'')) (\<lambda>th.
     and_then (ok_or (crd_search cred) (Anyhow ''Provisional credential missing search proof'')) (\<lambda>pf.
     and_then (credential_commitment C cred) (\<lambda>target_commitment.
     let frontier = get_frontier (th_tree_size th) in
     and_then (start_reading pf (th_tree_size th)) (\<lambda>rd.
     if frontier = [] then Inl (Panic ''called `Option::unwrap()` on a `None` value'')
     else
       let rightmost = last frontier in
       and_then (fold_res (terminal_entry C cl cred target_commitment rightmost) frontier
           (None, rd, ctx_of_base (base_binary_ladder (crd_version cred)), Map.empty)) (\<lambda>(first_equal, _).
       Inr (case first_equal of Some e \<Rightarrow> e | None \<Rightarrow> rightmost))))))"

section \<open>Checking a credential\<close>

definition verify_standard :: "crypto \<Rightarrow> client \<Rightarrow> credential \<Rightarrow> bytes \<Rightarrow> bytes \<Rightarrow> unit res" where
  "verify_standard C cl cred target_commitment dist_root =
     and_then (ok_or (crd_distinguished cred)
         (Anyhow ''Standard credential missing distinguished PrefixProof'')) (\<lambda>pp.
     and_then (verify_ladder_proof C cl (crd_label cred) pp (crd_version cred) (crd_binary_ladder cred)
         target_commitment True True (ctx_new, Map.empty)) (\<lambda>(rt, _, cx, _).
     if length (crd_binary_ladder cred) \<noteq> lc_slots cx then
       Inl (Anyhow ''Credential binary ladder has unused steps'')
     else if rt \<noteq> dist_root then
       Inl (Anyhow ''Credential does not bind to the retained distinguished entry'')
     else Inr ()))"

definition verify_provisional :: "crypto \<Rightarrow> client \<Rightarrow> credential \<Rightarrow> bytes \<Rightarrow> bytes list \<Rightarrow> unit res" where
  "verify_provisional C cl cred target_commitment anchor_peaks =
     and_then (ok_or (crd_tree_head cred) (Anyhow ''Provisional credential missing TreeHead'')) (\<lambda>th.
     and_then (ok_or (crd_search cred) (Anyhow ''Provisional credential missing search proof'')) (\<lambda>pf.
     let tree_size = th_tree_size th; base = base_binary_ladder (crd_version cred) in
     if tree_size \<le> crd_position cred then
       Inl (Anyhow ''Provisional view does not extend past the anchor'')
     else if length (crd_binary_ladder cred) \<noteq> lc_slots (ctx_of_base base) then
       Inl (Anyhow ''Credential binary ladder length mismatch'')
     else
       and_then (start_reading pf tree_size) (\<lambda>rd.
       and_then (replay_greatest_search C cl (crd_label cred) tree_size (crd_version cred)
           (crd_binary_ladder cred) target_commitment
           \<lparr>op_reader = rd, op_ctx = ctx_of_base base, op_material = Map.empty, op_roots = []\<rparr>)
         (\<lambda>(terminal, st).
       if terminal \<le> crd_position cred then
         Inl (Anyhow ''Provisional credential for a version already covered by the anchor'')
       else
         and_then (rd_finish (op_roots st) (op_reader st)) (\<lambda>leaf_data.
         and_then (ok_or (ctp_inclusion pf) (Anyhow ''Missing inclusion proof'')) (\<lambda>inclusion.
         let anchor_retained = map_of (rev (zip (get_roots (crd_position cred + 1)) anchor_peaks)) in
         and_then (calculate_root_capturing (sha256 C) (map fst leaf_data) (leaf_hashes_of C leaf_data)
             tree_size (ip_elements inclusion) anchor_retained {}) (\<lambda>(candidate_root, _).
         verify_tree_head_signature C cl th tree_size candidate_root)))))))"

text \<open>Dispatch on the type; an unknown anchor, and a missing value, come first.\<close>

definition verify_credential :: "crypto \<Rightarrow> client \<Rightarrow> credential \<Rightarrow> unit res" where
  "verify_credential C cl cred =
     and_then (ok_or (map_of (cl_distinguished_entries cl) (crd_position cred))
         (Anyhow ''Credential anchors to an unknown distinguished log entry'')) (\<lambda>(_, dist_root, anchor_peaks).
     and_then (credential_commitment C cred) (\<lambda>target_commitment.
     if crd_credential_type cred = CREDENTIAL_TYPE_STANDARD then
       verify_standard C cl cred target_commitment dist_root
     else if crd_credential_type cred \<noteq> CREDENTIAL_TYPE_PROVISIONAL then
       Inl (Anyhow ''Unknown credential type'')
     else verify_provisional C cl cred target_commitment anchor_peaks))"

section \<open>Credential updates\<close>

text \<open>The material of the versions up to the credential's, from its own ladder.\<close>

fun credential_material :: "crypto \<Rightarrow> client \<Rightarrow> credential \<Rightarrow> bytes \<Rightarrow> (binary_ladder_step \<times> version) list \<Rightarrow>
    material \<Rightarrow> material res" where
  "credential_material C cl cred target_commitment [] mat = Inr mat"
| "credential_material C cl cred target_commitment ((bl_step, v) # steps) mat =
     (if v > crd_version cred then credential_material C cl cred target_commitment steps mat
      else
        and_then (construct_vrf_input (crd_label cred) v) (\<lambda>vrf_input.
        and_then (vrf_verify C (cfg_cipher_suite (cl_config cl)) (cl_vrf_pk cl) vrf_input (bls_proof bl_step)) (\<lambda>out.
        and_then
          (if v = crd_version cred then Inr target_commitment
           else ok_or (bls_commitment bl_step) (Anyhow ''Credential ladder missing commitment'')) (\<lambda>comm.
        credential_material C cl cred target_commitment steps (mat(v \<mapsto> (out, Some comm)))))))"

text \<open>
  The descent of the update's replay. Unlike the one of the monitors it keeps \<open>parent_dist\<close>
  set, and stops at the first entry that is not distinguished.
\<close>

fun anchor_descent :: "nat \<Rightarrow> u64 \<Rightarrow> u64 \<Rightarrow> u64 \<Rightarrow> client_descent \<Rightarrow> client_descent res" where
  "anchor_descent 0 tree_size rmw terminal w = Inl Hang"
| "anchor_descent (Suc fuel) tree_size rmw terminal w =
     (let cur = kd_curr w in
      if cur = terminal then Inr w
      else
        and_then (rd_timestamp cur (kd_reader w)) (\<lambda>(ts, rd).
        let dist = (saturating_sub (kd_right w) (kd_left w) \<ge> rmw);
            w = w\<lparr>kd_reader := rd, kd_ancestor_dist := (kd_ancestor_dist w)(cur \<mapsto> dist)\<rparr> in
        if \<not> dist then Inr w
        else if terminal < cur then
          anchor_descent fuel tree_size rmw terminal (w\<lparr>kd_right := ts, kd_curr := left_child cur\<rparr>)
        else
          (case ibst_right_child cur tree_size of
             Some rc \<Rightarrow> anchor_descent fuel tree_size rmw terminal (w\<lparr>kd_left := ts, kd_curr := rc\<rparr>)
           | None \<Rightarrow> Inr (w\<lparr>kd_left := ts\<rparr>))))"

definition anchor_ladder :: "crypto \<Rightarrow> material \<Rightarrow> version \<Rightarrow> u64 \<Rightarrow> proof_reader \<times> entry_roots \<Rightarrow>
    (proof_reader \<times> entry_roots) res" where
  "anchor_ladder C mat ver e st =
     (case st of (rd, roots) \<Rightarrow>
      and_then (rd_timestamp e rd) (\<lambda>(_, rd).
      and_then (rd_prefix_proof rd) (\<lambda>(pp, rd).
      and_then (verify_monitoring_ladder C mat pp ver) (\<lambda>rt.
      and_then (record_entry_root e rt roots) (\<lambda>roots. Inr (rd, roots))))))"

definition first_right_of :: "(u64 \<times> 'a) list \<Rightarrow> u64 \<Rightarrow> u64 option" where
  "first_right_of entries terminal = min_u64 (filter (\<lambda>p. p > terminal) (map fst entries))"

definition verify_credential_update :: "crypto \<Rightarrow> client \<Rightarrow> credential \<Rightarrow> credential_update \<Rightarrow> unit res" where
  "verify_credential_update C cl cred upd =
     and_then (credential_terminal C cl cred) (\<lambda>terminal.
     and_then (ok_or (map_of (cl_distinguished_entries cl) (cru_position upd))
         (Anyhow ''CredentialUpdate anchors to an unknown distinguished log entry'')) (\<lambda>(_, _, anchor_peaks).
     if first_right_of (cl_distinguished_entries cl) terminal \<noteq> Some (cru_position upd) then
       Inl (Anyhow ''CredentialUpdate position is not the first distinguished entry right of the search terminal'')
     else
       and_then (ok_or (cru_monitor upd) (Anyhow ''Missing monitor proof'')) (\<lambda>pf.
       let tree_size = cru_position upd + 1; rmw = cfg_reasonable_monitoring_window (cl_config cl) in
       and_then (credential_commitment C cred) (\<lambda>target_commitment.
       and_then (credential_material C cl cred target_commitment
           (zip (crd_binary_ladder cred) (base_binary_ladder (crd_version cred))) Map.empty) (\<lambda>mat.
       and_then (start_reading pf tree_size) (\<lambda>rd.
       and_then (rd_timestamp (tree_size - 1) rd) (\<lambda>(rightmost_ts, rd).
       and_then (anchor_descent CONTACT_FUEL tree_size rmw terminal
           \<lparr>kd_reader = rd, kd_left = 0, kd_right = rightmost_ts, kd_parent_dist = True,
            kd_ancestor_dist = Map.empty, kd_curr = root tree_size\<rparr>) (\<lambda>w.
       and_then (fold_res (anchor_ladder C mat (crd_version cred))
           (ancestors_to_visit terminal tree_size (kd_ancestor_dist w)) (kd_reader w, [])) (\<lambda>(rd, roots).
       and_then (rd_finish roots rd) (\<lambda>leaf_data.
       and_then (ok_or (ctp_inclusion pf) (Anyhow ''Missing inclusion proof'')) (\<lambda>inclusion.
       and_then (calculate_root_capturing (sha256 C) (map fst leaf_data) (leaf_hashes_of C leaf_data)
           tree_size (ip_elements inclusion) Map.empty {}) (\<lambda>(candidate_root, _).
       and_then (accumulator_from_peaks (sha256 C) tree_size anchor_peaks) (\<lambda>anchor_root.
       if candidate_root \<noteq> anchor_root then
         Inl (Anyhow ''CredentialUpdate does not reconstruct the retained distinguished root'')
       else Inr ())))))))))))))"

end
