(* ===== verification/Gossip.thy ===== *)
theory Gossip
  imports Client
begin

text \<open>
  Exchange of heads between clients: \<^verbatim>\<open>src/src/client/gossip.rs\<close> and the gossip functions of
  \<^verbatim>\<open>src/src/client/core.rs\<close>. Hex strings and the encoding of a head are those of the codec.
\<close>

record gossip_head =
  gh_tree_size :: u64
  gh_root_hash :: string
  gh_tree_head :: string

record fork_evidence =
  fe_tree_size :: u64
  fe_root_a :: string
  fe_head_a :: string
  fe_root_b :: string
  fe_head_b :: string

datatype gossip_outcome = Consistent | Inconclusive | Fork fork_evidence

definition hex_decoded :: "codec \<Rightarrow> string \<Rightarrow> bytes res" where
  "hex_decoded D s = ok_or (hex_decode D s) (Anyhow ''invalid hex string'')"

definition gossip_head_new :: "codec \<Rightarrow> u64 \<Rightarrow> bytes \<Rightarrow> tree_head \<Rightarrow> gossip_head" where
  "gossip_head_new D tree_size root_hash head =
     \<lparr>gh_tree_size = tree_size, gh_root_hash = hex_encode D root_hash,
      gh_tree_head = hex_encode D (enc_tree_head D head)\<rparr>"

definition decode_head :: "codec \<Rightarrow> gossip_head \<Rightarrow> tree_head res" where
  "decode_head D g =
     and_then (hex_decoded D (gh_tree_head g)) (\<lambda>bs.
     ok_or (dec_tree_head D bs) (Anyhow ''failed to decode Protobuf message''))"

text \<open>\<^verbatim>\<open>find\<close> over the signatures; only a panic of the verification escapes it.\<close>

definition verify_gossip_head :: "crypto \<Rightarrow> codec \<Rightarrow> public_config \<Rightarrow> gossip_head \<Rightarrow> unit res" where
  "verify_gossip_head C D config g =
     and_then (decode_head D g) (\<lambda>head.
     if th_tree_size head \<noteq> gh_tree_size g then Inl (Anyhow ''Gossiped head tree size mismatch'')
     else
       and_then (hex_decoded D (gh_root_hash g)) (\<lambda>rt.
       and_then (construct_tree_head_tbs_public config (gh_tree_size g) rt) (\<lambda>tbs.
       and_then (vk_from_bytes C (cfg_server_sig_pk config)) (\<lambda>pk.
       and_then (any_res (\<lambda>sig. case verify_data C pk tbs (sig_signature sig) of
             Inr _ \<Rightarrow> Inr True
           | Inl (Panic p) \<Rightarrow> Inl (Panic p)
           | Inl _ \<Rightarrow> Inr False) (th_signatures head)) (\<lambda>found.
       if found then Inr () else Inl (Anyhow ''No valid operator signature on gossiped head''))))))"

definition verify_fork_evidence :: "crypto \<Rightarrow> codec \<Rightarrow> public_config \<Rightarrow> fork_evidence \<Rightarrow> unit res" where
  "verify_fork_evidence C D config ev =
     (if fe_root_a ev = fe_root_b ev then Inl (Anyhow ''Evidence roots are identical: no fork'')
      else
        and_then (map_res (\<lambda>(rt, head). verify_gossip_head C D config
            \<lparr>gh_tree_size = fe_tree_size ev, gh_root_hash = rt, gh_tree_head = head\<rparr>)
          [(fe_root_a ev, fe_head_a ev), (fe_root_b ev, fe_head_b ev)]) (\<lambda>_. Inr ()))"

section \<open>The client's side\<close>

fun bytes_of_head :: "codec \<Rightarrow> head_bytes \<Rightarrow> bytes" where
  "bytes_of_head D (Encoded th) = enc_tree_head D th"
| "bytes_of_head D (Loaded b) = b"

definition export_head :: "codec \<Rightarrow> client \<Rightarrow> gossip_head res" where
  "export_head D cl =
     and_then (ok_or (cl_state cl) (Anyhow ''No verified state to export'')) (\<lambda>s.
     and_then (ok_or (cl_retained_head cl) (Anyhow ''No retained signed head'')) (\<lambda>b.
     and_then (ok_or (dec_tree_head D (bytes_of_head D b)) (Anyhow ''failed to decode Protobuf message'')) (\<lambda>head.
     Inr (gossip_head_new D (ts_tree_size s) (ts_root_hash s) head))))"

definition check_gossiped_head :: "crypto \<Rightarrow> codec \<Rightarrow> client \<Rightarrow> gossip_head \<Rightarrow> gossip_outcome res" where
  "check_gossiped_head C D cl g =
     and_then (verify_gossip_head C D (cl_config cl) g) (\<lambda>_.
     and_then (ok_or (cl_state cl) (Anyhow ''No verified state to compare against'')) (\<lambda>s.
     if gh_tree_size g \<noteq> ts_tree_size s then Inr Inconclusive
     else
       and_then (hex_decoded D (gh_root_hash g)) (\<lambda>rt.
       if rt = ts_root_hash s then Inr Consistent
       else
         and_then (export_head D cl) (\<lambda>ours.
         Inr (Fork \<lparr>fe_tree_size = ts_tree_size s, fe_root_a = gh_root_hash ours,
           fe_head_a = gh_tree_head ours, fe_root_b = gh_root_hash g, fe_head_b = gh_tree_head g\<rparr>)))))"

definition distinguished_roots :: "crypto \<Rightarrow> client \<Rightarrow> (u64 \<times> bytes) list res" where
  "distinguished_roots C cl =
     map_res (\<lambda>(pos, _, _, peaks).
         and_then (accumulator_from_peaks (sha256 C) (pos + 1) peaks) (\<lambda>acc. Inr (pos, acc)))
       (cl_distinguished_entries cl)"

definition export_distinguished_roots :: "crypto \<Rightarrow> codec \<Rightarrow> client \<Rightarrow> (u64 \<times> string) list res" where
  "export_distinguished_roots C D cl =
     and_then (distinguished_roots C cl) (\<lambda>roots.
       Inr (map (\<lambda>(pos, rt). (pos, hex_encode D rt)) roots))"

definition check_gossiped_roots :: "crypto \<Rightarrow> codec \<Rightarrow> client \<Rightarrow> (u64 \<times> string) list \<Rightarrow> unit res" where
  "check_gossiped_roots C D cl theirs =
     and_then (distinguished_roots C cl) (\<lambda>mine.
     let n = min (length mine) (length theirs) in
     if n = 0 then Inl (Anyhow ''No overlapping distinguished heads to compare'')
     else
       and_then (map_res (\<lambda>(_, r). hex_decoded D r) (drop (length theirs - n) theirs)) (\<lambda>b.
       compare_roots (map snd (drop (length mine - n) mine)) b))"

end
