(* ===== verification/Transition.thy ===== *)
theory Transition
  imports Verifier
begin

text \<open>
  The replay of one audited prefix-tree transition: \<open>PartialPrefixTree\<close> and
  \<open>PrefixTransitioner\<close> of \<^verbatim>\<open>src/src/client/verifier.rs\<close>. A path is a 32-byte string; the
  node map is a list of distinct keys, since the source also iterates it.
\<close>

type_synonym path_key = "nat \<times> bytes"
type_synonym partial_tree = "(path_key \<times> bytes) list"

section \<open>Paths\<close>

text \<open>Slicing a key that is too short panics.\<close>

definition masked_bits :: "bytes \<Rightarrow> nat \<Rightarrow> bytes" where
  "masked_bits key lv =
     (let full = lv div 8; out = take full key @ replicate (32 - full) 0 in
      if full < 32 \<and> lv mod 8 \<noteq> 0 then
        out[full := (key ! full) AND push_bit (8 - lv mod 8) 0xff]
      else out)"

definition masked :: "bytes \<Rightarrow> nat \<Rightarrow> bytes res" where
  "masked key lv =
     (if length key < lv div 8 \<or> (lv div 8 < 32 \<and> lv mod 8 \<noteq> 0 \<and> length key \<le> lv div 8)
      then Inl (Panic ''range end index out of range'')
      else Inr (masked_bits key lv))"

definition with_bit :: "bytes \<Rightarrow> nat \<Rightarrow> nat \<Rightarrow> bytes" where
  "with_bit path lv b =
     (if b = 1 then path[lv div 8 := (path ! (lv div 8)) OR push_bit (7 - lv mod 8) 1] else path)"

section \<open>Partial tree\<close>

definition pt_put :: "path_key \<Rightarrow> bytes \<Rightarrow> partial_tree \<Rightarrow> partial_tree" where
  "pt_put k v t = (k, v) # filter (\<lambda>(k', _). k' \<noteq> k) t"

definition pt_insert :: "nat \<Rightarrow> bytes \<Rightarrow> bytes \<Rightarrow> partial_tree \<Rightarrow> partial_tree res" where
  "pt_insert lv path val t =
     (case map_of t (lv, path) of
        Some prev \<Rightarrow> if prev \<noteq> val then Inl (Anyhow ''Batch proof paths disagree'')
                     else Inr (pt_put (lv, path) val t)
      | None \<Rightarrow> Inr (pt_put (lv, path) val t))"

definition pt_remove_leaf :: "bytes \<Rightarrow> partial_tree \<Rightarrow> partial_tree res" where
  "pt_remove_leaf key t =
     and_then (masked key 256) (\<lambda>p. Inr (filter (\<lambda>(k', _). k' \<noteq> (256, p)) t))"

definition pt_set_leaf :: "bytes \<Rightarrow> bytes \<Rightarrow> partial_tree \<Rightarrow> partial_tree res" where
  "pt_set_leaf key val t = and_then (masked key 256) (\<lambda>p. Inr (pt_put (256, p) val t))"

definition has_descendant :: "partial_tree \<Rightarrow> nat \<Rightarrow> bytes \<Rightarrow> bool" where
  "has_descendant t lv path \<longleftrightarrow> (\<exists>(l, p)\<in>fst ` set t. l > lv \<and> masked_bits p lv = path)"

text \<open>The level never exceeds 256: the walk starts at a level of a proof element or at 0.\<close>

function pt_resolve :: "(bytes \<Rightarrow> bytes) \<Rightarrow> partial_tree \<Rightarrow> nat \<Rightarrow> bytes \<Rightarrow> bytes" where
  "pt_resolve sha t lv path =
     (case map_of t (lv, path) of
        Some v \<Rightarrow> v
      | None \<Rightarrow>
          if lv \<ge> 256 \<or> \<not> has_descendant t lv path then ZERO_VALUE
          else parent_hash sha (pt_resolve sha t (lv + 1) (with_bit path lv 0))
                 (pt_resolve sha t (lv + 1) (with_bit path lv 1)))"
  by pat_completeness auto
termination by (relation "measure (\<lambda>(sha, t, lv, path). 256 - lv)") auto

declare pt_resolve.simps [simp del]

definition pt_root :: "(bytes \<Rightarrow> bytes) \<Rightarrow> partial_tree \<Rightarrow> bytes" where
  "pt_root sha t = pt_resolve sha t 0 (replicate 32 0)"

section \<open>The transition\<close>

type_synonym covering = "(nat \<times> bytes \<times> bytes) list"

definition covers_batch_key :: "bytes list \<Rightarrow> bytes \<Rightarrow> nat \<Rightarrow> bytes \<Rightarrow> bool res" where
  "covers_batch_key batch_keys key lv sib_path =
     any_res (\<lambda>other. if other = key then Inr False
                else and_then (masked other lv) (\<lambda>m. Inr (m = sib_path))) batch_keys"

fun place_elements :: "bytes list \<Rightarrow> bytes \<Rightarrow> nat \<Rightarrow> bytes list \<Rightarrow> partial_tree \<times> covering \<Rightarrow>
    (partial_tree \<times> covering) res" where
  "place_elements batch_keys key k [] st = Inr st"
| "place_elements batch_keys key k (element # elements) (t, cov) =
     and_then (masked key k) (\<lambda>m.
     let sib_path = with_bit m k (1 - get_bit key k) in
     and_then (covers_batch_key batch_keys key (k + 1) sib_path) (\<lambda>c.
     if c then place_elements batch_keys key (k + 1) elements (t, cov @ [(k + 1, sib_path, element)])
     else and_then (pt_insert (k + 1) sib_path element t) (\<lambda>t.
       place_elements batch_keys key (k + 1) elements (t, cov))))"

text \<open>The terminal of one key in the old tree.\<close>

definition place_terminal :: "(bytes \<Rightarrow> bytes) \<Rightarrow> bytes list \<Rightarrow> bool \<Rightarrow> prefix_leaf \<Rightarrow>
    prefix_search_result \<Rightarrow> partial_tree \<Rightarrow> partial_tree res" where
  "place_terminal sha removed_keys is_removed_result item result t =
     (let key = pl_vrf_output item in
      if psr_result_type result = 1 \<and> is_removed_result then
        pt_set_leaf key (leaf_hash sha key (pl_commitment item)) t
      else if psr_result_type result = 1 then
        (if key \<notin> set removed_keys then
           Inl (Anyhow ''Inclusion result for an added key that is not being removed'')
         else Inr t)
      else if psr_result_type result = 2 then
        and_then (ok_or (psr_leaf result) (Anyhow ''NonInclusionLeaf result missing leaf'')) (\<lambda>leaf.
        if pl_vrf_output leaf = key then
          Inl (Anyhow ''NonInclusionLeaf carries the searched key itself'')
        else pt_set_leaf (pl_vrf_output leaf)
               (leaf_hash sha (pl_vrf_output leaf) (pl_commitment leaf)) t)
      else if psr_result_type result = 3 then Inr t
      else Inl (Anyhow ''Unknown PrefixSearchResult.result_type''))"

definition place_item :: "(bytes \<Rightarrow> bytes) \<Rightarrow> bytes list \<Rightarrow> bytes list \<Rightarrow> bytes list \<Rightarrow>
    bool \<times> prefix_leaf \<times> prefix_search_result \<Rightarrow> partial_tree \<times> covering \<times> nat \<Rightarrow>
    (partial_tree \<times> covering \<times> nat) res" where
  "place_item sha removed_keys batch_keys all_elements x st =
     (case (x, st) of ((is_removed_result, item, result), (t, cov, elements_offset)) \<Rightarrow>
      let key = pl_vrf_output item; depth = psr_depth result in
      if length key \<noteq> 32 then Inl (Anyhow ''VRF output must be 32 bytes'')
      else if depth > 256 then Inl (Anyhow ''Result depth exceeds tree height'')
      else if elements_offset + depth > length all_elements then
        Inl (Anyhow ''Batch proof has insufficient elements'')
      else
        let elements = take depth (drop elements_offset all_elements) in
        and_then (place_terminal sha removed_keys is_removed_result item result t) (\<lambda>t.
        and_then (place_elements batch_keys key 0 elements (t, cov)) (\<lambda>(t, cov).
          Inr (t, cov, elements_offset + depth))))"

definition check_covering :: "(bytes \<Rightarrow> bytes) \<Rightarrow> partial_tree \<Rightarrow> covering \<Rightarrow> unit res" where
  "check_covering sha t cov =
     (if \<exists>(lv, path, expected)\<in>set cov. pt_resolve sha t lv path \<noteq> expected
      then Inl (Anyhow ''Covering proof element disagrees with per-key data'') else Inr ())"

definition verify_and_transition :: "(bytes \<Rightarrow> bytes) \<Rightarrow> bytes \<Rightarrow> prefix_leaf list \<Rightarrow>
    prefix_leaf list \<Rightarrow> prefix_proof \<Rightarrow> bytes res" where
  "verify_and_transition sha old_root added removed pf =
     (if length (pp_results pf) \<noteq> length added + length removed then
        Inl (Anyhow ''Batch proof has a wrong number of results'')
      else
        let removed_keys = map pl_vrf_output removed;
            batch_keys = map pl_vrf_output (added @ removed);
            items = zip (replicate (length added) False @ replicate (length removed) True)
                      (zip (added @ removed) (pp_results pf)) in
        and_then (fold_res (place_item sha removed_keys batch_keys (pp_elements pf)) items ([], [], 0))
          (\<lambda>(t, cov, elements_offset).
        if elements_offset \<noteq> length (pp_elements pf) then Inl (Anyhow ''Batch proof has unused elements'')
        else
          and_then (check_covering sha t cov) (\<lambda>_.
          let computed_old = pt_root sha t;
              old_is_empty = list_all (\<lambda>b. b = 0) old_root in
          if computed_old \<noteq> old_root \<and> \<not> (old_is_empty \<and> computed_old = ZERO_VALUE) then
            Inl (Anyhow ''Old prefix root mismatch'')
          else
            and_then (fold_res (\<lambda>item. pt_remove_leaf (pl_vrf_output item)) removed t) (\<lambda>t.
            and_then (fold_res (\<lambda>item. pt_set_leaf (pl_vrf_output item)
                (leaf_hash sha (pl_vrf_output item) (pl_commitment item))) added t) (\<lambda>t.
              Inr (pt_root sha t))))))"

end
