(* ===== verification/Auditor.thy ===== *)
theory Auditor
  imports Transition Signing AccumulatorProps PrefixTree
begin

text \<open>
  The third-party auditor, \<^verbatim>\<open>src/src/client/auditor.rs\<close>: bootstrap from a signed head, and the
  replay of the updates of the log before it signs its own head. The network is not
  modelled: an operation takes the response and returns the head it would send.
\<close>

record auditor =
  aud_signer :: service_signing_key
  aud_log_accumulator :: log_accumulator
  aud_prefix_root :: bytes
  aud_last_timestamp :: u64
  aud_config :: public_config

definition auditor_new :: "service_signing_key \<Rightarrow> public_config \<Rightarrow> auditor" where
  "auditor_new signer config =
     \<lparr>aud_signer = signer, aud_log_accumulator = acc_new, aud_prefix_root = replicate 32 0,
      aud_last_timestamp = 0, aud_config = config\<rparr>"

definition bootstrap :: "crypto \<Rightarrow> audit_bootstrap_response \<Rightarrow> auditor \<Rightarrow> (u64 \<times> auditor) res" where
  "bootstrap C resp a =
     and_then (ok_or (abr_tree_head resp) (Anyhow ''Missing TreeHead'')) (\<lambda>th.
     and_then (from_peaks (th_tree_size th) (abr_log_peaks resp)) (\<lambda>acc.
     and_then (acc_calculate_root (sha256 C) acc) (\<lambda>rt.
     and_then (construct_tree_head_tbs_public (aud_config a) (th_tree_size th) rt) (\<lambda>tbs.
     and_then (vk_from_bytes C (cfg_server_sig_pk (aud_config a))) (\<lambda>server_pk.
     (case th_signatures th of
        [] \<Rightarrow> Inl (Anyhow ''TreeHead has no signatures'')
      | sig # _ \<Rightarrow>
          and_then (verify_data C server_pk tbs (sig_signature sig)) (\<lambda>_.
          Inr (th_tree_size th, a\<lparr>aud_log_accumulator := acc, aud_prefix_root := abr_prefix_root resp,
            aud_last_timestamp := abr_timestamp resp\<rparr>))))))))"

text \<open>Strictly ascending keys.\<close>

definition ascending_leaves :: "prefix_leaf list \<Rightarrow> bool" where
  "ascending_leaves ls \<longleftrightarrow>
     list_all (\<lambda>(x, y). pl_vrf_output x < pl_vrf_output y) (zip ls (drop 1 ls))"

definition check_update :: "auditor \<Rightarrow> auditor_update \<Rightarrow> prefix_proof res" where
  "check_update a upd =
     (if au_timestamp upd < aud_last_timestamp a then Inl (Anyhow ''Time regression detected'')
      else if \<not> ascending_leaves (au_added upd) \<or> \<not> ascending_leaves (au_removed upd) then
        Inl (Anyhow ''Audit leaves are not sorted ascending without duplicates'')
      else
        and_then (ok_or (au_proof upd) (Anyhow ''Missing prefix proof'')) (\<lambda>pf.
        let added = au_added upd; removed = au_removed upd;
            types = map psr_result_type (pp_results pf);
            removed_keys = set (map pl_vrf_output removed) in
        if length (pp_results pf) \<noteq> length added + length removed then
          Inl (Anyhow ''Audit proof result count mismatch'')
        else if list_ex (\<lambda>(leaf, ty). pl_vrf_output leaf \<notin> removed_keys \<and> ty = 1)
            (zip added (take (length added) types)) then
          Inl (Anyhow ''Added leaf has an inclusion result but is not being removed'')
        else if list_ex (\<lambda>ty. ty \<noteq> 1) (drop (length added) types) then
          Inl (Anyhow ''Removed leaf lacks an inclusion result'')
        else Inr pf))"

definition audit_update :: "crypto \<Rightarrow> auditor_update \<Rightarrow> auditor \<Rightarrow> auditor res" where
  "audit_update C upd a =
     and_then (check_update a upd) (\<lambda>pf.
     and_then (verify_and_transition (sha256 C) (aud_prefix_root a) (au_added upd) (au_removed upd) pf)
       (\<lambda>new_prefix_root.
     let leaf = log_leaf_value (sha256 C) (au_timestamp upd) new_prefix_root in
     Inr (a\<lparr>aud_log_accumulator := append_leaf (sha256 C) leaf (aud_log_accumulator a),
            aud_prefix_root := new_prefix_root, aud_last_timestamp := au_timestamp upd\<rparr>)))"

text \<open>The loop over the updates. The auditor keeps what it has accepted when a later update fails.\<close>

fun audit_updates :: "crypto \<Rightarrow> auditor_update list \<Rightarrow> auditor \<Rightarrow> auditor \<times> unit res" where
  "audit_updates C [] a = (a, Inr ())"
| "audit_updates C (upd # upds) a =
     (case audit_update C upd a of
        Inl e \<Rightarrow> (a, Inl e)
      | Inr a' \<Rightarrow> audit_updates C upds a')"

definition signed_head :: "crypto \<Rightarrow> auditor \<Rightarrow> auditor_tree_head res" where
  "signed_head C a =
     and_then (acc_calculate_root (sha256 C) (aud_log_accumulator a)) (\<lambda>new_log_root.
     let tree_size = acc_tree_size (aud_log_accumulator a) in
     and_then (construct_auditor_tree_head_tbs_public (aud_config a) tree_size (aud_last_timestamp a) new_log_root)
       (\<lambda>tbs.
     Inr \<lparr>ath_tree_size = tree_size, ath_timestamp = as_i64 (aud_last_timestamp a),
       ath_signature = sign_data C (aud_signer a) tbs\<rparr>))"

definition process_and_sign :: "crypto \<Rightarrow> audit_response \<Rightarrow> auditor \<Rightarrow>
    auditor \<times> auditor_tree_head option res" where
  "process_and_sign C resp a =
     (if ar_updates resp = [] then (a, Inr None)
      else case audit_updates C (ar_updates resp) a of
          (a', Inl e) \<Rightarrow> (a', Inl e)
        | (a', Inr _) \<Rightarrow> (a', and_then (signed_head C a') (\<lambda>ath. Inr (Some ath))))"

end
