(* ===== verification/PartialTree.thy ===== *)
theory PartialTree
  imports Transition TreeState
begin

text \<open>
  The auditor's partial tree against the map of the prefix tree: paths as bit strings, when the
  nodes of a partial tree stand for a map, and why it then resolves to the hashes of the map's
  tree.
\<close>

section \<open>Paths\<close>

text \<open>The byte string of a path: its bits, and zeros after them.\<close>

definition path_of :: "nat list \<Rightarrow> bytes" where
  "path_of p = fold (\<lambda>k x. with_bit x k (p ! k)) [0..<length p] (replicate 32 0)"

lemma length_with_bit [simp]: "length (with_bit x k b) = length x"
  by (simp add: with_bit_def)

lemma bit_of_one_byte: "n < 8 \<Longrightarrow> m < 8 \<Longrightarrow> bit (push_bit m (1 :: 8 word)) n \<longleftrightarrow> n = m"
  by (auto simp: bit_push_bit_iff bit_1_iff bit_exp_iff)

lemma key_bits_with_bit:
  assumes "length x = 32" and "k < 256" and "b \<le> 1" and "key_bits x ! k = 0"
  shows "key_bits (with_bit x k b) = (key_bits x)[k := b]"
proof (rule nth_equalityI)
  fix j assume "j < length (key_bits (with_bit x k b))"
  then have j: "j < 256" by simp
  have div: "k div 8 < 32" "j div 8 < 32" using assms(2) j by simp_all
  show "key_bits (with_bit x k b) ! j = (key_bits x)[k := b] ! j"
  proof (cases "b = 1")
    case True
    have "bit (push_bit (7 - k mod 8) (1 :: 8 word)) (7 - j mod 8) \<longleftrightarrow> j mod 8 = k mod 8"
      using bit_of_one_byte [of "7 - j mod 8" "7 - k mod 8"] by auto
    moreover have "j = k \<longleftrightarrow> j div 8 = k div 8 \<and> j mod 8 = k mod 8"
      by (metis mult_div_mod_eq)
    ultimately show ?thesis
      using True assms j div by (auto simp: with_bit_def get_bit_def nth_list_update bit_or_iff)
  next
    case False
    then show ?thesis using assms j by (auto simp: with_bit_def nth_list_update)
  qed
qed simp

lemma path_of_snoc:
  "path_of (p @ [b]) = with_bit (path_of p) (length p) b"
proof -
  have "fold (\<lambda>k x. with_bit x k ((p @ [b]) ! k)) [0..<length p] x =
      fold (\<lambda>k x. with_bit x k (p ! k)) [0..<length p] x" for x
    by (rule fold_cong) (simp_all add: nth_append)
  then show ?thesis by (simp add: path_of_def)
qed

definition bits :: "nat list \<Rightarrow> bool" where
  "bits p \<longleftrightarrow> length p \<le> 256 \<and> (\<forall>b\<in>set p. b \<le> 1)"

lemma path_of_bits:
  "bits p \<Longrightarrow> length (path_of p) = 32 \<and> key_bits (path_of p) = p @ replicate (256 - length p) 0"
proof (induction p rule: rev_induct)
  case Nil
  have "map (get_bit (replicate 32 0)) [0..<256] = map (\<lambda>_. 0) [0..<256]"
    by (rule map_cong) (auto simp: get_bit_def)
  then show ?case by (simp add: path_of_def key_bits_def map_replicate_const)
next
  case (snoc b p)
  then have "bits p" "length p < 256" "b \<le> 1" by (auto simp: bits_def)
  with snoc.IH have IH: "length (path_of p) = 32" "key_bits (path_of p) = p @ replicate (256 - length p) 0"
    by auto
  have "256 - length p = Suc (256 - length (p @ [b]))" using \<open>length p < 256\<close> by simp
  then have "(p @ replicate (256 - length p) 0)[length p := b] = (p @ [b]) @ replicate (256 - length (p @ [b])) 0"
    by (simp only: replicate_Suc list_update_length append_assoc append_Cons append_Nil)
  moreover have "key_bits (path_of p) ! length p = 0"
    using IH(2) \<open>length p < 256\<close> by (simp add: nth_append)
  ultimately show ?case
    using IH \<open>length p < 256\<close> \<open>b \<le> 1\<close> by (simp add: path_of_snoc key_bits_with_bit)
qed

lemma path_of_inj: "bits p \<Longrightarrow> bits q \<Longrightarrow> length p = length q \<Longrightarrow> path_of p = path_of q \<Longrightarrow> p = q"
  using path_of_bits [of p] path_of_bits [of q] by (metis append_eq_append_conv)

lemma path_of_eqI:
  "length x = 32 \<Longrightarrow> bits p \<Longrightarrow> key_bits x = p @ replicate (256 - length p) 0 \<Longrightarrow> x = path_of p"
  using path_of_bits [of p] key_bits_inj [of x "path_of p"] by metis

lemma bits_key [simp]: "bits (take n (key_bits key))"
proof -
  have "b \<le> 1" if "b \<in> set (key_bits key)" for b
    using that get_bit_le_1 by (auto simp: key_bits_def)
  then show ?thesis by (auto simp: bits_def dest: in_set_takeD)
qed

lemma bits_snoc [simp]: "bits (p @ [b]) \<longleftrightarrow> bits p \<and> length p < 256 \<and> b \<le> 1"
  by (auto simp: bits_def)

lemma bits_take: "bits p \<Longrightarrow> bits (take n p)"
  by (auto simp: bits_def dest: in_set_takeD)

lemma bits_sibling [simp]: "k < 256 \<Longrightarrow> bits (sibling_path key k)"
  by (simp add: sibling_path_def)

lemma masked_byte:
  assumes "length key = 32" and "lv \<le> 256" and "i < 32" and "n < 8"
  shows "bit (masked_bits key lv ! i) n \<longleftrightarrow> bit (key ! i) n \<and> 8 * i + 7 - n < lv"
proof -
  have lv: "lv = 8 * (lv div 8) + lv mod 8" by simp
  have full: "bit (push_bit m (0xff :: 8 word)) n \<longleftrightarrow> m \<le> n" for m
  proof -
    have "(0xff :: 8 word) = - 1" by simp
    then have "bit (push_bit m (0xff :: 8 word)) n \<longleftrightarrow> bit (push_bit m (- 1 :: 8 word)) n" by (simp only:)
    also have "\<dots> \<longleftrightarrow> m \<le> n" using assms(4) by (auto simp: bit_not_iff bit_mask_iff)
    finally show ?thesis .
  qed
  consider "i < lv div 8" | "i = lv div 8" | "lv div 8 < i" by linarith
  then show ?thesis
  proof cases
    case 1
    then have "masked_bits key lv ! i = key ! i"
      using assms by (auto simp: masked_bits_def Let_def nth_append)
    moreover have "8 * i + 7 - n < lv" using 1 lv by linarith
    ultimately show ?thesis by simp
  next
    case 2
    then show ?thesis
    proof (cases "lv mod 8 = 0")
      case True
      then have "masked_bits key lv ! i = 0"
        using assms 2 by (auto simp: masked_bits_def Let_def nth_append)
      moreover have "\<not> 8 * i + 7 - n < lv" using 2 True lv assms(4) by linarith
      ultimately show ?thesis by simp
    next
      case False
      then have "masked_bits key lv ! i = (key ! i) AND push_bit (8 - lv mod 8) 0xff"
        using assms 2 by (auto simp: masked_bits_def Let_def nth_append)
      moreover have "8 - lv mod 8 \<le> n \<longleftrightarrow> 8 * i + 7 - n < lv" using 2 lv assms(4) by linarith
      ultimately show ?thesis using full [of "8 - lv mod 8"] by (simp add: bit_and_iff)
    qed
  next
    case 3
    then have "masked_bits key lv ! i = 0"
      using assms by (auto simp: masked_bits_def Let_def nth_append)
    moreover have "\<not> 8 * i + 7 - n < lv" using 3 lv assms(4) by linarith
    ultimately show ?thesis by simp
  qed
qed

lemma masked_bits_path:
  assumes "length key = 32" and "lv \<le> 256"
  shows "masked_bits key lv = path_of (take lv (key_bits key))"
proof (rule path_of_eqI)
  show len: "length (masked_bits key lv) = 32"
    using assms by (auto simp: masked_bits_def Let_def)
  show "bits (take lv (key_bits key))" by simp
  show "key_bits (masked_bits key lv) = take lv (key_bits key) @ replicate (256 - length (take lv (key_bits key))) 0"
  proof (rule nth_equalityI)
    fix j assume "j < length (key_bits (masked_bits key lv))"
    then have j: "j < 256" by simp
    have "8 * (j div 8) + 7 - (7 - j mod 8) = j" by presburger
    then have byte: "bit (masked_bits key lv ! (j div 8)) (7 - j mod 8) \<longleftrightarrow>
        bit (key ! (j div 8)) (7 - j mod 8) \<and> j < lv"
      using assms j masked_byte [of key lv "j div 8" "7 - j mod 8"] by simp
    show "key_bits (masked_bits key lv) ! j =
        (take lv (key_bits key) @ replicate (256 - length (take lv (key_bits key))) 0) ! j"
    proof (cases "j < lv")
      case True
      then show ?thesis using byte j by (simp add: nth_append get_bit_def)
    next
      case False
      then show ?thesis using byte j assms(2) by (simp add: nth_append get_bit_def)
    qed
  qed (use assms in simp)
qed

lemma masked_bits_path_of:
  "bits p \<Longrightarrow> lv \<le> length p \<Longrightarrow> masked_bits (path_of p) lv = path_of (take lv p)"
  using path_of_bits [of p] masked_bits_path [of "path_of p" lv] by (simp add: bits_def)

lemma masked_path: "length key = 32 \<Longrightarrow> lv \<le> 256 \<Longrightarrow> masked key lv = Inr (path_of (take lv (key_bits key)))"
  by (auto simp: masked_def masked_bits_path)

lemma sibling_path_of:
  "k < 256 \<Longrightarrow> with_bit (path_of (take k (key_bits key))) k (1 - get_bit key k) = path_of (sibling_path key k)"
  using path_of_snoc [of "take k (key_bits key)" "1 - get_bit key k"] by (simp add: sibling_path_def)

section \<open>Nodes\<close>

definition node :: "partial_tree \<Rightarrow> nat list \<Rightarrow> bytes option" where
  "node t p = map_of t (length p, path_of p)"

definition pt_wf :: "partial_tree \<Rightarrow> bool" where
  "pt_wf t \<longleftrightarrow> (\<forall>(lv, x)\<in>fst ` set t. \<exists>p. bits p \<and> length p = lv \<and> x = path_of p)"

lemma has_descendant_iff:
  assumes "pt_wf t" and "bits p"
  shows "has_descendant t (length p) (path_of p) \<longleftrightarrow>
    (\<exists>q. bits q \<and> node t q \<noteq> None \<and> length p < length q \<and> take (length p) q = p)"
proof
  assume "has_descendant t (length p) (path_of p)"
  then obtain y where "y \<in> fst ` set t" "length p < fst y" "masked_bits (snd y) (length p) = path_of p"
    unfolding has_descendant_def by (elim bexE) (rule that, auto simp: split_beta)
  then obtain lv x where x: "(lv, x) \<in> fst ` set t" "length p < lv" "masked_bits x (length p) = path_of p"
    by (cases y) simp
  then obtain q where q: "bits q" "length q = lv" "x = path_of q" using assms(1) by (auto simp: pt_wf_def)
  then have "path_of (take (length p) q) = path_of p"
    using x masked_bits_path_of [of q "length p"] by simp
  then have "take (length p) q = p" using path_of_inj [OF bits_take [OF q(1)] assms(2)] q x(2) by simp
  moreover have "node t q \<noteq> None" using x(1) q by (auto simp: node_def map_of_eq_None_iff)
  ultimately show "\<exists>q. bits q \<and> node t q \<noteq> None \<and> length p < length q \<and> take (length p) q = p"
    using q x(2) by blast
next
  assume "\<exists>q. bits q \<and> node t q \<noteq> None \<and> length p < length q \<and> take (length p) q = p"
  then obtain q where q: "bits q" "node t q \<noteq> None" "length p < length q" "take (length p) q = p" by blast
  then have "(length q, path_of q) \<in> fst ` set t" by (simp add: node_def map_of_eq_None_iff)
  moreover have "masked_bits (path_of q) (length p) = path_of p"
    using masked_bits_path_of [OF q(1), of "length p"] q(3,4) by simp
  ultimately show "has_descendant t (length p) (path_of p)"
    using q(3) by (force simp: has_descendant_def)
qed

text \<open>
  A partial tree stands for a map when its nodes have the hashes of the map's tree, lie below
  occupied paths only, and every key of the map passes through one of them.
\<close>

definition good_node :: "(bytes \<Rightarrow> bytes) \<Rightarrow> key_map \<Rightarrow> nat list \<Rightarrow> bytes \<Rightarrow> bool" where
  "good_node sha kvs q v \<longleftrightarrow> v = subtree_hash sha kvs q \<and> (\<forall>j<length q. occupied kvs (take j q))"

definition good_nodes :: "(bytes \<Rightarrow> bytes) \<Rightarrow> key_map \<Rightarrow> partial_tree \<Rightarrow> bool" where
  "good_nodes sha kvs t \<longleftrightarrow> pt_wf t \<and> (\<forall>q v. bits q \<longrightarrow> node t q = Some v \<longrightarrow> good_node sha kvs q v)"

definition passes :: "partial_tree \<Rightarrow> bytes \<Rightarrow> bool" where
  "passes t key \<longleftrightarrow> (\<exists>lv\<le>256. node t (take lv (key_bits key)) \<noteq> None)"

lemma pt_resolve_correct:
  assumes "good_nodes sha kvs t" and "\<forall>key\<in>fst ` set kvs. passes t key"
    and "bits p" and "\<forall>j<length p. node t (take j p) = None"
  shows "pt_resolve sha t (length p) (path_of p) = subtree_hash sha kvs p"
  using assms(3,4)
proof (induction "256 - length p" arbitrary: p rule: less_induct)
  case less
  note unfold = pt_resolve.simps [of sha t "length p" "path_of p"]
  show ?case
  proof (cases "node t p")
    case (Some v)
    then have "v = subtree_hash sha kvs p"
      using assms(1) less.prems(1) by (auto simp: good_nodes_def good_node_def)
    then show ?thesis using Some unfold by (simp add: node_def)
  next
    case None
    show ?thesis
    proof (cases "length p \<ge> 256 \<or> \<not> has_descendant t (length p) (path_of p)")
      case True
      have "\<not> occupied kvs p"
      proof
        assume "occupied kvs p"
        then obtain key where key: "key \<in> fst ` set kvs" "take (length p) (key_bits key) = p"
          by (auto simp: occupied_iff)
        obtain lv where lv: "lv \<le> 256" "node t (take lv (key_bits key)) \<noteq> None"
          using assms(2) key(1) by (auto simp: passes_def)
        consider "lv < length p" | "lv = length p" | "length p < lv" by linarith
        then show False
        proof cases
          case 1
          then have "take lv p = take lv (key_bits key)" using key(2) by (metis min.strict_order_iff take_take min.commute)
          then show ?thesis using 1 less.prems(2) lv(2) by metis
        next
          case 2
          then show ?thesis using None key(2) lv(2) by simp
        next
          case 3
          have "has_descendant t (length p) (path_of p)"
            using assms(1) less.prems(1) 3 lv key(2)
            by (subst has_descendant_iff)
              (auto simp: good_nodes_def min_def intro!: exI [of _ "take lv (key_bits key)"])
          then show ?thesis using True 3 lv(1) by simp
        qed
      qed
      then have "subtree_hash sha kvs p = ZERO_VALUE"
        using less.prems(1) by (intro unoccupied_hash) (simp_all add: bits_def)
      then show ?thesis using True None unfold by (auto simp: node_def)
    next
      case False
      then obtain q where q: "bits q" "node t q \<noteq> None" "length p < length q" "take (length p) q = p"
        using has_descendant_iff [of t p] assms(1) less.prems(1) by (auto simp: good_nodes_def)
      then have occ: "occupied kvs p"
        using assms(1) by (fastforce simp: good_nodes_def good_node_def)
      have child: "pt_resolve sha t (Suc (length p)) (with_bit (path_of p) (length p) b) =
          subtree_hash sha kvs (p @ [b])" if "b \<le> 1" for b
      proof -
        have "node t (take j (p @ [b])) = None" if "j < Suc (length p)" for j
          using that None less.prems(2) by (cases "j = length p") auto
        moreover have "256 - length (p @ [b]) < 256 - length p" using False by simp linarith
        ultimately show ?thesis
          using less.hyps [of "p @ [b]"] False less.prems(1) that by (simp add: path_of_snoc)
      qed
      have "pt_resolve sha t (length p) (path_of p) =
          parent_hash sha (subtree_hash sha kvs (p @ [0])) (subtree_hash sha kvs (p @ [1]))"
        using unfold None False child [of 0] child [of 1] by (simp add: node_def)
      then show ?thesis using subtree_hash_step [OF occ] False by simp
    qed
  qed
qed

section \<open>Placing a proof\<close>

text \<open>What a batch proof says of one key, when it is the map's.\<close>

definition path_result :: "(bytes \<Rightarrow> bytes) \<Rightarrow> key_map \<Rightarrow> bytes \<Rightarrow> prefix_search_result \<Rightarrow> bytes list \<Rightarrow> bool" where
  "path_result sha kvs key r elements \<longleftrightarrow> length elements = psr_depth r \<and> psr_depth r \<le> 256 \<and>
     (\<forall>k<psr_depth r. elements ! k = subtree_hash sha kvs (sibling_path key k) \<and> occupied kvs (take k (key_bits key))) \<and>
     (case map_of kvs key of
        Some c \<Rightarrow> psr_result_type r = 1 \<and> empty_beyond kvs key (psr_depth r)
      | None \<Rightarrow> \<not> occupied kvs (take (psr_depth r) (key_bits key)) \<and>
          (psr_result_type r = 3 \<or> psr_result_type r = 2 \<and>
            (\<exists>l. psr_leaf r = Some l \<and> pl_vrf_output l \<noteq> key \<and> length (pl_vrf_output l) = 32 \<and>
              map_of kvs (pl_vrf_output l) = Some (pl_commitment l))))"

definition avoids :: "bytes list \<Rightarrow> nat list \<Rightarrow> bool" where
  "avoids batch q \<longleftrightarrow> (\<forall>key\<in>set batch. take (length q) (key_bits key) \<noteq> q)"

text \<open>Every node is a sibling subtree without batch keys, or the leaf of a key of the map.\<close>

definition known_nodes :: "key_map \<Rightarrow> bytes list \<Rightarrow> partial_tree \<Rightarrow> bool" where
  "known_nodes kvs batch t \<longleftrightarrow>
     (\<forall>q. bits q \<longrightarrow> node t q \<noteq> None \<longrightarrow> avoids batch q \<or> (\<exists>key\<in>fst ` set kvs. q = key_bits key))"

definition covered :: "(bytes \<Rightarrow> bytes) \<Rightarrow> key_map \<Rightarrow> bytes list \<Rightarrow> covering \<Rightarrow> bool" where
  "covered sha kvs batch cov \<longleftrightarrow>
     (\<forall>(lv, x, v)\<in>set cov. \<exists>key\<in>set batch. \<exists>k<256. lv = Suc k \<and> x = path_of (sibling_path key k) \<and>
       v = subtree_hash sha kvs (sibling_path key k))"

definition placed :: "(bytes \<Rightarrow> bytes) \<Rightarrow> key_map \<Rightarrow> bytes list \<Rightarrow> partial_tree \<Rightarrow> covering \<Rightarrow> bool" where
  "placed sha kvs batch t cov \<longleftrightarrow> good_nodes sha kvs t \<and> known_nodes kvs batch t \<and> covered sha kvs batch cov"

lemma node_put:
  assumes "bits p" and "bits q"
  shows "node (pt_put (length p, path_of p) v t) q = (if q = p then Some v else node t q)"
proof -
  have "map_of (filter (\<lambda>(k', _). k' \<noteq> k) t) k'' = (if k'' = k then None else map_of t k'')" for k k''
    by (induction t) auto
  then show ?thesis using path_of_inj [OF assms] by (auto simp: node_def pt_put_def)
qed

lemma pt_wf_put: "pt_wf t \<Longrightarrow> bits p \<Longrightarrow> pt_wf (pt_put (length p, path_of p) v t)"
  by (auto simp: pt_wf_def pt_put_def)

lemma good_nodes_put:
  "good_nodes sha kvs t \<Longrightarrow> bits p \<Longrightarrow> good_node sha kvs p v \<Longrightarrow>
    good_nodes sha kvs (pt_put (length p, path_of p) v t)"
  by (auto simp: good_nodes_def node_put pt_wf_put)

lemma covers_batch_key_path:
  assumes "\<forall>b\<in>set batch. length b = 32" and "key \<in> set batch" and "k < 256"
  shows "covers_batch_key batch key (Suc k) (path_of (sibling_path key k)) =
    Inr (\<not> avoids batch (sibling_path key k))"
proof -
  have "any_res (\<lambda>other. if other = key then Inr False
      else and_then (masked other (Suc k)) (\<lambda>m. Inr (m = path_of (sibling_path key k)))) batch =
    Inr (\<exists>b\<in>set batch. b \<noteq> key \<and> take (Suc k) (key_bits b) = sibling_path key k)"
  proof (rule any_res_eq)
    fix b assume "b \<in> set batch"
    have "path_of (take (Suc k) (key_bits b)) = path_of (sibling_path key k) \<longleftrightarrow>
        take (Suc k) (key_bits b) = sibling_path key k"
      using path_of_inj [of "take (Suc k) (key_bits b)" "sibling_path key k"] assms(3) by auto
    then show "(if b = key then Inr False
        else and_then (masked b (Suc k)) (\<lambda>m. Inr (m = path_of (sibling_path key k)))) =
      Inr (b \<noteq> key \<and> take (Suc k) (key_bits b) = sibling_path key k)"
      using assms \<open>b \<in> set batch\<close> by (simp add: masked_path)
  qed
  then show ?thesis
    using assms sibling_path_neq [of k key] unfolding covers_batch_key_def by (auto simp: avoids_def)
qed

text \<open>One key's elements.\<close>

lemma good_sibling:
  assumes "\<forall>j\<le>k. occupied kvs (take j (key_bits key))" and "k < 256"
  shows "good_node sha kvs (sibling_path key k) (subtree_hash sha kvs (sibling_path key k))"
proof -
  have "take j (sibling_path key k) = take j (key_bits key)" if "j < Suc k" for j
    using that assms(2) by (simp add: sibling_path_def)
  then show ?thesis using assms by (auto simp: good_node_def)
qed

lemma place_elements_correct:
  assumes "\<forall>b\<in>set batch. length b = 32" and "key \<in> set batch"
    and "placed sha kvs batch t cov" and "k + length elements \<le> 256"
    and "\<forall>i<length elements. elements ! i = subtree_hash sha kvs (sibling_path key (k + i))"
    and "\<forall>j<k + length elements. occupied kvs (take j (key_bits key))"
  shows "\<exists>t' cov'. place_elements batch key k elements (t, cov) = Inr (t', cov') \<and>
    placed sha kvs batch t' cov' \<and> (\<forall>q v. bits q \<longrightarrow> node t q = Some v \<longrightarrow> node t' q = Some v) \<and>
    (\<forall>i. k \<le> i \<longrightarrow> i < k + length elements \<longrightarrow> avoids batch (sibling_path key i) \<longrightarrow>
      node t' (sibling_path key i) \<noteq> None)"
  using assms(3-)
proof (induction elements arbitrary: k t cov)
  case (Cons element elements)
  have k: "k < 256" using Cons.prems(2) by simp
  have el: "element = subtree_hash sha kvs (sibling_path key k)" using Cons.prems(3) by force
  have good: "good_node sha kvs (sibling_path key k) element"
    unfolding el using Cons.prems(4) k by (intro good_sibling) auto
  have m: "masked key k = Inr (path_of (take k (key_bits key)))"
    using assms(1,2) k by (simp add: masked_path)
  have rest: "Suc k + length elements \<le> 256"
    "\<forall>i<length elements. elements ! i = subtree_hash sha kvs (sibling_path key (Suc k + i))"
    "\<forall>j<Suc k + length elements. occupied kvs (take j (key_bits key))"
    using Cons.prems(2-4) by (auto dest: spec [of _ "Suc _"])
  show ?case
  proof (cases "avoids batch (sibling_path key k)")
    case False
    have "placed sha kvs batch t (cov @ [(k + 1, path_of (sibling_path key k), element)])"
      using Cons.prems(1) assms(2) el k by (auto simp: placed_def covered_def)
    from Cons.IH [OF this rest] obtain t' cov' where IH:
      "place_elements batch key (Suc k) elements (t, cov @ [(k + 1, path_of (sibling_path key k), element)]) =
        Inr (t', cov')" "placed sha kvs batch t' cov'"
      "\<forall>q v. bits q \<longrightarrow> node t q = Some v \<longrightarrow> node t' q = Some v"
      "\<forall>i. Suc k \<le> i \<longrightarrow> i < Suc k + length elements \<longrightarrow> avoids batch (sibling_path key i) \<longrightarrow>
        node t' (sibling_path key i) \<noteq> None" by blast
    have "place_elements batch key k (element # elements) (t, cov) = Inr (t', cov')"
      using IH(1) m k False covers_batch_key_path [OF assms(1,2) k] by (simp add: Let_def sibling_path_of [simplified])
    moreover have "node t' (sibling_path key i) \<noteq> None"
      if i: "k \<le> i" "i < k + length (element # elements)" "avoids batch (sibling_path key i)" for i
    proof -
      have "i \<noteq> k" using i(3) False by blast
      then show ?thesis using IH(4) i by simp
    qed
    ultimately show ?thesis using IH(2,3) by blast
  next
    case True
    let ?t = "pt_put (k + 1, path_of (sibling_path key k)) element t"
    have put: "bits q \<Longrightarrow> node ?t q = (if q = sibling_path key k then Some element else node t q)" for q
      using node_put [of "sibling_path key k" q element t] k by simp
    have ins: "pt_insert (k + 1) (path_of (sibling_path key k)) element t = Inr ?t"
      and keep: "\<forall>q v. bits q \<longrightarrow> node t q = Some v \<longrightarrow> node ?t q = Some v"
    proof -
      have same: "v = element" if "node t (sibling_path key k) = Some v" for v
        using that Cons.prems(1) k el by (auto simp: placed_def good_nodes_def good_node_def)
      then show "pt_insert (k + 1) (path_of (sibling_path key k)) element t = Inr ?t"
        using k by (auto simp: pt_insert_def node_def split: option.split)
      show "\<forall>q v. bits q \<longrightarrow> node t q = Some v \<longrightarrow> node ?t q = Some v"
        using same put by auto
    qed
    have "good_nodes sha kvs ?t"
      using Cons.prems(1) good good_nodes_put [of sha kvs t "sibling_path key k" element] k
      by (simp add: placed_def)
    moreover have "known_nodes kvs batch ?t"
      using Cons.prems(1) True put by (auto simp: placed_def known_nodes_def)
    ultimately have "placed sha kvs batch ?t cov" using Cons.prems(1) by (simp add: placed_def)
    from Cons.IH [OF this rest] obtain t' cov' where IH:
      "place_elements batch key (Suc k) elements (?t, cov) = Inr (t', cov')" "placed sha kvs batch t' cov'"
      "\<forall>q v. bits q \<longrightarrow> node ?t q = Some v \<longrightarrow> node t' q = Some v"
      "\<forall>i. Suc k \<le> i \<longrightarrow> i < Suc k + length elements \<longrightarrow> avoids batch (sibling_path key i) \<longrightarrow>
        node t' (sibling_path key i) \<noteq> None" by blast
    have "place_elements batch key k (element # elements) (t, cov) = Inr (t', cov')"
      using IH(1) m k True covers_batch_key_path [OF assms(1,2) k] ins by (simp add: Let_def sibling_path_of [simplified])
    moreover have "node t' (sibling_path key k) = Some element"
      using IH(3) put k by simp
    then have "node t' (sibling_path key i) \<noteq> None"
      if "k \<le> i" "i < k + length (element # elements)" "avoids batch (sibling_path key i)" for i
      using that IH(4) by (cases "i = k") simp_all
    moreover have "\<forall>q v. bits q \<longrightarrow> node t q = Some v \<longrightarrow> node t' q = Some v" using IH(3) keep by blast
    ultimately show ?thesis using IH(2) \<open>place_elements batch key k (element # elements) (t, cov) = Inr (t', cov')\<close>
      by blast
  qed
qed (auto simp: placed_def)

definition keeps :: "partial_tree \<Rightarrow> partial_tree \<Rightarrow> bool" where
  "keeps t t' \<longleftrightarrow> (\<forall>q. bits q \<longrightarrow> node t q \<noteq> None \<longrightarrow> node t' q \<noteq> None)"

lemma keeps_trans: "keeps t t' \<Longrightarrow> keeps t' t'' \<Longrightarrow> keeps t t''"
  by (simp add: keeps_def)

lemma key_bits_take: "take 256 (key_bits key) = key_bits key"
  by simp

lemma bits_key_bits [simp]: "bits (key_bits key)"
  using bits_key [of 256 key] by (simp only: key_bits_take)

lemma pt_set_leaf_eq:
  "length key = 32 \<Longrightarrow> pt_set_leaf key v t = Inr (pt_put (length (key_bits key), path_of (key_bits key)) v t)"
  using masked_path [of key 256] by (simp add: pt_set_leaf_def)

lemma set_leaf_placed:
  assumes "placed sha kvs batch t cov" and "keys_ok kvs" and "length key = 32" and "map_of kvs key = Some c"
  shows "\<exists>t'. pt_set_leaf key (leaf_hash sha key c) t = Inr t' \<and> placed sha kvs batch t' cov \<and> keeps t t' \<and>
    node t' (key_bits key) \<noteq> None"
proof -
  let ?t = "pt_put (length (key_bits key), path_of (key_bits key)) (leaf_hash sha key c) t"
  have put: "bits q \<Longrightarrow> node ?t q = (if q = key_bits key then Some (leaf_hash sha key c) else node t q)" for q
    by (rule node_put) simp_all
  have "good_node sha kvs (key_bits key) (leaf_hash sha key c)"
    using leaf_subtree_hash [OF assms(2-4), of sha] occupied_key [OF assms(4)] by (simp add: good_node_def)
  then have "good_nodes sha kvs ?t"
    using assms(1) by (intro good_nodes_put) (simp_all add: placed_def)
  moreover have "key \<in> fst ` set kvs" using assms(4) by (force dest: map_of_SomeD)
  then have "known_nodes kvs batch ?t"
    using assms(1) put by (auto simp: placed_def known_nodes_def)
  ultimately have "placed sha kvs batch ?t cov" using assms(1) by (simp add: placed_def)
  then show ?thesis using put by (simp add: pt_set_leaf_eq [OF assms(3)] keeps_def)
qed

definition item_ok :: "(bytes \<Rightarrow> bytes) \<Rightarrow> key_map \<Rightarrow> bytes list \<Rightarrow>
    bool \<times> prefix_leaf \<times> prefix_search_result \<Rightarrow> bytes list \<Rightarrow> bool" where
  "item_ok sha kvs removed_keys x els = (case x of (is_removed_result, item, result) \<Rightarrow>
     length (pl_vrf_output item) = 32 \<and> path_result sha kvs (pl_vrf_output item) result els \<and>
     (is_removed_result \<longrightarrow> map_of kvs (pl_vrf_output item) = Some (pl_commitment item)) \<and>
     (\<not> is_removed_result \<longrightarrow> map_of kvs (pl_vrf_output item) \<noteq> None \<longrightarrow> pl_vrf_output item \<in> set removed_keys))"

definition served :: "bytes list \<Rightarrow> partial_tree \<Rightarrow> bool \<times> prefix_leaf \<times> prefix_search_result \<Rightarrow> bool" where
  "served batch t x = (case x of (is_removed_result, item, result) \<Rightarrow>
     (\<forall>k<psr_depth result. avoids batch (sibling_path (pl_vrf_output item) k) \<longrightarrow>
        node t (sibling_path (pl_vrf_output item) k) \<noteq> None) \<and>
     (is_removed_result \<longrightarrow> node t (key_bits (pl_vrf_output item)) \<noteq> None))"

lemma place_terminal_correct:
  assumes "placed sha kvs batch t cov" and "keys_ok kvs"
    and "item_ok sha kvs removed_keys (is_removed_result, item, result) els"
  shows "\<exists>t'. place_terminal sha removed_keys is_removed_result item result t = Inr t' \<and>
    placed sha kvs batch t' cov \<and> keeps t t' \<and>
    (is_removed_result \<longrightarrow> node t' (key_bits (pl_vrf_output item)) \<noteq> None)"
proof (cases "map_of kvs (pl_vrf_output item)")
  case None
  then consider "psr_result_type result = 3"
    | l where "psr_result_type result = 2" "psr_leaf result = Some l" "pl_vrf_output l \<noteq> pl_vrf_output item"
      "length (pl_vrf_output l) = 32" "map_of kvs (pl_vrf_output l) = Some (pl_commitment l)"
    using assms(3) by (auto simp: item_ok_def path_result_def)
  then show ?thesis
  proof cases
    case 1
    then show ?thesis using assms None by (simp add: place_terminal_def item_ok_def keeps_def)
  next
    case 2
    then show ?thesis
      using set_leaf_placed [OF assms(1,2) 2(4,5)] assms(3) None
      by (auto simp: place_terminal_def item_ok_def)
  qed
next
  case (Some c)
  then have "psr_result_type result = 1" using assms(3) by (simp add: item_ok_def path_result_def)
  then show ?thesis
    using set_leaf_placed [OF assms(1,2) _ Some] assms(1,3) Some
    by (cases is_removed_result) (auto simp: place_terminal_def item_ok_def keeps_def)
qed

lemma place_item_correct:
  assumes "placed sha kvs batch t cov" and "keys_ok kvs"
    and "item_ok sha kvs removed_keys (is_removed_result, item, result) els"
    and "\<forall>b\<in>set batch. length b = 32" and "pl_vrf_output item \<in> set batch"
  shows "\<exists>t' cov'. place_item sha removed_keys batch (pre @ els @ post) (is_removed_result, item, result)
      (t, cov, length pre) = Inr (t', cov', length pre + length els) \<and>
    placed sha kvs batch t' cov' \<and> keeps t t' \<and> served batch t' (is_removed_result, item, result)"
proof -
  let ?key = "pl_vrf_output item"
  obtain t1 where t1: "place_terminal sha removed_keys is_removed_result item result t = Inr t1"
    "placed sha kvs batch t1 cov" "keeps t t1" "is_removed_result \<longrightarrow> node t1 (key_bits ?key) \<noteq> None"
    using place_terminal_correct [OF assms(1-3)] by blast
  have r: "length ?key = 32" "length els = psr_depth result" "psr_depth result \<le> 256"
    "\<forall>k<psr_depth result. els ! k = subtree_hash sha kvs (sibling_path ?key k) \<and> occupied kvs (take k (key_bits ?key))"
    using assms(3) by (auto simp: item_ok_def path_result_def)
  obtain t2 cov2 where t2: "place_elements batch ?key 0 els (t1, cov) = Inr (t2, cov2)"
    "placed sha kvs batch t2 cov2" "\<forall>q v. bits q \<longrightarrow> node t1 q = Some v \<longrightarrow> node t2 q = Some v"
    "\<forall>i. 0 \<le> i \<longrightarrow> i < 0 + length els \<longrightarrow> avoids batch (sibling_path ?key i) \<longrightarrow>
      node t2 (sibling_path ?key i) \<noteq> None"
    using place_elements_correct [OF assms(4,5) t1(2), of 0 els] r by auto
  have keeps: "keeps t1 t2" using t2(3) by (auto simp: keeps_def)
  have "place_item sha removed_keys batch (pre @ els @ post) (is_removed_result, item, result)
      (t, cov, length pre) = Inr (t2, cov2, length pre + length els)"
    using r(1-3) t1(1) t2(1) by (simp add: place_item_def Let_def)
  moreover have "served batch t2 (is_removed_result, item, result)"
    using t2(4) t1(4) keeps r(2) by (auto simp: served_def keeps_def)
  ultimately show ?thesis using t2(2) keeps_trans [OF t1(3) keeps] by blast
qed

lemma served_keeps:
  assumes "served batch t x" and "keeps t t'" and "psr_depth (snd (snd x)) \<le> 256"
  shows "served batch t' x"
  using assms by (cases x) (auto simp: served_def keeps_def)

lemma place_items_correct:
  assumes "keys_ok kvs" and "\<forall>b\<in>set batch. length b = 32"
    and "list_all2 (item_ok sha kvs removed_keys) items elss"
    and "\<forall>(r, item, res)\<in>set items. pl_vrf_output item \<in> set batch"
    and "placed sha kvs batch t cov"
  shows "\<exists>t' cov'. fold_res (place_item sha removed_keys batch (pre @ concat elss @ post)) items
      (t, cov, length pre) = Inr (t', cov', length pre + length (concat elss)) \<and>
    placed sha kvs batch t' cov' \<and> keeps t t' \<and> (\<forall>x\<in>set items. served batch t' x)"
  using assms(3-)
proof (induction items elss arbitrary: t cov pre rule: list_all2_induct)
  case Nil
  then show ?case by (simp add: keeps_def)
next
  case (Cons x items els elss)
  obtain r item res where x: "x = (r, item, res)" by (cases x)
  have key: "pl_vrf_output item \<in> set batch" using Cons.prems(1) x by auto
  obtain t1 cov1 where t1: "place_item sha removed_keys batch (pre @ els @ concat elss @ post) x
      (t, cov, length pre) = Inr (t1, cov1, length pre + length els)"
    "placed sha kvs batch t1 cov1" "keeps t t1" "served batch t1 x"
    using place_item_correct [OF Cons.prems(2) assms(1) Cons.hyps(1) [unfolded x] assms(2) key] x by metis
  obtain t2 cov2 where t2: "fold_res (place_item sha removed_keys batch ((pre @ els) @ concat elss @ post)) items
      (t1, cov1, length (pre @ els)) = Inr (t2, cov2, length (pre @ els) + length (concat elss))"
    "placed sha kvs batch t2 cov2" "keeps t1 t2" "\<forall>x\<in>set items. served batch t2 x"
    using Cons.IH [of t1 cov1 "pre @ els"] Cons.prems(1) t1(2) by auto
  have "served batch t2 x"
    using served_keeps [OF t1(4) t2(3)] Cons.hyps(1) x by (simp add: item_ok_def path_result_def)
  then show ?case
    using t1(1) t2 keeps_trans [OF t1(3) t2(3)] by (intro exI [of _ t2] exI [of _ cov2]) auto
qed

section \<open>Every key passes\<close>

abbreviation item_key :: "bool \<times> prefix_leaf \<times> prefix_search_result \<Rightarrow> bytes" where
  "item_key x \<equiv> pl_vrf_output (fst (snd x))"

definition proves :: "(bytes \<Rightarrow> bytes) \<Rightarrow> key_map \<Rightarrow> bytes list \<Rightarrow> bytes list \<Rightarrow>
    (bool \<times> prefix_leaf \<times> prefix_search_result) list \<Rightarrow> bytes list list \<Rightarrow> bool" where
  "proves sha kvs batch removed_keys items elss \<longleftrightarrow> batch \<noteq> [] \<and>
     list_all2 (item_ok sha kvs removed_keys) items elss \<and>
     item_key ` set items = set batch \<and> item_key ` {x \<in> set items. fst x} = set removed_keys"

lemma provesD:
  assumes "proves sha kvs batch removed_keys items elss"
  shows "batch \<noteq> []" and "list_all2 (item_ok sha kvs removed_keys) items elss"
    and "item_key ` set items = set batch" and "item_key ` {x \<in> set items. fst x} = set removed_keys"
  using assms by (simp_all add: proves_def)

lemma item_of_key:
  assumes "proves sha kvs batch removed_keys items elss" and "key \<in> set batch"
  obtains r item res els where "(r, item, res) \<in> set items" "pl_vrf_output item = key"
    "item_ok sha kvs removed_keys (r, item, res) els"
proof -
  obtain x where x: "x \<in> set items" "item_key x = key"
    using assms(2) unfolding provesD(3) [OF assms(1), symmetric] by (elim imageE) (rule that, simp_all)
  then obtain i where "i < length items" "items ! i = x" by (auto simp: in_set_conv_nth)
  then have "item_ok sha kvs removed_keys x (elss ! i)"
    using assms(1) by (auto simp: proves_def list_all2_conv_all_nth)
  then show ?thesis using that x by (cases x) auto
qed

lemma all_pass:
  assumes "proves sha kvs batch removed_keys items elss" and "\<forall>x\<in>set items. served batch t x"
    and "keys_ok kvs" and "\<forall>b\<in>set batch. length b = 32" and "key \<in> fst ` set kvs"
  shows "passes t key"
proof (cases "\<exists>lv\<le>256. avoids batch (take lv (key_bits key))")
  case False
  then have "\<not> avoids batch (key_bits key)" by (metis key_bits_take order_refl)
  then obtain b where "b \<in> set batch" "key_bits b = key_bits key" by (auto simp: avoids_def)
  moreover have "length key = 32" using assms(3,5) by (auto simp: keys_ok_def list_all_iff)
  ultimately have "key \<in> set batch" using key_bits_inj assms(4) by metis
  then obtain r item res els where x: "(r, item, res) \<in> set items" "pl_vrf_output item = key"
    "item_ok sha kvs removed_keys (r, item, res) els" using item_of_key [OF assms(1)] by blast
  have "map_of kvs key \<noteq> None" using assms(5) by (simp add: map_of_eq_None_iff)
  obtain item' res' where y: "(True, item', res') \<in> set items" "pl_vrf_output item' = key"
  proof (cases r)
    case True
    then show ?thesis using that [of item res] x(1,2) by simp
  next
    case False
    then have "key \<in> set removed_keys" using x \<open>map_of kvs key \<noteq> None\<close> by (simp add: item_ok_def)
    then obtain y where "y \<in> set items" "fst y" "item_key y = key"
      unfolding provesD(4) [OF assms(1), symmetric] by (elim imageE) (rule that, simp_all)
    moreover obtain b item' res' where "y = (b, item', res')" by (cases y) auto
    ultimately have "(True, item', res') \<in> set items" "pl_vrf_output item' = key" by simp_all
    then show ?thesis by (rule that)
  qed
  then have "node t (key_bits key) \<noteq> None" using assms(2) by (auto simp: served_def)
  then show ?thesis unfolding passes_def by (metis key_bits_take order_refl)
next
  case True
  define lv where "lv = (LEAST lv. avoids batch (take lv (key_bits key)))"
  have lv: "avoids batch (take lv (key_bits key))" "lv \<le> 256"
    using True LeastI_ex [of "\<lambda>lv. avoids batch (take lv (key_bits key))"]
      Least_le [of "\<lambda>lv. avoids batch (take lv (key_bits key))"] unfolding lv_def by (blast, meson le_trans)
  have "lv \<noteq> 0"
  proof
    assume "lv = 0"
    then have "avoids batch []" using lv(1) by simp
    then show False using provesD(1) [OF assms(1)] by (cases batch) (auto simp: avoids_def)
  qed
  then obtain k where k: "lv = Suc k" "k < 256" using lv(2) by (cases lv) auto
  have "\<not> avoids batch (take k (key_bits key))"
    using not_less_Least [of k "\<lambda>lv. avoids batch (take lv (key_bits key))"] k(1) unfolding lv_def [symmetric] by simp
  then obtain a where a: "a \<in> set batch" "take k (key_bits a) = take k (key_bits key)"
    using k(2) by (auto simp: avoids_def)
  have "take lv (key_bits a) \<noteq> take lv (key_bits key)" using lv a(1) by (auto simp: avoids_def)
  then have sib: "take lv (key_bits key) = sibling_path a k"
    using a(2) k diverge_path [of k key a] by (auto simp: take_Suc_key_bits)
  have occ: "occupied kvs (sibling_path a k)" "\<And>j. j \<le> k \<Longrightarrow> occupied kvs (take j (key_bits a))"
  proof -
    show "occupied kvs (sibling_path a k)"
      using assms(5) sib k by (auto simp: occupied_iff intro!: bexI [of _ key])
    show "occupied kvs (take j (key_bits a))" if "j \<le> k" for j
    proof -
      have "take j (key_bits a) = take j (key_bits key)"
        using that arg_cong [OF a(2), of "take j"] by (simp add: min_def)
      then show ?thesis using assms(5) k that by (auto simp: occupied_iff intro!: bexI [of _ key])
    qed
  qed
  obtain r item res els where x: "(r, item, res) \<in> set items" "pl_vrf_output item = a"
    "item_ok sha kvs removed_keys (r, item, res) els" using item_of_key [OF assms(1) a(1)] by blast
  have "k < psr_depth res"
  proof (rule ccontr)
    assume "\<not> k < psr_depth res"
    then show False
      using x occ k(2) by (auto simp: item_ok_def path_result_def empty_beyond_def split: option.splits)
  qed
  then have "node t (sibling_path a k) \<noteq> None"
    using assms(2) x(1,2) lv(1) sib by (force simp: served_def)
  then show ?thesis unfolding passes_def using sib lv(2) by metis
qed

text \<open>Above a path that batch keys pass, there are no nodes.\<close>

lemma resolve_passed:
  assumes "placed sha kvs batch t cov" and "\<forall>key\<in>fst ` set kvs. passes t key" and "bits p"
    and "\<forall>j<length p. \<not> avoids batch (take j p)"
  shows "pt_resolve sha t (length p) (path_of p) = subtree_hash sha kvs p"
proof (rule pt_resolve_correct [OF _ assms(2,3)])
  show "good_nodes sha kvs t" using assms(1) by (simp add: placed_def)
  show "\<forall>j<length p. node t (take j p) = None"
  proof (intro allI impI, rule ccontr)
    fix j assume j: "j < length p" "node t (take j p) \<noteq> None"
    then have "length (take j p) < 256" using assms(3) by (simp add: bits_def)
    moreover have "avoids batch (take j p) \<or> (\<exists>key\<in>fst ` set kvs. take j p = key_bits key)"
      using assms(1) j(2) bits_take [OF assms(3), of j] unfolding placed_def known_nodes_def by blast
    ultimately show False using assms(4) j(1) by (metis length_key_bits less_irrefl)
  qed
qed

lemma coveredD:
  "placed sha kvs batch t cov \<Longrightarrow> (lv, x, v) \<in> set cov \<Longrightarrow>
    \<exists>key\<in>set batch. \<exists>k<256. lv = Suc k \<and> x = path_of (sibling_path key k) \<and>
      v = subtree_hash sha kvs (sibling_path key k)"
  by (auto simp: placed_def covered_def)

lemma check_covering_correct:
  assumes "placed sha kvs batch t cov" and "\<forall>key\<in>fst ` set kvs. passes t key"
  shows "check_covering sha t cov = Inr ()"
proof -
  have "pt_resolve sha t lv x = v" if cov: "(lv, x, v) \<in> set cov" for lv x v
  proof -
    obtain key k where c: "key \<in> set batch" "k < 256" "lv = Suc k" "x = path_of (sibling_path key k)"
      "v = subtree_hash sha kvs (sibling_path key k)"
      using coveredD [OF assms(1) cov] by (elim bexE exE conjE) (rule that, simp_all)
    have "\<not> avoids batch (take j (sibling_path key k))" if "j < length (sibling_path key k)" for j
    proof -
      have "take j (sibling_path key k) = take j (key_bits key)"
        using that c(2) by (simp add: sibling_path_def)
      then show ?thesis using c that by (auto simp: avoids_def intro!: bexI [of _ key])
    qed
    then show ?thesis
      using resolve_passed [OF assms, of "sibling_path key k"] c by simp
  qed
  then show ?thesis by (auto simp: check_covering_def)
qed

section \<open>The new tree\<close>

lemma level_hash_agree:
  assumes "keys_ok kvs" and "keys_ok kvs'"
    and "\<And>key. take (length p) (key_bits key) = p \<Longrightarrow> map_of kvs' key = map_of kvs key" and "length p + n = 256"
  shows "level_hash sha kvs' n p = level_hash sha kvs n p"
  using assms(3,4)
proof (induction n arbitrary: p)
  case 0
  then have p: "take (length p) (key_bits key) = p \<longleftrightarrow> key_bits key = p" for key by simp
  show ?case
  proof (cases "\<exists>key. length key = 32 \<and> key_bits key = p")
    case True
    then obtain key where "length key = 32" "key_bits key = p" by blast
    then show ?thesis
      using find_key_bits [OF assms(1)] find_key_bits [OF assms(2)] 0(1) [of key] p by auto
  next
    case False
    then have "find (\<lambda>(k, _). key_bits k = p) kvs = None" "find (\<lambda>(k, _). key_bits k = p) kvs' = None"
      using assms(1,2) by (auto simp: find_None_iff keys_ok_def list_all_iff)
    then show ?thesis by simp
  qed
next
  case (Suc n)
  have "map_of kvs' key = map_of kvs key" if "take (length (p @ [b])) (key_bits key) = p @ [b]" for key b
  proof (rule Suc.prems(1))
    have "take (length p) (take (length (p @ [b])) (key_bits key)) = p" using that by simp
    then show "take (length p) (key_bits key) = p" by (simp add: min_def)
  qed
  moreover have "occupied kvs' p = occupied kvs p"
    using Suc.prems(1) unfolding occupied_iff by (metis map_of_eq_None_iff)
  ultimately show ?case using Suc.IH [of "p @ [_]"] Suc.prems(2) by simp
qed

lemma subtree_hash_avoids:
  assumes "keys_ok kvs" and "keys_ok kvs'" and "\<And>key. key \<notin> set batch \<Longrightarrow> map_of kvs' key = map_of kvs key"
    and "avoids batch p" and "length p \<le> 256"
  shows "subtree_hash sha kvs' p = subtree_hash sha kvs p"
  unfolding subtree_hash_def
  using assms by (intro level_hash_agree) (auto simp: avoids_def)

lemma node_remove:
  assumes "length key = 32" and "bits q"
  shows "\<exists>t'. pt_remove_leaf key t = Inr t' \<and> (pt_wf t \<longrightarrow> pt_wf t') \<and>
    node t' q = (if q = key_bits key then None else node t q)"
proof -
  have "map_of (filter (\<lambda>(k', _). k' \<noteq> k) t) k'' = (if k'' = k then None else map_of t k'')" for k k''
    by (induction t) auto
  moreover have "length q = 256 \<and> path_of q = path_of (key_bits key) \<longleftrightarrow> q = key_bits key"
    using path_of_inj [OF assms(2) bits_key_bits [of key]] by auto
  ultimately show ?thesis
    using masked_path [OF assms(1), of 256] by (auto simp: pt_remove_leaf_def node_def pt_wf_def)
qed

lemma remove_leaves:
  assumes "\<forall>item\<in>set removed. length (pl_vrf_output item) = 32"
  shows "\<exists>t'. fold_res (\<lambda>item. pt_remove_leaf (pl_vrf_output item)) removed t = Inr t' \<and> (pt_wf t \<longrightarrow> pt_wf t') \<and>
    (\<forall>q. bits q \<longrightarrow> node t' q = (if q \<in> key_bits ` pl_vrf_output ` set removed then None else node t q))"
  using assms
proof (induction removed arbitrary: t)
  case (Cons item removed)
  obtain t1 where t1: "pt_remove_leaf (pl_vrf_output item) t = Inr t1" "pt_wf t \<longrightarrow> pt_wf t1"
    "\<And>q. bits q \<Longrightarrow> node t1 q = (if q = key_bits (pl_vrf_output item) then None else node t q)"
    using node_remove [of "pl_vrf_output item"] Cons.prems bits_key_bits by (metis list.set_intros(1) sum.inject(2))
  obtain t2 where "fold_res (\<lambda>item. pt_remove_leaf (pl_vrf_output item)) removed t1 = Inr t2" "pt_wf t1 \<longrightarrow> pt_wf t2"
    "\<forall>q. bits q \<longrightarrow> node t2 q = (if q \<in> key_bits ` pl_vrf_output ` set removed then None else node t1 q)"
    using Cons.IH [of t1] Cons.prems by auto
  then show ?case using t1 by (intro exI [of _ t2]) auto
qed simp

lemma set_leaves:
  assumes "keys_ok kvs" and "placed sha kvs batch t []"
    and "\<forall>item\<in>set added. length (pl_vrf_output item) = 32 \<and> map_of kvs (pl_vrf_output item) = Some (pl_commitment item)"
  shows "\<exists>t'. fold_res (\<lambda>item. pt_set_leaf (pl_vrf_output item)
      (leaf_hash sha (pl_vrf_output item) (pl_commitment item))) added t = Inr t' \<and>
    placed sha kvs batch t' [] \<and> keeps t t' \<and>
    (\<forall>item\<in>set added. node t' (key_bits (pl_vrf_output item)) \<noteq> None)"
  using assms(2,3)
proof (induction added arbitrary: t)
  case (Cons item added)
  obtain t1 where t1: "pt_set_leaf (pl_vrf_output item) (leaf_hash sha (pl_vrf_output item) (pl_commitment item)) t =
      Inr t1" "placed sha kvs batch t1 []" "keeps t t1" "node t1 (key_bits (pl_vrf_output item)) \<noteq> None"
    using set_leaf_placed [OF Cons.prems(1) assms(1)] Cons.prems(2) by (metis list.set_intros(1))
  obtain t2 where t2: "fold_res (\<lambda>item. pt_set_leaf (pl_vrf_output item)
      (leaf_hash sha (pl_vrf_output item) (pl_commitment item))) added t1 = Inr t2"
    "placed sha kvs batch t2 []" "keeps t1 t2" "\<forall>item\<in>set added. node t2 (key_bits (pl_vrf_output item)) \<noteq> None"
    using Cons.IH [OF t1(2)] Cons.prems(2) by auto
  then show ?case using t1 keeps_trans [OF t1(3) t2(3)] by (intro exI [of _ t2]) (auto simp: keeps_def)
qed (simp add: keeps_def)

text \<open>
  A batch proof that is the map's is accepted against the map's root, and gives the root of any
  map that agrees with it off the batch and has the added leaves.
\<close>

lemma placed_empty: "placed sha kvs batch [] []"
  by (simp add: placed_def good_nodes_def known_nodes_def covered_def pt_wf_def node_def)

lemma transition_correct:
  fixes added removed :: "prefix_leaf list" and pf :: prefix_proof
  defines "removed_keys \<equiv> map pl_vrf_output removed" and "batch \<equiv> map pl_vrf_output (added @ removed)"
    and "items \<equiv> zip (replicate (length added) False @ replicate (length removed) True)
      (zip (added @ removed) (pp_results pf))"
  assumes keys: "keys_ok kvs" "keys_ok kvs'" and len: "length (pp_results pf) = length added + length removed"
    and items: "list_all2 (item_ok sha kvs removed_keys) items elss" and els: "pp_elements pf = concat elss"
    and some: "added \<noteq> []" and sub: "set removed_keys \<subseteq> pl_vrf_output ` set added"
    and same: "\<And>key. key \<notin> set batch \<Longrightarrow> map_of kvs' key = map_of kvs key"
    and new: "\<And>item. item \<in> set added \<Longrightarrow> map_of kvs' (pl_vrf_output item) = Some (pl_commitment item)"
  shows "verify_and_transition sha (map_root sha kvs) added removed pf = Inr (map_root sha kvs')"
proof -
  have item_keys: "map item_key items = batch"
  proof -
    have "map item_key items = map pl_vrf_output (map fst (map snd items))" by simp
    then show ?thesis using len by (simp add: items_def batch_def map_snd_zip map_fst_zip)
  qed
  have removed_items: "item_key ` {x \<in> set items. fst x} = set removed_keys"
  proof -
    define r1 r2 where "r1 = take (length added) (pp_results pf)" and "r2 = drop (length added) (pp_results pf)"
    have r: "pp_results pf = r1 @ r2" "length r1 = length added" "length r2 = length removed"
      using len by (simp_all add: r1_def r2_def)
    then have "items = zip (replicate (length added) False) (zip added r1) @
        zip (replicate (length removed) True) (zip removed r2)" (is "_ = ?a @ ?b")
      by (simp add: items_def)
    moreover have "\<forall>x\<in>set ?a. \<not> fst x" "\<forall>x\<in>set ?b. fst x"
      by (auto simp: set_zip)
    ultimately have "{x \<in> set items. fst x} = set ?b" by auto
    then have "item_key ` {x \<in> set items. fst x} = set (map pl_vrf_output (map fst (map snd ?b)))"
      by (simp add: image_image)
    then show ?thesis using r(3) by (simp add: removed_keys_def map_snd_zip map_fst_zip)
  qed
  have keys_of_items: "item_key ` set items = set batch" using arg_cong [OF item_keys, of set] by simp
  have lens: "\<forall>b\<in>set batch. length b = 32"
  proof -
    have "length (item_key x) = 32" if x: "x \<in> set items" for x
    proof -
      obtain i where "i < length items" "items ! i = x" using x by (auto simp: in_set_conv_nth)
      then have "item_ok sha kvs removed_keys x (elss ! i)" using items by (auto simp: list_all2_conv_all_nth)
      then show ?thesis by (cases x) (simp add: item_ok_def)
    qed
    then show ?thesis unfolding keys_of_items [symmetric] by blast
  qed
  have proves: "proves sha kvs batch removed_keys items elss"
    using some items keys_of_items removed_items by (simp add: proves_def) (simp add: batch_def)
  have in_batch: "\<forall>(r, item, res)\<in>set items. pl_vrf_output item \<in> set batch"
    unfolding keys_of_items [symmetric] by force
  obtain t cov where t: "fold_res (place_item sha removed_keys batch (pp_elements pf)) items ([], [], 0) =
      Inr (t, cov, length (pp_elements pf))" "placed sha kvs batch t cov" "\<forall>x\<in>set items. served batch t x"
    using place_items_correct [OF keys(1) lens items in_batch placed_empty, of "[]" "[]"] els by auto
  have pass: "\<forall>key\<in>fst ` set kvs. passes t key"
    using all_pass [OF proves t(3) keys(1) lens] by blast
  have root: "pt_root sha t = map_root sha kvs"
    using resolve_passed [OF t(2) pass, of "[]"] by (simp add: pt_root_def map_root_def path_of_def bits_def)
  obtain t1 where t1: "fold_res (\<lambda>item. pt_remove_leaf (pl_vrf_output item)) removed t = Inr t1" "pt_wf t1"
    "\<And>q. bits q \<Longrightarrow> node t1 q = (if q \<in> key_bits ` set removed_keys then None else node t q)"
    using remove_leaves [of removed t] lens t(2) by (auto simp: batch_def removed_keys_def placed_def good_nodes_def)
  have in_map: "key \<in> set removed_keys" if key: "key \<in> set batch" "map_of kvs key \<noteq> None" for key
  proof -
    obtain r item res els where x: "(r, item, res) \<in> set items" "pl_vrf_output item = key"
      "item_ok sha kvs removed_keys (r, item, res) els" using item_of_key [OF proves key(1)] by blast
    show ?thesis
    proof (cases r)
      case True
      then have "item_key (r, item, res) \<in> item_key ` {x \<in> set items. fst x}"
        using x(1) by (intro imageI) simp
      then show ?thesis using removed_items x(2) by simp
    qed (use x key in \<open>simp add: item_ok_def\<close>)
  qed
  have off: "avoids batch q" if q: "bits q" "node t1 q \<noteq> None" for q
  proof (rule ccontr)
    assume "\<not> avoids batch q"
    moreover have "node t q \<noteq> None" "q \<notin> key_bits ` set removed_keys" using t1(3) q by (auto split: if_splits)
    ultimately obtain key where key: "key \<in> fst ` set kvs" "q = key_bits key"
      using t(2) q(1) unfolding placed_def known_nodes_def by blast
    then have "length key = 32" using keys(1) by (auto simp: keys_ok_def list_all_iff)
    moreover obtain b where "b \<in> set batch" "key_bits b = key_bits key"
      using \<open>\<not> avoids batch q\<close> key(2) by (auto simp: avoids_def)
    ultimately have "key \<in> set batch" using key_bits_inj lens by metis
    then have "key \<in> set removed_keys" using in_map key(1) by (simp add: map_of_eq_None_iff)
    then show False using \<open>q \<notin> key_bits ` set removed_keys\<close> key(2) by blast
  qed
  have dom: "key \<in> fst ` set kvs'" if "key \<in> fst ` set kvs" for key
  proof (cases "key \<in> set batch")
    case True
    then have "key \<in> pl_vrf_output ` set added"
      using in_map sub that by (auto simp: map_of_eq_None_iff)
    then obtain item where "item \<in> set added" "key = pl_vrf_output item" by blast
    then have "map_of kvs' key \<noteq> None" using new by simp
    then show ?thesis by (simp add: map_of_eq_None_iff)
  next
    case False
    then have "map_of kvs' key \<noteq> None" using same that by (simp add: map_of_eq_None_iff)
    then show ?thesis by (simp add: map_of_eq_None_iff)
  qed
  have "placed sha kvs' batch t1 []"
  proof -
    have "good_node sha kvs' q v" if q: "bits q" "node t1 q = Some v" for q v
    proof -
      have "node t q = Some v" using t1(3) q by (simp split: if_splits)
      then have "good_node sha kvs q v" using t(2) q(1) by (simp add: placed_def good_nodes_def)
      moreover have "subtree_hash sha kvs' q = subtree_hash sha kvs q"
        using subtree_hash_avoids [OF keys same] off [of q] q by (simp add: bits_def)
      moreover have "occupied kvs' p" if "occupied kvs p" for p using that dom unfolding occupied_iff by (auto simp: image_iff) (metis fst_conv)
      ultimately show ?thesis by (simp add: good_node_def)
    qed
    then show ?thesis using t1(2) off by (auto simp: placed_def good_nodes_def known_nodes_def covered_def)
  qed
  then obtain t2 where t2: "fold_res (\<lambda>item. pt_set_leaf (pl_vrf_output item)
      (leaf_hash sha (pl_vrf_output item) (pl_commitment item))) added t1 = Inr t2"
    "placed sha kvs' batch t2 []" "keeps t1 t2" "\<forall>item\<in>set added. node t2 (key_bits (pl_vrf_output item)) \<noteq> None"
    using set_leaves [OF keys(2), of sha batch t1 added] lens new by (auto simp: batch_def)
  have "\<forall>key\<in>fst ` set kvs'. passes t2 key"
  proof
    fix key assume "key \<in> fst ` set kvs'"
    then have key: "map_of kvs' key \<noteq> None" "length key = 32"
      using keys(2) by (auto simp: map_of_eq_None_iff keys_ok_def list_all_iff)
    show "passes t2 key"
    proof (cases "key \<in> set batch")
      case True
      then obtain item where "item \<in> set added" "key = pl_vrf_output item"
        using sub by (auto simp: batch_def removed_keys_def)
      then have "node t2 (key_bits key) \<noteq> None" using t2(4) by simp
      then show ?thesis unfolding passes_def by (metis key_bits_take order_refl)
    next
      case False
      then have "key \<in> fst ` set kvs" using same key(1) by (simp add: map_of_eq_None_iff)
      then obtain lv where lv: "lv \<le> 256" "node t (take lv (key_bits key)) \<noteq> None"
        using pass by (auto simp: passes_def)
      have "take lv (key_bits key) \<notin> key_bits ` set removed_keys"
      proof
        assume "take lv (key_bits key) \<in> key_bits ` set removed_keys"
        then obtain r where r: "r \<in> set removed_keys" "take lv (key_bits key) = key_bits r" by blast
        then have "length r = 32" using lens by (auto simp: batch_def removed_keys_def)
        then have "lv = 256" using arg_cong [OF r(2), of length] lv(1) key(2) by simp
        then have "key_bits r = key_bits key" using r(2) key(2) by simp
        then have "r = key" using key_bits_inj \<open>length r = 32\<close> key(2) by blast
        then show False using r(1) False by (auto simp: batch_def removed_keys_def)
      qed
      then have "node t1 (take lv (key_bits key)) \<noteq> None" using t1(3) lv(2) by simp
      then show ?thesis using t2(3) lv(1) by (auto simp: passes_def keeps_def)
    qed
  qed
  then have "pt_root sha t2 = map_root sha kvs'"
    using resolve_passed [OF t2(2), of "[]"] by (simp add: pt_root_def map_root_def path_of_def bits_def)
  moreover have "map pl_vrf_output added @ map pl_vrf_output removed = batch" by (simp add: batch_def)
  ultimately show ?thesis
    using len t(1) check_covering_correct [OF t(2) pass] root t1(1) t2(1)
    by (simp add: verify_and_transition_def Let_def flip: removed_keys_def items_def)
qed

end
