(* ===== verification/AuditProps.thy ===== *)
theory AuditProps
  imports PartialTree Auditor TreeProps
begin

text \<open>
  The auditor beside the server: the update a batch leaves in the database is one the auditor's
  checks accept, and replaying it gives the prefix root and the log root the server published.
  The checks do not say all they mean to: a batch can replace a leaf it does not remove.
\<close>

section \<open>Results of honest searches\<close>

lemma search_path_result:
  assumes "rep_by get sha (Some ptr) kvs" and "length key = 32"
    and "\<And>p e. get p = Inr e \<Longrightarrow> get_entry D st cached p overlay = Inr e"
  shows "\<exists>r. search_for_proof sha D st cached ptr key overlay = Inr r \<and> pr_commitment r = map_of kvs key \<and>
    path_result sha kvs key (audit_result r) (pr_inclusion_proof r)"
proof -
  have keys: "keys_ok kvs" using assms(1) by (simp add: rep_by_def)
  obtain cur e r l where w: "walk sha D st cached key overlay ptr [] = Inr (cur, e, r)"
    "outcome_ok get sha kvs key r" "length (le_index e) = 32" "le_leaf e = Some l"
    "map_of kvs (le_index e) = Some (ln_commitment l)" "(\<exists>f. r = Found f) \<or> le_index e \<noteq> key"
    using walk_correct [OF assms(3) keys assms(2) rep_by_goes_on [OF assms(1)]] by blast
  show ?thesis
  proof (cases r)
    case (Found f)
    then obtain lf where "le_leaf f = Some lf" "map_of kvs key = Some (ln_commitment lf)"
      "copath_for get sha kvs key (le_copath f)" "empty_beyond kvs key (length (le_copath f))"
      using w(2) by auto
    then show ?thesis
      using w(1) Found occupied_key
      by (simp add: search_for_proof_def unwrap_leaf_def path_result_def audit_result_def copath_for_def node_at_def)
  next
    case (Failed cp)
    then have cp: "copath_for get sha kvs key cp" "\<not> occupied kvs (take (length cp) (key_bits key))"
      "cp \<noteq> [] \<Longrightarrow> occupied kvs (take (length cp - 1) (key_bits key))" using w(2) by auto
    have "occupied kvs (take k (key_bits key))" if "k < length cp" for k
    proof -
      have "cp \<noteq> []" "k \<le> length cp - 1" using that by auto
      then show ?thesis using cp(3) occupied_shorter by blast
    qed
    moreover have "map_of kvs key = None" using cp(2) occupied_key by (cases "map_of kvs key") auto
    ultimately show ?thesis
      using w Failed cp(1,2)
      by (simp add: search_for_proof_def path_result_def audit_result_def copath_for_def node_at_def)
  qed (use w(2) in simp)
qed

section \<open>The update of a batch\<close>

definition leaves_of :: "key_map \<Rightarrow> prefix_leaf list" where
  "leaves_of keys = map (\<lambda>(k, c). \<lparr>pl_vrf_output = k, pl_commitment = c\<rparr>) keys"

definition replaced :: "key_map \<Rightarrow> key_map \<Rightarrow> key_map" where
  "replaced kvs keys =
     concat (map (\<lambda>(k, _). case map_of kvs k of Some c \<Rightarrow> [(k, c)] | None \<Rightarrow> []) keys)"

lemma leaves_of_simps [simp]:
  "leaves_of [] = []" "leaves_of ((k, c) # keys) = \<lparr>pl_vrf_output = k, pl_commitment = c\<rparr> # leaves_of keys"
  "length (leaves_of keys) = length keys" "map pl_vrf_output (leaves_of keys) = map fst keys"
  "pl_vrf_output ` set (leaves_of keys) = fst ` set keys"
  by (auto simp: leaves_of_def image_image split_beta)

lemma replaced_simps [simp]:
  "replaced kvs [] = []"
  "replaced kvs ((k, c) # keys) =
    (case map_of kvs k of Some c' \<Rightarrow> (k, c') # replaced kvs keys | None \<Rightarrow> replaced kvs keys)"
  by (auto simp: replaced_def split: option.split)

lemma replaced_keys: "map fst (replaced kvs keys) = filter (\<lambda>k. map_of kvs k \<noteq> None) (map fst keys)"
  by (induction keys) (auto split: option.split)

lemma replaced_key: "k \<in> fst ` set (replaced kvs keys) \<longleftrightarrow> k \<in> fst ` set keys \<and> map_of kvs k \<noteq> None"
  using arg_cong [OF replaced_keys [of kvs keys], of set] by auto

lemma replaced_value: "(k, c) \<in> set (replaced kvs keys) \<Longrightarrow> map_of kvs k = Some c"
  by (induction keys) (auto split: option.splits)

text \<open>A result with its elements, for a key.\<close>

definition shows_key :: "(bytes \<Rightarrow> bytes) \<Rightarrow> key_map \<Rightarrow> bytes \<times> bytes \<Rightarrow> prefix_search_result \<times> bytes list \<Rightarrow> bool" where
  "shows_key sha kvs kc re \<longleftrightarrow> path_result sha kvs (fst kc) (fst re) (snd re)"

lemma audit_searches_correct:
  assumes "rep_by (stored D (tr_store T)) (sha256 C) ptr kvs" and "cache_agrees D (tr_store T) (tr_node_cache T)"
    and "keys_ok keys"
  shows "\<exists>res rem. audit_searches C D T ptr keys = Inr (leaves_of keys, leaves_of (replaced kvs keys), rem,
      map fst res, concat (map snd res)) \<and>
    list_all2 (shows_key (sha256 C) kvs) keys res \<and> list_all2 (shows_key (sha256 C) kvs) (replaced kvs keys) rem"
  using assms(3)
proof (induction keys)
  case Nil
  then show ?case by (intro exI [of _ "[]"]) (cases ptr; simp)
next
  case (Cons kc keys)
  obtain key c where kc: "kc = (key, c)" by fastforce
  have key: "length key = 32" "keys_ok keys" using Cons.prems kc by (auto simp: keys_ok_def)
  obtain res rem where IH: "audit_searches C D T ptr keys = Inr (leaves_of keys, leaves_of (replaced kvs keys), rem,
      map fst res, concat (map snd res))"
    "list_all2 (shows_key (sha256 C) kvs) keys res" "list_all2 (shows_key (sha256 C) kvs) (replaced kvs keys) rem"
    using Cons.IH [OF key(2)] by blast
  show ?case
  proof (cases ptr)
    case None
    then have "kvs = []" using assms(1) by (simp add: rep_by_def)
    then show ?thesis
      using IH None kc
      by (intro exI [of _ "(\<lparr>psr_result_type = 3, psr_leaf = None, psr_depth = 0\<rparr>, []) # res"] exI [of _ rem])
        (simp, simp add: shows_key_def path_result_def)
  next
    case (Some p)
    have entries: "get_entry D (tr_store T) (tr_node_cache T) q Map.empty = Inr e"
      if "stored D (tr_store T) q = Inr e" for q e
      using get_entry_overlaid [OF assms(2)] that by (simp add: overlaid_def)
    obtain r where r: "search_for_proof (sha256 C) D (tr_store T) (tr_node_cache T) p key Map.empty = Inr r"
      "pr_commitment r = map_of kvs key" "path_result (sha256 C) kvs key (audit_result r) (pr_inclusion_proof r)"
      using search_path_result [OF assms(1) [unfolded Some] key(1) entries] by blast
    let ?re = "(audit_result r, pr_inclusion_proof r)"
    have "shows_key (sha256 C) kvs (key, c') ?re" for c' using r(3) by (simp add: shows_key_def)
    then show ?thesis
      using IH Some kc r(1,2)
      by (intro exI [of _ "?re # res"] exI [of _ "case map_of kvs key of Some _ \<Rightarrow> ?re # rem | None \<Rightarrow> rem"])
        (auto simp: Let_def split: option.split)
  qed
qed


text \<open>Their leaves and results are what the transition wants of the batch.\<close>

lemma item_ok_leaves:
  assumes "list_all2 (shows_key sha kvs) keys res" and "keys_ok keys"
    and "\<forall>(k, c)\<in>set keys. if r then map_of kvs k = Some c else map_of kvs k \<noteq> None \<longrightarrow> k \<in> set removed_keys"
  shows "list_all2 (item_ok sha kvs removed_keys)
    (zip (replicate (length keys) r) (zip (leaves_of keys) (map fst res))) (map snd res)"
  using assms
proof (induction keys res rule: list_all2_induct)
  case (Cons kc keys re res)
  obtain k c where kc: "kc = (k, c)" by fastforce
  have "list_all2 (item_ok sha kvs removed_keys)
      (zip (replicate (length keys) r) (zip (leaves_of keys) (map fst res))) (map snd res)"
    using Cons.IH Cons.prems by (simp add: keys_ok_def)
  moreover have "length k = 32" using Cons.prems(1) kc by (simp add: keys_ok_def)
  then have "item_ok sha kvs removed_keys (r, \<lparr>pl_vrf_output = k, pl_commitment = c\<rparr>, fst re) (snd re)"
    using Cons.hyps(1) Cons.prems(2) kc by (simp add: item_ok_def shows_key_def split: if_splits)
  ultimately show ?case using kc by simp
qed simp

lemma audit_items_ok:
  assumes "list_all2 (shows_key sha kvs) keys res" and "list_all2 (shows_key sha kvs) (replaced kvs keys) rem"
    and "keys_ok keys"
  shows "list_all2 (item_ok sha kvs (map fst (replaced kvs keys)))
    (zip (replicate (length keys) False @ replicate (length (replaced kvs keys)) True)
      (zip (leaves_of keys @ leaves_of (replaced kvs keys)) (map fst res @ map fst rem)))
    (map snd res @ map snd rem)"
proof -
  have len: "length res = length keys" "length rem = length (replaced kvs keys)"
    using assms(1,2) by (simp_all add: list_all2_lengthD)
  have "length k = 32" if "(k, c) \<in> set (replaced kvs keys)" for k c
  proof -
    have "k \<in> fst ` set (replaced kvs keys)" using that by force
    then have "k \<in> fst ` set keys" by (simp only: replaced_key)
    then show ?thesis using assms(3) by (auto simp: keys_ok_def list_all_iff)
  qed
  then have "keys_ok (replaced kvs keys)" by (auto simp: keys_ok_def list_all_iff)
  then have "list_all2 (item_ok sha kvs (map fst (replaced kvs keys)))
      (zip (replicate (length (replaced kvs keys)) True) (zip (leaves_of (replaced kvs keys)) (map fst rem))) (map snd rem)"
    using assms(2) replaced_value by (intro item_ok_leaves) auto
  moreover have "k \<in> set (map fst (replaced kvs keys))" if "(k, c) \<in> set keys" "map_of kvs k \<noteq> None" for k c
  proof -
    have "k \<in> fst ` set keys" using that(1) by force
    then show ?thesis using that(2) by (simp add: replaced_key)
  qed
  then have "list_all2 (item_ok sha kvs (map fst (replaced kvs keys)))
      (zip (replicate (length keys) False) (zip (leaves_of keys) (map fst res))) (map snd res)"
    using assms(1,3) by (intro item_ok_leaves) auto
  ultimately show ?thesis using len by (simp add: list_all2_appendI)
qed

section \<open>The auditor's checks\<close>

lemma ascending_leaves_of:
  "sorted_wrt (<) (map fst keys) \<Longrightarrow> ascending_leaves (leaves_of keys)"
proof (induction keys)
  case (Cons kc keys)
  then show ?case by (cases keys; cases kc) (auto simp: ascending_leaves_def)
qed (simp add: ascending_leaves_def)

lemma result_types:
  assumes "list_all2 (shows_key sha kvs) keys res" and "i < length keys"
  shows "map psr_result_type (map fst res) ! i = 1 \<longleftrightarrow> map_of kvs (fst (keys ! i)) \<noteq> None"
proof -
  have "shows_key sha kvs (keys ! i) (res ! i)" "i < length res"
    using assms by (auto simp: list_all2_conv_all_nth)
  then show ?thesis by (auto simp: shows_key_def path_result_def split: option.splits)
qed

lemma results_in_range: "list_all2 (shows_key sha kvs) keys res \<Longrightarrow> list_all result_in_range (map fst res)"
  by (induction keys res rule: list_all2_induct)
    (auto simp: shows_key_def path_result_def result_in_range_def U32_MAX_def split: option.splits)

lemma check_update_ok:
  assumes "list_all2 (shows_key sha kvs) keys res" and "list_all2 (shows_key sha kvs) (replaced kvs keys) rem"
    and "sorted_wrt (<) (map fst keys)" and "aud_last_timestamp a \<le> ts"
  shows "check_update a \<lparr>au_timestamp = ts, au_added = leaves_of keys, au_removed = leaves_of (replaced kvs keys),
      au_proof = Some \<lparr>pp_results = map fst res @ map fst rem, pp_elements = els\<rparr>\<rparr> =
    Inr \<lparr>pp_results = map fst res @ map fst rem, pp_elements = els\<rparr>"
proof -
  let ?types = "map psr_result_type (map fst res)"
  have len: "length res = length keys" "length rem = length (replaced kvs keys)"
    using assms(1,2) by (simp_all add: list_all2_lengthD)
  have "ascending_leaves (leaves_of keys)" "ascending_leaves (leaves_of (replaced kvs keys))"
    using assms(3) by (auto simp: replaced_keys intro!: ascending_leaves_of sorted_wrt_filter)
  moreover have "\<not> list_ex (\<lambda>(leaf, ty). pl_vrf_output leaf \<notin> set (map fst (replaced kvs keys)) \<and> ty = 1)
      (zip (leaves_of keys) ?types)"
  proof -
    have "pl_vrf_output (leaves_of keys ! i) \<in> set (map fst (replaced kvs keys))"
      if "i < length keys" "?types ! i = 1" for i
    proof -
      have "pl_vrf_output (leaves_of keys ! i) = fst (keys ! i)"
        using that(1) by (simp add: leaves_of_def split_beta)
      then show ?thesis using result_types [OF assms(1) that(1)] that by (simp add: replaced_keys)
    qed
    then show ?thesis by (auto simp: list_ex_iff set_zip len)
  qed
  moreover have "\<not> list_ex (\<lambda>ty. ty \<noteq> 1) (map psr_result_type (map fst rem))"
  proof -
    have "map psr_result_type (map fst rem) ! i = 1" if "i < length (replaced kvs keys)" for i
    proof -
      have "fst (replaced kvs keys ! i) \<in> set (map fst (replaced kvs keys))" using that by simp
      then show ?thesis using result_types [OF assms(2) that] by (simp add: replaced_keys)
    qed
    then have "\<forall>ty\<in>set (map psr_result_type (map fst rem)). ty = 1"
      unfolding all_set_conv_all_nth using len by simp
    then show ?thesis by (auto simp: list_ex_iff)
  qed
  ultimately show ?thesis using assms(4) len by (simp add: check_update_def Let_def ok_or_def comp_def)
qed

section \<open>The server's update, replayed\<close>

text \<open>What the auditor holds when it has replayed a list of versions.\<close>

definition follows :: "crypto \<Rightarrow> auditor \<Rightarrow> tree_version list \<Rightarrow> bool" where
  "follows C a vs \<longleftrightarrow> acc_inv (sha256 C) (aud_log_accumulator a) (log_leaves (sha256 C) vs) \<and>
     aud_prefix_root a = map_root (sha256 C) (latest_map vs) \<and>
     (vs \<noteq> [] \<longrightarrow> aud_last_timestamp a = tv_timestamp (last vs))"

lemma replay_correct:
  assumes rep: "rep_by (stored D (tr_store T)) (sha256 C) ptr kvs" and cache: "cache_agrees D (tr_store T) (tr_node_cache T)"
    and valid: "valid \<noteq> []" "keys_ok (entries_of valid)" "distinct (map fst (entries_of valid))"
    and old: "aud_prefix_root a = map_root (sha256 C) kvs" "aud_last_timestamp a \<le> ts"
  shows "\<exists>u. make_audit_update C D T ts ptr valid = Inr u \<and> update_in_range u \<and>
    audit_update C u a = Inr (a\<lparr>aud_log_accumulator := append_leaf (sha256 C)
        (log_leaf_value (sha256 C) ts (map_root (sha256 C) (rev (entries_of valid) @ kvs))) (aud_log_accumulator a),
      aud_prefix_root := map_root (sha256 C) (rev (entries_of valid) @ kvs), aud_last_timestamp := ts\<rparr>)"
proof -
  define keys where "keys = sort_key fst (entries_of valid)"
  have "set keys = set (entries_of valid)" "length keys = length valid" by (simp_all add: keys_def)
  then have keys: "keys_ok keys" "keys \<noteq> []" "set keys = set (entries_of valid)"
    using valid(1,2) by (auto simp: keys_ok_def list_all_iff)
  have "sorted (map fst keys)" "distinct (map fst keys)"
    using valid(3) by (simp_all add: keys_def distinct_map)
  then have asc: "sorted_wrt (<) (map fst keys)" by (simp add: strict_sorted_iff)
  obtain res rem where s: "audit_searches C D T ptr keys = Inr (leaves_of keys, leaves_of (replaced kvs keys), rem,
      map fst res, concat (map snd res))"
    "list_all2 (shows_key (sha256 C) kvs) keys res" "list_all2 (shows_key (sha256 C) kvs) (replaced kvs keys) rem"
    using audit_searches_correct [OF rep cache keys(1)] by blast
  let ?pf = "\<lparr>pp_results = map fst res @ map fst rem, pp_elements = concat (map snd res @ map snd rem)\<rparr>"
  let ?u = "\<lparr>au_timestamp = ts, au_added = leaves_of keys, au_removed = leaves_of (replaced kvs keys), au_proof = Some ?pf\<rparr>"
  have make: "make_audit_update C D T ts ptr valid = Inr ?u"
    using s(1) by (simp add: make_audit_update_def keys_def entries_of_def)
  have check: "check_update a ?u = Inr ?pf"
    using check_update_ok [OF s(2,3) asc old(2)] .
  have len: "length res = length keys" "length rem = length (replaced kvs keys)"
    using s(2,3) by (simp_all add: list_all2_lengthD)
  have looked_up: "map_of (rev (entries_of valid) @ kvs) k =
      (case map_of (rev (entries_of valid)) k of Some c \<Rightarrow> Some c | None \<Rightarrow> map_of kvs k)" for k
    by (simp add: map_add_def)
  have "verify_and_transition (sha256 C) (map_root (sha256 C) kvs) (leaves_of keys) (leaves_of (replaced kvs keys)) ?pf =
      Inr (map_root (sha256 C) (rev (entries_of valid) @ kvs))"
  proof (rule transition_correct)
    show "keys_ok kvs" "keys_ok (rev (entries_of valid) @ kvs)"
      using rep valid(2) by (auto simp: rep_by_def keys_ok_def)
    show "length (pp_results ?pf) = length (leaves_of keys) + length (leaves_of (replaced kvs keys))"
      using len by simp
    show "list_all2 (item_ok (sha256 C) kvs (map pl_vrf_output (leaves_of (replaced kvs keys))))
        (zip (replicate (length (leaves_of keys)) False @ replicate (length (leaves_of (replaced kvs keys))) True)
          (zip (leaves_of keys @ leaves_of (replaced kvs keys)) (pp_results ?pf))) (map snd res @ map snd rem)"
      using audit_items_ok [OF s(2,3) keys(1)] by simp
    show "leaves_of keys \<noteq> []" using keys(2) by (simp add: leaves_of_def)
    show "set (map pl_vrf_output (leaves_of (replaced kvs keys))) \<subseteq> pl_vrf_output ` set (leaves_of keys)"
      using replaced_key [of _ kvs keys] by auto
    show "map_of (rev (entries_of valid) @ kvs) key = map_of kvs key"
      if "key \<notin> set (map pl_vrf_output (leaves_of keys @ leaves_of (replaced kvs keys)))" for key
    proof -
      have "key \<notin> fst ` set (rev (entries_of valid))" using that keys(3) by simp
      then show ?thesis by (simp only: looked_up map_of_eq_None_iff [symmetric]) simp
    qed
    show "map_of (rev (entries_of valid) @ kvs) (pl_vrf_output item) = Some (pl_commitment item)"
      if item: "item \<in> set (leaves_of keys)" for item
    proof -
      obtain k c where kc: "(k, c) \<in> set (entries_of valid)" "item = \<lparr>pl_vrf_output = k, pl_commitment = c\<rparr>"
        using item keys(3) by (auto simp: leaves_of_def)
      have "distinct (map fst (rev (entries_of valid)))" using valid(3) by (simp add: rev_map [symmetric])
      then have "map_of (rev (entries_of valid)) k = Some c" using kc(1) by (simp add: map_of_eq_Some_iff)
      then show ?thesis using kc(2) by (simp add: looked_up)
    qed
  qed simp
  moreover have "update_in_range ?u"
    using results_in_range [OF s(2)] results_in_range [OF s(3)] by (simp add: update_in_range_def)
  ultimately show ?thesis using make check old(1) by (simp add: audit_update_def Let_def)
qed

text \<open>The update is in the database under the position of the entry it explains.\<close>

lemma apply_batch_audited:
  assumes "apply_batch C D now us T = (T', Inr r)"
    and "valid_updates (assign_versions (tr_store T) us Map.empty) \<noteq> []"
    and "(if 0 < latest_size T then and_then (get_prefix_ptr (tr_store T) (latest_size T - 1)) (\<lambda>p. Inr (Some p))
      else Inr None) = Inr ptr"
    and "make_audit_update C D T now ptr (valid_updates (assign_versions (tr_store T) us Map.empty)) = Inr u"
  shows "get_audit_blob (tr_store T') (latest_size T) = Some (enc_auditor_update D u)"
proof -
  define valid where "valid = valid_updates (assign_versions (tr_store T) us Map.empty)"
  obtain T1 rt rs where w: "write_batch C D now valid T = (T1, Inr (rt, rs))"
    "cf_audit (tr_store T') = cf_audit (tr_store T1)"
    using assms(1,2)
    by (auto simp: apply_batch_def Let_def valid_def set_head_def put_meta_def split: if_splits prod.splits sum.splits)
  have "cf_audit (tr_store T1) (to_be_bytes_u64 (latest_size T)) = Some (enc_auditor_update D u)"
    using w(1) assms(3,4)
    by (auto simp: write_batch_def Let_def valid_def put_audit_blob_def and_then_def
        split: if_splits prod.splits sum.splits)
  then show ?thesis using w(2) by (simp add: get_audit_blob_def)
qed

lemma entries_of_valid_Cons:
  "entries_of (valid_updates (assign_versions st (u # us) ov)) =
    (if pre_version u \<noteq> next_version st ov (pre_label u) then entries_of (valid_updates (assign_versions st us ov))
     else (pre_index u, pre_commitment u) # entries_of (valid_updates (assign_versions st us
       (ov(pre_label u \<mapsto> next_version st ov (pre_label u))))))"
  by (simp add: valid_updates_def entries_of_def Let_def)

lemma distinct_valid:
  assumes "distinct (map pre_index us)"
  shows "distinct (map fst (entries_of (valid_updates (assign_versions st us ov))))"
  using assms
proof (induction us arbitrary: ov)
  case (Cons u us)
  have "pre_index u \<notin> fst ` set (entries_of (valid_updates (assign_versions st us ov')))" for ov'
    using Cons.prems valid_updates_subset [where st = st and us = us and ov = ov'] by (auto simp: entries_of_def)
  then show ?case using Cons unfolding entries_of_valid_Cons by simp
qed (simp add: valid_updates_def entries_of_def)

lemma latest_size_new:
  assumes "tree_inv C D T next vs"
  shows "unat (latest_size T) = length vs" "latest_size T = word_of_nat (length vs)"
  using tree_inv_size [OF assms] tree_inv_size [OF assms, symmetric] by simp_all

lemma log_leaves_snoc:
  "log_leaves sha (vs @ [v]) = log_leaves sha vs @ [log_leaf_value sha (tv_timestamp v) (map_root sha (tv_map v))]"
  by (simp add: log_leaves_def)

lemma latest_map_snoc [simp]: "latest_map (vs @ [v]) = tv_map v"
  by (simp add: latest_map_def)

lemma batch_replayed:
  assumes inv: "tree_inv C D T nxt vs" and D: "codec_laws D" and sha: "\<And>x. length (sha256 C x) = 32"
    and signs: "config_signs C (tr_config T)" and us: "indices_ok us" "distinct (map pre_index us)"
    and room: "length vs < 2 ^ 63" "unat nxt + length us < 2 ^ 64"
    and some: "valid_updates (assign_versions (tr_store T) us Map.empty) \<noteq> []"
    and a: "follows C a vs" "aud_last_timestamp a \<le> now"
  shows "\<exists>T' nxt' v u a'. fst (apply_batch C D now us T) = T' \<and> tree_inv C D T' nxt' (vs @ [v]) \<and>
    get_audit_blob (tr_store T') (word_of_nat (length vs)) = Some (enc_auditor_update D u) \<and> update_in_range u \<and>
    audit_update C u a = Inr a' \<and> follows C a' (vs @ [v]) \<and> tr_config T' = tr_config T \<and> aud_last_timestamp a' = now"
proof -
  define valid where "valid = valid_updates (assign_versions (tr_store T) us Map.empty)"
  obtain T' results th ptr where T': "apply_batch C D now us T = (T', Inr (results, th))"
    "tree_inv C D T' (ptr + 1) (vs @ [\<lparr>tv_timestamp = now, tv_ptr = ptr,
      tv_map = rev (entries_of valid) @ latest_map vs\<rparr>])" "tr_config T' = tr_config T"
    using apply_batch_spec [OF inv D sha signs us(1) room some] unfolding valid_def by blast
  have store: "store_inv D (sha256 C) (tr_store T) nxt vs" "cache_agrees D (tr_store T) (tr_node_cache T)"
    using inv by (simp_all add: tree_inv_def)
  have "distinct (map fst (entries_of valid))"
    using us(2) unfolding valid_def by (rule distinct_valid)
  then obtain u where u: "make_audit_update C D T now (latest_ptr vs) valid = Inr u" "update_in_range u"
    "audit_update C u a = Inr (a\<lparr>aud_log_accumulator := append_leaf (sha256 C)
        (log_leaf_value (sha256 C) now (map_root (sha256 C) (rev (entries_of valid) @ latest_map vs))) (aud_log_accumulator a),
      aud_prefix_root := map_root (sha256 C) (rev (entries_of valid) @ latest_map vs), aud_last_timestamp := now\<rparr>)"
    using replay_correct [OF store_inv_rep [OF store(1)] store(2)] keys_ok_valid [OF us(1)] some a
    unfolding valid_def follows_def by blast
  have "get_audit_blob (tr_store T') (latest_size T) = Some (enc_auditor_update D u)"
    using apply_batch_audited [OF T'(1) some current_ptr [OF store(1) latest_size_new(1) [OF inv]]] u(1)
    by (simp add: valid_def)
  moreover have "follows C (a\<lparr>aud_log_accumulator := append_leaf (sha256 C)
        (log_leaf_value (sha256 C) now (map_root (sha256 C) (rev (entries_of valid) @ latest_map vs))) (aud_log_accumulator a),
      aud_prefix_root := map_root (sha256 C) (rev (entries_of valid) @ latest_map vs), aud_last_timestamp := now\<rparr>)
    (vs @ [\<lparr>tv_timestamp = now, tv_ptr = ptr, tv_map = rev (entries_of valid) @ latest_map vs\<rparr>])"
    using a(1) room(1) by (auto simp: follows_def log_leaves_snoc intro!: acc_inv_append)
  ultimately show ?thesis using T' u(2,3) latest_size_new(2) [OF inv] by fastforce
qed

section \<open>The whole log\<close>

text \<open>Updates other than the one a batch writes stay as they are.\<close>

lemma append_loop_audit: "cf_audit (fst (append_loop sha n es cache st)) = cf_audit st"
  by (induction sha n es cache st rule: append_loop.induct)
    (auto simp: put_timestamp_cf_def put_prefix_root_cf_def Let_def split: sum.split)

lemma batch_append_audit: "cf_audit (fst (batch_append sha n es st)) = cf_audit st"
  using append_loop_audit [of sha n es "[]" st]
  by (auto simp: batch_append_def Let_def put_log_batch_def split: prod.split sum.split)

lemma batch_insert_audit: "cf_audit (fst (fst (batch_insert sha D v p es (st, cached)))) = cf_audit st"
  by (auto simp: batch_insert_def put_prefix_batch_def split: sum.split)

lemma write_batch_audit:
  assumes "k \<noteq> to_be_bytes_u64 (latest_size T)"
  shows "cf_audit (tr_store (fst (write_batch C D ts valid T))) k = cf_audit (tr_store T) k"
proof -
  have ins: "cf_audit st1 = cf_audit (tr_store T)"
    if "batch_insert (sha256 C) D v p es (tr_store T, tr_node_cache T) = ((st1, c1), r1)" for v p es st1 c1 r1
    using batch_insert_audit [of "sha256 C" D v p es "tr_store T" "tr_node_cache T"] that by simp
  have app: "cf_audit st2 = cf_audit st1"
    if "batch_append (sha256 C) n es st1 = (st2, r2)" for n es st1 st2 r2
    using batch_append_audit [of "sha256 C" n es st1] that by simp
  have tail: "cf_audit (set_next_prefix_version v (put_prefix_ptr n q st1)) = cf_audit st1" for v n q st1
    by (simp add: set_next_prefix_version_def put_prefix_ptr_def put_meta_def put_prefix_ptr_cf_def)
  show ?thesis
    unfolding write_batch_def Let_def
    using assms by (auto split!: sum.split prod.split if_split dest!: ins app simp: put_audit_blob_def tail)
qed

lemma apply_batch_audit_frame:
  assumes "p \<noteq> latest_size T"
  shows "get_audit_blob (tr_store (fst (apply_batch C D now us T))) p = get_audit_blob (tr_store T) p"
proof -
  have "cf_audit (tr_store (fst (apply_batch C D now us T))) k =
      cf_audit (tr_store (fst (write_batch C D now (valid_updates (assign_versions (tr_store T) us Map.empty)) T))) k \<or>
      cf_audit (tr_store (fst (apply_batch C D now us T))) k = cf_audit (tr_store T) k" for k
    by (auto simp: apply_batch_def Let_def set_head_def put_meta_def split: sum.split prod.split)
  from this [of "to_be_bytes_u64 p"] show ?thesis
    using write_batch_audit [of "to_be_bytes_u64 p" T] assms by (simp add: get_audit_blob_def)
qed

text \<open>The operations that write no version.\<close>

inductive quiet_step :: "crypto \<Rightarrow> codec \<Rightarrow> tree \<Rightarrow> tree \<Rightarrow> bool" for C :: crypto and D :: codec where
  quiet_refresh: "quiet_step C D T (fst (refresh_head_timestamp D now T))"
| quiet_auditor: "quiet_step C D T (fst (set_auditor_head C D head keys T))"
| quiet_erase: "quiet_step C D T (fst (erase label ver T))"
| quiet_prune: "quiet_step C D T (fst (prune_expired_versions label T))"
| quiet_restart: "tree_new D (tr_store T) (tr_config T) = Inr T' \<Longrightarrow> quiet_step C D T T'"

lemma quiet_step_inv:
  assumes "quiet_step C D T T'" and inv: "tree_inv C D T nxt vs" and D: "codec_laws D"
  shows "tree_inv C D T' nxt vs \<and> tr_config T' = tr_config T \<and> cf_audit (tr_store T') = cf_audit (tr_store T)"
  using assms(1)
proof (cases rule: quiet_step.cases)
  case (quiet_refresh now)
  then show ?thesis
    using refresh_inv [OF inv]
    by (simp add: refresh_head_timestamp_def Let_def set_head_def put_meta_def split: option.split)
next
  case (quiet_auditor head keys)
  then show ?thesis
    using same_tree_inv [OF set_auditor_head_same inv] set_auditor_head_same by (fastforce simp: same_tree_def)
next
  case (quiet_erase label ver)
  then show ?thesis using same_tree_inv [OF erase_same inv] erase_same by (fastforce simp: same_tree_def)
next
  case (quiet_prune label)
  then show ?thesis using same_tree_inv [OF prune_same inv] prune_same by (fastforce simp: same_tree_def)
next
  case quiet_restart
  obtain T2 where T2: "tree_new D (tr_store T) (tr_config T) = Inr T2" "tree_inv C D T2 nxt vs"
    using restart_inv [OF inv D] by blast
  moreover from T2(1) have "tr_config T2 = tr_config T \<and> tr_store T2 = tr_store T"
    by (auto simp: tree_new_def res_simps)
  ultimately show ?thesis using quiet_restart by simp
qed

text \<open>
  A server from its start, with the time of its last batch: time does not run backwards between
  batches, and the updates of a batch have different indices.
\<close>

inductive server_run :: "crypto \<Rightarrow> codec \<Rightarrow> private_config \<Rightarrow> tree \<Rightarrow> u64 \<Rightarrow> bool"
  for C :: crypto and D :: codec and config :: private_config where
  run_start: "tree_new D empty_store config = Inr T \<Longrightarrow> server_run C D config T 0"
| run_batch: "server_run C D config T t \<Longrightarrow> indices_ok us \<Longrightarrow> distinct (map pre_index us) \<Longrightarrow> t \<le> now \<Longrightarrow>
    get_next_prefix_version (tr_store T) = Inr nxt \<Longrightarrow> unat nxt + length us < 2 ^ 64 \<Longrightarrow>
    unat (latest_size T) < 2 ^ 63 \<Longrightarrow> server_run C D config (fst (apply_batch C D now us T)) now"
| run_quiet: "server_run C D config T t \<Longrightarrow> quiet_step C D T T' \<Longrightarrow> server_run C D config T' t"

definition recorded :: "codec \<Rightarrow> store \<Rightarrow> auditor_update list \<Rightarrow> bool" where
  "recorded D st upds \<longleftrightarrow> list_all update_in_range upds \<and>
     (\<forall>i<length upds. get_audit_blob st (word_of_nat i) = Some (enc_auditor_update D (upds ! i)))"

definition audited :: "crypto \<Rightarrow> codec \<Rightarrow> private_config \<Rightarrow> auditor \<Rightarrow> tree \<Rightarrow> u64 \<Rightarrow> bool" where
  "audited C D config a0 T t \<longleftrightarrow> (\<exists>nxt vs upds a. tree_inv C D T nxt vs \<and> tr_config T = config \<and>
     length upds = length vs \<and> recorded D (tr_store T) upds \<and> audit_updates C upds a0 = (a, Inr ()) \<and>
     follows C a vs \<and> aud_last_timestamp a \<le> t)"

lemma audit_updates_snoc:
  "audit_updates C upds a0 = (a, Inr ()) \<Longrightarrow> audit_update C u a = Inr a' \<Longrightarrow>
    audit_updates C (upds @ [u]) a0 = (a', Inr ())"
  by (induction upds arbitrary: a0) (auto split: sum.splits)

lemma follows_new: "follows C (auditor_new signer config) []"
  by (simp add: follows_def auditor_new_def acc_inv_new log_leaves_def latest_map_def map_root_def
      unoccupied_hash ZERO_VALUE_def)

lemma audited_start:
  "tree_new D empty_store config = Inr T \<Longrightarrow> audited C D config (auditor_new signer pub) T 0"
  unfolding audited_def
  by (intro exI [of _ 0] exI [of _ "[]"] exI [of _ "auditor_new signer pub"])
    (use tree_inv_empty follows_new in \<open>auto simp: recorded_def tree_new_def res_simps auditor_new_def\<close>)

lemma audited_quiet:
  assumes "audited C D config a0 T t" and "quiet_step C D T T'" and "codec_laws D"
  shows "audited C D config a0 T' t"
  using assms(1) quiet_step_inv [OF assms(2) _ assms(3)]
  unfolding audited_def recorded_def get_audit_blob_def by metis

lemma audited_batch:
  assumes a: "audited C D config a0 T t" and D: "codec_laws D" and sha: "\<And>x. length (sha256 C x) = 32"
    and signs: "config_signs C config" and us: "indices_ok us" "distinct (map pre_index us)" and now: "t \<le> now"
    and room: "get_next_prefix_version (tr_store T) = Inr nxt" "unat nxt + length us < 2 ^ 64"
      "unat (latest_size T) < 2 ^ 63"
  shows "audited C D config a0 (fst (apply_batch C D now us T)) now"
proof -
  obtain nxt' vs upds a where inv: "tree_inv C D T nxt' vs" "tr_config T = config" "length upds = length vs"
    "recorded D (tr_store T) upds" "audit_updates C upds a0 = (a, Inr ())" "follows C a vs" "aud_last_timestamp a \<le> t"
    using a unfolding audited_def by blast
  show ?thesis
  proof (cases "valid_updates (assign_versions (tr_store T) us Map.empty) = []")
    case True
    have "aud_last_timestamp a \<le> now" using inv(7) now by (rule order.trans)
    then show ?thesis unfolding apply_batch_unchanged [OF True] audited_def using inv by blast
  next
    case False
    have next_eq: "nxt' = nxt" using inv(1) room(1) by (simp add: tree_inv_def store_inv_def)
    have size: "length vs < 2 ^ 63" "latest_size T = word_of_nat (length vs)"
      using room(3) latest_size_new [OF inv(1)] by simp_all
    have "config_signs C (tr_config T)" "unat nxt' + length us < 2 ^ 64" "aud_last_timestamp a \<le> now"
      using signs inv(2,7) now room(2) next_eq by simp_all
    then obtain T' nxt2 v u a' where T': "fst (apply_batch C D now us T) = T'" "tree_inv C D T' nxt2 (vs @ [v])"
      "get_audit_blob (tr_store T') (word_of_nat (length vs)) = Some (enc_auditor_update D u)" "update_in_range u"
      "audit_update C u a = Inr a'" "follows C a' (vs @ [v])" "tr_config T' = tr_config T" "aud_last_timestamp a' = now"
      using batch_replayed [OF inv(1) D sha _ us size(1) _ False inv(6)] by blast
    have "get_audit_blob (tr_store T') (word_of_nat i) = get_audit_blob (tr_store T) (word_of_nat i)"
      if "i < length vs" for i
    proof -
      have "word_of_nat i \<noteq> latest_size T"
        using that size by (auto simp: word_unat_eq_iff unat_of_nat take_bit_nat_eq_self)
      then show ?thesis using apply_batch_audit_frame T'(1) by metis
    qed
    then have "recorded D (tr_store T') (upds @ [u])"
      using inv(3,4) T'(3,4) by (auto simp: recorded_def nth_append less_Suc_eq)
    moreover have "audit_updates C (upds @ [u]) a0 = (a', Inr ())"
      using audit_updates_snoc [OF inv(5) T'(5)] .
    ultimately show ?thesis
      using T' inv(2,3) unfolding audited_def
      by (intro exI [of _ nxt2] exI [of _ "vs @ [v]"] exI [of _ "upds @ [u]"] exI [of _ a']) simp
  qed
qed

lemma server_run_audited:
  assumes "server_run C D config T t" and D: "codec_laws D" and sha: "\<And>x. length (sha256 C x) = 32"
    and signs: "config_signs C config"
  shows "audited C D config (auditor_new signer pub) T t"
  using assms(1)
proof (induction rule: server_run.induct)
  case (run_start T)
  then show ?case by (rule audited_start)
next
  case (run_batch T t us now nxt)
  from audited_batch [OF run_batch.IH D sha signs run_batch.hyps(2-)] show ?case by simp
next
  case (run_quiet T t T')
  then show ?case using audited_quiet D by blast
qed

section \<open>Properties\<close>

text \<open>A page of the recorded updates.\<close>

lemma audit_slice:
  assumes "recorded D st upds" and "codec_laws D" and "unat stop \<le> length upds"
  shows "map_res (\<lambda>i. and_then (ok_or (get_audit_blob st i) (Anyhow ''Missing audit blob''))
      (\<lambda>blob. ok_or (dec_auditor_update D blob) (Anyhow ''failed to decode Protobuf message'')))
    (u64_range start stop) = Inr (take (unat stop - unat start) (drop (unat start) upds))"
proof -
  have "dec_auditor_update D (enc_auditor_update D u) = Some u" if "u \<in> set upds" for u
    using assms(1,2) that by (simp add: codec_laws_def recorded_def list_all_iff)
  then show ?thesis
    unfolding map_res_eq_Inr u64_range_def using assms(1,3)
    by (auto simp: list_all2_conv_all_nth recorded_def ok_or_def simp del: of_nat_add)
qed

text \<open>C2. The auditor accepts what the server does. Run a server from an empty database through any
  batches, in time order and with different indices within a batch, head refreshes, auditor
  heads, erasures, prunings and restarts. Then the audit endpoint returns the updates of the
  whole log; a new auditor accepts every one of them; and it ends with the prefix root on record
  for the last entry, the size of the log, and its root.\<close>

theorem honest_log_audits:
  assumes "server_run C D config T t" and "codec_laws D" and "\<And>x. length (sha256 C x) = 32"
    and "config_signs C config"
  shows "\<exists>upds a rt. audit D T 0 (latest_size T) = Inr (upds, False) \<and>
    audit_updates C upds (auditor_new signer pub) = (a, Inr ()) \<and>
    acc_tree_size (aud_log_accumulator a) = latest_size T \<and>
    get_root (sha256 C) (tr_store T) (latest_size T) = Inr rt \<and>
    acc_calculate_root (sha256 C) (aud_log_accumulator a) = Inr rt \<and>
    (0 < latest_size T \<longrightarrow> get_prefix_root (tr_store T) (latest_size T - 1) = Inr (aud_prefix_root a))"
proof -
  obtain nxt vs upds a where inv: "tree_inv C D T nxt vs" "length upds = length vs"
    "recorded D (tr_store T) upds" "audit_updates C upds (auditor_new signer pub) = (a, Inr ())" "follows C a vs"
    using server_run_audited [OF assms, of signer pub] unfolding audited_def by blast
  note size = latest_size_new [OF inv(1)]
  have store: "store_inv D (sha256 C) (tr_store T) nxt vs" "length vs \<le> 2 ^ 63"
    using inv(1) by (simp_all add: tree_inv_def)
  have "get_root (sha256 C) (tr_store T) (latest_size T) = Inr (root_value (sha256 C) (log_leaves (sha256 C) vs))"
    using store size by (intro get_root_eq) (simp_all add: store_inv_def)
  moreover have "acc_calculate_root (sha256 C) (aud_log_accumulator a) = Inr (root_value (sha256 C) (log_leaves (sha256 C) vs))"
    using inv(5) by (intro acc_root) (simp add: follows_def)
  moreover have "acc_tree_size (aud_log_accumulator a) = latest_size T"
    using inv(5) size by (simp add: follows_def acc_inv_def word_unat_eq_iff)
  moreover have "get_prefix_root (tr_store T) (latest_size T - 1) = Inr (aud_prefix_root a)" if "0 < latest_size T"
  proof -
    have ne: "vs \<noteq> []" using that size by auto
    then have "unat (latest_size T - 1) = length vs - 1"
      using that size(1) by (simp add: unat_minus_one word_gt_0)
    from this [symmetric] have "word_of_nat (length vs - 1) = latest_size T - 1" by simp
    then show ?thesis
      using store_inv_version [OF store(1), of "length vs - 1"] ne inv(5)
      by (simp add: version_stored_def follows_def latest_map_def last_conv_nth)
  qed
  moreover have "audit D T 0 (latest_size T) = Inr (upds, False)"
  proof (cases "latest_size T = 0")
    case True
    then show ?thesis using size inv(2) by (simp add: audit_def Let_def)
  next
    case False
    then show ?thesis
      using audit_slice [OF inv(3) assms(2), of "latest_size T" 0] size inv(2) by (simp add: audit_def Let_def)
  qed
  ultimately show ?thesis using inv(4) by blast
qed

lemma sample_run:
  obtains T where "server_run sample_crypto sample_codec sample_private_config T 9" and "latest_size T = 1"
proof -
  obtain T results th ptr where T:
    "apply_batch sample_crypto sample_codec 9 [sample_update 0 [7]] (sample_tree empty_store) = (T, Inr (results, th))"
    "tr_config T = sample_private_config"
    "tree_inv sample_crypto sample_codec T (ptr + 1)
      [\<lparr>tv_timestamp = 9, tv_ptr = ptr, tv_map = [(sample_index 0, [7])]\<rparr>]"
    by (rule sample_batch)
  have "server_run sample_crypto sample_codec sample_private_config (sample_tree empty_store) 0"
    by (rule run_start [OF sample_server])
  from run_batch [OF this, of "[sample_update 0 [7]]" 9 0] T(1)
  have "server_run sample_crypto sample_codec sample_private_config T 9"
    using sample_inv by (simp add: sample_update_ok tree_inv_def store_inv_def latest_size_def sample_tree_def)
  moreover have "latest_size T = 1" using latest_size_new(2) [OF T(3)] by simp
  ultimately show thesis by (rule that)
qed

theorem honest_log_audits_witness:
  "\<forall>signer pub. \<exists>T a upds. server_run sample_crypto sample_codec sample_private_config T 9 \<and> latest_size T = 1 \<and>
    audit sample_codec T 0 1 = Inr (upds, False) \<and>
    audit_updates sample_crypto upds (auditor_new signer pub) = (a, Inr ()) \<and>
    get_prefix_root (tr_store T) 0 = Inr (aud_prefix_root a)"
proof (intro allI)
  fix signer pub
  obtain T where "server_run sample_crypto sample_codec sample_private_config T 9" and "latest_size T = 1"
    by (rule sample_run)
  then show "\<exists>T a upds. server_run sample_crypto sample_codec sample_private_config T 9 \<and> latest_size T = 1 \<and>
      audit sample_codec T 0 1 = Inr (upds, False) \<and>
      audit_updates sample_crypto upds (auditor_new signer pub) = (a, Inr ()) \<and>
      get_prefix_root (tr_store T) 0 = Inr (aud_prefix_root a)"
    using honest_log_audits [of sample_crypto sample_codec sample_private_config T 9 signer pub] sample_codec_laws
      sample_signs by auto
qed

text \<open>C25. A batch can replace a leaf it does not remove. The checks of the transition bar an added key
  from having an inclusion result unless it is also removed, so that a leaf in the tree is never
  replaced unannounced; but a non-inclusion result is not held against the leaves that other
  results reveal. Take a tree with a single key. An update that adds that key with another
  commitment and claims that it is not in the tree, together with a second key whose result
  names the first as its neighbour, is accepted, removes nothing, and gives the root of the tree
  with the first key's commitment replaced.\<close>

theorem unannounced_replacement_accepted:
  assumes "length b = 32" and "length c = 32" and "b \<noteq> c"
  shows "verify_and_transition sha (map_root sha [(b, old)])
      [\<lparr>pl_vrf_output = b, pl_commitment = new\<rparr>, \<lparr>pl_vrf_output = c, pl_commitment = cc\<rparr>] []
      \<lparr>pp_results = [\<lparr>psr_result_type = 3, psr_leaf = None, psr_depth = 0\<rparr>,
          \<lparr>psr_result_type = 2, psr_leaf = Some \<lparr>pl_vrf_output = b, pl_commitment = old\<rparr>, psr_depth = 0\<rparr>],
        pp_elements = []\<rparr> =
    Inr (map_root sha [(b, new), (c, cc)])"
proof -
  let ?added = "[\<lparr>pl_vrf_output = b, pl_commitment = new\<rparr>, \<lparr>pl_vrf_output = c, pl_commitment = cc\<rparr>]"
  have root: "pt_root sha t = map_root sha kvs"
    if "placed sha kvs [b, c] t []" "\<forall>key\<in>fst ` set kvs. node t (key_bits key) \<noteq> None" for t kvs
  proof -
    have "\<forall>key\<in>fst ` set kvs. passes t key"
      unfolding passes_def using that(2) by (metis key_bits_take order_refl)
    from resolve_passed [OF that(1) this, of "[]"]
    show ?thesis by (simp add: pt_root_def map_root_def path_of_def bits_def)
  qed
  have keys: "keys_ok [(b, old)]" "keys_ok [(b, new), (c, cc)]" using assms by (simp_all add: keys_ok_def)
  obtain t where t: "pt_set_leaf b (leaf_hash sha b old) [] = Inr t" "placed sha [(b, old)] [b, c] t []"
    "node t (key_bits b) \<noteq> None"
    using set_leaf_placed [OF placed_empty keys(1) assms(1), of old sha "[b, c]"] by auto
  obtain t' where t': "fold_res (\<lambda>item. pt_set_leaf (pl_vrf_output item)
      (leaf_hash sha (pl_vrf_output item) (pl_commitment item))) ?added [] = Inr t'"
    "placed sha [(b, new), (c, cc)] [b, c] t' []" "\<forall>item\<in>set ?added. node t' (key_bits (pl_vrf_output item)) \<noteq> None"
    using set_leaves [OF keys(2) placed_empty, of ?added sha "[b, c]"] assms by auto
  have overwrite: "pt_set_leaf b v t = pt_set_leaf b v []" for v
    using t(1) by (auto simp: pt_set_leaf_eq [OF assms(1)] pt_put_def)
  show ?thesis
    using t(1) t'(1) root [OF t(2)] root [OF t'(2)] t(3) t'(3) assms
    by (simp add: verify_and_transition_def place_item_def place_terminal_def check_covering_def overwrite)
qed

theorem unannounced_replacement_accepted_witness:
  "verify_and_transition pad32 (map_root pad32 [(replicate 32 0, [1])])
      [\<lparr>pl_vrf_output = replicate 32 0, pl_commitment = [2]\<rparr>, \<lparr>pl_vrf_output = replicate 32 1, pl_commitment = [3]\<rparr>] []
      \<lparr>pp_results = [\<lparr>psr_result_type = 3, psr_leaf = None, psr_depth = 0\<rparr>,
          \<lparr>psr_result_type = 2, psr_leaf = Some \<lparr>pl_vrf_output = replicate 32 0, pl_commitment = [1]\<rparr>, psr_depth = 0\<rparr>],
        pp_elements = []\<rparr> =
    Inr (map_root pad32 [(replicate 32 0, [2]), (replicate 32 1, [3])])"
  by (rule unannounced_replacement_accepted) simp_all

text \<open>C39. Pages of the audit endpoint. On an honest server, a page that starts inside the log holds
  exactly the updates from its start up to its limit or the end of the log, and says whether more
  follow, as long as the sum of start and limit does not overflow. When it overflows, the page is
  empty and still says that more follow. A start past the end is refused.\<close>

theorem audit_pages:
  assumes "server_run C D config T t" and "codec_laws D" and "\<And>x. length (sha256 C x) = 32"
    and "config_signs C config"
  shows "\<exists>upds. length upds = unat (latest_size T) \<and>
    (\<forall>start limit. audit D T start limit =
      (if latest_size T < start then Inl (Anyhow ''Auditing cannot start past end of tree'')
       else if start = latest_size T then Inr ([], False)
       else if unat start + unat limit < 2 ^ 64 then
         Inr (take (unat limit) (drop (unat start) upds), unat start + unat limit < length upds)
       else Inr ([], True)))"
proof -
  fix signer pub
  obtain nxt vs upds a where inv: "tree_inv C D T nxt vs" "length upds = length vs" "recorded D (tr_store T) upds"
    using server_run_audited [OF assms, of signer pub] unfolding audited_def by blast
  have size: "unat (latest_size T) = length upds" using latest_size_new(1) [OF inv(1)] inv(2) by simp
  have "audit D T start limit = Inr (take (unat limit) (drop (unat start) upds), unat start + unat limit < length upds)"
    if "start < latest_size T" "unat start + unat limit < 2 ^ 64" for start limit
  proof -
    have sum: "unat (start + limit) = unat start + unat limit" using that(2) by (simp add: unat_word_ariths)
    define stop where "stop = (if start + limit > latest_size T then latest_size T else start + limit)"
    have stop: "unat stop = min (unat start + unat limit) (length upds)"
      using sum size by (auto simp: stop_def word_less_nat_alt)
    then have page: "take (unat stop - unat start) (drop (unat start) upds) = take (unat limit) (drop (unat start) upds)"
      by (simp add: min_def)
    have "start \<noteq> latest_size T" "\<not> latest_size T < start" using that(1) by auto
    then have "audit D T start limit = Inr (take (unat stop - unat start) (drop (unat start) upds), stop < latest_size T)"
      using audit_slice [OF inv(3) assms(2), of stop start] stop
      by (simp add: audit_def Let_def flip: stop_def)
    then show ?thesis using page stop size by (auto simp: word_less_nat_alt min_def)
  qed
  moreover have "audit D T start limit = Inr ([], True)"
    if "start < latest_size T" "\<not> unat start + unat limit < 2 ^ 64" for start limit
  proof -
    have "unat (start + limit) < unat start"
      using that(2) unsigned_less [of limit, where 'a = nat] unsigned_less [of start, where 'a = nat]
      by (simp add: unat_word_ariths le_mod_geq)
    then show ?thesis using that(1) by (auto simp: audit_def Let_def u64_range_def word_less_nat_alt)
  qed
  ultimately show ?thesis using size by (intro exI [of _ upds]) (auto simp: audit_def not_less)
qed

theorem audit_pages_witness:
  "\<exists>T u. server_run sample_crypto sample_codec sample_private_config T 9 \<and> latest_size T = 1 \<and>
    audit sample_codec T 0 5 = Inr ([u], False) \<and> audit sample_codec T 0 0 = Inr ([], True)"
proof -
  obtain T where T: "server_run sample_crypto sample_codec sample_private_config T 9" "latest_size T = 1"
    by (rule sample_run)
  obtain upds where upds: "length upds = 1" "\<And>start limit. audit sample_codec T start limit =
      (if 1 < start then Inl (Anyhow ''Auditing cannot start past end of tree'')
       else if start = 1 then Inr ([], False)
       else if unat start + unat limit < 2 ^ 64 then
         Inr (take (unat limit) (drop (unat start) upds), unat start + unat limit < length upds)
       else Inr ([], True))"
    using audit_pages [OF T(1) sample_codec_laws] sample_signs T(2) by auto
  then obtain u where "upds = [u]" by (auto simp: length_Suc_conv)
  then show ?thesis using T upds(2) by auto
qed

end
