(* ===== verification/Vrf.thy ===== *)
theory Vrf
  imports Signing
begin

text \<open>
  The verifiable random functions, \<^verbatim>\<open>src/src/crypto/vrf.rs\<close>: ECVRF on edwards25519 and on
  P-256. Points, scalars, their encodings and the digests are crates; the records \<open>edwards\<close> and
  \<open>nist\<close> hold their operations as the code calls them.

  The lemmas show that a proof the holder of the secret makes is accepted under its public
  key with the same output, on either curve, and that the search for a curve point ends.
\<close>

section \<open>The curve operations\<close>

record ('s, 'p) edwards =
  ed_sha512 :: "bytes \<Rightarrow> bytes"
  ed_base_mul :: "'s \<Rightarrow> 'p"
  ed_mul :: "'s \<Rightarrow> 'p \<Rightarrow> 'p"
  ed_sub :: "'p \<Rightarrow> 'p \<Rightarrow> 'p"
  ed_mul_by_cofactor :: "'p \<Rightarrow> 'p"
  ed_is_identity :: "'p \<Rightarrow> bool"
  ed_compress :: "'p \<Rightarrow> bytes"
  ed_decompress :: "bytes \<Rightarrow> 'p option"
  ed_from_wide :: "bytes \<Rightarrow> 's"
  ed_from_bytes :: "bytes \<Rightarrow> 's"
  ed_to_bytes :: "'s \<Rightarrow> bytes"
  ed_add :: "'s \<Rightarrow> 's \<Rightarrow> 's"
  ed_times :: "'s \<Rightarrow> 's \<Rightarrow> 's"

record ('t, 'q) nist =
  ni_sha256 :: "bytes \<Rightarrow> bytes"
  ni_base_mul :: "'t \<Rightarrow> 'q"
  ni_mul :: "'q \<Rightarrow> 't \<Rightarrow> 'q"
  ni_sub :: "'q \<Rightarrow> 'q \<Rightarrow> 'q"
  ni_is_identity :: "'q \<Rightarrow> bool"
  ni_encode :: "'q \<Rightarrow> bytes"
  ni_encoded_ok :: "bytes \<Rightarrow> bool"
  ni_decode :: "bytes \<Rightarrow> 'q option"
  ni_from_repr :: "bytes \<Rightarrow> 't option"
  ni_to_bytes :: "'t \<Rightarrow> bytes"
  ni_add :: "'t \<Rightarrow> 't \<Rightarrow> 't"
  ni_times :: "'t \<Rightarrow> 't \<Rightarrow> 't"
  ni_generate_k :: "bytes \<Rightarrow> bytes \<Rightarrow> bytes \<Rightarrow> bytes \<Rightarrow> bytes"

datatype ('s, 't) vrf_context =
    VrfEd25519 (ed_x: 's) (ed_y_bytes: bytes) (ed_nonce_key: bytes)
  | VrfP256 (ni_x: 't) (ni_y_bytes: bytes)

section \<open>Ed25519\<close>

definition clamp :: "bytes \<Rightarrow> bytes" where
  "clamp sb =
     (let sb = sb[0 := sb ! 0 AND 248]; sb = sb[31 := sb ! 31 AND 127] in sb[31 := sb ! 31 OR 64])"

definition expand_vrf_secret_ed25519 :: "('s, 'p) edwards \<Rightarrow> bytes \<Rightarrow> ('s, 't) vrf_context res" where
  "expand_vrf_secret_ed25519 E seed =
     (if length seed \<noteq> 32 then Inl (Anyhow ''Invalid Ed25519 seed length'')
      else
        let hashed_sk = ed_sha512 E seed;
            scalar_bytes = clamp (take 32 hashed_sk);
            x = ed_from_wide E (scalar_bytes @ replicate 32 0) in
        Inr (VrfEd25519 x (ed_compress E (ed_base_mul E x)) (take 32 (drop 32 hashed_sk))))"

text \<open>A compressed point is a slice of 32 bytes.\<close>

definition from_slice :: "bytes \<Rightarrow> err \<Rightarrow> bytes res" where
  "from_slice b e = (if length b = 32 then Inr b else Inl e)"

text \<open>The counter is a \<open>u8\<close>; its overflow panics.\<close>

function encode_loop_ed25519 :: "('s, 'p) edwards \<Rightarrow> bytes \<Rightarrow> bytes \<Rightarrow> nat \<Rightarrow> 'p res" where
  "encode_loop_ed25519 E pub_key alpha ctr =
     (let result = ed_sha512 E ([0x03, 0x01] @ pub_key @ alpha @ [word_of_nat ctr, 0x00]);
          retry = (if ctr \<ge> 255 then Inl (Panic ''Counter overflow'')
                   else encode_loop_ed25519 E pub_key alpha (ctr + 1)) in
      case ed_decompress E (take 32 result) of
        Some p \<Rightarrow>
          (let h_point = ed_mul_by_cofactor E p in
           if \<not> ed_is_identity E h_point then Inr h_point else retry)
      | None \<Rightarrow> retry)"
  by pat_completeness auto
termination by (relation "measure (\<lambda>(E, pk, alpha, ctr). 256 - ctr)") auto

declare encode_loop_ed25519.simps [simp del]

definition encode_to_curve_ed25519 :: "('s, 'p) edwards \<Rightarrow> bytes \<Rightarrow> bytes \<Rightarrow> 'p res" where
  "encode_to_curve_ed25519 E pub_key alpha = encode_loop_ed25519 E pub_key alpha 0"

definition challenge_ed25519 :: "('s, 'p) edwards \<Rightarrow> bytes \<Rightarrow> bytes \<Rightarrow> bytes \<Rightarrow> bytes \<Rightarrow> bytes \<Rightarrow> 's" where
  "challenge_ed25519 E p1 p2 p3 p4 p5 =
     (let d = ed_sha512 E ([0x03, 0x02] @ p1 @ p2 @ p3 @ p4 @ p5 @ [0x00]) in
      ed_from_bytes E (take 16 d @ replicate 16 0))"

definition proof_to_hash_ed25519 :: "('s, 'p) edwards \<Rightarrow> 'p \<Rightarrow> bytes" where
  "proof_to_hash_ed25519 E gamma =
     take 32 (ed_sha512 E ([0x03, 0x03] @ ed_compress E (ed_mul_by_cofactor E gamma) @ [0x00]))"

definition ecvrf_prove_ed25519 :: "('s, 'p) edwards \<Rightarrow> 's \<Rightarrow> bytes \<Rightarrow> bytes \<Rightarrow> bytes \<Rightarrow>
    (bytes \<times> bytes) res" where
  "ecvrf_prove_ed25519 E x y_bytes nonce_key alpha =
     and_then (encode_to_curve_ed25519 E y_bytes alpha) (\<lambda>h_point.
     let h_bytes = ed_compress E h_point;
         gamma = ed_mul E x h_point;
         gamma_bytes = ed_compress E gamma;
         nonce_scalar = ed_from_wide E (ed_sha512 E (nonce_key @ h_bytes));
         u_bytes = ed_compress E (ed_base_mul E nonce_scalar);
         v_bytes = ed_compress E (ed_mul E nonce_scalar h_point);
         c_scalar = challenge_ed25519 E y_bytes h_bytes gamma_bytes u_bytes v_bytes;
         c_bytes_16 = take 16 (ed_to_bytes E c_scalar);
         s_scalar = ed_add E nonce_scalar (ed_times E c_scalar x)
     in Inr (proof_to_hash_ed25519 E gamma, gamma_bytes @ c_bytes_16 @ ed_to_bytes E s_scalar))"

definition ecvrf_verify_ed25519 :: "('s, 'p) edwards \<Rightarrow> bytes \<Rightarrow> bytes \<Rightarrow> bytes \<Rightarrow> bytes res" where
  "ecvrf_verify_ed25519 E pub_key alpha pf =
     (if length pf \<noteq> 80 then Inl (Anyhow ''Invalid Ed25519 VRF proof length'')
      else
        let gamma_bytes = take 32 pf; c_bytes = take 16 (drop 32 pf); s_bytes = take 32 (drop 48 pf) in
        and_then (ok_or (ed_decompress E gamma_bytes) (Anyhow ''Gamma decompression failed'')) (\<lambda>gamma.
        let c = ed_from_bytes E (c_bytes @ replicate 16 0); s = ed_from_bytes E s_bytes in
        and_then (from_slice pub_key (Anyhow ''Invalid PK'')) (\<lambda>pk.
        and_then (ok_or (ed_decompress E pk) (Anyhow ''PK decompression failed'')) (\<lambda>pk_point.
        and_then (encode_to_curve_ed25519 E pub_key alpha) (\<lambda>h_point.
        let h_bytes = ed_compress E h_point;
            u_bytes = ed_compress E (ed_sub E (ed_base_mul E s) (ed_mul E c pk_point));
            v_bytes = ed_compress E (ed_sub E (ed_mul E s h_point) (ed_mul E c gamma));
            c_prime = challenge_ed25519 E pub_key h_bytes gamma_bytes u_bytes v_bytes in
        if c_bytes \<noteq> take 16 (ed_to_bytes E c_prime) then Inl (Anyhow ''Challenge mismatch'')
        else Inr (proof_to_hash_ed25519 E gamma))))))"

section \<open>P-256\<close>

definition expand_vrf_secret_p256 :: "('t, 'q) nist \<Rightarrow> bytes \<Rightarrow> ('s, 't) vrf_context res" where
  "expand_vrf_secret_p256 N secret =
     (if length secret \<noteq> 32 then Inl (Anyhow ''Invalid P-256 scalar length'')
      else
        and_then (ok_or (ni_from_repr N secret) (Anyhow ''Invalid P-256 scalar'')) (\<lambda>x.
        Inr (VrfP256 x (ni_encode N (ni_base_mul N x)))))"

text \<open>A SEC1 string is parsed, and then its point decoded.\<close>

definition sec1_point :: "('t, 'q) nist \<Rightarrow> bytes \<Rightarrow> err \<Rightarrow> err \<Rightarrow> 'q res" where
  "sec1_point N b malformed invalid =
     (if ni_encoded_ok N b then ok_or (ni_decode N b) invalid else Inl malformed)"

function encode_loop_p256 :: "('t, 'q) nist \<Rightarrow> bytes \<Rightarrow> bytes \<Rightarrow> nat \<Rightarrow> 'q res" where
  "encode_loop_p256 N pub_key alpha ctr =
     (let result = ni_sha256 N ([0x01, 0x01] @ pub_key @ alpha @ [word_of_nat ctr, 0x00]);
          pt_bytes = 0x02 # result;
          retry = (if ctr \<ge> 255 then Inl (Panic ''TAI overflow'')
                   else encode_loop_p256 N pub_key alpha (ctr + 1)) in
      case (if ni_encoded_ok N pt_bytes then ni_decode N pt_bytes else None) of
        Some p \<Rightarrow> if \<not> ni_is_identity N p then Inr p else retry
      | None \<Rightarrow> retry)"
  by pat_completeness auto
termination by (relation "measure (\<lambda>(N, pk, alpha, ctr). 256 - ctr)") auto

declare encode_loop_p256.simps [simp del]

definition encode_to_curve_p256 :: "('t, 'q) nist \<Rightarrow> bytes \<Rightarrow> bytes \<Rightarrow> 'q res" where
  "encode_to_curve_p256 N pub_key alpha = encode_loop_p256 N pub_key alpha 0"

definition challenge_p256 :: "('t, 'q) nist \<Rightarrow> bytes \<Rightarrow> bytes \<Rightarrow> bytes \<Rightarrow> bytes \<Rightarrow> bytes \<Rightarrow> 't res" where
  "challenge_p256 N p1 p2 p3 p4 p5 =
     (let d = ni_sha256 N ([0x01, 0x02] @ p1 @ p2 @ p3 @ p4 @ p5 @ [0x00]) in
      ok_or (ni_from_repr N (replicate 16 0 @ take 16 d))
        (Panic ''called `Option::unwrap()` on a `None` value''))"

definition proof_to_hash_p256 :: "('t, 'q) nist \<Rightarrow> 'q \<Rightarrow> bytes" where
  "proof_to_hash_p256 N gamma = ni_sha256 N ([0x01, 0x03] @ ni_encode N gamma @ [0x00])"

definition P256_ORDER :: bytes where
  "P256_ORDER =
     [0xff, 0xff, 0xff, 0xff, 0x00, 0x00, 0x00, 0x00, 0xff, 0xff, 0xff, 0xff, 0xff, 0xff, 0xff,
      0xff, 0xbc, 0xe6, 0xfa, 0xad, 0xa7, 0x17, 0x9e, 0x84, 0xf3, 0xb9, 0xca, 0xc2, 0xfc, 0x63,
      0x25, 0x51]"

definition ecvrf_prove_p256 :: "('t, 'q) nist \<Rightarrow> 't \<Rightarrow> bytes \<Rightarrow> bytes \<Rightarrow> (bytes \<times> bytes) res" where
  "ecvrf_prove_p256 N x y_bytes alpha =
     and_then (encode_to_curve_p256 N y_bytes alpha) (\<lambda>h_point.
     let h_bytes = ni_encode N h_point;
         gamma = ni_mul N h_point x;
         gamma_bytes = ni_encode N gamma;
         k_bytes = ni_generate_k N (ni_to_bytes N x) P256_ORDER (ni_sha256 N h_bytes) [] in
     and_then (ok_or (ni_from_repr N k_bytes) (Anyhow ''RFC 6979 nonce out of range'')) (\<lambda>k.
     let u_bytes = ni_encode N (ni_base_mul N k);
         v_bytes = ni_encode N (ni_mul N h_point k) in
     and_then (challenge_p256 N y_bytes h_bytes gamma_bytes u_bytes v_bytes) (\<lambda>c_scalar.
     let c_bytes_16 = take 16 (drop 16 (ni_to_bytes N c_scalar));
         s_scalar = ni_add N k (ni_times N c_scalar x)
     in Inr (proof_to_hash_p256 N gamma, gamma_bytes @ c_bytes_16 @ ni_to_bytes N s_scalar))))"

definition ecvrf_verify_p256 :: "('t, 'q) nist \<Rightarrow> bytes \<Rightarrow> bytes \<Rightarrow> bytes \<Rightarrow> bytes res" where
  "ecvrf_verify_p256 N pub_key alpha pf =
     (if length pf \<noteq> 81 then Inl (Anyhow ''Invalid P-256 VRF proof length'')
      else
        let gamma_bytes = take 33 pf; c_bytes = take 16 (drop 33 pf); s_bytes = take 32 (drop 49 pf) in
        and_then (sec1_point N gamma_bytes (Anyhow ''Invalid Gamma'') (Anyhow ''Gamma point invalid'')) (\<lambda>gamma.
        and_then (ok_or (ni_from_repr N (replicate 16 0 @ c_bytes)) (Anyhow ''Invalid c'')) (\<lambda>c.
        and_then (ok_or (ni_from_repr N s_bytes) (Anyhow ''Invalid s'')) (\<lambda>s.
        and_then (sec1_point N pub_key (Anyhow ''Invalid PK'') (Anyhow ''PK point invalid'')) (\<lambda>pk_point.
        and_then (encode_to_curve_p256 N pub_key alpha) (\<lambda>h_point.
        let h_bytes = ni_encode N h_point;
            u_bytes = ni_encode N (ni_sub N (ni_base_mul N s) (ni_mul N pk_point c));
            v_bytes = ni_encode N (ni_sub N (ni_mul N h_point s) (ni_mul N gamma c)) in
        and_then (challenge_p256 N pub_key h_bytes gamma_bytes u_bytes v_bytes) (\<lambda>c_prime.
        if c_bytes \<noteq> take 16 (drop 16 (ni_to_bytes N c_prime)) then Inl (Anyhow ''Challenge mismatch'')
        else Inr (proof_to_hash_p256 N gamma))))))))"

section \<open>By cipher suite\<close>

definition expand_vrf_secret :: "('s, 'p) edwards \<Rightarrow> ('t, 'q) nist \<Rightarrow> u16 \<Rightarrow> bytes \<Rightarrow>
    ('s, 't) vrf_context res" where
  "expand_vrf_secret E N suite_id secret =
     (if suite_id = CIPHER_SUITE_KT_128_SHA256_ED25519 then expand_vrf_secret_ed25519 E secret
      else if suite_id = CIPHER_SUITE_KT_128_SHA256_P256 then expand_vrf_secret_p256 N secret
      else Inl (Anyhow ''Unsupported cipher suite''))"

definition vrf_public_bytes :: "('s, 't) vrf_context \<Rightarrow> bytes" where
  "vrf_public_bytes ctx = (case ctx of VrfEd25519 x y k \<Rightarrow> y | VrfP256 x y \<Rightarrow> y)"

definition get_public_key :: "('s, 'p) edwards \<Rightarrow> ('t, 'q) nist \<Rightarrow> u16 \<Rightarrow> bytes \<Rightarrow> bytes res" where
  "get_public_key E N suite_id secret =
     and_then (expand_vrf_secret E N suite_id secret) (\<lambda>ctx. Inr (vrf_public_bytes ctx))"

definition ecvrf_prove :: "('s, 'p) edwards \<Rightarrow> ('t, 'q) nist \<Rightarrow> ('s, 't) vrf_context \<Rightarrow> bytes \<Rightarrow>
    (bytes \<times> bytes) res" where
  "ecvrf_prove E N ctx alpha =
     (case ctx of
        VrfEd25519 x y_bytes nonce_key \<Rightarrow> ecvrf_prove_ed25519 E x y_bytes nonce_key alpha
      | VrfP256 x y_bytes \<Rightarrow> ecvrf_prove_p256 N x y_bytes alpha)"

definition ecvrf_verify :: "('s, 'p) edwards \<Rightarrow> ('t, 'q) nist \<Rightarrow> u16 \<Rightarrow> bytes \<Rightarrow> bytes \<Rightarrow> bytes \<Rightarrow> bytes res" where
  "ecvrf_verify E N suite_id pub_key alpha pf =
     (if suite_id = CIPHER_SUITE_KT_128_SHA256_ED25519 then ecvrf_verify_ed25519 E pub_key alpha pf
      else if suite_id = CIPHER_SUITE_KT_128_SHA256_P256 then ecvrf_verify_p256 N pub_key alpha pf
      else Inl (Anyhow ''Unsupported cipher suite''))"

section \<open>Completeness\<close>

text \<open>
  The laws of the curves. \<open>G\<close> is the subgroup of prime order, on which scalars act; encodings
  are inverted by their decodings; a scalar below \<open>2 ^ 128\<close> has its 16 bytes for low half. Every point
  of P-256 is in its group of prime order, so a product is the identity only when a factor is zero.
\<close>

definition edwards_group :: "('s, 'p) edwards \<Rightarrow> 'p set \<Rightarrow> 'p \<Rightarrow> ('p \<Rightarrow> 'p \<Rightarrow> 'p) \<Rightarrow> bool" where
  "edwards_group E G b gadd \<longleftrightarrow> b \<in> G \<and> (\<forall>s. ed_base_mul E s = ed_mul E s b) \<and>
     (\<forall>p. ed_mul_by_cofactor E p \<in> G) \<and> (\<forall>s. \<forall>p\<in>G. ed_mul E s p \<in> G) \<and>
     (\<forall>s t. \<forall>p\<in>G. ed_mul E (ed_add E s t) p = gadd (ed_mul E s p) (ed_mul E t p)) \<and>
     (\<forall>s t. \<forall>p\<in>G. ed_mul E (ed_times E s t) p = ed_mul E s (ed_mul E t p)) \<and>
     (\<forall>p q. ed_sub E (gadd p q) q = p)"

definition edwards_laws :: "('s, 'p) edwards \<Rightarrow> bool" where
  "edwards_laws E \<longleftrightarrow> (\<exists>G b gadd. edwards_group E G b gadd) \<and>
   (\<forall>p. length (ed_compress E p) = 32 \<and> ed_decompress E (ed_compress E p) = Some p) \<and>
   (\<forall>s. length (ed_to_bytes E s) = 32 \<and> ed_from_bytes E (ed_to_bytes E s) = s) \<and>
   (\<forall>cb. length cb = 16 \<longrightarrow> ed_to_bytes E (ed_from_bytes E (cb @ replicate 16 0)) = cb @ replicate 16 0) \<and>
   (\<forall>x. length (ed_sha512 E x) = 64)"

definition nist_group :: "('t, 'q) nist \<Rightarrow> 'q \<Rightarrow> ('q \<Rightarrow> 'q \<Rightarrow> 'q) \<Rightarrow> bool" where
  "nist_group N b gadd \<longleftrightarrow> (\<forall>s. ni_base_mul N s = ni_mul N b s) \<and>
     (\<forall>s t p. ni_mul N p (ni_add N s t) = gadd (ni_mul N p s) (ni_mul N p t)) \<and>
     (\<forall>s t p. ni_mul N p (ni_times N s t) = ni_mul N (ni_mul N p t) s) \<and>
     (\<forall>p q. ni_sub N (gadd p q) q = p) \<and>
     (\<forall>p s. ni_is_identity N (ni_mul N p s) \<longleftrightarrow> ni_is_identity N p \<or> ni_to_bytes N s = replicate 32 0)"

definition nist_laws :: "('t, 'q) nist \<Rightarrow> bool" where
  "nist_laws N \<longleftrightarrow> (\<exists>b gadd. nist_group N b gadd) \<and>
   (\<forall>p. length (ni_encode N p) = (if ni_is_identity N p then 1 else 33) \<and> ni_encoded_ok N (ni_encode N p) \<and>
     ni_decode N (ni_encode N p) = Some p) \<and>
   (\<forall>s. length (ni_to_bytes N s) = 32 \<and> ni_from_repr N (ni_to_bytes N s) = Some s) \<and>
   (\<forall>b s. ni_from_repr N b = Some s \<longrightarrow> ni_to_bytes N s = b) \<and>
   (\<forall>cb. length cb = 16 \<longrightarrow> ni_from_repr N (replicate 16 0 @ cb) \<noteq> None) \<and>
   (\<forall>x. length (ni_sha256 N x) = 32)"

lemma challenge_bytes_ed25519:
  assumes "edwards_laws E"
  shows "ed_from_bytes E (take 16 (ed_to_bytes E (challenge_ed25519 E p1 p2 p3 p4 p5)) @ replicate 16 0) =
    challenge_ed25519 E p1 p2 p3 p4 p5"
proof -
  have "length (take 16 (ed_sha512 E x)) = 16" for x using assms by (simp add: edwards_laws_def)
  then have "ed_to_bytes E (challenge_ed25519 E p1 p2 p3 p4 p5) =
      take 16 (ed_sha512 E ([0x03, 0x02] @ p1 @ p2 @ p3 @ p4 @ p5 @ [0x00])) @ replicate 16 0"
    using assms unfolding edwards_laws_def challenge_ed25519_def Let_def by blast
  then show ?thesis
    using assms by (simp add: challenge_ed25519_def edwards_laws_def)
qed

lemma encode_in_group:
  assumes "encode_loop_ed25519 E pk alpha ctr = Inr h"
  shows "\<exists>p. h = ed_mul_by_cofactor E p"
  using assms
proof (induction "256 - ctr" arbitrary: ctr rule: less_induct)
  case less
  have IH: "ctr < 255 \<Longrightarrow> encode_loop_ed25519 E pk alpha (Suc ctr) = Inr h \<Longrightarrow> ?case"
    using less.hyps [of "Suc ctr"] by simp
  show ?case
    using less.prems IH encode_loop_ed25519.simps [of E pk alpha ctr]
    by (auto simp: Let_def split: option.splits if_splits)
qed

lemma prove_verify_ed25519:
  assumes laws: "edwards_laws E" and y: "y = ed_compress E (ed_base_mul E x)"
    and pf: "ecvrf_prove_ed25519 E x y nonce_key alpha = Inr (out, pf)"
  shows "ecvrf_verify_ed25519 E y alpha pf = Inr out \<and> length pf = 80 \<and> length out = 32"
proof -
  obtain G b gadd where "edwards_group E G b gadd" using laws by (auto simp: edwards_laws_def)
  then have G: "\<And>s. ed_base_mul E s = ed_mul E s b" "\<And>p. ed_mul_by_cofactor E p \<in> G"
    and action: "\<And>s t p. p \<in> G \<Longrightarrow> ed_mul E (ed_add E s t) p = gadd (ed_mul E s p) (ed_mul E t p)"
      "\<And>s t p. p \<in> G \<Longrightarrow> ed_mul E (ed_times E s t) p = ed_mul E s (ed_mul E t p)"
      "\<And>p q. ed_sub E (gadd p q) q = p" and b: "b \<in> G"
    by (simp_all add: edwards_group_def)
  have enc: "\<And>p. length (ed_compress E p) = 32" "\<And>p. ed_decompress E (ed_compress E p) = Some p"
    "\<And>s. length (ed_to_bytes E s) = 32" "\<And>s. ed_from_bytes E (ed_to_bytes E s) = s"
    using laws by (simp_all add: edwards_laws_def)
  obtain h where h: "encode_to_curve_ed25519 E y alpha = Inr h"
    using pf by (auto simp: ecvrf_prove_ed25519_def res_simps)
  then have hG: "h \<in> G" using encode_in_group G(2) by (metis encode_to_curve_ed25519_def)
  define k where "k = ed_from_wide E (ed_sha512 E (nonce_key @ ed_compress E h))"
  define c where "c = challenge_ed25519 E y (ed_compress E h) (ed_compress E (ed_mul E x h))
    (ed_compress E (ed_base_mul E k)) (ed_compress E (ed_mul E k h))"
  define s where "s = ed_add E k (ed_times E c x)"
  have out: "out = proof_to_hash_ed25519 E (ed_mul E x h)"
    and parts: "pf = ed_compress E (ed_mul E x h) @ take 16 (ed_to_bytes E c) @ ed_to_bytes E s"
    using pf h by (simp_all add: ecvrf_prove_ed25519_def Let_def k_def c_def s_def)
  have c: "ed_from_bytes E (take 16 (ed_to_bytes E c) @ replicate 16 0) = c"
    unfolding c_def by (rule challenge_bytes_ed25519 [OF laws])
  have u: "ed_sub E (ed_base_mul E s) (ed_mul E c (ed_base_mul E x)) = ed_base_mul E k"
    using action b by (simp add: s_def G(1))
  have v: "ed_sub E (ed_mul E s h) (ed_mul E c (ed_mul E x h)) = ed_mul E k h"
    using action hG by (simp add: s_def)
  have "ecvrf_verify_ed25519 E y alpha pf = Inr out"
    using h enc c u v by (simp add: ecvrf_verify_ed25519_def parts out y [symmetric] from_slice_def Let_def)
      (simp add: y c_def)
  moreover have "length pf = 80" "length out = 32"
    using laws enc by (simp_all add: parts out proof_to_hash_ed25519_def edwards_laws_def)
  ultimately show ?thesis by simp
qed

lemma challenge_bytes_p256:
  assumes "nist_laws N" and "challenge_p256 N p1 p2 p3 p4 p5 = Inr c"
  shows "ni_from_repr N (replicate 16 0 @ take 16 (drop 16 (ni_to_bytes N c))) = Some c"
proof -
  let ?d = "ni_sha256 N ([0x01, 0x02] @ p1 @ p2 @ p3 @ p4 @ p5 @ [0x00])"
  have "length (take 16 ?d) = 16" using assms(1) by (simp add: nist_laws_def)
  moreover have repr: "ni_from_repr N (replicate 16 0 @ take 16 ?d) = Some c"
    using assms(2) by (simp add: challenge_p256_def Let_def res_simps)
  ultimately have "ni_to_bytes N c = replicate 16 0 @ take 16 ?d"
    using assms(1) unfolding nist_laws_def by blast
  then show ?thesis using repr by simp
qed

lemma challenge_p256_some:
  assumes "nist_laws N" shows "\<exists>c. challenge_p256 N p1 p2 p3 p4 p5 = Inr c"
proof -
  have "length (take 16 (ni_sha256 N x)) = 16" for x using assms by (simp add: nist_laws_def)
  then have "ni_from_repr N (replicate 16 0 @ take 16 (ni_sha256 N x)) \<noteq> None" for x
    using assms unfolding nist_laws_def by blast
  then show ?thesis by (auto simp: challenge_p256_def Let_def ok_or_def split: option.split)
qed

lemma suites_differ:
  "CIPHER_SUITE_KT_128_SHA256_P256 \<noteq> CIPHER_SUITE_KT_128_SHA256_ED25519"
  "CIPHER_SUITE_KT_128_SHA256_ED25519 \<noteq> CIPHER_SUITE_KT_128_SHA256_P256"
  by (simp_all add: CIPHER_SUITE_KT_128_SHA256_P256_def CIPHER_SUITE_KT_128_SHA256_ED25519_def)

lemma encode_not_identity:
  assumes "encode_loop_p256 N pk alpha ctr = Inr h"
  shows "\<not> ni_is_identity N h"
  using assms
proof (induction "256 - ctr" arbitrary: ctr rule: less_induct)
  case less
  have IH: "ctr < 255 \<Longrightarrow> encode_loop_p256 N pk alpha (Suc ctr) = Inr h \<Longrightarrow> ?case"
    using less.hyps [of "Suc ctr"] by simp
  show ?case
    using less.prems IH encode_loop_p256.simps [of N pk alpha ctr]
    by (auto simp: Let_def split: option.splits if_splits)
qed

text \<open>A scalar other than zero takes no hashed point to the identity, so its proofs have their full length.\<close>

lemma prove_verify_p256:
  assumes laws: "nist_laws N" and y: "y = ni_encode N (ni_base_mul N x)" and x: "ni_to_bytes N x \<noteq> replicate 32 0"
    and pf: "ecvrf_prove_p256 N x y alpha = Inr (out, pf)"
  shows "ecvrf_verify_p256 N y alpha pf = Inr out \<and> length pf = 81 \<and> length out = 32"
proof -
  obtain b gadd where "nist_group N b gadd" using laws by (auto simp: nist_laws_def)
  then have base: "\<And>s. ni_base_mul N s = ni_mul N b s"
    and action: "\<And>s t p. ni_mul N p (ni_add N s t) = gadd (ni_mul N p s) (ni_mul N p t)"
      "\<And>s t p. ni_mul N p (ni_times N s t) = ni_mul N (ni_mul N p t) s"
      "\<And>p q. ni_sub N (gadd p q) q = p"
      "\<And>p. ni_is_identity N (ni_mul N p x) \<longleftrightarrow> ni_is_identity N p"
    using x by (simp_all add: nist_group_def)
  have enc: "\<And>p. ni_encoded_ok N (ni_encode N p)" "\<And>p. ni_decode N (ni_encode N p) = Some p"
    "\<And>s. length (ni_to_bytes N s) = 32" "\<And>s. ni_from_repr N (ni_to_bytes N s) = Some s"
    using laws by (simp_all add: nist_laws_def)
  obtain h k c where h: "encode_to_curve_p256 N y alpha = Inr h"
    and c: "challenge_p256 N y (ni_encode N h) (ni_encode N (ni_mul N h x)) (ni_encode N (ni_base_mul N k))
      (ni_encode N (ni_mul N h k)) = Inr c"
    and out: "out = proof_to_hash_p256 N (ni_mul N h x)"
    and parts: "pf = ni_encode N (ni_mul N h x) @ take 16 (drop 16 (ni_to_bytes N c)) @
      ni_to_bytes N (ni_add N k (ni_times N c x))"
    using pf by (auto simp: ecvrf_prove_p256_def Let_def res_simps)
  have "\<not> ni_is_identity N h" using encode_not_identity h by (simp add: encode_to_curve_p256_def)
  then have gamma: "length (ni_encode N (ni_mul N h x)) = 33" using laws action(4) by (simp add: nist_laws_def)
  then have len: "length pf = 81" "length out = 32"
    using laws enc(3) by (simp_all add: parts out nist_laws_def proof_to_hash_p256_def)
  have u: "ni_sub N (ni_base_mul N (ni_add N k (ni_times N c x))) (ni_mul N (ni_base_mul N x) c) = ni_base_mul N k"
    using action by (simp add: base)
  have v: "ni_sub N (ni_mul N h (ni_add N k (ni_times N c x))) (ni_mul N (ni_mul N h x) c) = ni_mul N h k"
    using action by simp
  have "ecvrf_verify_p256 N y alpha pf = Inr out"
    using h enc c u v gamma challenge_bytes_p256 [OF laws c]
    by (simp add: ecvrf_verify_p256_def parts out y [symmetric] sec1_point_def Let_def) (simp add: y)
  then show ?thesis using len by simp
qed

section \<open>A suite of words\<close>

text \<open>
  Functions on words that satisfy the laws: arithmetic modulo \<open>2 ^ 256\<close> with little-endian bytes for
  Edwards points; for P-256 words under exclusive or, on which a scalar acts by whether it is zero.
\<close>

definition le_bytes :: "256 word \<Rightarrow> bytes" where
  "le_bytes w = map (\<lambda>i. ucast (drop_bit (8 * i) w)) [0..<32]"

primrec of_le_bytes :: "bytes \<Rightarrow> 256 word" where
  "of_le_bytes [] = 0"
| "of_le_bytes (b # bs) = ucast b OR push_bit 8 (of_le_bytes bs)"

lemma bit_of_le_bytes:
  "n < 256 \<Longrightarrow> bit (of_le_bytes bs) n \<longleftrightarrow> n div 8 < length bs \<and> bit (bs ! (n div 8)) (n mod 8)"
proof (induction bs arbitrary: n)
  case (Cons b bs)
  show ?case
  proof (cases "n < 8")
    case True
    then show ?thesis using Cons.prems by (simp add: bit_or_iff bit_push_bit_iff bit_ucast_iff)
  next
    case False
    then have "n div 8 = Suc ((n - 8) div 8)" "n mod 8 = (n - 8) mod 8"
      by (simp_all add: le_div_geq le_mod_geq)
    moreover have "\<not> bit b n" using False by (auto dest: bit_imp_le_length)
    ultimately show ?thesis
      using False Cons.prems Cons.IH [of "n - 8"] by (simp add: bit_or_iff bit_push_bit_iff bit_ucast_iff)
  qed
qed simp

lemma length_le_bytes [simp]: "length (le_bytes w) = 32"
  by (simp add: le_bytes_def)

lemma of_le_bytes_inverse [simp]: "of_le_bytes (le_bytes w) = w"
  by (rule bit_word_eqI) (auto simp: bit_of_le_bytes le_bytes_def bit_ucast_iff bit_drop_bit_eq)

lemma le_bytes_zero: "le_bytes 0 = replicate 32 0"
  by (simp add: le_bytes_def map_replicate_const)

lemma le_bytes_inverse [simp]:
  assumes "length bs = 32" shows "le_bytes (of_le_bytes bs) = bs"
proof (rule nth_equalityI)
  fix i assume "i < length (le_bytes (of_le_bytes bs))"
  then have i: "i < 32" by simp
  show "le_bytes (of_le_bytes bs) ! i = bs ! i"
  proof (rule bit_word_eqI)
    fix n assume "n < LENGTH(8)"
    then have "n < 8" by simp
    then have "8 * i + n < 256" "(8 * i + n) div 8 = i" "(8 * i + n) mod 8 = n" using i by auto
    then show "bit (le_bytes (of_le_bytes bs) ! i) n = bit (bs ! i) n"
      using i assms \<open>n < 8\<close> by (simp add: le_bytes_def bit_ucast_iff bit_drop_bit_eq bit_of_le_bytes add.commute)
  qed
qed (simp add: assms)

lemma odd_bytes_nonzero:
  assumes "bit b 0" shows "of_le_bytes (b # bs) \<noteq> 0"
proof
  assume "of_le_bytes (b # bs) = 0"
  then have "\<not> bit (of_le_bytes (b # bs)) 0" by (metis bit_0_eq bot_apply bot_bool_def)
  then show False using assms by (simp add: bit_of_le_bytes del: of_le_bytes.simps)
qed

definition word_edwards :: "(256 word, 256 word) edwards" where
  "word_edwards = \<lparr>ed_sha512 = (\<lambda>x. take 64 (x @ replicate 64 0)), ed_base_mul = (\<lambda>s. s), ed_mul = (*),
     ed_sub = (-), ed_mul_by_cofactor = (\<lambda>p. p), ed_is_identity = (\<lambda>p. p = 0), ed_compress = le_bytes,
     ed_decompress = (\<lambda>b. Some (of_le_bytes b)), ed_from_wide = (\<lambda>b. of_le_bytes (take 32 b)),
     ed_from_bytes = of_le_bytes, ed_to_bytes = le_bytes, ed_add = (+), ed_times = (*)\<rparr>"

definition word_nist :: "(256 word, 256 word) nist" where
  "word_nist = \<lparr>ni_sha256 = (\<lambda>x. take 32 (x @ replicate 32 0)), ni_base_mul = (\<lambda>s. if s = 0 then 0 else 1),
     ni_mul = (\<lambda>p s. if s = 0 then 0 else p), ni_sub = (XOR), ni_is_identity = (\<lambda>p. p = 0), ni_encode = (\<lambda>p. if p = 0 then [0] else 2 # le_bytes p),
     ni_encoded_ok = (\<lambda>b. True), ni_decode = (\<lambda>b. Some (of_le_bytes (tl b))),
     ni_from_repr = (\<lambda>b. if length b = 32 then Some (of_le_bytes (rev b)) else None),
     ni_to_bytes = (\<lambda>s. rev (le_bytes s)), ni_add = (\<lambda>s t. of_bool ((s \<noteq> 0) \<noteq> (t \<noteq> 0))),
     ni_times = (\<lambda>s t. of_bool (s \<noteq> 0 \<and> t \<noteq> 0)),
     ni_generate_k = (\<lambda>x q h d. replicate 31 0 @ [1])\<rparr>"

lemma word_edwards_laws: "edwards_laws word_edwards"
proof -
  have "edwards_group word_edwards UNIV 1 (+)"
    by (simp add: edwards_group_def word_edwards_def algebra_simps)
  then show ?thesis by (auto simp: edwards_laws_def word_edwards_def)
qed

lemma word_nist_laws: "nist_laws word_nist"
proof -
  have "rev (le_bytes s) = replicate 32 0 \<longleftrightarrow> s = 0" for s
    by (metis le_bytes_zero of_le_bytes_inverse rev_replicate rev_rev_ident)
  then have "nist_group word_nist 1 (XOR)"
    by (auto simp: nist_group_def word_nist_def xor.assoc)
  then show ?thesis by (auto simp: nist_laws_def word_nist_def split: if_splits)
qed

section \<open>Properties\<close>

text \<open>C28. Proofs of the server verify. On Ed25519 with any secret, and on P-256 with any secret but
  zero, a proof made with the expanded secret is accepted under the public key of the secret, for the
  same input, with the output the prover got; it has the 80 or 81 bytes of the suite, and the
  output 32.\<close>

theorem vrf_proof_accepted:
  assumes "edwards_laws E" and "nist_laws N"
    and "expand_vrf_secret E N suite secret = Inr ctx" and "get_public_key E N suite secret = Inr pub_key"
    and "ecvrf_prove E N ctx alpha = Inr (out, pf)"
    and "suite = CIPHER_SUITE_KT_128_SHA256_P256 \<longrightarrow> secret \<noteq> replicate 32 0"
  shows "ecvrf_verify E N suite pub_key alpha pf = Inr out \<and>
    length pf = (if suite = CIPHER_SUITE_KT_128_SHA256_P256 then 81 else 80) \<and> length out = 32"
proof (cases "suite = CIPHER_SUITE_KT_128_SHA256_ED25519")
  case True
  obtain x k where "ctx = VrfEd25519 x (ed_compress E (ed_base_mul E x)) k"
    using assms(3) True by (auto simp: expand_vrf_secret_def expand_vrf_secret_ed25519_def Let_def split: if_splits)
  moreover from this have "pub_key = ed_compress E (ed_base_mul E x)"
    using assms(3,4) by (simp add: get_public_key_def vrf_public_bytes_def)
  ultimately show ?thesis
    using True assms(5) prove_verify_ed25519 [OF assms(1) refl]
    by (simp add: ecvrf_verify_def ecvrf_prove_def suites_differ)
next
  case False
  then have suite: "suite = CIPHER_SUITE_KT_128_SHA256_P256"
    using assms(3) by (simp add: expand_vrf_secret_def split: if_splits)
  obtain x where x: "ni_from_repr N secret = Some x" and ctx: "ctx = VrfP256 x (ni_encode N (ni_base_mul N x))"
    using assms(3) suite False by (auto simp: expand_vrf_secret_def expand_vrf_secret_p256_def res_simps split: if_splits)
  from ctx have "pub_key = ni_encode N (ni_base_mul N x)"
    using assms(3,4) by (simp add: get_public_key_def vrf_public_bytes_def)
  moreover have "ni_to_bytes N x \<noteq> replicate 32 0" using x suite assms(2,6) by (auto simp: nist_laws_def)
  ultimately show ?thesis
    using suite False ctx assms(5) prove_verify_p256 [OF assms(2) refl] by (simp add: ecvrf_verify_def ecvrf_prove_def)
qed

lemma word_nist_proves:
  obtains out pf where "ecvrf_prove E word_nist (VrfP256 x y) [1] = Inr (out, pf)"
proof -
  have "of_le_bytes (1 # bs) \<noteq> 0" for bs by (rule odd_bytes_nonzero) simp
  then have h: "encode_to_curve_p256 word_nist y [1] =
      Inr (of_le_bytes (ni_sha256 word_nist ([1, 1] @ y @ [1, 0, 0])))"
    unfolding encode_to_curve_p256_def
    by (subst encode_loop_p256.simps) (simp add: word_nist_def del: of_le_bytes.simps)
  have "\<exists>c. challenge_p256 word_nist p1 p2 p3 p4 p5 = Inr c" for p1 p2 p3 p4 p5
    by (rule challenge_p256_some [OF word_nist_laws])
  moreover obtain k where "ni_from_repr word_nist (ni_generate_k word_nist a q b d) = Some k" for a q b d
    by (simp add: word_nist_def del: replicate.simps of_le_bytes.simps)
  ultimately show ?thesis
    using that unfolding ecvrf_prove_def ecvrf_prove_p256_def vrf_context.case
    by (simp add: h Let_def del: of_le_bytes.simps) (metis and_then_Inr)
qed

lemma word_nist_expands:
  "expand_vrf_secret E word_nist CIPHER_SUITE_KT_128_SHA256_P256 (replicate 32 b) =
    Inr (VrfP256 (of_le_bytes (replicate 32 b)) (ni_encode word_nist (ni_base_mul word_nist (of_le_bytes (replicate 32 b)))))"
  by (simp add: expand_vrf_secret_def expand_vrf_secret_p256_def suites_differ)
    (simp add: word_nist_def del: replicate.simps of_le_bytes.simps)

theorem vrf_proof_accepted_witness:
  "(\<exists>ctx pub_key out pf. expand_vrf_secret word_edwards word_nist 2 (replicate 32 7) = Inr ctx \<and>
    get_public_key word_edwards word_nist 2 (replicate 32 7) = Inr pub_key \<and>
    ecvrf_prove word_edwards word_nist ctx [1] = Inr (out, pf) \<and>
    ecvrf_verify word_edwards word_nist 2 pub_key [1] pf = Inr out) \<and>
   (\<exists>ctx pub_key out pf. expand_vrf_secret word_edwards word_nist 1 (replicate 32 7) = Inr ctx \<and>
    get_public_key word_edwards word_nist 1 (replicate 32 7) = Inr pub_key \<and>
    ecvrf_prove word_edwards word_nist ctx [1] = Inr (out, pf) \<and>
    ecvrf_verify word_edwards word_nist 1 pub_key [1] pf = Inr out)"
proof -
  have "of_le_bytes (3 # bs) \<noteq> 0" for bs by (rule odd_bytes_nonzero) simp
  then have h: "encode_to_curve_ed25519 word_edwards y [1] =
      Inr (of_le_bytes (take 32 (ed_sha512 word_edwards ([3, 1] @ y @ [1, 0, 0]))))" for y
    unfolding encode_to_curve_ed25519_def
    by (subst encode_loop_ed25519.simps) (simp add: word_edwards_def del: of_le_bytes.simps)
  define ctx where "ctx = (case expand_vrf_secret word_edwards word_nist 2 (replicate 32 7) of Inr c \<Rightarrow> c)"
  have ctx: "expand_vrf_secret word_edwards word_nist 2 (replicate 32 7) = Inr ctx"
    "get_public_key word_edwards word_nist 2 (replicate 32 7) = Inr (vrf_public_bytes ctx)"
    by (simp_all add: ctx_def get_public_key_def expand_vrf_secret_def expand_vrf_secret_ed25519_def Let_def
        CIPHER_SUITE_KT_128_SHA256_ED25519_def)
  obtain out pf where pf: "ecvrf_prove word_edwards word_nist ctx [1] = Inr (out, pf)"
    using ctx(1) h by (auto simp: expand_vrf_secret_def expand_vrf_secret_ed25519_def Let_def ecvrf_prove_def
        ecvrf_prove_ed25519_def CIPHER_SUITE_KT_128_SHA256_ED25519_def)
  have ed: "ecvrf_verify word_edwards word_nist 2 (vrf_public_bytes ctx) [1] pf = Inr out"
    using vrf_proof_accepted [OF word_edwards_laws word_nist_laws ctx pf]
    by (simp add: CIPHER_SUITE_KT_128_SHA256_P256_def)
  note expanded = word_nist_expands [of word_edwards 7, unfolded CIPHER_SUITE_KT_128_SHA256_P256_def]
  then have pub: "get_public_key word_edwards word_nist 1 (replicate 32 7) =
      Inr (ni_encode word_nist (ni_base_mul word_nist (of_le_bytes (replicate 32 7))))"
    by (simp add: get_public_key_def vrf_public_bytes_def del: replicate.simps of_le_bytes.simps)
  obtain out' pf' where pf': "ecvrf_prove word_edwards word_nist (VrfP256 (of_le_bytes (replicate 32 7))
      (ni_encode word_nist (ni_base_mul word_nist (of_le_bytes (replicate 32 7))))) [1] = Inr (out', pf')"
    by (rule word_nist_proves)
  have "replicate 32 (7 :: u8) \<noteq> replicate 32 0" by simp
  then have "ecvrf_verify word_edwards word_nist 1
      (ni_encode word_nist (ni_base_mul word_nist (of_le_bytes (replicate 32 7)))) [1] pf' = Inr out'"
    using vrf_proof_accepted [OF word_edwards_laws word_nist_laws expanded pub pf'] by blast
  then show ?thesis using ctx pf ed expanded pub pf' by blast
qed

text \<open>C29. A zero P-256 secret is taken, and useless: its expansion succeeds, and every proof it makes is
  refused by the verifier, under any public key, for its length.\<close>

theorem p256_zero_secret_unverifiable:
  assumes "nist_laws N"
  shows "\<exists>ctx. expand_vrf_secret E N CIPHER_SUITE_KT_128_SHA256_P256 (replicate 32 0) = Inr ctx \<and>
    (\<forall>alpha out pf pub_key. ecvrf_prove E N ctx alpha = Inr (out, pf) \<longrightarrow>
      ecvrf_verify E N CIPHER_SUITE_KT_128_SHA256_P256 pub_key alpha pf =
        Inl (Anyhow ''Invalid P-256 VRF proof length''))"
proof -
  obtain z where z: "ni_from_repr N (replicate 32 0) = Some z"
    using assms replicate_add [of 16 16 "0 :: u8"] by (fastforce simp: nist_laws_def)
  let ?ctx = "VrfP256 z (ni_encode N (ni_base_mul N z))"
  have ctx: "expand_vrf_secret E N CIPHER_SUITE_KT_128_SHA256_P256 (replicate 32 0) = Inr ?ctx"
    using z by (simp add: expand_vrf_secret_def expand_vrf_secret_p256_def suites_differ)
  obtain b gadd where "nist_group N b gadd" using assms by (auto simp: nist_laws_def)
  then have "ni_is_identity N (ni_mul N p z)" for p using assms z by (auto simp: nist_laws_def nist_group_def)
  then have "length (ni_encode N (ni_mul N h z)) = 1" "length (ni_to_bytes N s) = 32" for h s
    using assms by (simp_all add: nist_laws_def)
  then have "length pf = 49" if "ecvrf_prove E N ?ctx alpha = Inr (out, pf)" for alpha out pf
    using that by (auto simp: ecvrf_prove_def ecvrf_prove_p256_def Let_def res_simps)
  then have "ecvrf_verify E N CIPHER_SUITE_KT_128_SHA256_P256 pub_key alpha pf =
      Inl (Anyhow ''Invalid P-256 VRF proof length'')" if "ecvrf_prove E N ?ctx alpha = Inr (out, pf)" for alpha out pf pub_key
    using that by (simp add: ecvrf_verify_def ecvrf_verify_p256_def suites_differ)
  with ctx show ?thesis by blast
qed

theorem p256_zero_secret_unverifiable_witness:
  "\<exists>ctx out pf. expand_vrf_secret word_edwards word_nist 1 (replicate 32 0) = Inr ctx \<and>
    ecvrf_prove word_edwards word_nist ctx [1] = Inr (out, pf) \<and>
    ecvrf_verify word_edwards word_nist 1 [0] [1] pf = Inl (Anyhow ''Invalid P-256 VRF proof length'')"
proof -
  obtain ctx where ctx: "expand_vrf_secret word_edwards word_nist CIPHER_SUITE_KT_128_SHA256_P256 (replicate 32 0) = Inr ctx"
    and refused: "\<And>alpha out pf pub_key. ecvrf_prove word_edwards word_nist ctx alpha = Inr (out, pf) \<Longrightarrow>
      ecvrf_verify word_edwards word_nist CIPHER_SUITE_KT_128_SHA256_P256 pub_key alpha pf =
        Inl (Anyhow ''Invalid P-256 VRF proof length'')"
    using p256_zero_secret_unverifiable [OF word_nist_laws, of word_edwards] by blast
  have "ctx = VrfP256 (of_le_bytes (replicate 32 0)) (ni_encode word_nist (ni_base_mul word_nist (of_le_bytes (replicate 32 0))))"
    using ctx unfolding word_nist_expands by simp
  then obtain out pf where "ecvrf_prove word_edwards word_nist ctx [1] = Inr (out, pf)"
    using word_nist_proves by metis
  then show ?thesis using ctx refused by (auto simp: CIPHER_SUITE_KT_128_SHA256_P256_def)
qed

end
