(* ===== verification/Config.thy ===== *)
theory Config
  imports Vrf PrefixTree
begin

text \<open>
  The construction and the exchange of configurations, \<^verbatim>\<open>src/src/crypto/mod.rs\<close>: the checked
  constructor of the server's configuration, and the JSON document in which the public one
  is handed out. The JSON library is the pair of functions \<open>json\<close> and \<open>unjson\<close>; hexadecimal
  is the \<open>codec\<close>'s.
\<close>

section \<open>The server's configuration\<close>

text \<open>A context replaces the message of an error, but not the typed error it may hold.\<close>

definition with_context :: "string \<Rightarrow> 'a res \<Rightarrow> 'a res" where
  "with_context msg m = (case m of Inl (Anyhow _) \<Rightarrow> Inl (Anyhow msg) | _ \<Rightarrow> m)"

definition smallest_key :: "bytes list \<Rightarrow> bytes option" where
  "smallest_key keys = (case sort keys of [] \<Rightarrow> None | k # _ \<Rightarrow> Some k)"

definition check_suite :: "u16 \<Rightarrow> service_signing_key \<Rightarrow> unit res" where
  "check_suite cipher_suite sig_key =
     (if cipher_suite = CIPHER_SUITE_KT_128_SHA256_ED25519 then
        (case sig_key of
           SkEd25519 _ \<Rightarrow> Inr ()
         | _ \<Rightarrow> Inl (Anyhow ''Cipher suite mismatch: Expected Ed25519 signing key''))
      else if cipher_suite = CIPHER_SUITE_KT_128_SHA256_P256 then
        (case sig_key of
           SkP256 _ \<Rightarrow> Inr ()
         | _ \<Rightarrow> Inl (Anyhow ''Cipher suite mismatch: Expected P-256 signing key''))
      else Inl (Anyhow ''Unsupported cipher suite''))"

definition private_config_new :: "('s, 'p) edwards \<Rightarrow> ('t, 'q) nist \<Rightarrow> u16 \<Rightarrow> u8 \<Rightarrow>
    service_signing_key \<Rightarrow> bytes \<Rightarrow> (bytes \<times> service_verifying_key) list \<Rightarrow> u64 \<Rightarrow> u64 \<Rightarrow> u64 \<Rightarrow>
    u64 option \<Rightarrow> bytes option \<Rightarrow> nat \<Rightarrow> private_config res" where
  "private_config_new E N cipher_suite mode sig_key vrf_key auditor_keys max_ahead max_behind
     reasonable_monitoring_window maximum_lifetime leaf_public_key max_response_entries =
     and_then (check_suite cipher_suite sig_key) (\<lambda>_.
     and_then (with_context ''Failed to expand VRF secret'' (expand_vrf_secret E N cipher_suite vrf_key))
       (\<lambda>vrf_ctx.
     Inr \<lparr>pc_cipher_suite = cipher_suite, pc_mode = mode, pc_sig_key = sig_key, pc_vrf_key = vrf_key,
       pc_vrf_public_key = vrf_public_bytes vrf_ctx, pc_auditor_keys = auditor_keys,
       pc_auditor_public_key = smallest_key (map fst auditor_keys),
       pc_auditor_start_pos = 0, pc_max_auditor_lag = 60000,
       pc_max_ahead = max_ahead, pc_max_behind = max_behind,
       pc_reasonable_monitoring_window = reasonable_monitoring_window,
       pc_maximum_lifetime = maximum_lifetime, pc_leaf_public_key = leaf_public_key,
       pc_max_response_entries = max_response_entries\<rparr>))"

section \<open>The public document\<close>

record public_config_artifact =
  pca_cipher_suite :: u16
  pca_mode :: u8
  pca_server_sig_pk :: string
  pca_vrf_public_key :: string
  pca_leaf_public_key :: "string option"
  pca_auditor_public_key :: "string option"
  pca_auditor_start_pos :: u64
  pca_max_auditor_lag :: u64
  pca_max_ahead :: u64
  pca_max_behind :: u64
  pca_reasonable_monitoring_window :: u64
  pca_maximum_lifetime :: "u64 option"

definition to_json :: "codec \<Rightarrow> (public_config_artifact \<Rightarrow> string) \<Rightarrow> public_config \<Rightarrow> string" where
  "to_json D json c =
     json \<lparr>pca_cipher_suite = cfg_cipher_suite c, pca_mode = cfg_mode c,
       pca_server_sig_pk = hex_encode D (cfg_server_sig_pk c),
       pca_vrf_public_key = hex_encode D (cfg_vrf_public_key c),
       pca_leaf_public_key = map_option (hex_encode D) (cfg_leaf_public_key c),
       pca_auditor_public_key = map_option (hex_encode D) (cfg_auditor_public_key c),
       pca_auditor_start_pos = cfg_auditor_start_pos c, pca_max_auditor_lag = cfg_max_auditor_lag c,
       pca_max_ahead = cfg_max_ahead c, pca_max_behind = cfg_max_behind c,
       pca_reasonable_monitoring_window = cfg_reasonable_monitoring_window c,
       pca_maximum_lifetime = cfg_maximum_lifetime c\<rparr>"

definition unhex :: "codec \<Rightarrow> string \<Rightarrow> bytes res" where
  "unhex D s = ok_or (hex_decode D s) (Anyhow ''Invalid character or odd number of digits'')"

definition unhex_opt :: "codec \<Rightarrow> string option \<Rightarrow> bytes option res" where
  "unhex_opt D so = (case so of None \<Rightarrow> Inr None | Some s \<Rightarrow> and_then (unhex D s) (\<lambda>b. Inr (Some b)))"

definition from_json :: "codec \<Rightarrow> (string \<Rightarrow> public_config_artifact option) \<Rightarrow> string \<Rightarrow> public_config res" where
  "from_json D unjson data =
     and_then (ok_or (unjson data) (Anyhow ''malformed JSON'')) (\<lambda>a.
     and_then (unhex D (pca_server_sig_pk a)) (\<lambda>server_sig_pk.
     and_then (unhex D (pca_vrf_public_key a)) (\<lambda>vrf_public_key.
     and_then (unhex_opt D (pca_leaf_public_key a)) (\<lambda>leaf_public_key.
     and_then (unhex_opt D (pca_auditor_public_key a)) (\<lambda>auditor_public_key.
     Inr \<lparr>cfg_cipher_suite = pca_cipher_suite a, cfg_mode = pca_mode a,
       cfg_server_sig_pk = server_sig_pk, cfg_vrf_public_key = vrf_public_key,
       cfg_leaf_public_key = leaf_public_key, cfg_auditor_public_key = auditor_public_key,
       cfg_auditor_start_pos = pca_auditor_start_pos a, cfg_max_auditor_lag = pca_max_auditor_lag a,
       cfg_max_ahead = pca_max_ahead a, cfg_max_behind = pca_max_behind a,
       cfg_reasonable_monitoring_window = pca_reasonable_monitoring_window a,
       cfg_maximum_lifetime = pca_maximum_lifetime a\<rparr>)))))"

lemma unhex_inverse:
  assumes "\<And>b. hex_decode D (hex_encode D b) = Some b"
  shows "unhex D (hex_encode D b) = Inr b" "unhex_opt D (map_option (hex_encode D) o') = Inr o'"
  using assms by (simp_all add: unhex_def unhex_opt_def split: option.split)

lemma json_roundtrip:
  assumes "\<And>b. hex_decode D (hex_encode D b) = Some b" and "\<And>a. unjson (json a) = Some a"
  shows "from_json D unjson (to_json D json c) = Inr c"
  using unhex_inverse [OF assms(1)] assms(2) by (simp add: from_json_def to_json_def)

end
