(* ===== verification/Service.thy ===== *)
theory Service
  imports Config Batcher
begin

text \<open>
  The gRPC service, \<^verbatim>\<open>src/src/service.rs\<close>, with the status codes of \<^verbatim>\<open>src/src/tree/errors.rs\<close>: each
  remote call checks the application's access policy where it has a hook, runs the operation
  of the tree under its lock, and maps the error. An update is handed to the batcher's worker
  and answered when its batch has been processed. The locks serialize the calls, so a call is
  one step of the service.
\<close>

section \<open>Status codes\<close>

datatype status =
    Not_found string
  | Internal_error string
  | Invalid_argument string
  | Failed_precondition string
  | Permission_denied string

definition status_of_kt :: "kt_error \<Rightarrow> status" where
  "status_of_kt e = (case e of
     Expired \<Rightarrow> Not_found ''Requested version of the label has expired''
   | Unavailable \<Rightarrow> Not_found ''Requested version of the label is unavailable''
   | Internal msg \<Rightarrow> Internal_error msg
   | InvalidArgument msg \<Rightarrow> Invalid_argument msg
   | VersionConflict \<Rightarrow>
       Failed_precondition ''greatest_version does not match the current greatest version of the label'')"

text \<open>
  What a call comes to: a response, a status, a task that panicked, or one that never ends. Only
  the errors of \<^verbatim>\<open>anyhow\<close> reach \<open>map_anyhow_to_status\<close>.
\<close>

datatype 'a outcome = Response 'a | Refused status | Panicked string | Never

definition map_anyhow_to_status :: "err \<Rightarrow> 'a outcome" where
  "map_anyhow_to_status e = (case e of
     Kt kte \<Rightarrow> Refused (status_of_kt kte)
   | Anyhow msg \<Rightarrow> Refused (Internal_error msg)
   | Panic msg \<Rightarrow> Panicked msg
   | Hang \<Rightarrow> Never)"

definition outcome_of :: "'a res \<Rightarrow> 'a outcome" where
  "outcome_of r = (case r of Inl e \<Rightarrow> map_anyhow_to_status e | Inr x \<Rightarrow> Response x)"

section \<open>The service\<close>

record access_policy =
  allow_search :: "bytes \<Rightarrow> bool"
  allow_update :: "bytes \<Rightarrow> bool"

definition allow_all :: access_policy where
  "allow_all = \<lparr>allow_search = (\<lambda>_. True), allow_update = (\<lambda>_. True)\<rparr>"

record server_params =
  sp_max_ahead :: u64
  sp_max_behind :: u64
  sp_reasonable_monitoring_window :: u64
  sp_maximum_lifetime :: "u64 option"
  sp_max_response_entries :: nat

definition default_params :: server_params where
  "default_params = \<lparr>sp_max_ahead = 5000, sp_max_behind = 5000,
     sp_reasonable_monitoring_window = 86400000, sp_maximum_lifetime = None,
     sp_max_response_entries = 100\<rparr>"

text \<open>The batcher's worker holds the tree; the other calls take the same lock.\<close>

record service =
  sv_config :: private_config
  sv_auditor_keys :: "(bytes \<times> service_verifying_key) list"
  sv_worker :: worker
  sv_access_policy :: access_policy

abbreviation sv_tree :: "service \<Rightarrow> tree" where
  "sv_tree s \<equiv> wk_tree (sv_worker s)"

definition with_params :: "('s, 'p) edwards \<Rightarrow> ('t, 'q) nist \<Rightarrow> codec \<Rightarrow> store \<Rightarrow> service_signing_key \<Rightarrow>
    bytes \<Rightarrow> (bytes \<times> service_verifying_key) list \<Rightarrow> bytes option \<Rightarrow> server_params \<Rightarrow> service res" where
  "with_params E N D db sig_key vrf_key auditor_keys leaf_public_key params =
     (let mode = (if auditor_keys \<noteq> [] then DEPLOYMENT_MODE_THIRD_PARTY_AUDITING
                  else DEPLOYMENT_MODE_CONTACT_MONITORING);
          suite = (case sig_key of
                     SkEd25519 _ \<Rightarrow> CIPHER_SUITE_KT_128_SHA256_ED25519
                   | SkP256 _ \<Rightarrow> CIPHER_SUITE_KT_128_SHA256_P256) in
      and_then (with_context ''Failed to initialize cryptographic configuration''
          (private_config_new E N suite mode sig_key vrf_key auditor_keys (sp_max_ahead params)
            (sp_max_behind params) (sp_reasonable_monitoring_window params)
            (sp_maximum_lifetime params) leaf_public_key (sp_max_response_entries params))) (\<lambda>config.
      and_then (tree_new D db config) (\<lambda>tree.
      Inr \<lparr>sv_config = config, sv_auditor_keys = auditor_keys,
        sv_worker = \<lparr>wk_tree = tree, wk_batch = [], wk_running = True\<rparr>, sv_access_policy = allow_all\<rparr>)))"

definition service_new :: "('s, 'p) edwards \<Rightarrow> ('t, 'q) nist \<Rightarrow> codec \<Rightarrow> store \<Rightarrow> service_signing_key \<Rightarrow>
    bytes \<Rightarrow> (bytes \<times> service_verifying_key) list \<Rightarrow> bytes option \<Rightarrow> service res" where
  "service_new E N D db sig_key vrf_key auditor_keys leaf_public_key =
     with_params E N D db sig_key vrf_key auditor_keys leaf_public_key default_params"

definition set_access_policy :: "access_policy \<Rightarrow> service \<Rightarrow> service" where
  "set_access_policy policy s = s\<lparr>sv_access_policy := policy\<rparr>"

section \<open>Calls that read\<close>

definition rpc_tree_size :: "service \<Rightarrow> u64 outcome" where
  "rpc_tree_size s = Response (case tr_latest (sv_tree s) of Some th \<Rightarrow> th_tree_size th | None \<Rightarrow> 0)"

definition rpc_audit :: "codec \<Rightarrow> service \<Rightarrow> u64 \<Rightarrow> u64 \<Rightarrow> audit_response outcome" where
  "rpc_audit D s start limit =
     outcome_of (and_then (audit D (sv_tree s) start limit) (\<lambda>(updates, more).
       Inr \<lparr>ar_updates = updates, ar_more = more\<rparr>))"

definition rpc_audit_bootstrap :: "crypto \<Rightarrow> service \<Rightarrow> audit_bootstrap_response outcome" where
  "rpc_audit_bootstrap C s =
     (let T = sv_tree s in
      case tr_latest T of
        None \<Rightarrow> Refused (Failed_precondition ''Empty tree'')
      | Some th \<Rightarrow>
          (let tree_size = th_tree_size th in
           outcome_of
             (and_then (map_res (\<lambda>node. resolve_node (sha256 C) (tr_store T) node tree_size) (get_roots tree_size))
               (\<lambda>log_peaks.
              and_then (get_prefix_root (tr_store T) (tree_size - 1)) (\<lambda>prefix_root.
              and_then (get_timestamp (tr_store T) (tree_size - 1)) (\<lambda>timestamp.
              Inr \<lparr>abr_tree_head = Some th, abr_log_peaks = log_peaks, abr_prefix_root = prefix_root,
                abr_timestamp = timestamp\<rparr>))))))"

definition rpc_search :: "crypto \<Rightarrow> codec \<Rightarrow> service \<Rightarrow> search_request \<Rightarrow> search_response outcome" where
  "rpc_search C D s req =
     (if \<not> allow_search (sv_access_policy s) (sreq_label req) then
        Refused (Permission_denied ''Search not permitted for this label'')
      else outcome_of (search C D (sv_tree s) req))"

definition rpc_contact_monitor :: "crypto \<Rightarrow> codec \<Rightarrow> service \<Rightarrow> contact_monitor_request \<Rightarrow>
    contact_monitor_response outcome" where
  "rpc_contact_monitor C D s req = outcome_of (contact_monitor C D (sv_tree s) req)"

definition rpc_owner_init :: "crypto \<Rightarrow> codec \<Rightarrow> service \<Rightarrow> owner_init_request \<Rightarrow>
    owner_init_response outcome" where
  "rpc_owner_init C D s req = outcome_of (owner_init C D (sv_tree s) req)"

definition rpc_owner_monitor :: "crypto \<Rightarrow> codec \<Rightarrow> service \<Rightarrow> owner_monitor_request \<Rightarrow>
    owner_monitor_response outcome" where
  "rpc_owner_monitor C D s req = outcome_of (owner_monitor C D (sv_tree s) req)"

definition rpc_distinguished :: "crypto \<Rightarrow> service \<Rightarrow> distinguished_request \<Rightarrow>
    distinguished_response outcome" where
  "rpc_distinguished C s req = outcome_of (distinguished C (sv_tree s) req)"

definition rpc_get_credential :: "crypto \<Rightarrow> codec \<Rightarrow> service \<Rightarrow> bytes \<Rightarrow> credential outcome" where
  "rpc_get_credential C D s label = outcome_of (get_credential C D (sv_tree s) label)"

definition rpc_get_credential_update :: "crypto \<Rightarrow> codec \<Rightarrow> service \<Rightarrow> credential_update_request \<Rightarrow>
    credential_update outcome" where
  "rpc_get_credential_update C D s req = outcome_of (get_credential_update C D (sv_tree s) req)"

section \<open>Calls that write\<close>

definition rpc_set_auditor_head :: "crypto \<Rightarrow> codec \<Rightarrow> auditor_tree_head \<Rightarrow> service \<Rightarrow>
    service \<times> unit outcome" where
  "rpc_set_auditor_head C D head s =
     (case set_auditor_head C D head (sv_auditor_keys s) (sv_tree s) of
        (T, r) \<Rightarrow> (s\<lparr>sv_worker := (sv_worker s)\<lparr>wk_tree := T\<rparr>\<rparr>, outcome_of r))"

text \<open>
  \<open>Batcher::submit\<close>: the request is queued, and its answer is the one the worker sends; a worker
  that ended without sending one has dropped the reply channel.
\<close>

definition submitted_answer :: "nat \<Rightarrow> reply list \<Rightarrow> update_response res" where
  "submitted_answer job replies =
     (case map_of replies job of Some r \<Rightarrow> r | None \<Rightarrow> Inl (Anyhow ''Batcher dropped response''))"

text \<open>
  An update is refused at once, or received by the worker, with the replies the worker then sends;
  the timer makes the worker process what it has.
\<close>

datatype update_call = Update_refused status | Update_queued "reply list"

definition worker_event_step :: "crypto \<Rightarrow> codec \<Rightarrow> u64 \<Rightarrow> (nat \<Rightarrow> bytes) \<Rightarrow> worker_event \<Rightarrow> service \<Rightarrow>
    service \<times> reply list" where
  "worker_event_step C D now openings ev s =
     (case worker_step C D now openings ev (sv_worker s) of
        (w, replies) \<Rightarrow> (s\<lparr>sv_worker := w\<rparr>, replies))"

definition rpc_update :: "crypto \<Rightarrow> codec \<Rightarrow> u64 \<Rightarrow> (nat \<Rightarrow> bytes) \<Rightarrow> update_job \<Rightarrow> service \<Rightarrow>
    service \<times> update_call" where
  "rpc_update C D now openings job s =
     (if \<not> allow_update (sv_access_policy s) (ureq_label (job_req job)) then
        (s, Update_refused (Permission_denied ''Update not permitted for this label''))
      else
        (case worker_event_step C D now openings (Received job) s of
           (s', replies) \<Rightarrow> (s', Update_queued replies)))"

definition rpc_update_answer :: "nat \<Rightarrow> reply list \<Rightarrow> update_response outcome" where
  "rpc_update_answer job replies = outcome_of (submitted_answer job replies)"

end
