(* ===== verification/ServiceProps.thy ===== *)
theory ServiceProps
  imports Service AuditProps BatcherProps
begin

text \<open>
  The service as a whole: an auditor that joins at the current head holds what the log says, and
  over any course of calls and timer ticks every admitted update waits in the queue or has had
  exactly one answer, while the log only grows.
\<close>

section \<open>Joining at the current head\<close>

definition signs_ok :: "crypto \<Rightarrow> private_config \<Rightarrow> bool" where
  "signs_ok C config \<longleftrightarrow>
     (\<forall>data. verify_data C (verifying_key C (pc_sig_key config)) data (sign_data C (pc_sig_key config) data) = Inr ()) \<and>
     vk_from_bytes C (vk_to_bytes (verifying_key C (pc_sig_key config))) = Inr (verifying_key C (pc_sig_key config))"

text \<open>The auditor key of signed heads, the first of the map's, is the configured one.\<close>

definition auditor_key_agrees :: "private_config \<Rightarrow> bool" where
  "auditor_key_agrees config \<longleftrightarrow>
     pc_auditor_keys config = [] \<or> pc_auditor_public_key config = Some (fst (hd (pc_auditor_keys config)))"

lemma sign_head_verifies:
  assumes "sign_head C config t n rt = Inr th" and "signs_ok C config" and "auditor_key_agrees config"
  shows "\<exists>tbs sig sigs. construct_tree_head_tbs_public (public_view C config) n rt = Inr tbs \<and>
    th_signatures th = sig # sigs \<and>
    verify_data C (verifying_key C (pc_sig_key config)) tbs (sig_signature sig) = Inr ()"
proof -
  define pk where "pk = (if pc_mode config = DEPLOYMENT_MODE_THIRD_PARTY_AUDITING \<and> pc_auditor_keys config \<noteq> []
    then Some (fst (hd (pc_auditor_keys config))) else None)"
  obtain tbs where tbs: "construct_tree_head_tbs C config pk n rt = Inr tbs"
    and th: "th_signatures th = [\<lparr>sig_auditor_public_key = vk_to_bytes (verifying_key C (pc_sig_key config)),
          sig_signature = sign_data C (pc_sig_key config) tbs\<rparr>]"
    using assms(1) by (auto simp: sign_head_def pk_def [symmetric] Let_def res_simps)
  have "pk = None \<or> pk = pc_auditor_public_key config"
    using assms(3) by (auto simp: pk_def auditor_key_agrees_def)
  then have "construct_tree_head_tbs_public (public_view C config) n rt = Inr tbs"
    using tbs serialize_configuration_public_view [of pk config C]
    by (simp add: construct_tree_head_tbs_def construct_tree_head_tbs_public_def)
  then show ?thesis using th assms(2) by (simp add: signs_ok_def)
qed

lemma peaks_resolve:
  assumes "log_rep st ls" and "unat n = length ls" and "length ls \<le> 2 ^ 63"
  shows "map_res (\<lambda>node. resolve_node sha st node n) (get_roots n) = Inr (map (node_value sha ls) (get_roots n))"
proof (rule map_res_all_Inr)
  fix r assume r: "r \<in> set (get_roots n)"
  have "list_all2 (\<lambda>r (j, lo). subtree_root lo j r) (get_roots n) (rev (digits 0 (length ls)))"
    using get_roots_digits [of n] assms by simp
  moreover obtain i where i: "i < length (get_roots n)" "get_roots n ! i = r" using r by (auto simp: in_set_conv_nth)
  moreover obtain j lo where jlo: "rev (digits 0 (length ls)) ! i = (j, lo)" by fastforce
  ultimately have "subtree_root lo j r" "i < length (rev (digits 0 (length ls)))"
    by (auto simp: list_all2_conv_all_nth)
  moreover from this(2) have "(j, lo) \<in> set (digits 0 (length ls))"
    using jlo by (metis nth_mem set_rev)
  ultimately have "subtree_root lo j r" and "lo + 2 ^ j \<le> length ls" using digits_level [of j lo 0 "length ls"] by simp_all
  moreover from this(2) have "lo < length ls" by (rule less_le_trans [rotated]) simp
  ultimately show "resolve_node sha st r n = Inr (node_value sha ls r)"
    using resolve_node_eq [OF assms(1,2), of lo j r sha] node_value_eq [of lo j r sha ls]
    by simp
qed

lemma latest_records:
  assumes inv: "tree_inv C D T nxt vs" and ne: "vs \<noteq> []"
  shows "get_prefix_root (tr_store T) (latest_size T - 1) = Inr (map_root (sha256 C) (latest_map vs))"
    and "get_timestamp (tr_store T) (latest_size T - 1) = Inr (tv_timestamp (last vs))"
proof -
  have size: "unat (latest_size T) = length vs" using latest_size_new [OF inv] by simp
  then have "0 < latest_size T" using ne by (auto simp: word_gt_0)
  then have "unat (latest_size T - 1) = length vs - 1" using size by (simp add: unat_minus_one word_gt_0)
  from this [symmetric] have "word_of_nat (length vs - 1) = latest_size T - 1" by simp
  then have "version_stored D (sha256 C) (tr_store T) (latest_size T - 1) (last vs)"
    using store_inv_version [of D "sha256 C" "tr_store T" nxt vs "length vs - 1"] inv ne
    by (simp add: tree_inv_def last_conv_nth)
  then show "get_prefix_root (tr_store T) (latest_size T - 1) = Inr (map_root (sha256 C) (latest_map vs))"
    "get_timestamp (tr_store T) (latest_size T - 1) = Inr (tv_timestamp (last vs))"
    using ne by (simp_all add: version_stored_def latest_map_def)
qed

lemma bootstrap_correct:
  assumes inv: "tree_inv C D (sv_tree s) nxt vs" and ne: "vs \<noteq> []" and config: "tr_config (sv_tree s) = config"
    and signs: "signs_ok C config" and key: "auditor_key_agrees config"
  shows "\<exists>resp a. rpc_audit_bootstrap C s = Response resp \<and>
    bootstrap C resp (auditor_new signer (public_view C config)) = Inr (word_of_nat (length vs), a) \<and> follows C a vs"
proof -
  let ?T = "sv_tree s" and ?sha = "sha256 C"
  let ?ls = "log_leaves ?sha vs"
  note size = latest_size_new [OF inv]
  obtain th t where th: "tr_latest ?T = Some th" "sign_head C config t (word_of_nat (length vs)) (root_value ?sha ?ls) = Inr th"
    using inv ne config by (auto simp: tree_inv_def head_of_def split: option.splits)
  have n: "th_tree_size th = latest_size ?T" using th(1) by (simp add: latest_size_def)
  have len: "unat (th_tree_size th) = length ?ls" "length ?ls \<le> 2 ^ 63" "log_rep (tr_store ?T) ?ls"
    using size inv by (simp_all add: n tree_inv_def store_inv_def)
  obtain acc where acc: "from_peaks (th_tree_size th) (map (node_value ?sha ?ls) (get_roots (th_tree_size th))) = Inr acc"
    "acc_inv ?sha acc ?ls" using from_peaks_inv [OF len(1,2)] by blast
  obtain tbs sig sigs where tbs: "construct_tree_head_tbs_public (public_view C config) (th_tree_size th) (root_value ?sha ?ls) = Inr tbs"
    "th_signatures th = sig # sigs" "verify_data C (verifying_key C (pc_sig_key config)) tbs (sig_signature sig) = Inr ()"
    using sign_head_verifies [OF th(2) signs key] size n by auto
  let ?resp = "\<lparr>abr_tree_head = Some th, abr_log_peaks = map (node_value ?sha ?ls) (get_roots (th_tree_size th)),
    abr_prefix_root = map_root ?sha (latest_map vs), abr_timestamp = tv_timestamp (last vs)\<rparr>"
  have "rpc_audit_bootstrap C s = Response ?resp"
    using latest_records [OF inv ne] peaks_resolve [OF len(3,1,2)]
    by (simp add: rpc_audit_bootstrap_def th(1) n outcome_of_def)
  moreover have "vk_from_bytes C (cfg_server_sig_pk (public_view C config)) = Inr (verifying_key C (pc_sig_key config))"
    using signs by (simp add: signs_ok_def public_view_def)
  then have "bootstrap C ?resp (auditor_new signer (public_view C config)) =
      Inr (th_tree_size th, (auditor_new signer (public_view C config))\<lparr>aud_log_accumulator := acc,
        aud_prefix_root := map_root ?sha (latest_map vs), aud_last_timestamp := tv_timestamp (last vs)\<rparr>)"
    using acc acc_root [OF acc(2)] tbs by (simp add: bootstrap_def auditor_new_def)
  ultimately show ?thesis
    using acc(2) size n by (simp add: follows_def)
qed

section \<open>Courses of the service\<close>

text \<open>
  What can change the service: an update that arrives, the worker's timer, an auditor's head. The
  clock and the randomness come with the events.
\<close>

datatype service_event =
    Update_arrives u64 "nat \<Rightarrow> bytes" update_job
  | Timer_fires u64 "nat \<Rightarrow> bytes"
  | Head_arrives auditor_tree_head

fun service_step :: "crypto \<Rightarrow> codec \<Rightarrow> service_event \<Rightarrow> service \<Rightarrow> service \<times> reply list" where
  "service_step C D (Update_arrives now openings job) s =
     (case rpc_update C D now openings job s of
        (s', Update_queued replies) \<Rightarrow> (s', replies)
      | (s', Update_refused st) \<Rightarrow> (s', []))"
| "service_step C D (Timer_fires now openings) s = worker_event_step C D now openings Timer s"
| "service_step C D (Head_arrives head) s = (fst (rpc_set_auditor_head C D head s), [])"

fun serve :: "crypto \<Rightarrow> codec \<Rightarrow> service_event list \<Rightarrow> service \<Rightarrow> service \<times> reply list" where
  "serve C D [] s = (s, [])"
| "serve C D (ev # evs) s =
     (case service_step C D ev s of (s', replies) \<Rightarrow>
      case serve C D evs s' of (s'', replies') \<Rightarrow> (s'', replies @ replies'))"

text \<open>The updates of a course that the policy admits.\<close>

fun admitted :: "access_policy \<Rightarrow> service_event list \<Rightarrow> update_job list" where
  "admitted policy [] = []"
| "admitted policy (Update_arrives now openings job # evs) =
     (if allow_update policy (ureq_label (job_req job)) then job # admitted policy evs else admitted policy evs)"
| "admitted policy (_ # evs) = admitted policy evs"

definition values_of :: "update_job list \<Rightarrow> nat" where
  "values_of jobs = sum_list (map (length \<circ> ureq_values \<circ> job_req) jobs)"

lemma values_of_simps [simp]:
  "values_of [] = 0" "values_of (job # jobs) = length (ureq_values (job_req job)) + values_of jobs"
  "values_of (jobs @ jobs') = values_of jobs + values_of jobs'"
  by (simp_all add: values_of_def)

definition ready :: "crypto \<Rightarrow> codec \<Rightarrow> service \<Rightarrow> tree_version list \<Rightarrow> nat \<Rightarrow> bool" where
  "ready C D s vs pending \<longleftrightarrow> (\<exists>nxt. tree_inv C D (sv_tree s) nxt vs \<and>
     unat nxt + values_of (wk_batch (sv_worker s)) + pending < 2 ^ 64) \<and>
     length (wk_batch (sv_worker s)) < MAX_BATCH_SIZE \<and> wk_running (sv_worker s) \<and> config_signs C (tr_config (sv_tree s))"

definition laws :: "crypto \<Rightarrow> codec \<Rightarrow> bool" where
  "laws C D \<longleftrightarrow> codec_laws D \<and> (\<forall>x. length (sha256 C x) = 32) \<and> vrf_ok C"

text \<open>The worker processes what waits, and the queue is empty again.\<close>

lemma process_waiting:
  assumes "laws C D" and inv: "tree_inv C D (wk_tree w) nxt vs" and "config_signs C (tr_config (wk_tree w))"
    and "length vs < 2 ^ 63" and "unat nxt + values_of batch + pending < 2 ^ 64"
  shows "\<exists>T replies nxt' new. process_batch C D now openings batch (wk_tree w) = (T, replies) \<and>
    mset (map fst replies) = mset (map job_reply batch) \<and> length new \<le> 1 \<and>
    tree_inv C D T nxt' (vs @ new) \<and> unat nxt' + pending < 2 ^ 64 \<and> tr_config T = tr_config (wk_tree w)"
proof -
  have "\<And>x. length (sha256 C x) = 32" "codec_laws D" "vrf_ok C" "unat nxt + values_of batch < 2 ^ 64"
    using assms(1,5) by (simp_all add: laws_def)
  with process_batch_spec [OF inv _ _ assms(3) _ assms(4), of batch now openings] assms(5)
  show ?thesis by (fastforce simp: values_of_def)
qed

lemma worker_step_ready:
  assumes "laws C D" and inv: "tree_inv C D (wk_tree w) nxt vs" and "config_signs C (tr_config (wk_tree w))"
    and "length vs < 2 ^ 63" and "length (wk_batch w) < MAX_BATCH_SIZE" and running: "wk_running w"
    and "unat nxt + values_of (wk_batch w @ new_jobs) + pending < 2 ^ 64"
    and "ev = Timer \<and> new_jobs = [] \<or> (\<exists>job. ev = Received job \<and> new_jobs = [job])"
  shows "\<exists>w' replies nxt' new. worker_step C D now openings ev w = (w', replies) \<and>
    mset (map job_reply (wk_batch w @ new_jobs)) = mset (map fst replies) + mset (map job_reply (wk_batch w')) \<and>
    length (wk_batch w') < MAX_BATCH_SIZE \<and> wk_running w' \<and> length new \<le> 1 \<and> tree_inv C D (wk_tree w') nxt' (vs @ new) \<and>
    unat nxt' + values_of (wk_batch w') + pending < 2 ^ 64 \<and> tr_config (wk_tree w') = tr_config (wk_tree w)"
proof -
  obtain T replies nxt' new where p: "process_batch C D now openings (wk_batch w @ new_jobs) (wk_tree w) = (T, replies)"
    "mset (map fst replies) = mset (map job_reply (wk_batch w @ new_jobs))" "length new \<le> 1"
    "tree_inv C D T nxt' (vs @ new)" "unat nxt' + pending < 2 ^ 64" "tr_config T = tr_config (wk_tree w)"
    using process_waiting [OF assms(1-4,7)] by blast
  let ?idle = "w\<lparr>wk_batch := wk_batch w @ new_jobs\<rparr>" and ?done = "w\<lparr>wk_tree := T, wk_batch := []\<rparr>"
  have "worker_step C D now openings ev w = (?done, replies) \<or>
      length (wk_batch ?idle) < MAX_BATCH_SIZE \<and> worker_step C D now openings ev w = (?idle, [])"
    using assms(5,8) running p(1) by (cases w) (auto simp: worker_step_def Let_def split: if_splits)
  then show ?thesis
  proof
    assume "worker_step C D now openings ev w = (?done, replies)"
    moreover have "0 < MAX_BATCH_SIZE" by (simp add: MAX_BATCH_SIZE_def)
    ultimately show ?thesis using p running by (intro exI [of _ ?done] exI [of _ replies] exI [of _ nxt'] exI [of _ new]) simp
  next
    assume "length (wk_batch ?idle) < MAX_BATCH_SIZE \<and> worker_step C D now openings ev w = (?idle, [])"
    then show ?thesis
      using inv assms(7) running by (intro exI [of _ ?idle] exI [of _ "[]"] exI [of _ nxt] exI [of _ "[]"]) simp
  qed
qed

lemma service_step_ready:
  assumes "laws C D" and s: "ready C D s vs (values_of (admitted (sv_access_policy s) [ev]) + pending)"
    and "length vs < 2 ^ 63"
  shows "\<exists>s' replies new. service_step C D ev s = (s', replies) \<and> length new \<le> 1 \<and> ready C D s' (vs @ new) pending \<and>
    mset (map job_reply (wk_batch (sv_worker s) @ admitted (sv_access_policy s) [ev])) =
      mset (map fst replies) + mset (map job_reply (wk_batch (sv_worker s'))) \<and>
    sv_access_policy s' = sv_access_policy s"
proof -
  let ?jobs = "admitted (sv_access_policy s) [ev]"
  obtain nxt where inv: "tree_inv C D (sv_tree s) nxt vs" "config_signs C (tr_config (sv_tree s))"
    "length (wk_batch (sv_worker s)) < MAX_BATCH_SIZE" "wk_running (sv_worker s)"
    "unat nxt + values_of (wk_batch (sv_worker s) @ ?jobs) + pending < 2 ^ 64"
    using s by (auto simp: ready_def add.assoc)
  note step = worker_step_ready [OF assms(1) inv(1,2) assms(3) inv(3,4)]
  have worker: ?thesis
    if ev: "service_step C D ev s = worker_event_step C D now openings e s"
      and e: "e = Timer \<and> ?jobs = [] \<or> (\<exists>job. e = Received job \<and> ?jobs = [job])" for now openings e
  proof -
    obtain w' replies nxt' new where w: "worker_step C D now openings e (sv_worker s) = (w', replies)"
      "mset (map job_reply (wk_batch (sv_worker s) @ ?jobs)) = mset (map fst replies) + mset (map job_reply (wk_batch w'))"
      "length (wk_batch w') < MAX_BATCH_SIZE" "wk_running w'" "length new \<le> 1" "tree_inv C D (wk_tree w') nxt' (vs @ new)"
      "unat nxt' + values_of (wk_batch w') + pending < 2 ^ 64" "tr_config (wk_tree w') = tr_config (sv_tree s)"
      using step [OF inv(5) e] by blast
    then have "ready C D (s\<lparr>sv_worker := w'\<rparr>) (vs @ new) pending" using inv(2) by (auto simp: ready_def)
    then show ?thesis using w(1,2,5) ev
      by (intro exI [of _ "s\<lparr>sv_worker := w'\<rparr>"] exI [of _ replies] exI [of _ new]) (simp add: worker_event_step_def)
  qed
  show ?thesis
  proof (cases ev)
    case (Update_arrives now openings job)
    show ?thesis
    proof (cases "allow_update (sv_access_policy s) (ureq_label (job_req job))")
      case True
      show ?thesis
        by (rule worker [of now openings "Received job"])
          (simp_all add: Update_arrives True rpc_update_def split: prod.split)
    next
      case False
      then show ?thesis
        using Update_arrives s by (intro exI [of _ s] exI [of _ "[]"]) (simp add: rpc_update_def)
    qed
  next
    case (Timer_fires now openings)
    show ?thesis by (rule worker [of now openings Timer]) (simp_all add: Timer_fires)
  next
    case (Head_arrives head)
    obtain T r where T: "set_auditor_head C D head (sv_auditor_keys s) (sv_tree s) = (T, r)" by fastforce
    then have same: "same_tree (sv_tree s) T"
      using set_auditor_head_same [of "sv_tree s" C D head "sv_auditor_keys s"] by simp
    then have "tr_config T = tr_config (sv_tree s)" by (simp add: same_tree_def)
    then have "ready C D (s\<lparr>sv_worker := (sv_worker s)\<lparr>wk_tree := T\<rparr>\<rparr>) (vs @ []) pending"
      using inv same_tree_inv [OF same inv(1)] Head_arrives by (auto simp: ready_def add.assoc)
    then show ?thesis
      using Head_arrives T by (intro exI [of _ "s\<lparr>sv_worker := (sv_worker s)\<lparr>wk_tree := T\<rparr>\<rparr>"] exI [of _ "[]"])
        (simp add: rpc_set_auditor_head_def)
  qed
qed

lemma admitted_Cons: "admitted policy (ev # evs) = admitted policy [ev] @ admitted policy evs"
  by (cases ev) simp_all

lemma serve_correct:
  assumes "laws C D" and "ready C D s vs (values_of (admitted (sv_access_policy s) evs))"
    and "length vs + length evs < 2 ^ 63"
  shows "\<exists>s' replies new. serve C D evs s = (s', replies) \<and> ready C D s' (vs @ new) 0 \<and>
    mset (map job_reply (wk_batch (sv_worker s) @ admitted (sv_access_policy s) evs)) =
      mset (map fst replies) + mset (map job_reply (wk_batch (sv_worker s')))"
  using assms(2,3)
proof (induction evs arbitrary: s vs)
  case Nil
  then show ?case by (intro exI [of _ s] exI [of _ "[]"] exI [of _ "[]"]) simp
next
  case (Cons ev evs)
  let ?rest = "values_of (admitted (sv_access_policy s) evs)"
  have "ready C D s vs (values_of (admitted (sv_access_policy s) [ev]) + ?rest)"
    using Cons.prems(1) by (simp only: admitted_Cons [of _ ev evs] values_of_simps)
  then obtain s1 replies new where s1: "service_step C D ev s = (s1, replies)" "length new \<le> 1"
    "ready C D s1 (vs @ new) ?rest"
    "mset (map job_reply (wk_batch (sv_worker s) @ admitted (sv_access_policy s) [ev])) =
      mset (map fst replies) + mset (map job_reply (wk_batch (sv_worker s1)))"
    "sv_access_policy s1 = sv_access_policy s"
    using service_step_ready [OF assms(1)] Cons.prems(2) by (metis add_lessD1)
  have "length (vs @ new) + length evs < 2 ^ 63" using Cons.prems(2) s1(2) by simp
  with Cons.IH [of s1 "vs @ new"] s1(3,5) obtain s2 replies' new' where s2: "serve C D evs s1 = (s2, replies')"
    "ready C D s2 ((vs @ new) @ new') 0"
    "mset (map job_reply (wk_batch (sv_worker s1) @ admitted (sv_access_policy s) evs)) =
      mset (map fst replies') + mset (map job_reply (wk_batch (sv_worker s2)))"
    by auto
  have "mset (map job_reply (wk_batch (sv_worker s) @ admitted (sv_access_policy s) (ev # evs))) =
      mset (map fst (replies @ replies')) + mset (map job_reply (wk_batch (sv_worker s2)))"
    using s1(4) s2(3) by (simp add: admitted_Cons [of _ ev evs] ac_simps) (metis (no_types, lifting) add.assoc add.commute)
  then show ?case using s1(1) s2(1,2) by (intro exI [of _ s2] exI [of _ "replies @ replies'"] exI [of _ "new @ new'"]) simp
qed

section \<open>Properties\<close>


definition sample_service :: "tree \<Rightarrow> service" where
  "sample_service T = \<lparr>sv_config = sample_private_config, sv_auditor_keys = [],
     sv_worker = \<lparr>wk_tree = T, wk_batch = [], wk_running = True\<rparr>, sv_access_policy = allow_all\<rparr>"


text \<open>C27. Every admitted update is answered once or still waits. Over any course of updates,
  timer ticks and auditor heads, the updates that waited at the start and those the policy
  admitted are together the ones that had an answer and the ones that still wait, each as often
  as it was submitted; fewer than a full batch waits after every course; and the service still
  satisfies its invariant, with a log that only grew.\<close>

theorem admitted_updates_answered_once:
  assumes "laws C D" and "ready C D s vs (values_of (admitted (sv_access_policy s) evs))"
    and "length vs + length evs < 2 ^ 63"
  shows "\<exists>s' replies new. serve C D evs s = (s', replies) \<and> ready C D s' (vs @ new) 0 \<and>
    length (wk_batch (sv_worker s')) < MAX_BATCH_SIZE \<and>
    mset (map job_reply (wk_batch (sv_worker s) @ admitted (sv_access_policy s) evs)) =
      mset (map fst replies) + mset (map job_reply (wk_batch (sv_worker s')))"
  using serve_correct [OF assms] unfolding ready_def by blast

lemma admitted_updates_answered_once_witness:
  "\<exists>s' replies. serve sample_crypto sample_codec
      [Update_arrives 8 (\<lambda>i. replicate 16 0) (sample_job 4 None [[5], [6]]), Timer_fires 9 (\<lambda>i. replicate 16 0)]
      (sample_service (sample_tree empty_store)) = (s', replies) \<and>
    {#4#} = mset (map fst replies) + mset (map job_reply (wk_batch (sv_worker s')))"
proof -
  have "laws sample_crypto sample_codec"
    using sample_codec_laws by (simp add: laws_def vrf_ok_def sample_crypto_def)
  moreover have "tr_config (sample_tree empty_store) = sample_private_config" by (simp add: sample_tree_def)
  then have "ready sample_crypto sample_codec (sample_service (sample_tree empty_store)) [] 2"
    unfolding ready_def
    by (intro conjI exI [of _ 0]) (simp_all add: sample_inv sample_signs sample_service_def MAX_BATCH_SIZE_def)
  moreover have "sv_access_policy (sample_service (sample_tree empty_store)) = allow_all"
    "wk_batch (sv_worker (sample_service (sample_tree empty_store))) = []"
    by (simp_all add: sample_service_def)
  moreover have "admitted allow_all [Update_arrives 8 (\<lambda>i. replicate 16 0) (sample_job 4 None [[5], [6]]),
      Timer_fires 9 (\<lambda>i. replicate 16 0)] = [sample_job 4 None [[5], [6]]]"
    "values_of [sample_job 4 None [[5], [6]]] = 2" "job_reply (sample_job 4 None [[5], [6]]) = 4"
    by (simp_all add: allow_all_def sample_job_def)
  ultimately show ?thesis
    using admitted_updates_answered_once [of sample_crypto sample_codec "sample_service (sample_tree empty_store)" "[]"
        "[Update_arrives 8 (\<lambda>i. replicate 16 0) (sample_job 4 None [[5], [6]]), Timer_fires 9 (\<lambda>i. replicate 16 0)]"]
    by (simp del: serve.simps admitted.simps) blast
qed

end
