(* ===== verification/Bulk.thy ===== *)
theory Bulk
  imports WritePath
begin

text \<open>
  Building large trees at once, \<^verbatim>\<open>src/src/bulk.rs\<close>: in chunks that each make one log entry,
  with one log entry per label, or in parallel, by building the subtrees of the first \<open>k\<close> bits
  apart and merging them. The auxiliary families are written as sorted files that RocksDB
  ingests: the parameter \<open>sst\<close> is what ingesting a sequence of puts makes of a column family,
  \<open>None\<close> when the writer refuses it. The tasks of the parallel build run on positions of their
  own, so they are taken in the order of their partitions; randomness and clock are parameters.
\<close>

unbundle bit_operations_syntax

type_synonym sst = "(bytes \<times> bytes) list \<Rightarrow> column_family \<Rightarrow> column_family option"

definition ingest_sst :: "sst \<Rightarrow> (bytes \<times> bytes) list \<Rightarrow> column_family \<Rightarrow> column_family res" where
  "ingest_sst sst sorted_entries cf =
     (if sorted_entries = [] then Inr cf else ok_or (sst sorted_entries cf) (Anyhow ''SST put failed''))"

section \<open>Entries\<close>

record bulk_entry =
  be_search_key :: bytes
  be_value :: bytes
  be_index :: bytes
  be_commitment :: bytes
  be_opening :: bytes

definition bulk_crypto :: "crypto \<Rightarrow> private_config \<Rightarrow> (nat \<Rightarrow> bytes) \<Rightarrow> nat \<times> bytes \<times> bytes \<Rightarrow> bulk_entry res" where
  "bulk_crypto C config openings il =
     (case il of (i, search_key, val) \<Rightarrow>
      and_then (config_vrf_prove C config search_key 0) (\<lambda>(index, _).
      and_then (commit (hmac_sha256 C) search_key 0 val None (openings i)) (\<lambda>commitment.
      Inr \<lparr>be_search_key = search_key, be_value = val, be_index = index,
        be_commitment = commitment, be_opening = openings i\<rparr>)))"

definition bulk_entries :: "crypto \<Rightarrow> private_config \<Rightarrow> (nat \<Rightarrow> bytes) \<Rightarrow> (bytes \<times> bytes) list \<Rightarrow> bulk_entry list res" where
  "bulk_entries C config openings labels =
     map_res (bulk_crypto C config openings) (zip [0..<length labels] labels)"

definition prefix_entries_of :: "bulk_entry list \<Rightarrow> (bytes \<times> bytes) list" where
  "prefix_entries_of es = map (\<lambda>e. (be_index e, be_commitment e)) es"

text \<open>The auxiliary data of entries at their positions, sorted by key, and its ingestion.\<close>

definition bulk_history :: "u64 \<Rightarrow> bytes" where
  "bulk_history pos = to_be_bytes_u32 0 @ to_be_bytes_u64 pos"

definition ingest_user_data :: "sst \<Rightarrow> (u64 \<times> bulk_entry) list \<Rightarrow> store \<Rightarrow> store \<times> unit res" where
  "ingest_user_data sst rows st =
     (let value_entries = sort_key fst (map (\<lambda>(pos, e). (to_be_bytes_u64 pos, be_value e)) rows);
          opening_entries = sort_key fst (map (\<lambda>(pos, e). (to_be_bytes_u64 pos, be_opening e)) rows);
          history_entries = sort_key fst (map (\<lambda>(pos, e). (be_search_key e, bulk_history pos)) rows) in
      case ingest_sst sst value_entries (cf_value st) of
        Inl err \<Rightarrow> (st, Inl err)
      | Inr cf \<Rightarrow>
          (let st = st\<lparr>cf_value := cf\<rparr> in
           case ingest_sst sst opening_entries (cf_openings st) of
             Inl err \<Rightarrow> (st, Inl err)
           | Inr cf \<Rightarrow>
               (let st = st\<lparr>cf_openings := cf\<rparr> in
                case ingest_sst sst history_entries (cf_history st) of
                  Inl err \<Rightarrow> (st, Inl err)
                | Inr cf \<Rightarrow> (st\<lparr>cf_history := cf\<rparr>, Inr ()))))"

definition ingest_aux :: "sst \<Rightarrow> (u64 \<times> bulk_entry) list \<Rightarrow> tree \<Rightarrow> tree \<times> unit res" where
  "ingest_aux sst rows T =
     (case ingest_user_data sst rows (tr_store T) of (st, r) \<Rightarrow> (T\<lparr>tr_store := st\<rparr>, r))"

definition bulk_head :: "crypto \<Rightarrow> codec \<Rightarrow> private_config \<Rightarrow> u64 \<Rightarrow> u64 \<Rightarrow> bytes \<Rightarrow> tree \<Rightarrow> tree \<times> unit res" where
  "bulk_head C D config new_size timestamp new_log_root T =
     (case construct_tree_head_tbs C config None new_size new_log_root of
        Inl err \<Rightarrow> (T, Inl err)
      | Inr tbs \<Rightarrow>
          (let th = \<lparr>th_tree_size = new_size, th_timestamp = as_i64 timestamp,
                 th_signatures = [\<lparr>sig_auditor_public_key = vk_to_bytes (verifying_key C (pc_sig_key config)),
                   sig_signature = sign_data C (pc_sig_key config) tbs\<rparr>]\<rparr>
           in (T\<lparr>tr_store := set_head (enc_tree_head D th) (tr_store T), tr_latest := Some th\<rparr>, Inr ())))"

text \<open>The steps on the tree that the three builds share.\<close>

definition current_prefix_ptr :: "tree \<Rightarrow> u64 option res" where
  "current_prefix_ptr T =
     (if latest_size T > 0
      then and_then (get_prefix_ptr (tr_store T) (latest_size T - 1)) (\<lambda>p. Inr (Some p))
      else Inr None)"

definition insert_step :: "crypto \<Rightarrow> codec \<Rightarrow> u64 \<Rightarrow> u64 option \<Rightarrow> (bytes \<times> bytes) list \<Rightarrow> tree \<Rightarrow>
    tree \<times> (bytes list \<times> u64) res" where
  "insert_step C D start_version ptr entries T =
     (case batch_insert (sha256 C) D start_version ptr entries (tr_store T, tr_node_cache T) of
        ((st, cache), r) \<Rightarrow>
          (T\<lparr>tr_store := st, tr_node_cache := cache\<rparr>,
           and_then r (\<lambda>(roots, _, final_ptr). Inr (roots, final_ptr))))"

definition append_step :: "crypto \<Rightarrow> u64 \<Rightarrow> (u64 \<times> bytes) list \<Rightarrow> tree \<Rightarrow> tree \<times> bytes res" where
  "append_step C start_size entries T =
     (case batch_append (sha256 C) start_size entries (tr_store T) of (st, r) \<Rightarrow> (T\<lparr>tr_store := st\<rparr>, r))"

definition last_root :: "bytes list \<Rightarrow> bytes res" where
  "last_root roots =
     (if roots = [] then Inl (Panic ''called `Option::unwrap()` on a `None` value'') else Inr (last roots))"

section \<open>One log entry per chunk\<close>

definition bulk_chunk :: "crypto \<Rightarrow> codec \<Rightarrow> sst \<Rightarrow> private_config \<Rightarrow> (nat \<Rightarrow> bytes) \<Rightarrow> u64 \<Rightarrow>
    (bytes \<times> bytes) list \<Rightarrow> tree \<Rightarrow> tree \<times> unit res" where
  "bulk_chunk C D sst config openings timestamp chunk T =
     (let start_size = latest_size T in
      case and_then (bulk_entries C config openings chunk) (\<lambda>entries.
           and_then (get_next_prefix_version (tr_store T)) (\<lambda>start_prefix_version.
           and_then (current_prefix_ptr T) (\<lambda>current_log_ptr.
           Inr (entries, start_prefix_version, current_log_ptr)))) of
        Inl err \<Rightarrow> (T, Inl err)
      | Inr (entries, start_prefix_version, current_log_ptr) \<Rightarrow>
          and_st (insert_step C D start_prefix_version current_log_ptr (prefix_entries_of entries) T)
            (\<lambda>T (roots, final_prefix_ptr).
          let T = T\<lparr>tr_store := set_next_prefix_version (final_prefix_ptr + 1)
                (put_prefix_ptr start_size final_prefix_ptr (tr_store T))\<rparr> in
          and_st (T, last_root roots) (\<lambda>T final_root_hash.
          and_st (append_step C start_size [(timestamp, final_root_hash)] T) (\<lambda>T new_log_root.
          and_st (ingest_aux sst (zip (map (\<lambda>i. start_prefix_version + word_of_nat i) [0..<length entries]) entries) T)
            (\<lambda>T _.
          bulk_head C D config (start_size + 1) timestamp new_log_root T)))))"

function chunks :: "nat \<Rightarrow> 'a list \<Rightarrow> 'a list list" where
  "chunks n xs = (if xs = [] \<or> n = 0 then [] else take n xs # chunks n (drop n xs))"
  by pat_completeness auto
termination by (relation "measure (\<lambda>(n, xs). length xs)") auto

declare chunks.simps [simp del]

fun bulk_chunks :: "crypto \<Rightarrow> codec \<Rightarrow> sst \<Rightarrow> private_config \<Rightarrow> (nat \<Rightarrow> nat \<Rightarrow> bytes) \<Rightarrow> (nat \<Rightarrow> u64) \<Rightarrow> nat \<Rightarrow>
    (bytes \<times> bytes) list list \<Rightarrow> tree \<Rightarrow> tree \<times> unit res" where
  "bulk_chunks C D sst config openings clock j [] T = (T, Inr ())"
| "bulk_chunks C D sst config openings clock j (chunk # cs) T =
     and_st (bulk_chunk C D sst config (openings j) (clock j) chunk T)
       (\<lambda>T _. bulk_chunks C D sst config openings clock (Suc j) cs T)"

text \<open>The openings and the time of a chunk are those of its number.\<close>

definition bulk_populate :: "crypto \<Rightarrow> codec \<Rightarrow> sst \<Rightarrow> private_config \<Rightarrow> (nat \<Rightarrow> nat \<Rightarrow> bytes) \<Rightarrow> (nat \<Rightarrow> u64) \<Rightarrow>
    (bytes \<times> bytes) list \<Rightarrow> nat \<Rightarrow> tree \<Rightarrow> tree \<times> unit res" where
  "bulk_populate C D sst config openings clock labels chunk_size T =
     (if labels = [] then (T, Inr ())
      else if chunk_size = 0 then (T, Inl (Panic ''chunk size must be non-zero''))
      else bulk_chunks C D sst config openings clock 0 (chunks chunk_size labels) T)"

section \<open>One log entry per label\<close>

text \<open>The roots so far, and the pointer to the last entry.\<close>

fun insert_chunks :: "crypto \<Rightarrow> codec \<Rightarrow> u64 \<Rightarrow> bytes list \<Rightarrow> u64 option \<Rightarrow> bulk_entry list list \<Rightarrow> tree \<Rightarrow>
    tree \<times> bytes list res" where
  "insert_chunks C D start_prefix_version roots current_ptr [] T = (T, Inr roots)"
| "insert_chunks C D start_prefix_version roots current_ptr (chunk # cs) T =
     and_st (insert_step C D (start_prefix_version + word_of_nat (length roots)) current_ptr (prefix_entries_of chunk) T)
       (\<lambda>T (chunk_roots, final_ptr).
        insert_chunks C D start_prefix_version (roots @ chunk_roots) (Some final_ptr) cs T)"

definition put_prefix_ptrs :: "u64 \<Rightarrow> u64 \<Rightarrow> nat \<Rightarrow> store \<Rightarrow> store" where
  "put_prefix_ptrs start_size start_prefix_version n_labels st =
     fold (\<lambda>i. put_prefix_ptr (start_size + word_of_nat i) (start_prefix_version + word_of_nat i)) [0..<n_labels] st"

definition base_timestamp :: "tree \<Rightarrow> u64 \<Rightarrow> u64 \<Rightarrow> nat \<Rightarrow> u64 res" where
  "base_timestamp T now ts_step_ms n_labels =
     (if latest_size T > 0
      then and_then (get_timestamp (tr_store T) (latest_size T - 1)) (\<lambda>ts. Inr (ts + ts_step_ms))
      else Inr (now - ts_step_ms * (word_of_nat n_labels - 1)))"

definition bulk_populate_per_entry :: "crypto \<Rightarrow> codec \<Rightarrow> sst \<Rightarrow> private_config \<Rightarrow> (nat \<Rightarrow> bytes) \<Rightarrow> u64 \<Rightarrow>
    (bytes \<times> bytes) list \<Rightarrow> u64 \<Rightarrow> tree \<Rightarrow> tree \<times> unit res" where
  "bulk_populate_per_entry C D sst config openings now labels ts_step_ms T =
     (if labels = [] then (T, Inr ())
      else
        let n_labels = length labels; start_size = latest_size T in
        case and_then (bulk_entries C config openings labels) (\<lambda>entries.
             and_then (get_next_prefix_version (tr_store T)) (\<lambda>start_prefix_version.
             and_then (current_prefix_ptr T) (\<lambda>current_ptr.
             and_then (base_timestamp T now ts_step_ms n_labels) (\<lambda>base_ts.
             Inr (entries, start_prefix_version, current_ptr, base_ts))))) of
          Inl err \<Rightarrow> (T, Inl err)
        | Inr (entries, start_prefix_version, current_ptr, base_ts) \<Rightarrow>
            and_st (insert_chunks C D start_prefix_version [] current_ptr (chunks 8192 entries) T) (\<lambda>T roots.
            let T = T\<lparr>tr_store := set_next_prefix_version (start_prefix_version + word_of_nat n_labels)
                  (put_prefix_ptrs start_size start_prefix_version n_labels (tr_store T))\<rparr>;
                log_entries = map (\<lambda>(i, rt). (base_ts + word_of_nat i * ts_step_ms, rt)) (zip [0..<length roots] roots) in
            if log_entries = [] then (T, Inl (Panic ''called `Option::unwrap()` on a `None` value''))
            else
              and_st (append_step C start_size log_entries T) (\<lambda>T new_log_root.
              and_st (ingest_aux sst (zip (map (\<lambda>i. start_prefix_version + word_of_nat i) [0..<length entries]) entries) T)
                (\<lambda>T _.
              bulk_head C D config (start_size + word_of_nat n_labels) (fst (last log_entries)) new_log_root T))))"

section \<open>In parallel\<close>

text \<open>\<^verbatim>\<open>usize\<close> values are naturals: there are \<open>2 ^ k\<close> partitions in memory, so \<open>k\<close> is small.\<close>

definition partition_id :: "bytes \<Rightarrow> nat \<Rightarrow> nat" where
  "partition_id index k = fold (\<lambda>d pid. push_bit 1 pid OR get_bit index d) [0..<k] 0"

definition sibling_root_pid :: "nat \<Rightarrow> nat \<Rightarrow> nat \<Rightarrow> nat" where
  "sibling_root_pid p d k =
     (let bit_pos = k - 1 - d in (p XOR push_bit bit_pos 1) OR (push_bit bit_pos 1 - 1))"

definition hash_pairs :: "(bytes \<Rightarrow> bytes) \<Rightarrow> bytes list \<Rightarrow> nat \<Rightarrow> bytes list" where
  "hash_pairs sha hashes n = map (\<lambda>j. parent_hash sha (hashes ! (2 * j)) (hashes ! (2 * j + 1))) [0..<n]"

text \<open>The levels from the root down to the partitions.\<close>

fun build_hash_tree :: "(bytes \<Rightarrow> bytes) \<Rightarrow> bytes list \<Rightarrow> nat \<Rightarrow> bytes list list" where
  "build_hash_tree sha hashes 0 = [hashes]"
| "build_hash_tree sha hashes (Suc lv) =
     build_hash_tree sha (hash_pairs sha hashes (2 ^ lv)) lv @ [hashes]"

definition merge_copath_for_partition :: "nat \<Rightarrow> nat \<Rightarrow> bytes list list \<Rightarrow> u64 option list \<Rightarrow> parent_node list" where
  "merge_copath_for_partition p k hash_tree root_positions =
     map (\<lambda>d. let sibling_idx = drop_bit (k - 1 - d) p XOR 1;
                sibling_pos = root_positions ! sibling_root_pid p d k in
            \<lparr>pn_hash = hash_tree ! (d + 1) ! sibling_idx, pn_ptr = sibling_pos,
              pn_first_update_position = sibling_pos\<rparr>) [0..<k]"

text \<open>The partitions, with the position each starts at, relative to the first.\<close>

definition partitions_of :: "nat \<Rightarrow> bulk_entry list \<Rightarrow> bulk_entry list list" where
  "partitions_of k entries = map (\<lambda>p. filter (\<lambda>e. partition_id (be_index e) k = p) entries) [0..<2 ^ k]"

definition pos_offsets :: "bulk_entry list list \<Rightarrow> u64 list" where
  "pos_offsets partitions =
     map (\<lambda>p. word_of_nat (sum_list (map length (take p partitions)))) [0..<length partitions + 1]"

text \<open>
  Every subtree is built, each in its task, and then the results are collected; joining a task
  that panicked is an error.
\<close>

definition joined :: "'a res \<Rightarrow> 'a res" where
  "joined r = (case r of Inl (Panic _) \<Rightarrow> Inl (Anyhow ''task panicked'') | _ \<Rightarrow> r)"

fun build_subtrees :: "crypto \<Rightarrow> codec \<Rightarrow> (u64 \<times> bulk_entry list) list \<Rightarrow> tree \<Rightarrow> tree \<times> u64 option res list" where
  "build_subtrees C D [] T = (T, [])"
| "build_subtrees C D ((start_pos, part) # parts) T =
     (if part = [] then
        (case build_subtrees C D parts T of (T, rs) \<Rightarrow> (T, Inr None # rs))
      else
        (case insert_step C D start_pos None (prefix_entries_of part) T of
           (T, r) \<Rightarrow>
             (case build_subtrees C D parts T of
                (T, rs) \<Rightarrow> (T, and_then (joined r) (\<lambda>(_, final_ptr). Inr (Some final_ptr)) # rs))))"

definition partition_hash :: "crypto \<Rightarrow> codec \<Rightarrow> store \<Rightarrow> nat \<Rightarrow> u64 option \<Rightarrow> bytes res" where
  "partition_hash C D st k root_position =
     (case root_position of
        Some root_pos \<Rightarrow>
          and_then (ok_or (get_prefix st root_pos) (Panic ''called `Option::unwrap()` on a `None` value'')) (\<lambda>b.
          and_then (ok_or (dec_log_entry D b) (Anyhow ''failed to decode Protobuf message'')) (\<lambda>e.
          Inr (rollup (sha256 C) e k)))
      | None \<Rightarrow> Inr ZERO_VALUE)"

definition merge_entry :: "codec \<Rightarrow> nat \<Rightarrow> parent_node list \<Rightarrow> u64 \<times> bytes \<Rightarrow> (u64 \<times> bytes) res" where
  "merge_entry D k merge_prefix pb =
     (case pb of (pos, b) \<Rightarrow>
      and_then (ok_or (dec_log_entry D b) (Anyhow ''failed to decode Protobuf message'')) (\<lambda>e.
      Inr (pos, enc_log_entry D (e\<lparr>le_copath := merge_prefix @ drop k (le_copath e)\<rparr>))))"

definition merge_partition :: "codec \<Rightarrow> store \<Rightarrow> nat \<Rightarrow> bytes list list \<Rightarrow> u64 option list \<Rightarrow>
    nat \<times> u64 \<times> bulk_entry list \<Rightarrow> (u64 \<times> bytes) list res" where
  "merge_partition D st k hash_tree root_positions part =
     (case part of (p, pstart, es) \<Rightarrow>
      if es = [] then Inr []
      else map_res (merge_entry D k (merge_copath_for_partition p k hash_tree root_positions))
             (batch_get_prefix st (map (\<lambda>i. pstart + word_of_nat i) [0..<length es])))"

definition merge_batch :: "codec \<Rightarrow> store \<Rightarrow> nat \<Rightarrow> bytes list list \<Rightarrow> u64 option list \<Rightarrow>
    (nat \<times> u64 \<times> bulk_entry list) list \<Rightarrow> (u64 \<times> bytes) list res" where
  "merge_batch D st k hash_tree root_positions parts =
     and_then (map_res (merge_partition D st k hash_tree root_positions) parts) (\<lambda>bs. Inr (concat bs))"

definition global_root_pos :: "u64 option list \<Rightarrow> u64 res" where
  "global_root_pos root_positions =
     (case find (\<lambda>p. p \<noteq> None) (rev root_positions) of
        Some (Some p) \<Rightarrow> Inr p
      | _ \<Rightarrow> Inl (Panic ''called `Option::unwrap()` on a `None` value''))"

definition partition_rows :: "(nat \<times> u64 \<times> bulk_entry list) list \<Rightarrow> (u64 \<times> bulk_entry) list" where
  "partition_rows parts =
     concat (map (\<lambda>(p, pstart, es). zip (map (\<lambda>i. pstart + word_of_nat i) [0..<length es]) es) parts)"

definition parallel_bulk_populate :: "crypto \<Rightarrow> codec \<Rightarrow> sst \<Rightarrow> private_config \<Rightarrow> (nat \<Rightarrow> bytes) \<Rightarrow> u64 \<Rightarrow>
    (bytes \<times> bytes) list \<Rightarrow> nat \<Rightarrow> tree \<Rightarrow> tree \<times> unit res" where
  "parallel_bulk_populate C D sst config openings timestamp labels k T =
     (if labels = [] then (T, Inr ())
      else
        case and_then (bulk_entries C config openings labels) (\<lambda>entries.
             and_then (get_next_prefix_version (tr_store T)) (\<lambda>start_prefix_version.
             Inr (entries, start_prefix_version))) of
          Inl err \<Rightarrow> (T, Inl err)
        | Inr (entries, start_prefix_version) \<Rightarrow>
            (let partitions = partitions_of k entries; offsets = pos_offsets partitions;
                 starts = map (\<lambda>off. start_prefix_version + off) offsets;
                 parts = zip [0..<2 ^ k] (zip starts partitions) in
             case build_subtrees C D (zip starts partitions) T of
               (T, rs) \<Rightarrow>
             and_st (T, map_res id rs) (\<lambda>T root_positions.
             and_st (T, map_res (partition_hash C D (tr_store T) k) root_positions) (\<lambda>T partition_hashes.
             let hash_tree = build_hash_tree (sha256 C) partition_hashes k in
             and_st (T, merge_batch D (tr_store T) k hash_tree root_positions parts) (\<lambda>T batch.
             let T = T\<lparr>tr_store := put_prefix_batch batch (tr_store T), tr_node_cache := Map.empty\<rparr>;
                 start_size = latest_size T in
             and_st (T, global_root_pos root_positions) (\<lambda>T root_pos.
             let T = T\<lparr>tr_store := set_next_prefix_version (start_prefix_version + last offsets)
                   (put_prefix_ptr start_size root_pos (tr_store T))\<rparr> in
             and_st (append_step C start_size [(timestamp, hash_tree ! 0 ! 0)] T) (\<lambda>T new_log_root.
             and_st (ingest_aux sst (partition_rows parts) T) (\<lambda>T _.
             bulk_head C D config (start_size + 1) timestamp new_log_root T))))))))"

end
