(* ===== verification/BulkProps.thy ===== *)
theory BulkProps
  imports Bulk ServiceProps
begin

text \<open>
  The bulk builds against the invariant of the server: a chunk seals one version of the tree
  and leaves the user data where searches look for it; the parallel build of an empty tree
  seals one version when no partition is empty, and loses labels otherwise.
\<close>

section \<open>Ingestion\<close>

text \<open>What RocksDB documents: the keys of a file strictly ascend, and its puts replace older ones.\<close>

definition sst_laws :: "sst \<Rightarrow> bool" where
  "sst_laws sst \<longleftrightarrow> (\<forall>es cf. sst es cf =
     (if sorted_wrt (<) (map fst es) then Some (cf ++ map_of es) else None))"

definition sample_sst :: sst where
  "sample_sst es cf = (if sorted_wrt (<) (map fst es) then Some (cf ++ map_of es) else None)"

lemma sample_sst_laws: "sst_laws sample_sst"
  by (simp add: sst_laws_def sample_sst_def)

lemma distinct_map_inj: "inj f \<Longrightarrow> distinct (map f xs) \<longleftrightarrow> distinct xs"
  by (auto simp: distinct_map intro: inj_on_subset)

lemma distinct_sort_key: "distinct (map fst (sort_key fst es)) \<longleftrightarrow> distinct (map fst es)"
proof -
  have "mset (map fst (sort_key fst es)) = mset (map fst es)" by simp
  then show ?thesis by (rule mset_eq_imp_distinct_iff)
qed

lemma ingest_sorted:
  assumes "sst_laws sst" and "distinct (map fst es)"
  shows "ingest_sst sst (sort_key fst es) cf = Inr (cf ++ map_of es)"
proof -
  have "sorted_wrt (<) (map fst (sort_key fst es))"
    using assms(2) distinct_sort_key [of es] by (simp add: strict_sorted_iff)
  moreover have "map_of (sort_key fst es) = map_of es"
    using assms(2) distinct_sort_key [of es] by (simp add: map_of_inject_set)
  ultimately show ?thesis
    using assms(1) by (cases "es = []") (auto simp: ingest_sst_def sst_laws_def)
qed

text \<open>The data of a label, at the position of its leaf.\<close>

definition data_at :: "store \<Rightarrow> u64 \<Rightarrow> bulk_entry \<Rightarrow> bool" where
  "data_at st pos e \<longleftrightarrow> get_value st pos = Some (be_value e) \<and> get_opening st pos = Some (be_opening e) \<and>
     get_label_history st (be_search_key e) = [(0, pos)]"

lemma history_record: "decode_history (bulk_history pos) = [(0, pos)]"
  using decode_encode_history [of "[(0, pos)]"] by (simp add: history_ok_def encode_history_def bulk_history_def)

lemma ingest_user_data_correct:
  assumes "sst_laws sst" and "distinct (map fst rows)" and "distinct (map (be_search_key \<circ> snd) rows)"
  shows "\<exists>v c h. ingest_user_data sst rows st = (st\<lparr>cf_value := v, cf_openings := c, cf_history := h\<rparr>, Inr ()) \<and>
    (\<forall>(pos, e)\<in>set rows. data_at (st\<lparr>cf_value := v, cf_openings := c, cf_history := h\<rparr>) pos e) \<and>
    (\<forall>pos e. data_at st pos e \<and> pos \<notin> fst ` set rows \<and> be_search_key e \<notin> (be_search_key \<circ> snd) ` set rows \<longrightarrow>
       data_at (st\<lparr>cf_value := v, cf_openings := c, cf_history := h\<rparr>) pos e)"
proof -
  let ?v = "map (\<lambda>(pos, e). (to_be_bytes_u64 pos, be_value e)) rows"
    and ?c = "map (\<lambda>(pos, e). (to_be_bytes_u64 pos, be_opening e)) rows"
    and ?h = "map (\<lambda>(pos, e). (be_search_key e, bulk_history pos)) rows"
  let ?st = "st\<lparr>cf_value := cf_value st ++ map_of ?v, cf_openings := cf_openings st ++ map_of ?c,
    cf_history := cf_history st ++ map_of ?h\<rparr>"
  have keys: "map fst ?v = map to_be_bytes_u64 (map fst rows)" "map fst ?c = map to_be_bytes_u64 (map fst rows)"
    "map fst ?h = map (be_search_key \<circ> snd) rows"
    by auto
  have "inj to_be_bytes_u64" by (simp add: inj_def)
  then have distinct: "distinct (map fst ?v)" "distinct (map fst ?c)" "distinct (map fst ?h)"
    using assms(2,3) unfolding keys by (simp_all add: distinct_map_inj del: map_map)
  note ingest = ingest_sorted [OF assms(1)]
  have "ingest_user_data sst rows st = (?st, Inr ())"
    using ingest [OF distinct(1)] ingest [OF distinct(2)] ingest [OF distinct(3)]
    by (simp add: ingest_user_data_def Let_def)
  moreover have "data_at ?st pos e" if "(pos, e) \<in> set rows" for pos e
  proof -
    have "map_of ?v (to_be_bytes_u64 pos) = Some (be_value e)" "map_of ?c (to_be_bytes_u64 pos) = Some (be_opening e)"
      "map_of ?h (be_search_key e) = Some (bulk_history pos)"
      using that by (force intro!: map_of_is_SomeI distinct)+
    then show ?thesis
      by (simp add: data_at_def get_value_def get_opening_def get_label_history_def history_record)
  qed
  moreover have "data_at ?st pos e"
    if "data_at st pos e" "pos \<notin> fst ` set rows" "be_search_key e \<notin> (be_search_key \<circ> snd) ` set rows" for pos e
  proof -
    have "map_of ?v (to_be_bytes_u64 pos) = None" "map_of ?c (to_be_bytes_u64 pos) = None"
      "map_of ?h (be_search_key e) = None"
      using that(2,3) by (force simp: map_of_eq_None_iff)+
    then show ?thesis
      using that(1) by (simp add: data_at_def get_value_def get_opening_def get_label_history_def map_add_def)
  qed
  ultimately show ?thesis by blast
qed

section \<open>A chunk seals a version\<close>

lemma bulk_crypto_data:
  assumes "bulk_crypto C config openings (i, label, val) = Inr e"
  shows "be_search_key e = label" and "be_value e = val" and "vrf_ok C \<Longrightarrow> length (be_index e) = 32"
  using assms by (auto simp: bulk_crypto_def res_simps config_vrf_prove_def vrf_okD split: prod.splits)

lemma bulk_entries_data:
  assumes "bulk_entries C config openings labels = Inr es"
  shows "map be_search_key es = map fst labels" and "map be_value es = map snd labels" and "length es = length labels"
    and "vrf_ok C \<Longrightarrow> keys_ok (prefix_entries_of es)"
proof -
  have all: "list_all2 (\<lambda>il e. bulk_crypto C config openings il = Inr e) (zip [0..<length labels] labels) es"
    using assms by (simp add: bulk_entries_def map_res_eq_Inr)
  then show len: "length es = length labels" by (simp add: list_all2_lengthD [symmetric])
  have e: "bulk_crypto C config openings (i, labels ! i) = Inr (es ! i)" if "i < length labels" for i
    using all that by (simp add: list_all2_conv_all_nth)
  have data: "be_search_key (es ! i) = fst (labels ! i) \<and> be_value (es ! i) = snd (labels ! i) \<and>
      (vrf_ok C \<longrightarrow> length (be_index (es ! i)) = 32)" if "i < length labels" for i
    using e [OF that] bulk_crypto_data [of C config openings i "fst (labels ! i)" "snd (labels ! i)" "es ! i"] by simp
  show "map be_search_key es = map fst labels" "map be_value es = map snd labels"
    using data len by (auto intro!: nth_equalityI)
  show "keys_ok (prefix_entries_of es)" if "vrf_ok C"
    using data len that by (auto simp: keys_ok_def prefix_entries_of_def list_all_length)
qed

lemma bulk_head_signs:
  assumes "auditor_key_agrees config"
  shows "bulk_head C D config n t rt T =
    (case sign_head C config t n rt of
       Inl err \<Rightarrow> (T, Inl err)
     | Inr th \<Rightarrow> (T\<lparr>tr_store := set_head (enc_tree_head D th) (tr_store T), tr_latest := Some th\<rparr>, Inr ()))"
proof -
  define pk where "pk = (if pc_mode config = DEPLOYMENT_MODE_THIRD_PARTY_AUDITING \<and> pc_auditor_keys config \<noteq> []
    then Some (fst (hd (pc_auditor_keys config))) else None)"
  have "or_else pk (pc_auditor_public_key config) = or_else None (pc_auditor_public_key config)"
    using assms by (auto simp: pk_def auditor_key_agrees_def or_else_def split: option.split)
  then have "construct_tree_head_tbs C config pk n rt = construct_tree_head_tbs C config None n rt"
    by (simp add: construct_tree_head_tbs_def serialize_configuration_def)
  then show ?thesis
    by (cases "construct_tree_head_tbs C config None n rt") (simp_all add: bulk_head_def sign_head_def Let_def flip: pk_def)
qed

lemma distinct_positions: "unat start + n < 2 ^ 64 \<Longrightarrow> distinct (positions start n)"
  by (auto simp: positions_def distinct_map inj_on_def of_nat_inverse word_of_nat_eq_iff take_bit_nat_eq_self)

lemma unat_after_positions:
  assumes "0 < n" and "unat start + n < 2 ^ 64"
  shows "unat (last (positions start n) + 1) = unat start + n"
proof -
  obtain m where m: "n = Suc m" using assms(1) by (cases n) auto
  then have "last (positions start n) + 1 = start + word_of_nat n" by (simp add: positions_def)
  then show ?thesis using assms(2) by (simp add: unat_word_ariths unat_of_nat take_bit_eq_mod)
qed

lemma positions_upt: "map (\<lambda>i. start + word_of_nat i) [0..<n] = positions start n"
  by (simp add: positions_def)

text \<open>What every build does at the end: the user data of its entries, and the head.\<close>

lemma publish_bulk:
  assumes "laws C D" and "sst_laws sst" and "config_signs C config" and "auditor_key_agrees config"
    and store: "store_inv D (sha256 C) st2 next' vs'" "cache_agrees D st2 cache"
    and "vs' \<noteq> []" "length vs' \<le> 2 ^ 63" and "tr_config T = config"
    and distinct: "distinct (map fst rows)" "distinct (map (be_search_key \<circ> snd) rows)"
  shows "\<exists>T'. and_st (ingest_aux sst rows (T\<lparr>tr_node_cache := cache, tr_store := st2\<rparr>)) (\<lambda>T _.
      bulk_head C D config (word_of_nat (length vs')) ts (root_value (sha256 C) (log_leaves (sha256 C) vs')) T) = (T', Inr ()) \<and>
    tree_inv C D T' next' vs' \<and> tr_config T' = config \<and> (\<forall>(p, e)\<in>set rows. data_at (tr_store T') p e) \<and>
    (\<forall>p e. data_at st2 p e \<and> p \<notin> fst ` set rows \<and> be_search_key e \<notin> (be_search_key \<circ> snd) ` set rows \<longrightarrow>
       data_at (tr_store T') p e)"
proof -
  obtain v c h where user: "ingest_user_data sst rows st2 = (st2\<lparr>cf_value := v, cf_openings := c, cf_history := h\<rparr>, Inr ())"
    "\<forall>(pos, e)\<in>set rows. data_at (st2\<lparr>cf_value := v, cf_openings := c, cf_history := h\<rparr>) pos e"
    "\<forall>pos e. data_at st2 pos e \<and> pos \<notin> fst ` set rows \<and> be_search_key e \<notin> (be_search_key \<circ> snd) ` set rows \<longrightarrow>
       data_at (st2\<lparr>cf_value := v, cf_openings := c, cf_history := h\<rparr>) pos e"
    using ingest_user_data_correct [OF assms(2) distinct, of st2] by blast
  let ?st3 = "st2\<lparr>cf_value := v, cf_openings := c, cf_history := h\<rparr>"
  have store3: "store_inv D (sha256 C) ?st3 next' vs'" "cache_agrees D ?st3 cache"
    using store store_inv_cong [of ?st3 st2] cache_agrees_cong [of ?st3 st2] by (simp_all add: families)
  have "length (root_value (sha256 C) (log_leaves (sha256 C) vs')) = 32"
    using assms(1,7) by (intro length_root_value) (auto simp: laws_def log_leaves_def log_leaf_value_def)
  then obtain th where th: "sign_head C config ts (word_of_nat (length vs'))
      (root_value (sha256 C) (log_leaves (sha256 C) vs')) = Inr th"
    using assms(3) unfolding config_signs_def by blast
  let ?T = "T\<lparr>tr_store := set_head (enc_tree_head D th) ?st3, tr_node_cache := cache, tr_latest := Some th\<rparr>"
  have "tree_inv C D ?T next' vs'" by (rule published_inv [OF store3 assms(7-9) th])
  moreover have "data_at (tr_store ?T) p e \<longleftrightarrow> data_at ?st3 p e" for p e
    by (simp add: data_at_def get_value_def get_opening_def get_label_history_def set_head_def)
  moreover have "and_st (ingest_aux sst rows (T\<lparr>tr_node_cache := cache, tr_store := st2\<rparr>)) (\<lambda>T _.
      bulk_head C D config (word_of_nat (length vs')) ts (root_value (sha256 C) (log_leaves (sha256 C) vs')) T) = (?T, Inr ())"
    using th user(1) by (simp add: and_st_def ingest_aux_def bulk_head_signs [OF assms(4)])
  ultimately show ?thesis
    using user(2,3) assms(9) by (intro exI [of _ ?T]) simp
qed

lemma bulk_chunk_correct:
  assumes "laws C D" and "sst_laws sst" and "config_signs C config" and "auditor_key_agrees config"
    and inv: "tree_inv C D T next vs" and config: "tr_config T = config" and "length vs < 2 ^ 63"
    and es: "bulk_entries C config openings chunk = Inr es" "chunk \<noteq> []" "distinct (map fst chunk)"
    and room: "unat next + length chunk < 2 ^ 64"
  shows "\<exists>T' next' v. bulk_chunk C D sst config openings ts chunk T = (T', Inr ()) \<and>
    tree_inv C D T' next' (vs @ [v]) \<and> tv_timestamp v = ts \<and>
    tv_map v = rev (prefix_entries_of es) @ latest_map vs \<and> tr_config T' = config \<and>
    unat next' \<le> unat next + length chunk \<and> next \<le> next' \<and> (\<forall>e\<in>set es. \<exists>p<next'. data_at (tr_store T') p e) \<and>
    (\<forall>p e. p < next \<and> data_at (tr_store T) p e \<and> be_search_key e \<notin> fst ` set chunk \<longrightarrow>
      data_at (tr_store T') p e)"
proof -
  let ?sha = "sha256 C" and ?ps = "prefix_entries_of es" and ?n = "latest_size T" and ?st = "tr_store T"
  let ?ptr = "last (positions next (length ?ps))" and ?kvs = "rev ?ps @ latest_map vs"
  let ?vs = "vs @ [\<lparr>tv_timestamp = ts, tv_ptr = ?ptr, tv_map = ?kvs\<rparr>]"
  note data = bulk_entries_data [OF es(1)]
  have laws: "codec_laws D" "\<And>x. length (?sha x) = 32" "vrf_ok C" using assms(1) by (simp_all add: laws_def)
  have ps: "?ps \<noteq> []" "keys_ok ?ps" "unat next + length ?ps < 2 ^ 64" "length ?ps = length es"
    using data(3) data(4) [OF laws(3)] es(2) room by (auto simp: prefix_entries_of_def)
  have size: "unat ?n = length vs" by (rule tree_inv_size [OF inv])
  obtain st1 cache' roots results st2 where sealed:
    "batch_insert ?sha D next (latest_ptr vs) ?ps (?st, tr_node_cache T) = ((st1, cache'), Inr (roots, results, ?ptr))"
    "roots \<noteq> []" "last roots = map_root ?sha ?kvs" "map res_log_position results = positions next (length ?ps)"
    "batch_append ?sha ?n [(ts, map_root ?sha ?kvs)] (set_next_prefix_version (?ptr + 1) (put_prefix_ptr ?n ?ptr st1)) =
      (st2, Inr (root_value ?sha (log_leaves ?sha ?vs)))"
    "store_inv D ?sha st2 (?ptr + 1) ?vs" "cache_agrees D st2 cache'" "get_head st2 = get_head ?st"
    "unat ?ptr < unat next + length ?ps"
    "cf_value st2 = cf_value ?st" "cf_openings st2 = cf_openings ?st" "cf_history st2 = cf_history ?st"
    using inv laws(1,2) ps assms(7) size unfolding tree_inv_def by (elim conjE) (rule batch_sealed)
  define rows where "rows = zip (positions next (length es)) es"
  have len: "length (positions next (length es)) = length es" by (simp add: positions_def)
  have rows: "map fst rows = positions next (length es)" "map snd rows = es"
    unfolding rows_def using len by simp_all
  then have keys: "map (be_search_key \<circ> snd) rows = map fst chunk" using data(1) by (simp flip: map_map)
  have distinct: "distinct (map fst rows)" "distinct (map (be_search_key \<circ> snd) rows)"
    unfolding rows keys using es(3) distinct_positions room data(3) by simp_all
  have new_size: "?n + 1 = word_of_nat (length ?vs)" using size [symmetric] by (simp add: add.commute)
  have "?vs \<noteq> []" "length ?vs \<le> 2 ^ 63" using assms(7) by simp_all
  from publish_bulk [OF assms(1-4) sealed(6,7) this config distinct, of ts]
  obtain T' where T': "and_st (ingest_aux sst rows (T\<lparr>tr_node_cache := cache', tr_store := st2\<rparr>)) (\<lambda>T _.
      bulk_head C D config (?n + 1) ts (root_value ?sha (log_leaves ?sha ?vs)) T) = (T', Inr ())"
    "tree_inv C D T' (?ptr + 1) ?vs" "tr_config T' = config" "\<forall>(p, e)\<in>set rows. data_at (tr_store T') p e"
    "\<forall>p e. data_at st2 p e \<and> p \<notin> fst ` set rows \<and> be_search_key e \<notin> (be_search_key \<circ> snd) ` set rows \<longrightarrow>
       data_at (tr_store T') p e"
    unfolding new_size by blast
  have "get_next_prefix_version ?st = Inr next" using inv by (simp add: tree_inv_def store_inv_def)
  moreover have "current_prefix_ptr T = Inr (latest_ptr vs)"
    using current_ptr [OF _ size, of D ?sha ?st "next"] inv by (simp add: tree_inv_def current_prefix_ptr_def)
  ultimately have run: "bulk_chunk C D sst config openings ts chunk T = (T', Inr ())"
    using es(1) sealed(1-3,5) T'(1)
    by (simp add: bulk_chunk_def and_st_def [where m = "(_, _)"] insert_step_def append_step_def last_root_def Let_def
        positions_upt rows_def [symmetric])
  have next': "unat (?ptr + 1) = unat next + length es"
    using unat_after_positions [of "length es" "next"] room data(3) es(2) ps(4) by simp
  have "\<exists>p<?ptr + 1. data_at (tr_store T') p e" if e: "e \<in> set es" for e
  proof -
    obtain p where p: "(p, e) \<in> set rows" using e unfolding rows(2) [symmetric] by auto
    then have "p \<in> fst ` set rows" by force
    then have "p < ?ptr + 1"
      using positions_ge(2) [of p "next" "length es"] room data(3) next' unfolding set_map [symmetric] rows
      by (simp add: word_less_nat_alt)
    then show ?thesis using T'(4) p by blast
  qed
  moreover have "data_at (tr_store T') p e"
    if "p < next" "data_at ?st p e" "be_search_key e \<notin> fst ` set chunk" for p e
  proof -
    have "p \<notin> fst ` set rows"
      using positions_ge(1) [of p "next" "length es"] that(1) room data(3) unfolding set_map [symmetric] rows by force
    moreover have "be_search_key e \<notin> (be_search_key \<circ> snd) ` set rows"
      using that(3) arg_cong [OF keys, of set] by simp
    moreover have "data_at st2 p e"
      using that(2) sealed(10-12) by (simp add: data_at_def get_value_def get_opening_def get_label_history_def)
    ultimately show ?thesis using T'(5) by blast
  qed
  ultimately show ?thesis
    using data(3) T'(2,3) run next'
    by (intro exI [of _ T'] exI [of _ "?ptr + 1"] exI [of _ "\<lparr>tv_timestamp = ts, tv_ptr = ?ptr, tv_map = ?kvs\<rparr>"])
      (simp add: word_le_nat_alt)
qed

section \<open>All chunks\<close>

lemma concat_chunks: "0 < n \<Longrightarrow> concat (chunks n xs) = xs"
  by (induction n xs rule: chunks.induct) (subst chunks.simps, auto)

lemma chunks_not_empty: "\<forall>c\<in>set (chunks n xs). c \<noteq> []"
  by (induction n xs rule: chunks.induct) (subst chunks.simps, auto)

lemma length_chunks: "length (chunks n xs) \<le> length xs"
proof (induction n xs rule: chunks.induct)
  case (1 n xs)
  then show ?case by (cases xs) (subst chunks.simps, auto)+
qed

lemma prefix_entries_append: "prefix_entries_of (es @ es') = prefix_entries_of es @ prefix_entries_of es'"
  by (simp add: prefix_entries_of_def)

lemma latest_map_append: "latest_map (vs @ v # new) = latest_map (v # new)"
  by (simp add: latest_map_def)

definition plan :: "crypto \<Rightarrow> private_config \<Rightarrow> (nat \<Rightarrow> nat \<Rightarrow> bytes) \<Rightarrow> nat \<Rightarrow> (bytes \<times> bytes) list list \<Rightarrow>
    bulk_entry list list res" where
  "plan C config openings j cs = map_res (\<lambda>(j, chunk). bulk_entries C config (openings j) chunk) (enumerate j cs)"

lemma plan_Cons:
  "plan C config openings j (chunk # cs) = Inr ess \<longleftrightarrow> (\<exists>es ess'. bulk_entries C config (openings j) chunk = Inr es \<and>
     plan C config openings (Suc j) cs = Inr ess' \<and> ess = es # ess')"
  by (auto simp: plan_def res_simps)

lemma bulk_chunks_correct:
  assumes "laws C D" and "sst_laws sst" and "config_signs C config" and "auditor_key_agrees config"
    and "tree_inv C D T next vs" and "tr_config T = config" and "length vs + length cs < 2 ^ 63"
    and "plan C config openings j cs = Inr ess" and "\<forall>c\<in>set cs. c \<noteq> []" and "distinct (map fst (concat cs))"
    and "unat next + length (concat cs) < 2 ^ 64"
    and "\<forall>e\<in>E. (\<exists>p<next. data_at (tr_store T) p e) \<and> be_search_key e \<notin> fst ` set (concat cs)"
  shows "\<exists>T' next' new. bulk_chunks C D sst config openings clock j cs T = (T', Inr ()) \<and>
    tree_inv C D T' next' (vs @ new) \<and> map tv_timestamp new = map clock [j..<j + length cs] \<and>
    latest_map (vs @ new) = rev (prefix_entries_of (concat ess)) @ latest_map vs \<and>
    (\<forall>e\<in>E \<union> set (concat ess). \<exists>p. data_at (tr_store T') p e)"
  using assms(5-)
proof (induction cs arbitrary: T "next" vs j ess E)
  case Nil
  then show ?case
    by (intro exI [of _ T] exI [of _ "next"] exI [of _ "[]"]) (auto simp: plan_def prefix_entries_of_def)
next
  case (Cons chunk cs)
  obtain es ess' where es: "bulk_entries C config (openings j) chunk = Inr es"
    "plan C config openings (Suc j) cs = Inr ess'" "ess = es # ess'"
    using Cons.prems(4) unfolding plan_Cons by blast
  have "distinct (map fst chunk)" "chunk \<noteq> []" "unat next + length chunk < 2 ^ 64" "length vs < 2 ^ 63"
    using Cons.prems(3,5-7) by simp_all
  from bulk_chunk_correct [OF assms(1-4) Cons.prems(1,2) this(4) es(1) this(2,1,3), of "clock j"]
  obtain T1 next1 v where T1: "bulk_chunk C D sst config (openings j) (clock j) chunk T = (T1, Inr ())"
    "tree_inv C D T1 next1 (vs @ [v])" "tv_timestamp v = clock j"
    "tv_map v = rev (prefix_entries_of es) @ latest_map vs" "tr_config T1 = config"
    "unat next1 \<le> unat next + length chunk" "next \<le> next1" "\<forall>e\<in>set es. \<exists>p<next1. data_at (tr_store T1) p e"
    "\<forall>p e. p < next \<and> data_at (tr_store T) p e \<and> be_search_key e \<notin> fst ` set chunk \<longrightarrow> data_at (tr_store T1) p e"
    by blast
  have keys: "be_search_key ` set es = fst ` set chunk"
    using arg_cong [OF bulk_entries_data(1) [OF es(1)], of set] by simp
  have "\<forall>e\<in>E \<union> set es. (\<exists>p<next1. data_at (tr_store T1) p e) \<and> be_search_key e \<notin> fst ` set (concat cs)"
  proof
    fix e assume e: "e \<in> E \<union> set es"
    show "(\<exists>p<next1. data_at (tr_store T1) p e) \<and> be_search_key e \<notin> fst ` set (concat cs)"
    proof (cases "e \<in> set es")
      case True
      then have "be_search_key e \<in> fst ` set chunk" unfolding keys [symmetric] by simp
      then show ?thesis using True T1(8) Cons.prems(6) by auto
    next
      case False
      then obtain p where "p < next" "data_at (tr_store T) p e" "be_search_key e \<notin> fst ` set (concat (chunk # cs))"
        using e Cons.prems(8) by blast
      moreover from this(3) have "be_search_key e \<notin> fst ` set chunk" by auto
      with T1(9) calculation have "data_at (tr_store T1) p e" by blast
      moreover have "p < next1" using less_le_trans [OF calculation(1) T1(7)] .
      ultimately show ?thesis by auto
    qed
  qed
  with Cons.IH [OF T1(2,5), of "Suc j" ess' "E \<union> set es"] es(2) Cons.prems(3,5-7) T1(6)
  obtain T2 next2 new where T2: "bulk_chunks C D sst config openings clock (Suc j) cs T1 = (T2, Inr ())"
    "tree_inv C D T2 next2 ((vs @ [v]) @ new)" "map tv_timestamp new = map clock [Suc j..<Suc j + length cs]"
    "latest_map ((vs @ [v]) @ new) = rev (prefix_entries_of (concat ess')) @ latest_map (vs @ [v])"
    "\<forall>e\<in>(E \<union> set es) \<union> set (concat ess'). \<exists>p. data_at (tr_store T2) p e"
    by auto
  show ?case
    using T1(1,3,4) T2 es(3)
    by (intro exI [of _ T2] exI [of _ next2] exI [of _ "v # new"])
      (auto simp: and_st_def upt_conv_Cons prefix_entries_append latest_map_snoc simp del: upt_Suc)
qed

section \<open>Properties\<close>

text \<open>C31. Bulk population seals one version per chunk. On a tree that satisfies the invariant, with
  distinct labels, the build succeeds; each chunk adds one version with its timestamp; the last
  version's map is the old map with the leaves of all labels inserted in order; and afterwards the
  value, the opening and a history of the single version 0 of every label are stored at one
  position. The history is the same when the label had versions before.\<close>

theorem bulk_populate_seals_chunks:
  assumes "laws C D" and "sst_laws sst" and "tree_inv C D T nxt vs"
    and "config_signs C (tr_config T)" and "auditor_key_agrees (tr_config T)"
    and "0 < n" and "distinct (map fst labels)"
    and "length vs + length labels < 2 ^ 63" and "unat nxt + length labels < 2 ^ 64"
    and "plan C (tr_config T) openings 0 (chunks n labels) = Inr ess"
  shows "\<exists>T' nxt' new. bulk_populate C D sst (tr_config T) openings clock labels n T = (T', Inr ()) \<and>
    tree_inv C D T' nxt' (vs @ new) \<and> map tv_timestamp new = map clock [0..<length (chunks n labels)] \<and>
    latest_map (vs @ new) = rev (prefix_entries_of (concat ess)) @ latest_map vs \<and>
    (\<forall>e\<in>set (concat ess). \<exists>p. data_at (tr_store T') p e)"
proof -
  have "length vs + length (chunks n labels) < 2 ^ 63"
    using assms(8) length_chunks [of n labels] by simp
  moreover have "distinct (map fst (concat (chunks n labels)))" "unat nxt + length (concat (chunks n labels)) < 2 ^ 64"
    using assms(6,7,9) by (simp_all only: concat_chunks)
  ultimately have "\<exists>T' nxt' new. bulk_chunks C D sst (tr_config T) openings clock 0 (chunks n labels) T = (T', Inr ()) \<and>
      tree_inv C D T' nxt' (vs @ new) \<and> map tv_timestamp new = map clock [0..<0 + length (chunks n labels)] \<and>
      latest_map (vs @ new) = rev (prefix_entries_of (concat ess)) @ latest_map vs \<and>
      (\<forall>e\<in>{} \<union> set (concat ess). \<exists>p. data_at (tr_store T') p e)"
    using bulk_chunks_correct [OF assms(1,2,4,5,3) refl _ assms(10) chunks_not_empty] by blast
  then obtain T' nxt' new where T': "bulk_chunks C D sst (tr_config T) openings clock 0 (chunks n labels) T = (T', Inr ())"
    "tree_inv C D T' nxt' (vs @ new)" "map tv_timestamp new = map clock [0..<length (chunks n labels)]"
    "latest_map (vs @ new) = rev (prefix_entries_of (concat ess)) @ latest_map vs"
    "\<forall>e\<in>set (concat ess). \<exists>p. data_at (tr_store T') p e"
    unfolding add_0_left Un_empty_left by blast
  have "bulk_populate C D sst (tr_config T) openings clock labels n T = (T', Inr ())"
    using T'(1) assms(6) by (auto simp: bulk_populate_def chunks.simps [of n "[]"])
  then show ?thesis using T' by blast
qed

lemma sample_bulk_entry:
  "\<exists>e. bulk_crypto sample_crypto sample_private_config (\<lambda>i. replicate 16 0) (i, [l], [v]) = Inr e"
  by (simp add: bulk_crypto_def config_vrf_prove_def sample_crypto_def construct_vrf_input_def opaque_u8_def
      opaque_u32_def U32_MAX_def commit_def commitment_value_def res_simps)

lemma bulk_populate_seals_chunks_witness:
  "\<exists>T' nxt' new. bulk_populate sample_crypto sample_codec sample_sst sample_private_config (\<lambda>j i. replicate 16 0)
      (\<lambda>j. 9) [([1], [5]), ([2], [6])] 1 (sample_tree empty_store) = (T', Inr ()) \<and>
    tree_inv sample_crypto sample_codec T' nxt' new \<and> map tv_timestamp new = [9, 9]"
proof -
  obtain e1 e2 where "bulk_crypto sample_crypto sample_private_config (\<lambda>i. replicate 16 0) (0, [1], [5]) = Inr e1"
    "bulk_crypto sample_crypto sample_private_config (\<lambda>i. replicate 16 0) (0, [2], [6]) = Inr e2"
    using sample_bulk_entry by meson
  moreover have chunks: "chunks 1 [([1], [5]), ([2], [6])] = [[([1], [5 :: 8 word])], [([2 :: 8 word], [6])]]"
    by (simp add: chunks.simps)
  ultimately have "plan sample_crypto sample_private_config (\<lambda>j i. replicate 16 0) 0
      (chunks 1 [([1], [5]), ([2], [6])]) = Inr [[e1], [e2]]"
    by (simp add: plan_def bulk_entries_def)
  moreover have "laws sample_crypto sample_codec"
    using sample_codec_laws by (simp add: laws_def vrf_ok_def sample_crypto_def)
  moreover have "auditor_key_agrees sample_private_config"
    by (simp add: auditor_key_agrees_def sample_private_config_def)
  ultimately show ?thesis
    using bulk_populate_seals_chunks [OF _ sample_sst_laws sample_inv, of 1 "[([1], [5]), ([2], [6])]"
        "\<lambda>j i. replicate 16 0" "[[e1], [e2]]" "\<lambda>j. 9"]
    by (simp add: sample_signs chunks del: One_nat_def) (metis upt_rec)
qed

end
