(* ===== verification/ParallelProps.thy ===== *)
theory ParallelProps
  imports BulkProps
begin

text \<open>
  The parallel build: partition numbers are the first \<open>k\<close> bits of an index, the merged
  entries represent the whole map when every partition has an entry, and a label is lost when
  the partition a copath node names is empty.
\<close>

unbundle bit_operations_syntax

section \<open>Partition numbers\<close>

fun path :: "nat \<Rightarrow> nat \<Rightarrow> nat list" where
  "path 0 p = []"
| "path (Suc d) p = path d (p div 2) @ [p mod 2]"

lemma length_path [simp]: "length (path d p) = d"
  by (induction d arbitrary: p) simp_all

lemma partition_id_Suc: "partition_id index (Suc k) = 2 * partition_id index k + get_bit index k"
proof -
  have "push_bit 1 x OR b = 2 * x + b" if "b \<le> 1" for x b :: nat
    using that by (cases "b = 0") (simp_all add: push_bit_eq_mult or_Suc_0_eq le_Suc_eq mult.commute)
  then show ?thesis using get_bit_le_1 by (simp add: partition_id_def)
qed

lemma partition_id_less: "partition_id index k < 2 ^ k"
proof (induction k)
  case (Suc k)
  then show ?case using get_bit_le_1 [of index k] by (simp add: partition_id_Suc)
qed (simp add: partition_id_def)

lemma path_partition: "k \<le> 256 \<Longrightarrow> path k (partition_id index k) = take k (key_bits index)"
proof (induction k)
  case (Suc k)
  have "(2 * partition_id index k + get_bit index k) div 2 = partition_id index k"
    "(2 * partition_id index k + get_bit index k) mod 2 = get_bit index k"
    using get_bit_le_1 [of index k] by auto
  then show ?case using Suc by (simp add: partition_id_Suc take_Suc_key_bits)
qed (simp add: partition_id_def)

lemma path_inj: "path k p = path k q \<Longrightarrow> p < 2 ^ k \<Longrightarrow> q < 2 ^ k \<Longrightarrow> p = q"
proof (induction k arbitrary: p q)
  case (Suc k)
  then have "p div 2 = q div 2" "p mod 2 = q mod 2" by auto
  then show ?case by (metis div_mult_mod_eq)
qed simp

lemma partition_id_iff:
  assumes "k \<le> 256" and "p < 2 ^ k"
  shows "partition_id index k = p \<longleftrightarrow> take k (key_bits index) = path k p"
  using path_partition [OF assms(1), of index] path_inj [OF _ partition_id_less assms(2), of index] by metis

lemma take_path: "d \<le> k \<Longrightarrow> take d (path k p) = path d (drop_bit (k - d) p)"
proof (induction k arbitrary: p)
  case (Suc k)
  show ?case
  proof (cases "d = Suc k")
    case False
    then have "d \<le> k" using Suc.prems by simp
    then show ?thesis using Suc.IH [of "p div 2"] by (simp add: Suc_diff_le drop_bit_Suc)
  qed simp
qed simp

lemma path_flip: "path (Suc d) (q XOR 1) = path d (q div 2) @ [1 - q mod 2]"
proof -
  have "(q XOR 1) div 2 = q div 2"
    by (rule bit_eqI) (auto simp: bit_simps simp flip: bit_Suc)
  moreover have "odd (q XOR 1) \<longleftrightarrow> even q" by (simp add: xor_Suc_0_eq)
  then have "(q XOR 1) mod 2 = 1 - q mod 2" by (simp add: mod2_eq_if)
  ultimately show ?thesis by simp
qed

lemma sibling_path_number:
  assumes "k \<le> 256" and "d < k"
  shows "path (Suc d) (drop_bit (k - 1 - d) (partition_id index k) XOR 1) = sibling_path index d"
proof -
  let ?p = "partition_id index k"
  have "k - d = Suc (k - 1 - d)" using assms(2) by simp
  then have "drop_bit (k - 1 - d) ?p div 2 = drop_bit (k - d) ?p"
    by (simp add: drop_bit_Suc drop_bit_half)
  moreover have "take (Suc d) (path k ?p) = path (Suc d) (drop_bit (k - 1 - d) ?p)"
    using take_path [of "Suc d" k ?p] assms(2) by simp
  then have "drop_bit (k - 1 - d) ?p mod 2 = get_bit index d"
    using assms path_partition [OF assms(1), of index] by (simp add: take_Suc_key_bits)
  ultimately show ?thesis
    using path_flip [of d "drop_bit (k - 1 - d) ?p"] take_path [of d k ?p] assms path_partition [OF assms(1), of index]
    by (simp add: sibling_path_def)
qed

lemma drop_sibling_root:
  "drop_bit (k - 1 - d) (sibling_root_pid p d k) = drop_bit (k - 1 - d) p XOR 1"
proof -
  have "push_bit (k - 1 - d) 1 - 1 = (mask (k - 1 - d) :: nat)" by (simp add: mask_eq_exp_minus_1)
  then show ?thesis unfolding sibling_root_pid_def Let_def by (intro bit_eqI) (auto simp: bit_simps)
qed

lemma sibling_root_less:
  assumes "d < k" and "p < 2 ^ k"
  shows "sibling_root_pid p d k < 2 ^ k"
proof -
  let ?m = "k - 1 - d"
  have mask: "push_bit ?m 1 - 1 = (mask ?m :: nat)" by (simp add: mask_eq_exp_minus_1)
  have "take_bit k p = p" using assms(2) by (simp add: take_bit_nat_eq_self_iff)
  moreover have "take_bit k (push_bit ?m 1) = push_bit ?m (1 :: nat)" "take_bit k (mask ?m) = (mask ?m :: nat)"
    using assms(1) by (auto intro!: bit_eqI simp: bit_simps)
  ultimately have "take_bit k ((p XOR push_bit ?m 1) OR mask ?m) = (p XOR push_bit ?m 1) OR mask ?m"
    by (simp only: take_bit_or take_bit_xor)
  then show ?thesis unfolding sibling_root_pid_def Let_def mask by (simp only: take_bit_nat_eq_self_iff)
qed

section \<open>The subtrees\<close>

lemma insert_loop_indices:
  "insert_loop sha D st cached start ptr entries overlay = Inr (roots, results, batch, new, ptr') \<Longrightarrow>
    map (le_index \<circ> snd) new = map fst entries"
proof (induction entries arbitrary: start ptr overlay roots results batch new ptr')
  case (Cons entry entries)
  obtain index commitment where entry: "entry = (index, commitment)" by fastforce
  obtain rt res pos data obj where ins:
    "insert_internal sha D st cached start ptr index commitment overlay = Inr (rt, res, (pos, data), obj)"
    using Cons.prems by (auto simp: entry res_simps)
  moreover from this have "le_index obj = index" by (auto simp: res_simps insert_internal_def Let_def split: prod.splits)
  ultimately show ?case using Cons.prems Cons.IH by (auto simp: entry res_simps)
qed simp

definition encoded :: "codec \<Rightarrow> (u64 \<times> log_entry) list \<Rightarrow> (u64 \<times> bytes) list" where
  "encoded D new = map (\<lambda>(q, e). (q, enc_log_entry D e)) new"

lemma insert_partition:
  assumes "codec_laws D" and "cache_agrees D st cached" and "keys_ok es" and "es \<noteq> []"
    and "\<forall>p\<in>set (positions start (length es)). get_prefix st p = None" and "length es \<le> 2 ^ 64"
  shows "\<exists>new roots results cached'. batch_insert sha D start None es (st, cached) =
      ((put_prefix_batch (encoded D new) st, cached'), Inr (roots, results, last (positions start (length es)))) \<and>
    cache_agrees D (put_prefix_batch (encoded D new) st) cached' \<and>
    map fst new = positions start (length es) \<and> map (le_index \<circ> snd) new = map fst es \<and>
    list_all entry_in_range (map snd new) \<and> distinct (map fst new) \<and>
    rep_by (stored D (put_prefix_batch (encoded D new) st)) sha (Some (last (positions start (length es)))) (rev es)"
proof -
  have base: "overlaid D st Map.empty = stored D st" by (auto simp: overlaid_def)
  have free: "\<forall>p\<in>set (positions start (length es)). \<forall>e. stored D st p \<noteq> Inr e"
    using assms(5) by (auto simp: stored_def get_entry_def res_simps)
  have "rep_by (stored D st) sha None []" by (simp add: rep_by_def)
  from insert_loop_correct [of D st cached Map.empty sha None "[]" es start, unfolded base, OF assms(2) this assms(3) free assms(6)]
  obtain results new where ins: "insert_loop sha D st cached start None es Map.empty =
      Inr (map_roots sha [] es, results, encoded D new, new, Some (last (positions start (length es))))"
    "map fst new = positions start (length es)" "list_all entry_in_range (map snd new)"
    "distinct (map fst new)" "rep_by (overlaid D st (map_of new)) sha (Some (last (positions start (length es)))) (rev es)"
    using assms(4) by (auto simp: encoded_def)
  have stored: "stored D (put_prefix_batch (encoded D new) st) = overlaid D st (map_of new)"
    unfolding encoded_def by (rule stored_put_encoded [OF assms(1) ins(4,3)])
  have "\<forall>q\<in>fst ` set new. \<forall>e. stored D st q \<noteq> Inr e"
    using free unfolding set_map [symmetric] ins(2) by blast
  from cache_agrees_after [OF assms(2) this ins(4) stored]
  show ?thesis
    using ins insert_loop_indices [OF ins(1)] unfolding stored
    by (intro exI [of _ new] exI [of _ "map_roots sha [] es"] exI [of _ results]
        exI [of _ "fold (\<lambda>(k, v) c. c(k \<mapsto> v)) new cached"]) (simp add: batch_insert_def stored)
qed

lemma get_prefix_put:
  "get_prefix (put_prefix_batch batch st) q = (case map_of (rev batch) q of Some b \<Rightarrow> Some b | None \<Rightarrow> get_prefix st q)"
  by (simp add: put_batch_eq kv_prefix.get_put_list)

lemma get_prefix_elsewhere: "q \<notin> fst ` set batch \<Longrightarrow> get_prefix (put_prefix_batch batch st) q = get_prefix st q"
proof -
  assume "q \<notin> fst ` set batch"
  then have "map_of (rev batch) q = None" by (simp add: map_of_eq_None_iff)
  then show ?thesis by (simp add: get_prefix_put)
qed

lemma stored_put_fresh:
  assumes "\<forall>q\<in>fst ` set batch. get_prefix st q = None" and "stored D st q = Inr e"
  shows "stored D (put_prefix_batch batch st) q = Inr e"
proof -
  have "get_prefix st q \<noteq> None" using assms(2) by (auto simp: stored_def get_entry_def res_simps)
  then have "q \<notin> fst ` set batch" using assms(1) by auto
  then show ?thesis using assms(2) by (simp add: stored_def get_entry_def get_prefix_elsewhere)
qed

lemma put_prefix_batch_append:
  "put_prefix_batch (b @ b') st = put_prefix_batch b' (put_prefix_batch b st)"
  by (simp add: put_prefix_batch_def put_all_def)

lemma encoded_simps [simp]:
  "encoded D [] = []" "encoded D (xs @ ys) = encoded D xs @ encoded D ys" "fst ` set (encoded D xs) = fst ` set xs"
  by (force simp: encoded_def)+

definition claims :: "(u64 \<times> bulk_entry list) list \<Rightarrow> u64 list" where
  "claims parts = concat (map (\<lambda>(s, part). positions s (length part)) parts)"

definition root_of :: "u64 \<times> bulk_entry list \<Rightarrow> u64 option" where
  "root_of sp = (case sp of (s, part) \<Rightarrow> if part = [] then None else Some (last (positions s (length part))))"

definition written :: "u64 \<times> bulk_entry list \<Rightarrow> (u64 \<times> log_entry) list \<Rightarrow> bool" where
  "written sp new \<longleftrightarrow> (case sp of (s, part) \<Rightarrow> map fst new = positions s (length part) \<and>
     map (le_index \<circ> snd) new = map be_index part \<and> list_all entry_in_range (map snd new))"

lemma claims_written: "list_all2 written parts news \<Longrightarrow> map fst (concat news) = claims parts"
  by (induction rule: list_all2_induct) (auto simp: claims_def written_def)

lemma build_subtrees_correct:
  assumes "codec_laws D" and "cache_agrees D (tr_store T) (tr_node_cache T)"
    and "\<forall>(s, part)\<in>set parts. keys_ok (prefix_entries_of part) \<and> length part \<le> 2 ^ 64"
    and "distinct (claims parts)" and "\<forall>q\<in>set (claims parts). get_prefix (tr_store T) q = None"
  shows "\<exists>news cache st. build_subtrees C D parts T =
      (T\<lparr>tr_store := st, tr_node_cache := cache\<rparr>, map (\<lambda>sp. Inr (root_of sp)) parts) \<and>
    st = put_prefix_batch (encoded D (concat news)) (tr_store T) \<and> cache_agrees D st cache \<and>
    list_all2 written parts news \<and>
    (\<forall>(s, part)\<in>set parts. part \<noteq> [] \<longrightarrow> rep_by (stored D st) (sha256 C)
       (Some (last (positions s (length part)))) (rev (prefix_entries_of part)))"
  using assms(2-)
proof (induction parts arbitrary: T)
  case Nil
  have "put_prefix_batch [] st = st" for st by (simp add: put_prefix_batch_def put_all_def)
  then show ?case using Nil by (intro exI [of _ "[]"] exI [of _ "tr_node_cache T"] exI [of _ "tr_store T"]) simp
next
  case (Cons sp parts)
  obtain s part where sp: "sp = (s, part)" by fastforce
  have parts: "claims (sp # parts) = positions s (length part) @ claims parts" by (simp add: claims_def sp)
  show ?case
  proof (cases "part = []")
    case True
    then have w: "written sp []" "claims (sp # parts) = claims parts" using parts by (simp_all add: written_def sp)
    from Cons.IH [OF Cons.prems(1)] Cons.prems(2-4) w(2)
    obtain news cache st where "build_subtrees C D parts T =
        (T\<lparr>tr_store := st, tr_node_cache := cache\<rparr>, map (\<lambda>sp. Inr (root_of sp)) parts)"
      "st = put_prefix_batch (encoded D (concat news)) (tr_store T)" "cache_agrees D st cache"
      "list_all2 written parts news" "\<forall>(s, part)\<in>set parts. part \<noteq> [] \<longrightarrow> rep_by (stored D st) (sha256 C)
       (Some (last (positions s (length part)))) (rev (prefix_entries_of part))"
      by auto
    with True w(1) show ?thesis
      by (intro exI [of _ "[] # news"] exI [of _ cache] exI [of _ st]) (simp add: sp root_of_def)
  next
    case False
    let ?es = "prefix_entries_of part" and ?st = "tr_store T"
    have es: "keys_ok ?es" "?es \<noteq> []" "length ?es = length part" "length ?es \<le> 2 ^ 64"
      "\<forall>p\<in>set (positions s (length ?es)). get_prefix ?st p = None" "map fst ?es = map be_index part"
      using Cons.prems(2) False Cons.prems(4) [unfolded parts] by (auto simp: sp prefix_entries_of_def)
    from insert_partition [OF assms(1) Cons.prems(1) es(1,2,5,4), of "sha256 C"]
    obtain new roots results cached where ins: "batch_insert (sha256 C) D s None ?es (?st, tr_node_cache T) =
        ((put_prefix_batch (encoded D new) ?st, cached), Inr (roots, results, last (positions s (length part))))"
      "cache_agrees D (put_prefix_batch (encoded D new) ?st) cached" "map fst new = positions s (length part)"
      "map (le_index \<circ> snd) new = map be_index part" "list_all entry_in_range (map snd new)"
      "rep_by (stored D (put_prefix_batch (encoded D new) ?st)) (sha256 C) (Some (last (positions s (length part)))) (rev ?es)"
      unfolding es(3,6) by blast
    let ?T = "T\<lparr>tr_store := put_prefix_batch (encoded D new) ?st, tr_node_cache := cached\<rparr>"
    have rest: "\<forall>q\<in>set (claims parts). get_prefix (tr_store ?T) q = None"
    proof
      fix q assume q: "q \<in> set (claims parts)"
      then have "q \<notin> set (map fst new)" using Cons.prems(3) unfolding parts ins(3) by auto
      then show "get_prefix (tr_store ?T) q = None" using Cons.prems(4) q by (simp add: get_prefix_elsewhere parts)
    qed
    have "distinct (claims parts)" using Cons.prems(3) by (simp add: parts)
    from Cons.IH [of ?T, OF _ _ this rest] ins(2) Cons.prems(2)
    obtain news cache st where IH: "build_subtrees C D parts ?T =
        (?T\<lparr>tr_store := st, tr_node_cache := cache\<rparr>, map (\<lambda>sp. Inr (root_of sp)) parts)"
      "st = put_prefix_batch (encoded D (concat news)) (tr_store ?T)" "cache_agrees D st cache"
      "list_all2 written parts news" "\<forall>(s, part)\<in>set parts. part \<noteq> [] \<longrightarrow> rep_by (stored D st) (sha256 C)
       (Some (last (positions s (length part)))) (rev (prefix_entries_of part))"
      by auto
    have "rep_by (stored D st) (sha256 C) (Some (last (positions s (length part)))) (rev ?es)"
    proof (rule rep_by_more [OF ins(6)])
      fix q e assume "stored D (put_prefix_batch (encoded D new) ?st) q = Inr e"
      moreover have "fst ` set (encoded D (concat news)) = set (claims parts)"
        using arg_cong [OF claims_written [OF IH(4)], of set] by simp
      ultimately show "stored D st q = Inr e"
        using stored_put_fresh [of "encoded D (concat news)" "tr_store ?T" D q e] rest unfolding IH(2) by simp
    qed
    moreover have "written sp new" using ins(3-5) by (simp add: sp written_def)
    ultimately show ?thesis
      using IH False ins(1)
      by (intro exI [of _ "new # news"] exI [of _ cache] exI [of _ st])
        (simp add: sp root_of_def insert_step_def joined_def put_prefix_batch_append)
  qed
qed

section \<open>Merged entries\<close>

lemma agree_path:
  assumes "keys_ok kvs" and "keys_ok kvs'" and "k \<le> length p" and "length p \<le> 256"
    and agree: "\<And>key. take k (key_bits key) = take k p \<Longrightarrow> map_of kvs' key = map_of kvs key"
  shows "occupied kvs' p \<longleftrightarrow> occupied kvs p" and "subtree_hash sha kvs' p = subtree_hash sha kvs p"
proof -
  have below: "map_of kvs' key = map_of kvs key" if "take (length p) (key_bits key) = p" for key
  proof (rule agree)
    have "take k (take (length p) (key_bits key)) = take k p" using that by simp
    then show "take k (key_bits key) = take k p" using assms(3) by (simp add: min_absorb1)
  qed
  show "subtree_hash sha kvs' p = subtree_hash sha kvs p"
    unfolding subtree_hash_def using level_hash_agree [OF assms(1,2) below] assms(4) by simp
  have "key \<in> fst ` set kvs' \<longleftrightarrow> key \<in> fst ` set kvs" if "take (length p) (key_bits key) = p" for key
    using below [OF that] by (metis map_of_eq_None_iff)
  then show "occupied kvs' p \<longleftrightarrow> occupied kvs p" unfolding occupied_iff by blast
qed

lemma take_sibling_path: "k \<le> j \<Longrightarrow> j < 256 \<Longrightarrow> take k (sibling_path key j) = take k (key_bits key)"
  by (simp add: sibling_path_def min_absorb1)

definition merged :: "(nat \<Rightarrow> parent_node list) \<Rightarrow> nat \<Rightarrow> log_entry \<Rightarrow> log_entry" where
  "merged pre k e = e\<lparr>le_copath := pre (partition_id (le_index e) k) @ drop k (le_copath e)\<rparr>"

lemma merged_represents:
  assumes "represents get sha kvs lv e" and "k \<le> lv" and "k \<le> 256"
    and keys: "keys_ok kvs" "keys_ok kvs'" and pre: "\<And>p. p < 2 ^ k \<Longrightarrow> length (pre p) = k"
    and more: "\<And>q e. get q = Inr e \<Longrightarrow> get' q = Inr (merged pre k e)"
    and agree: "\<And>key. take k (key_bits key) = pth \<Longrightarrow> map_of kvs' key = map_of kvs key"
    and "take k (key_bits (le_index e)) = pth"
  shows "represents get' sha kvs' lv (merged pre k e)"
  using assms(1,2,9)
proof (induction rule: represents.induct)
  case (representsI e l lv)
  have len: "length (pre (partition_id (le_index e) k)) = k" using pre partition_id_less by blast
  have nodes: "le_copath (merged pre k e) ! j = le_copath e ! j" if "k \<le> j" "j < length (le_copath e)" for j
    using that len by (auto simp: merged_def nth_append)
  have below: "j < length (le_copath (merged pre k e)) \<longleftrightarrow> j < length (le_copath e)" if "k \<le> j" for j
    using that len by (auto simp: merged_def)
  have same: "occupied kvs' (sibling_path (le_index e) j) \<longleftrightarrow> occupied kvs (sibling_path (le_index e) j)"
    "subtree_hash sha kvs' (sibling_path (le_index e) j) = subtree_hash sha kvs (sibling_path (le_index e) j)"
    if "k \<le> j" "j < 256" for j
    using agree_path [OF keys, of k "sibling_path (le_index e) j"] agree that representsI.prems(2)
    by (simp_all add: take_sibling_path)
  show ?case
  proof (rule represents.representsI)
    show "length (le_index (merged pre k e)) = 32" "le_leaf (merged pre k e) = Some l"
      using representsI.hyps by (simp_all add: merged_def)
    show "map_of kvs' (le_index (merged pre k e)) = Some (ln_commitment l)"
      using representsI.hyps(3) agree representsI.prems(2) by (simp add: merged_def)
    show "length (le_copath (merged pre k e)) \<le> 256"
      using len representsI.hyps(4) assms(3) by (simp add: merged_def)
  next
    fix j assume j: "lv \<le> j" "j < length (le_copath (merged pre k e))"
    then have j': "k \<le> j" "j < length (le_copath e)" "j < 256"
      using representsI.prems(1) below [of j] representsI.hyps(4) by auto
    then show "pn_hash (le_copath (merged pre k e) ! j) = subtree_hash sha kvs' (sibling_path (le_index (merged pre k e)) j)"
      using representsI.hyps(5) [OF j(1)] nodes same by (simp add: merged_def)
    show "\<not> occupied kvs' (sibling_path (le_index (merged pre k e)) j)"
      if "pn_ptr (le_copath (merged pre k e) ! j) = None"
      using representsI.hyps(6) [OF j(1)] nodes same that j' by (simp add: merged_def)
    show "\<exists>e'. get' ptr = Inr e' \<and> take (Suc j) (key_bits (le_index e')) = sibling_path (le_index (merged pre k e)) j \<and>
        represents get' sha kvs' (Suc j) e'" if ptr: "pn_ptr (le_copath (merged pre k e) ! j) = Some ptr" for ptr
    proof -
      have "pn_ptr (le_copath e ! j) = Some ptr" using ptr nodes j' by simp
      from representsI.IH [OF j(1) j'(2) this] obtain e' where e': "get ptr = Inr e'"
        "take (Suc j) (key_bits (le_index e')) = sibling_path (le_index e) j"
        "k \<le> Suc j \<longrightarrow> take k (key_bits (le_index e')) = pth \<longrightarrow> represents get' sha kvs' (Suc j) (merged pre k e')"
        by blast
      have "take k (key_bits (le_index e')) = take k (take (Suc j) (key_bits (le_index e')))" using j'(1) by (simp add: min_absorb1)
      also have "\<dots> = pth" unfolding e'(2) using take_sibling_path j' representsI.prems(2) by simp
      finally have "represents get' sha kvs' (Suc j) (merged pre k e')" using e'(3) j'(1) by simp
      then show ?thesis using more [OF e'(1)] e'(2) by (auto simp: merged_def)
    qed
  next
    fix j assume j: "lv \<le> j" "length (le_copath (merged pre k e)) \<le> j" "j < 256"
    then have "k \<le> j" using representsI.prems(1) by simp
    moreover from this have "length (le_copath e) \<le> j" using below [of j] j(2) by simp
    ultimately show "\<not> occupied kvs' (sibling_path (le_index (merged pre k e)) j)"
      using representsI.hyps(7) [OF j(1) _ j(3)] same j(3) by (simp add: merged_def)
  qed
qed

section \<open>The tree over the partitions\<close>

lemma path_double: "path (Suc d) (2 * j) = path d j @ [0]" "path (Suc d) (2 * j + 1) = path d j @ [1]"
  by simp_all

lemma length_build_hash_tree [simp]: "length (build_hash_tree sha hashes k) = Suc k"
  by (induction k arbitrary: hashes) simp_all

lemma build_hash_tree_nth:
  assumes "k \<le> 256" and "\<And>d j. d < k \<Longrightarrow> j < 2 ^ d \<Longrightarrow> occupied kvs (path d j)" and "d \<le> k" and "j < 2 ^ d"
  shows "build_hash_tree sha (map (\<lambda>j. subtree_hash sha kvs (path k j)) [0..<2 ^ k]) k ! d ! j =
    subtree_hash sha kvs (path d j)"
  using assms
proof (induction k)
  case (Suc k)
  let ?hashes = "map (\<lambda>j. subtree_hash sha kvs (path (Suc k) j)) [0..<2 ^ Suc k]"
  have "hash_pairs sha ?hashes (2 ^ k) = map (\<lambda>j. subtree_hash sha kvs (path k j)) [0..<2 ^ k]"
    unfolding hash_pairs_def
  proof (rule map_cong [OF refl])
    fix j assume "j \<in> set [0..<2 ^ k]"
    then have j: "j < 2 ^ k" by simp
    then have "2 * j < 2 ^ Suc k" "2 * j + 1 < 2 ^ Suc k" by simp_all
    then have "?hashes ! (2 * j) = subtree_hash sha kvs (path k j @ [0])"
      "?hashes ! (2 * j + 1) = subtree_hash sha kvs (path k j @ [1])"
      using path_double [of k j] by (simp_all del: path.simps)
    then show "parent_hash sha (?hashes ! (2 * j)) (?hashes ! (2 * j + 1)) = subtree_hash sha kvs (path k j)"
      using subtree_hash_step [of kvs "path k j" sha] Suc.prems(1,2) j by simp
  qed
  then have tree: "build_hash_tree sha ?hashes (Suc k) =
      build_hash_tree sha (map (\<lambda>j. subtree_hash sha kvs (path k j)) [0..<2 ^ k]) k @ [?hashes]"
    by (simp only: build_hash_tree.simps)
  show ?case
  proof (cases "d = Suc k")
    case True
    then have "build_hash_tree sha ?hashes (Suc k) ! d = ?hashes" unfolding tree by (simp add: nth_append del: path.simps)
    then show ?thesis using Suc.prems(4) True by (simp del: path.simps build_hash_tree.simps)
  next
    case False
    then have "d \<le> k" using Suc.prems(3) by simp
    then have "build_hash_tree sha ?hashes (Suc k) ! d =
        build_hash_tree sha (map (\<lambda>j. subtree_hash sha kvs (path k j)) [0..<2 ^ k]) k ! d"
      unfolding tree by (simp add: nth_append del: path.simps)
    then show ?thesis using Suc.IH Suc.prems \<open>d \<le> k\<close> by simp
  qed
qed simp

lemma merge_correct:
  fixes r :: "nat \<Rightarrow> log_entry" and kv :: "nat \<Rightarrow> key_map"
  assumes "k \<le> 256" and "keys_ok kvs"
    and reps: "\<And>p. p < 2 ^ k \<Longrightarrow> get (rpos p) = Inr (r p) \<and> represents get sha (kv p) 0 (r p)"
    and own: "\<And>p. p < 2 ^ k \<Longrightarrow> keys_ok (kv p) \<and> partition_id (le_index (r p)) k = p"
    and agree: "\<And>p key. p < 2 ^ k \<Longrightarrow> partition_id key k = p \<Longrightarrow> map_of kvs key = map_of (kv p) key"
    and more: "\<And>q e. get q = Inr e \<Longrightarrow> get' q = Inr (merged pre k e)"
  defines "hashes \<equiv> map (\<lambda>p. rollup sha (r p) k) [0..<2 ^ k]"
  assumes pre: "pre = (\<lambda>p. merge_copath_for_partition p k (build_hash_tree sha hashes k)
      (map (\<lambda>p. Some (rpos p)) [0..<2 ^ k]))"
  shows "build_hash_tree sha hashes k ! 0 ! 0 = map_root sha kvs"
    and "p < 2 ^ k \<Longrightarrow> represents get' sha kvs 0 (merged pre k (r p))"
proof -
  have bits: "take k (key_bits (le_index (r p))) = path k p" if "p < 2 ^ k" for p
    using path_partition [OF assms(1), of "le_index (r p)"] own [OF that] by simp
  have agree': "map_of kvs key = map_of (kv p) key" if "p < 2 ^ k" "take k (key_bits key) = path k p" for p key
    using agree that partition_id_iff [OF assms(1) that(1)] by blast
  have hashes: "hashes = map (\<lambda>j. subtree_hash sha kvs (path k j)) [0..<2 ^ k]"
    unfolding hashes_def
  proof (rule map_cong [OF refl])
    fix p assume "p \<in> set [0..<2 ^ k]"
    then have p: "p < 2 ^ k" by simp
    then have "rollup sha (r p) k = subtree_hash sha (kv p) (path k p)"
      using rollup_eq [of get sha "kv p" 0 "r p" k] reps own assms(1) bits by simp
    also have "\<dots> = subtree_hash sha kvs (path k p)"
      using agree_path(2) [of "kv p" kvs k "path k p" sha] own p assms(1,2) agree' by simp
    finally show "rollup sha (r p) k = subtree_hash sha kvs (path k p)" .
  qed
  have occ: "occupied kvs (path d j)" if "d \<le> k" "j < 2 ^ d" for d j
  proof -
    let ?p = "push_bit (k - d) j"
    have p: "?p < 2 ^ k"
    proof -
      have "j * 2 ^ (k - d) < 2 ^ d * 2 ^ (k - d)" using that(2) by simp
      then show ?thesis using that(1) by (simp add: push_bit_eq_mult flip: power_add)
    qed
    then obtain c where "map_of (kv ?p) (le_index (r ?p)) = Some c"
      using reps [OF p] by (auto simp: represents_iff [of get sha])
    then have "occupied kvs (take d (key_bits (le_index (r ?p))))"
      using agree' [OF p bits [OF p]] by (intro occupied_key) simp
    moreover have "take d (take k (key_bits (le_index (r ?p)))) = path d j"
      unfolding bits [OF p] using take_path [OF that(1), of ?p] by (simp add: drop_bit_push_bit)
    ultimately show ?thesis using that(1) by (simp add: min_absorb1)
  qed
  have tree: "build_hash_tree sha hashes k ! d ! j = subtree_hash sha kvs (path d j)" if "d \<le> k" "j < 2 ^ d" for d j
    unfolding hashes by (rule build_hash_tree_nth) (use assms(1) occ that in auto)
  show "build_hash_tree sha hashes k ! 0 ! 0 = map_root sha kvs"
    using tree [of 0 0] by (simp add: map_root_def)
  have len: "length (pre p) = k" for p by (simp add: pre merge_copath_for_partition_def)
  have "\<forall>p<2 ^ k. represents get' sha kvs (k - n) (merged pre k (r p))" if "n \<le> k" for n
    using that
  proof (induction n)
    case 0
    show ?case
    proof (intro allI impI)
      fix p :: nat assume p: "p < 2 ^ k"
      have "represents get sha (kv p) k (r p)" using represents_sub [of get sha "kv p" 0 "r p" k] reps [OF p] by simp
      then show "represents get' sha kvs (k - 0) (merged pre k (r p))"
        using merged_represents [of get sha "kv p" k "r p" k kvs pre get' "path k p"] p assms(1,2) own len more agree' bits
        by simp
    qed
  next
    case (Suc n)
    define d where "d = k - Suc n"
    have d: "d < k" "k - n = Suc d" using Suc.prems by (simp_all add: d_def)
    have IH: "represents get' sha kvs (Suc d) (merged pre k (r p))" if "p < 2 ^ k" for p
      using Suc that unfolding d(2) [symmetric] by simp
    show ?case
      unfolding d_def [symmetric]
    proof (intro allI impI)
      fix p :: nat assume p: "p < 2 ^ k"
      let ?e = "merged pre k (r p)" and ?s = "sibling_root_pid p d k"
      let ?sib = "drop_bit (k - 1 - d) p XOR 1"
      have s: "?s < 2 ^ k" by (rule sibling_root_less [OF d(1) p])
      have sib: "path (Suc d) ?sib = sibling_path (le_index (r p)) d"
        using sibling_path_number [OF assms(1) d(1), of "le_index (r p)"] own [OF p] by simp
      have "drop_bit (k - 1 - d) ?s < 2 ^ Suc d"
      proof -
        have "2 ^ Suc d * 2 ^ (k - 1 - d) = (2 ^ k :: nat)" using d(1) by (simp flip: power_add power_Suc)
        then show ?thesis using s unfolding drop_bit_eq_div by (intro less_mult_imp_div_less) simp
      qed
      then have "build_hash_tree sha hashes k ! Suc d ! ?sib = subtree_hash sha kvs (sibling_path (le_index (r p)) d)"
        using tree [of "Suc d" ?sib] d(1) unfolding drop_sibling_root sib by simp
      moreover have "take (Suc d) (key_bits (le_index (r ?s))) = sibling_path (le_index (r p)) d"
      proof -
        have "take (Suc d) (take k (key_bits (le_index (r ?s)))) = path (Suc d) (drop_bit (k - Suc d) ?s)"
          unfolding bits [OF s] using take_path [of "Suc d" k ?s] d(1) by (simp del: path.simps)
        also have "\<dots> = path (Suc d) ?sib" using drop_sibling_root [of k d p] by (simp del: path.simps)
        finally show ?thesis using sib d(1) by (simp add: min_absorb1 del: path.simps)
      qed
      moreover have "get' (rpos ?s) = Inr (merged pre k (r ?s))" using more reps [OF s] by blast
      moreover have "le_copath ?e ! d = \<lparr>pn_hash = build_hash_tree sha hashes k ! Suc d ! ?sib,
          pn_ptr = Some (rpos ?s), pn_first_update_position = Some (rpos ?s)\<rparr>"
        using own [OF p] d(1) len s by (simp add: merged_def nth_append pre merge_copath_for_partition_def Let_def)
      ultimately have "node_at get' sha kvs (sibling_path (le_index ?e) d) (le_copath ?e ! d)"
        using IH [OF s] d(1) assms(1) by (simp add: node_at_def merged_def)
      moreover have "d < length (le_copath ?e)" using d(1) len by (simp add: merged_def)
      ultimately show "represents get' sha kvs d ?e"
        using IH [OF p] unfolding represents_iff [of get' sha kvs]
        by (metis Suc_leI le_less le_neq_implies_less leD)
    qed
  qed
  from this [of k] show "p < 2 ^ k \<Longrightarrow> represents get' sha kvs 0 (merged pre k (r p))" by simp
qed

section \<open>Partitions of the entries\<close>

lemma positions_add: "positions start (m + n) = positions start m @ positions (start + word_of_nat m) n"
  by (induction m arbitrary: start) (simp_all add: ac_simps)

lemma pos_offsets_snoc:
  "pos_offsets (ps @ [x]) = pos_offsets ps @ [word_of_nat (sum_list (map length ps) + length x)]"
proof -
  have "map (\<lambda>p. word_of_nat (sum_list (map length (take p (ps @ [x]))))) [0..<length ps + 1] = pos_offsets ps"
    unfolding pos_offsets_def by (intro map_cong refl) (auto simp: less_Suc_eq)
  then show ?thesis by (simp add: pos_offsets_def)
qed

lemma length_pos_offsets [simp]: "length (pos_offsets ps) = Suc (length ps)"
  by (simp add: pos_offsets_def)

lemma last_pos_offsets: "last (pos_offsets ps) = word_of_nat (sum_list (map length ps))"
  by (simp add: pos_offsets_def)

lemma zip_take_left: "zip (take (length ys) xs) ys = zip xs ys"
proof (induction ys arbitrary: xs)
  case (Cons y ys)
  then show ?case by (cases xs) simp_all
qed simp

lemma claims_partitions:
  "claims (zip (map ((+) start) (pos_offsets ps)) ps) = positions start (sum_list (map length ps))"
proof (induction ps rule: rev_induct)
  case (snoc x ps)
  have nth: "pos_offsets ps ! length ps = word_of_nat (sum_list (map length ps))"
    by (simp add: pos_offsets_def nth_append)
  have split: "map ((+) start) (pos_offsets ps) =
      take (length ps) (map ((+) start) (pos_offsets ps)) @ [start + word_of_nat (sum_list (map length ps))]"
    using id_take_nth_drop [of "length ps" "map ((+) start) (pos_offsets ps)"] by (simp add: nth)
  have "zip (map ((+) start) (pos_offsets (ps @ [x]))) (ps @ [x]) =
      zip (map ((+) start) (pos_offsets ps)) ps @ [(start + word_of_nat (sum_list (map length ps)), x)]"
    unfolding pos_offsets_snoc map_append zip_append2 by (subst (2) split, simp add: nth zip_take_left)
  then show ?case using snoc by (simp add: claims_def positions_add)
qed (simp add: claims_def)

lemma mset_concat_filters:
  "mset (concat (map (\<lambda>p. filter (\<lambda>e. f e = p) xs) [0..<n])) = mset (filter (\<lambda>e. f e < n) xs)"
proof (induction n)
  case (Suc n)
  have "{#e \<in># mset xs. f e < Suc n#} = {#e \<in># mset xs. f e < n#} + {#e \<in># mset xs. f e = n#}"
    by (rule multiset_eqI) auto
  then show ?case using Suc by simp
qed simp

lemma mset_partitions: "mset (concat (partitions_of k es)) = mset es"
  unfolding partitions_of_def mset_concat_filters using partition_id_less by simp

lemma filter_partitions:
  "p < n \<Longrightarrow> filter (\<lambda>e. f e = p) (concat (map (\<lambda>p. filter (\<lambda>e. f e = p) xs) [0..<n])) = filter (\<lambda>e. f e = p) xs"
proof (induction n)
  case (Suc n)
  have "filter (\<lambda>e. f e = p) (filter (\<lambda>e. f e = n) xs) = (if p = n then filter (\<lambda>e. f e = n) xs else [])"
    by (induction xs) auto
  moreover have "filter (\<lambda>e. f e = n) (concat (map (\<lambda>p. filter (\<lambda>e. f e = p) xs) [0..<n])) = []"
    by (auto simp: filter_empty_conv)
  ultimately show ?case using Suc by (cases "p = n") simp_all
qed simp

lemma map_of_filter_key: "P key \<Longrightarrow> map_of (filter (\<lambda>e. P (fst e)) xs) key = map_of xs key"
  by (induction xs) auto

text \<open>A key is looked up among the entries of its partition.\<close>

lemma map_of_partition:
  "map_of (rev (prefix_entries_of xs)) key =
    map_of (rev (prefix_entries_of (filter (\<lambda>e. partition_id (be_index e) k = partition_id key k) xs))) key"
proof -
  have "filter (\<lambda>e. partition_id (fst e) k = partition_id key k) (rev (prefix_entries_of xs)) =
      rev (prefix_entries_of (filter (\<lambda>e. partition_id (be_index e) k = partition_id key k) xs))"
    by (simp add: prefix_entries_of_def rev_filter [symmetric] filter_map o_def)
  then show ?thesis
    using map_of_filter_key [of "\<lambda>x. partition_id x k = partition_id key k" key "rev (prefix_entries_of xs)"] by simp
qed

lemma map_of_partitions:
  "map_of (rev (prefix_entries_of (concat (partitions_of k es)))) = map_of (rev (prefix_entries_of es))"
proof
  fix key
  show "map_of (rev (prefix_entries_of (concat (partitions_of k es)))) key = map_of (rev (prefix_entries_of es)) key"
    using filter_partitions [OF partition_id_less [of key k], of "\<lambda>e. partition_id (be_index e) k" es]
    by (simp add: map_of_partition [of "concat _" key k] map_of_partition [of es key k] partitions_of_def)
qed

section \<open>The merge\<close>

lemma batch_get_written:
  assumes "\<forall>(q, e)\<in>set new. get_prefix st q = Some (enc_log_entry D e)"
  shows "batch_get_prefix st (map fst new) = encoded D new"
  using assms by (induction new) (auto simp: batch_get_prefix_def encoded_def)

lemma merge_entries:
  assumes "codec_laws D" and "list_all entry_in_range (map snd new)"
    and "\<forall>e\<in>snd ` set new. partition_id (le_index e) k = p"
  shows "map_res (merge_entry D k (pre p)) (encoded D new) = Inr (encoded D (map (\<lambda>(q, e). (q, merged pre k e)) new))"
  using assms(2,3)
proof (induction new)
  case (Cons qe new)
  obtain q e where qe: "qe = (q, e)" by fastforce
  have "dec_log_entry D (enc_log_entry D e) = Some e" using assms(1) Cons.prems(1) by (simp add: codec_laws_def qe)
  then have "merge_entry D k (pre p) (q, enc_log_entry D e) = Inr (q, enc_log_entry D (merged pre k e))"
    using Cons.prems(2) by (simp add: merge_entry_def merged_def qe)
  then show ?case using Cons by (simp add: encoded_def qe)
qed (simp add: encoded_def)

lemma merge_batch_correct:
  assumes "codec_laws D" and "list_all2 written sps news"
    and "\<forall>(q, e)\<in>set (concat news). get_prefix st q = Some (enc_log_entry D e)"
    and "\<And>i. i < length sps \<Longrightarrow> \<forall>e\<in>set (snd (sps ! i)). partition_id (be_index e) k = i"
    and pre: "pre = (\<lambda>p. merge_copath_for_partition p k hash_tree root_positions)"
  shows "merge_batch D st k hash_tree root_positions (zip [0..<length sps] sps) =
    Inr (encoded D (map (\<lambda>(q, e). (q, merged pre k e)) (concat news)))"
proof -
  let ?f = "\<lambda>new. encoded D (map (\<lambda>(q, e). (q, merged pre k e)) new)"
  have "map_res (merge_partition D st k hash_tree root_positions) (zip [0..<length sps] sps) = Inr (map ?f news)"
    unfolding map_res_eq_Inr
  proof (rule list_all2_all_nthI)
    show "length (zip [0..<length sps] sps) = length (map ?f news)"
      using assms(2) by (simp add: list_all2_lengthD)
    fix i assume "i < length (zip [0..<length sps] sps)"
    then have i: "i < length sps" "i < length news" using assms(2) by (simp_all add: list_all2_lengthD)
    obtain s part where sp: "sps ! i = (s, part)" by fastforce
    have w: "map fst (news ! i) = positions s (length part)" "map (le_index \<circ> snd) (news ! i) = map be_index part"
      "list_all entry_in_range (map snd (news ! i))"
      using list_all2_nthD [OF assms(2) i(1)] by (simp_all add: sp written_def)
    have "\<forall>e\<in>snd ` set (news ! i). partition_id (le_index e) k = i"
    proof
      fix e assume "e \<in> snd ` set (news ! i)"
      then have "le_index e \<in> set (map (le_index \<circ> snd) (news ! i))" by auto
      then obtain b where "b \<in> set part" "be_index b = le_index e" unfolding w(2) by auto
      then show "partition_id (le_index e) k = i" using assms(4) [OF i(1)] sp by auto
    qed
    from merge_entries [OF assms(1) w(3) this, of pre]
    have "map_res (merge_entry D k (merge_copath_for_partition i k hash_tree root_positions)) (encoded D (news ! i)) =
        Inr (?f (news ! i))"
      by (simp add: pre)
    moreover have "batch_get_prefix st (positions s (length part)) = encoded D (news ! i)"
      unfolding w(1) [symmetric] using assms(3) i(2) by (intro batch_get_written) fastforce
    moreover have "news ! i = []" if "part = []" using w(1) that by simp
    ultimately show "merge_partition D st k hash_tree root_positions (zip [0..<length sps] sps ! i) = Inr (map ?f news ! i)"
      using i by (auto simp: merge_partition_def sp positions_upt)
  qed
  moreover have "concat (map ?f news) = ?f (concat news)"
    by (simp add: encoded_def map_concat comp_def)
  ultimately show ?thesis by (simp add: merge_batch_def)
qed

lemma map_of_map_values: "map_of (map (\<lambda>(q, e). (q, f e)) xs) q = map_option f (map_of xs q)"
  by (induction xs) auto

lemma partition_rows_parts:
  "map fst (partition_rows (zip [0..<length sps] sps)) = claims sps"
  "map snd (partition_rows (zip [0..<length sps] sps)) = concat (map snd sps)"
proof -
  have "map fst (partition_rows (zip [i..<i + length sps] sps)) = claims sps \<and>
      map snd (partition_rows (zip [i..<i + length sps] sps)) = concat (map snd sps)" for i
  proof (induction sps arbitrary: i)
    case (Cons sp sps)
    have "[i..<i + length (sp # sps)] = i # [Suc i..<Suc i + length sps]" by (simp add: upt_conv_Cons del: upt_Suc)
    moreover have "length (positions s n) = n" for s n by (simp add: positions_def)
    ultimately show ?case
      using Cons [of "Suc i"] by (cases sp) (simp add: partition_rows_def claims_def positions_upt del: upt_Suc)
  qed (simp add: partition_rows_def claims_def)
  from this [of 0] show "map fst (partition_rows (zip [0..<length sps] sps)) = claims sps"
    "map snd (partition_rows (zip [0..<length sps] sps)) = concat (map snd sps)" by simp_all
qed

text \<open>The merged store, over a store without entries.\<close>

lemma merged_store:
  fixes pre :: "nat \<Rightarrow> parent_node list" and k :: nat
  assumes "codec_laws D" and "\<forall>q. get_prefix st q = None"
    and "distinct (map fst new)" and "list_all entry_in_range (map snd new)"
  defines "st1 \<equiv> put_prefix_batch (encoded D new) st"
  defines "st2 \<equiv> put_prefix_batch (encoded D (map (\<lambda>(q, e). (q, merged pre k e)) new)) st1"
  shows "\<forall>(q, e)\<in>set new. get_prefix st1 q = Some (enc_log_entry D e)"
    and "stored D st1 q = Inr e \<Longrightarrow> stored D st2 q = Inr (merged pre k e)"
proof -
  let ?m = "map (\<lambda>(q, e). (q, merged pre k e)) new"
  have m: "map fst ?m = map fst new" by auto
  have range: "list_all entry_in_range (map snd ?m)"
    using assms(4) by (auto simp: list_all_iff entry_in_range_def merged_def)
  have st2: "stored D st2 = overlaid D st1 (map_of ?m)"
    unfolding st2_def encoded_def [of D ?m] by (rule stored_put_encoded [OF assms(1) _ range]) (simp only: m assms(3))
  have st1: "stored D st1 = overlaid D st (map_of new)"
    unfolding st1_def encoded_def by (rule stored_put_encoded [OF assms(1,3,4)])
  show "\<forall>(q, e)\<in>set new. get_prefix st1 q = Some (enc_log_entry D e)"
    using get_prefix_put_encoded [OF assms(3), of D st] assms(3) unfolding st1_def encoded_def by auto
  show "stored D st2 q = Inr (merged pre k e)" if "stored D st1 q = Inr e"
  proof -
    have "map_of new q = Some e"
      using that assms(2) unfolding st1 by (auto simp: overlaid_def stored_def get_entry_def res_simps split: option.splits)
    then show ?thesis by (simp add: st2 overlaid_def map_of_map_values)
  qed
qed

lemma partition_hash_stored:
  "stored D st q = Inr e \<Longrightarrow> partition_hash C D st k (Some q) = Inr (rollup (sha256 C) e k)"
  by (auto simp: stored_def get_entry_def partition_hash_def res_simps)

lemma nth_partitions: "p < 2 ^ k \<Longrightarrow> partitions_of k es ! p = filter (\<lambda>e. partition_id (be_index e) k = p) es"
  by (simp add: partitions_of_def)

lemma length_partitions [simp]: "length (partitions_of k es) = 2 ^ k"
  by (simp add: partitions_of_def)

text \<open>The starts and roots of the partitions of a list of entries.\<close>

definition parts_at :: "u64 \<Rightarrow> nat \<Rightarrow> bulk_entry list \<Rightarrow> (u64 \<times> bulk_entry list) list" where
  "parts_at start k es = zip (map ((+) start) (pos_offsets (partitions_of k es))) (partitions_of k es)"

definition root_at :: "u64 \<Rightarrow> nat \<Rightarrow> bulk_entry list \<Rightarrow> nat \<Rightarrow> u64" where
  "root_at start k es p = last (positions (fst (parts_at start k es ! p)) (length (partitions_of k es ! p)))"

lemma parts_at_simps [simp]:
  "length (parts_at start k es) = 2 ^ k" "p < 2 ^ k \<Longrightarrow> snd (parts_at start k es ! p) = partitions_of k es ! p"
  "claims (parts_at start k es) = positions start (length es)" "map snd (parts_at start k es) = partitions_of k es"
proof -
  have "sum_list (map length (partitions_of k es)) = length es"
    using arg_cong [OF mset_partitions [of k es], of size] by (simp add: length_concat)
  then show "claims (parts_at start k es) = positions start (length es)"
    by (simp add: parts_at_def claims_partitions)
  show "map snd (parts_at start k es) = partitions_of k es"
    unfolding parts_at_def by (subst zip_take_left [symmetric]) simp
qed (simp_all add: parts_at_def)

lemma roots_at:
  assumes "\<forall>p<2 ^ k. partitions_of k es ! p \<noteq> []"
  shows "map root_of (parts_at start k es) = map (\<lambda>p. Some (root_at start k es p)) [0..<2 ^ k]"
proof (rule nth_equalityI)
  fix p assume "p < length (map root_of (parts_at start k es))"
  then have p: "p < 2 ^ k" by simp
  then show "map root_of (parts_at start k es) ! p = map (\<lambda>p. Some (root_at start k es p)) [0..<2 ^ k] ! p"
    using assms parts_at_simps(2) [OF p, of start es]
    by (cases "parts_at start k es ! p") (simp add: root_of_def root_at_def)
qed simp

lemma last_root_at:
  assumes "partitions_of k es ! (2 ^ k - 1) \<noteq> []"
  shows "root_at start k es (2 ^ k - 1) = last (positions start (length es))"
proof -
  let ?sps = "parts_at start k es"
  have "?sps \<noteq> []" by (simp add: parts_at_def flip: length_0_conv)
  then have split: "?sps = butlast ?sps @ [?sps ! (2 ^ k - 1)]"
    using append_butlast_last_id [of ?sps] by (simp add: last_conv_nth)
  have "claims ?sps = claims (butlast ?sps) @
      positions (fst (?sps ! (2 ^ k - 1))) (length (partitions_of k es ! (2 ^ k - 1)))"
    using arg_cong [OF split, of claims] by (simp add: claims_def split_beta del: parts_at_simps(3))
  then have "positions start (length es) = claims (butlast ?sps) @
      positions (fst (?sps ! (2 ^ k - 1))) (length (partitions_of k es ! (2 ^ k - 1)))"
    by simp
  then show ?thesis using assms by (simp add: root_at_def positions_def)
qed

definition all_entries :: "nat \<Rightarrow> bulk_entry list \<Rightarrow> key_map" where
  "all_entries k es = rev (prefix_entries_of (concat (partitions_of k es)))"

lemma keys_ok_filter: "keys_ok (prefix_entries_of es) \<Longrightarrow> keys_ok (prefix_entries_of (filter P es))"
  by (auto simp: keys_ok_def prefix_entries_of_def list_all_iff)

lemma keys_ok_rev: "keys_ok (rev kvs) \<longleftrightarrow> keys_ok kvs"
  by (simp add: keys_ok_def)

lemma keys_ok_all: "keys_ok (prefix_entries_of es) \<Longrightarrow> keys_ok (all_entries k es)"
  using mset_eq_setD [OF mset_partitions [of k es]]
  by (auto simp: all_entries_def keys_ok_def prefix_entries_of_def list_all_iff)

lemma parallel_store:
  fixes C :: crypto
  assumes "codec_laws D" and "k \<le> 256" and keys: "keys_ok (prefix_entries_of es)"
    and cache: "cache_agrees D (tr_store T) (tr_node_cache T)" and fresh: "\<forall>q. get_prefix (tr_store T) q = None"
    and room: "unat start + length es < 2 ^ 64" and full: "\<forall>p<2 ^ k. partitions_of k es ! p \<noteq> []"
  defines "sps \<equiv> parts_at start k es" and "sha \<equiv> sha256 C"
  obtains st1 cache' hashes batch pb where
    "build_subtrees C D sps T = (T\<lparr>tr_store := st1, tr_node_cache := cache'\<rparr>, map (\<lambda>sp. Inr (root_of sp)) sps)"
    "map_res (partition_hash C D st1 k) (map root_of sps) = Inr hashes"
    "build_hash_tree sha hashes k ! 0 ! 0 = map_root sha (all_entries k es)"
    "merge_batch D st1 k (build_hash_tree sha hashes k) (map root_of sps) (zip [0..<2 ^ k] sps) = Inr batch"
    "put_prefix_batch batch st1 = put_prefix_batch pb (tr_store T)"
    "rep_by (stored D (put_prefix_batch pb (tr_store T))) sha (Some (last (positions start (length es)))) (all_entries k es)"
    "fst ` set pb = set (positions start (length es))"
proof -
  have claims: "claims sps = positions start (length es)" by (simp add: sps_def)
  have part: "snd sp = partitions_of k es ! p" if "p < 2 ^ k" "sps ! p = sp" for p sp
    using that parts_at_simps(2) by (auto simp: sps_def)
  have "\<forall>(s, part)\<in>set sps. keys_ok (prefix_entries_of part) \<and> length part \<le> 2 ^ 64"
  proof (intro ballI, clarify)
    fix s part assume "(s, part) \<in> set sps"
    then obtain p where "p < 2 ^ k" "sps ! p = (s, part)" by (auto simp: in_set_conv_nth sps_def)
    then have "part = filter (\<lambda>e. partition_id (be_index e) k = p) es" using part by (force simp: nth_partitions)
    moreover from this have "length part \<le> length es" by simp
    moreover have "length es \<le> 2 ^ 64" using room by simp
    ultimately show "keys_ok (prefix_entries_of part) \<and> length part \<le> 2 ^ 64"
      using keys_ok_filter [OF keys] le_trans by blast
  qed
  from build_subtrees_correct [OF assms(1) cache this, of C] fresh distinct_positions [OF room]
  obtain news cache' st1 where build: "build_subtrees C D sps T =
      (T\<lparr>tr_store := st1, tr_node_cache := cache'\<rparr>, map (\<lambda>sp. Inr (root_of sp)) sps)"
    "st1 = put_prefix_batch (encoded D (concat news)) (tr_store T)" "list_all2 written sps news"
    "\<forall>(s, part)\<in>set sps. part \<noteq> [] \<longrightarrow> rep_by (stored D st1) sha
       (Some (last (positions s (length part)))) (rev (prefix_entries_of part))"
    unfolding claims sha_def by auto
  have new: "map fst (concat news) = positions start (length es)" using claims_written [OF build(3)] claims by simp
  have distinct: "distinct (map fst (concat news))" unfolding new by (rule distinct_positions [OF room])
  have "list_all entry_in_range (map snd (concat news))"
    using build(3) by (induction rule: list_all2_induct) (auto simp: written_def)
  note merged = merged_store [OF assms(1) fresh distinct this, folded build(2)]
  let ?rpos = "root_at start k es" and ?kv = "\<lambda>p. rev (prefix_entries_of (partitions_of k es ! p))"
  have "\<exists>e. stored D st1 (?rpos p) = Inr e \<and> represents (stored D st1) sha (?kv p) 0 e" if p: "p < 2 ^ k" for p
  proof -
    obtain s where s: "sps ! p = (s, partitions_of k es ! p)" using part [OF p] by (metis prod.collapse)
    then have "(s, partitions_of k es ! p) \<in> set sps" using p by (metis nth_mem parts_at_simps(1) sps_def)
    then have "rep_by (stored D st1) sha (Some (?rpos p)) (?kv p)"
      using build(4) full p s by (auto simp: root_at_def sps_def)
    then show ?thesis by (simp add: rep_by_def)
  qed
  then obtain r where r: "\<And>p. p < 2 ^ k \<Longrightarrow> stored D st1 (?rpos p) = Inr (r p) \<and> represents (stored D st1) sha (?kv p) 0 (r p)"
    by metis
  have roots: "map root_of sps = map (\<lambda>p. Some (?rpos p)) [0..<2 ^ k]" unfolding sps_def by (rule roots_at [OF full])
  define hashes where "hashes = map (\<lambda>p. rollup sha (r p) k) [0..<2 ^ k]"
  define pre where "pre = (\<lambda>p. merge_copath_for_partition p k (build_hash_tree sha hashes k) (map root_of sps))"
  define batch where "batch = encoded D (map (\<lambda>(q, e). (q, merged pre k e)) (concat news))"
  have own: "keys_ok (?kv p) \<and> partition_id (le_index (r p)) k = p" if p: "p < 2 ^ k" for p
  proof -
    obtain c where "map_of (?kv p) (le_index (r p)) = Some c"
      using r [OF p] by (auto simp: represents_iff [of "stored D st1"])
    then have "le_index (r p) \<in> be_index ` set (partitions_of k es ! p)"
      by (auto dest!: map_of_SomeD simp: prefix_entries_of_def)
    then show ?thesis using p keys_ok_filter [OF keys] by (auto simp: nth_partitions keys_ok_rev)
  qed
  have agree: "map_of (all_entries k es) key = map_of (?kv p) key" if "p < 2 ^ k" "partition_id key k = p" for p key
    using that map_of_partition [of es key k] by (simp add: all_entries_def map_of_partitions nth_partitions)
  have more: "stored D (put_prefix_batch batch st1) q = Inr (merged pre k e)" if "stored D st1 q = Inr e" for q e
    using merged(2) [OF that, of pre k] by (simp add: batch_def)
  have pre_eq: "pre = (\<lambda>p. merge_copath_for_partition p k (build_hash_tree sha (map (\<lambda>p. rollup sha (r p) k) [0..<2 ^ k]) k)
      (map (\<lambda>p. Some (?rpos p)) [0..<2 ^ k]))"
    unfolding pre_def hashes_def roots ..
  note correct = merge_correct [where get = "stored D st1" and get' = "stored D (put_prefix_batch batch st1)" and
      rpos = ?rpos and r = r and kv = ?kv and pre = pre and sha = sha,
      OF assms(2) keys_ok_all [OF keys] r own agree more pre_eq, folded hashes_def]
  have root_ok: "build_hash_tree sha hashes k ! 0 ! 0 = map_root sha (all_entries k es)" by (rule correct(1))
  have rep_ok: "represents (stored D (put_prefix_batch batch st1)) sha (all_entries k es) 0 (merged pre k (r p))"
    if "p < 2 ^ k" for p
    by (rule correct(2) [OF _ _ _ _ _ that])
  let ?l = "2 ^ k - 1 :: nat"
  have l: "?l < 2 ^ k" by simp
  then have "?rpos ?l = last (positions start (length es))" using full by (intro last_root_at) blast
  moreover have "stored D (put_prefix_batch batch st1) (?rpos ?l) = Inr (merged pre k (r ?l))"
    using more r [OF l] by blast
  ultimately have rep: "rep_by (stored D (put_prefix_batch batch st1)) sha (Some (last (positions start (length es)))) (all_entries k es)"
    using rep_ok [OF l] keys_ok_all [OF keys] by (simp add: rep_by_def)
  have hashed: "map_res (partition_hash C D st1 k) (map root_of sps) = Inr hashes"
    unfolding roots hashes_def sha_def using partition_hash_stored r
    by (simp add: map_res_eq_Inr list_all2_conv_all_nth)
  have merge: "merge_batch D st1 k (build_hash_tree sha hashes k) (map root_of sps) (zip [0..<2 ^ k] sps) = Inr batch"
    using merge_batch_correct [OF assms(1) build(3) merged(1), where k = k and pre = pre] pre_def part
    unfolding batch_def by (auto simp: sps_def nth_partitions)
  have stores: "put_prefix_batch batch st1 = put_prefix_batch (encoded D (concat news) @ batch) (tr_store T)"
    unfolding build(2) put_prefix_batch_append ..
  have "fst ` set (map (\<lambda>(q, e). (q, merged pre k e)) (concat news)) = fst ` set (concat news)"
    by (simp only: set_map image_image split_beta fst_conv)
  then have "fst ` set (encoded D (concat news) @ batch) = set (positions start (length es))"
    using arg_cong [OF new, of set] unfolding batch_def set_append image_Un encoded_simps(3) set_map by simp
  then show ?thesis by (rule that [OF build(1) hashed root_ok merge stores rep [unfolded stores]])
qed

lemma parallel_correct:
  assumes "laws C D" and "sst_laws sst" and inv: "tree_inv C D T 0 []"
    and "config_signs C (tr_config T)" and "auditor_key_agrees (tr_config T)"
    and "k \<le> 256" and es: "bulk_entries C (tr_config T) openings labels = Inr es" and "distinct (map fst labels)"
    and room: "length labels < 2 ^ 63" and full: "\<forall>p<2 ^ k. \<exists>e\<in>set es. partition_id (be_index e) k = p"
  shows "\<exists>T' next. parallel_bulk_populate C D sst (tr_config T) openings ts labels k T = (T', Inr ()) \<and>
    tree_inv C D T' next [\<lparr>tv_timestamp = ts, tv_ptr = last (positions 0 (length es)), tv_map = all_entries k es\<rparr>] \<and>
    (\<forall>e\<in>set es. \<exists>p. data_at (tr_store T') p e)"
proof -
  let ?sha = "sha256 C" and ?st = "tr_store T" and ?config = "tr_config T"
  let ?sps = "parts_at 0 k es" and ?ptr = "last (positions 0 (length es))" and ?kvs = "all_entries k es"
  let ?vs = "[\<lparr>tv_timestamp = ts, tv_ptr = ?ptr, tv_map = ?kvs\<rparr>]"
  note data = bulk_entries_data [OF es]
  have laws: "codec_laws D" "\<And>x. length (?sha x) = 32" "vrf_ok C" using assms(1) by (simp_all add: laws_def)
  have store: "store_inv D ?sha ?st 0 []" and cache: "cache_agrees D ?st (tr_node_cache T)"
    and fresh: "\<forall>q. get_prefix ?st q = None" and size: "latest_size T = 0"
    using inv by (auto simp: tree_inv_def store_inv_def head_of_def latest_size_def split: option.splits)
  have bound: "unat (0 :: u64) + length es < 2 ^ 64" using room data(3) by simp
  have some: "partitions_of k es ! p \<noteq> []" if "p < 2 ^ k" for p
    using full that by (auto simp: nth_partitions filter_empty_conv)
  then have full': "\<forall>p<2 ^ k. partitions_of k es ! p \<noteq> []" by blast
  have "partitions_of k es ! 0 \<noteq> []" using some by simp
  then have es_some: "es \<noteq> []" by (auto simp: nth_partitions)
  obtain st1 cache' hashes batch pb where build:
    "build_subtrees C D ?sps T = (T\<lparr>tr_store := st1, tr_node_cache := cache'\<rparr>, map (\<lambda>sp. Inr (root_of sp)) ?sps)"
    "map_res (partition_hash C D st1 k) (map root_of ?sps) = Inr hashes"
    "build_hash_tree ?sha hashes k ! 0 ! 0 = map_root ?sha ?kvs"
    "merge_batch D st1 k (build_hash_tree ?sha hashes k) (map root_of ?sps) (zip [0..<2 ^ k] ?sps) = Inr batch"
    "put_prefix_batch batch st1 = put_prefix_batch pb ?st"
    "rep_by (stored D (put_prefix_batch pb ?st)) ?sha (Some ?ptr) ?kvs"
    "fst ` set pb = set (positions 0 (length es))"
    by (rule parallel_store [OF laws(1) assms(6) data(4) [OF laws(3)] cache fresh bound full'])
  have after: "unat (?ptr + 1) = length es" using unat_after_positions [OF _ bound] es_some by simp
  have last: "?ptr \<noteq> - 1" using after es_some by auto
  have "word_of_nat (unat (?ptr + 1)) = ?ptr + 1" by simp
  then have next_ptr: "0 + last (pos_offsets (partitions_of k es)) = ?ptr + 1"
    using arg_cong [OF mset_partitions [of k es], of size] unfolding after by (simp add: last_pos_offsets length_concat)
  have range: "\<forall>q\<in>fst ` set pb. 0 \<le> q \<and> q \<le> ?ptr" unfolding build(7) using positions_le_last bound by simp
  have old: "rep_by (stored D (put_prefix_batch pb ?st)) ?sha q kvs'" if "rep_by (stored D ?st) ?sha q kvs'" for q kvs'
    using that fresh by (auto simp: rep_by_def stored_def get_entry_def res_simps split: option.splits)
  obtain st2 where st2: "batch_append ?sha 0 [(ts, map_root ?sha ?kvs)]
      (set_next_prefix_version (?ptr + 1) (put_prefix_ptr 0 ?ptr (put_prefix_batch pb ?st))) =
      (st2, Inr (root_value ?sha (log_leaves ?sha ([] @ ?vs))))"
    "store_inv D ?sha st2 (?ptr + 1) ([] @ ?vs)" "get_prefix st2 = get_prefix (put_prefix_batch pb ?st)"
    "get_head st2 = get_head ?st" "cf_value st2 = cf_value ?st" "cf_openings st2 = cf_openings ?st"
    "cf_history st2 = cf_history ?st"
    by (rule append_sealed [OF store _ _ laws(2) _ last build(6) old range, of 0 ts]) simp_all
  define rows where "rows = partition_rows (zip [0..<2 ^ k] ?sps)"
  have rows: "map fst rows = positions 0 (length es)" "map snd rows = concat (partitions_of k es)"
    using partition_rows_parts [of ?sps] by (simp_all add: rows_def)
  have "mset (map (be_search_key \<circ> snd) rows) = mset (map be_search_key es)"
    using arg_cong [OF rows(2), of "\<lambda>xs. image_mset be_search_key (mset xs)"] mset_partitions [of k es]
    by (simp add: multiset.map_comp o_def)
  then have distinct: "distinct (map fst rows)" "distinct (map (be_search_key \<circ> snd) rows)"
    using distinct_positions [OF bound] mset_eq_imp_distinct_iff [of "map (be_search_key \<circ> snd) rows" "map be_search_key es"]
      data(1) assms(8) by (simp_all add: rows(1))
  have "length ?vs \<le> 2 ^ 63" "?vs \<noteq> []" by simp_all
  have vs: "0 + 1 = (word_of_nat (length ?vs) :: u64)" by simp
  from publish_bulk [OF assms(1,2,4,5) st2(2) [unfolded append_Nil] cache_agrees_empty \<open>?vs \<noteq> []\<close> \<open>length ?vs \<le> 2 ^ 63\<close>
      refl distinct, of ts]
  obtain T' where T': "and_st (ingest_aux sst rows (T\<lparr>tr_node_cache := Map.empty, tr_store := st2\<rparr>)) (\<lambda>T' _.
      bulk_head C D ?config (0 + 1) ts (root_value ?sha (log_leaves ?sha ?vs)) T') = (T', Inr ())"
    "tree_inv C D T' (?ptr + 1) ?vs" "\<forall>(p, e)\<in>set rows. data_at (tr_store T') p e"
    unfolding vs by blast
  have "\<exists>p. data_at (tr_store T') p e" if "e \<in> set es" for e
  proof -
    have "e \<in> set (map snd rows)" using that mset_eq_setD [OF mset_partitions [of k es]] by (simp add: rows(2))
    then obtain row where row: "row \<in> set rows" "snd row = e" by auto
    then show ?thesis using bspec [OF T'(3) row(1)] by (auto simp: split_beta)
  qed
  moreover have "parallel_bulk_populate C D sst ?config openings ts labels k T = (T', Inr ())"
  proof -
    have roots: "map root_of ?sps = map (\<lambda>p. Some (root_at 0 k es p)) [0..<2 ^ k]" by (rule roots_at [OF full'])
    have "[0..<2 ^ k] = [0..<2 ^ k - 1] @ [2 ^ k - 1]" by (metis Suc_diff_1 upt_Suc_append zero_le zero_less_numeral zero_less_power)
    then have top: "global_root_pos (map root_of ?sps) = Inr ?ptr"
      unfolding roots using last_root_at [of k es 0] full' by (simp add: global_root_pos_def)
    have collected: "map_res id (map (\<lambda>sp. Inr (root_of sp)) ?sps) = Inr (map root_of ?sps)"
      by (simp add: map_res_eq_Inr list_all2_conv_all_nth)
    have version: "get_next_prefix_version ?st = Inr 0" using store by (simp add: store_inv_def)
    have "labels \<noteq> []" using es_some es by (auto simp: bulk_entries_def)
    moreover have "latest_size (T\<lparr>tr_store := s, tr_node_cache := c\<rparr>) = 0" for s c
      using size by (simp add: latest_size_def)
    ultimately show ?thesis
      using es version build(1-5) collected top next_ptr st2(1) T'(1)
      unfolding parallel_bulk_populate_def
      by (simp add: Let_def parts_at_def [symmetric] and_st_def [where m = "(_, _)"] append_step_def rows_def [symmetric])
  qed
  ultimately show ?thesis using T'(2) by blast
qed

section \<open>Properties\<close>

text \<open>C30. The parallel build makes the tree of the whole map. On an empty tree, when each of the
  \<open>2 ^ k\<close> partitions has a label, it succeeds and seals one version with the given timestamp, whose
  map finds every index as the list of all leaves does, so the merged copaths lead from its root to
  every leaf; and the data of every label is stored.\<close>

theorem parallel_build_refines_map:
  assumes "laws C D" and "sst_laws sst" and "tree_inv C D T 0 []"
    and "config_signs C (tr_config T)" and "auditor_key_agrees (tr_config T)"
    and "k \<le> 256" and "bulk_entries C (tr_config T) openings labels = Inr es"
    and "distinct (map fst labels)" and "length labels < 2 ^ 63"
    and "\<forall>p<2 ^ k. \<exists>e\<in>set es. partition_id (be_index e) k = p"
  shows "\<exists>T' nxt v. parallel_bulk_populate C D sst (tr_config T) openings ts labels k T = (T', Inr ()) \<and>
    tree_inv C D T' nxt [v] \<and> tv_timestamp v = ts \<and>
    map_of (tv_map v) = map_of (rev (prefix_entries_of es)) \<and> (\<forall>e\<in>set es. \<exists>p. data_at (tr_store T') p e)"
  using parallel_correct [OF assms] map_of_partitions [of k es] by (force simp: all_entries_def)

text \<open>A VRF whose output begins with the label, so that two labels fill two partitions.\<close>

definition head_crypto :: crypto where
  "head_crypto = sample_crypto\<lparr>vrf_prove := \<lambda>suite k x. Inr (pad32 (drop 1 x), x)\<rparr>"

lemma head_crypto_laws: "laws head_crypto sample_codec"
  using sample_codec_laws by (simp add: laws_def vrf_ok_def head_crypto_def sample_crypto_def)

lemma head_crypto_signs: "config_signs head_crypto sample_private_config"
  by (simp add: config_signs_def sign_head_def construct_tree_head_tbs_def serialize_configuration_def
      head_crypto_def sample_crypto_def sample_private_config_def verifying_key_def vk_to_bytes_def opaque_u16_def
      with_root_def res_simps Let_def DEPLOYMENT_MODE_THIRD_PARTY_AUDITING_def)

lemma head_index: "\<exists>e. bulk_crypto head_crypto sample_private_config (\<lambda>i. replicate 16 0) (i, [l], [v]) = Inr e \<and>
    partition_id (be_index e) 1 = get_bit [l] 0"
proof -
  have "partition_id x 1 = get_bit x 0" for x by (simp add: partition_id_def)
  then show ?thesis
    by (simp add: bulk_crypto_def config_vrf_prove_def head_crypto_def sample_crypto_def construct_vrf_input_def
        opaque_u8_def opaque_u32_def U32_MAX_def commit_def commitment_value_def res_simps get_bit_def pad32_def)
qed

lemma parallel_build_refines_map_witness:
  "\<exists>T' nxt v. parallel_bulk_populate head_crypto sample_codec sample_sst sample_private_config (\<lambda>i. replicate 16 0) 9
      [([0], [5]), ([128], [6])] 1 (sample_tree empty_store) = (T', Inr ()) \<and>
    tree_inv head_crypto sample_codec T' nxt [v] \<and> tv_timestamp v = 9"
proof -
  obtain e1 e2 where e:
    "bulk_crypto head_crypto sample_private_config (\<lambda>i. replicate 16 0) (0, [0], [5]) = Inr e1"
    "bulk_crypto head_crypto sample_private_config (\<lambda>i. replicate 16 0) (1, [128], [6]) = Inr e2"
    "partition_id (be_index e1) 1 = get_bit [0] 0" "partition_id (be_index e2) 1 = get_bit [128] 0"
    using head_index by meson
  then have "bulk_entries head_crypto sample_private_config (\<lambda>i. replicate 16 0) [([0], [5]), ([128], [6])] = Inr [e1, e2]"
    by (simp add: bulk_entries_def)
  moreover have "auditor_key_agrees sample_private_config"
    by (simp add: auditor_key_agrees_def sample_private_config_def)
  moreover have "\<forall>p<2 ^ 1. \<exists>e\<in>set [e1, e2]. partition_id (be_index e) 1 = p"
    using e(3,4) by (auto simp: get_bit_def less_2_cases_iff)
  ultimately show ?thesis
    using parallel_build_refines_map [OF head_crypto_laws sample_sst_laws tree_inv_empty [OF sample_server], of 1
        "\<lambda>i. replicate 16 0" "[([0], [5]), ([128], [6])]" "[e1, e2]" 9] head_crypto_signs
    by (simp del: power_one_right) blast
qed

lemma step_loop_misses:
  assumes "take d (key_bits (le_index e)) = take d (key_bits index)" and "get_bit (le_index e) d \<noteq> get_bit index d"
    and "d < length (le_copath e)" and "pn_ptr (le_copath e ! d) = None" and "d < 256"
    and "length (le_index e) = 32" and "length index = 32" and "length cp \<le> d"
  shows "\<exists>c. step_loop sha index cur e cp = Inr (Failed c, c)"
  using assms(8)
proof (induction "d - length cp" arbitrary: cp)
  case 0
  then have "length cp = d" by simp
  then show ?case
    using assms by (subst step_loop.simps) (simp add: bit_at_def Let_def res_simps)
next
  case (Suc n)
  let ?l = "length cp"
  have l: "?l < d" using Suc.hyps(2) by simp
  have "take d (key_bits (le_index e)) ! ?l = take d (key_bits index) ! ?l" using assms(1) by simp
  then have "get_bit (le_index e) ?l = get_bit index ?l" using l assms(5) by simp
  moreover have "n = d - length (cp @ [le_copath e ! ?l])" "length (cp @ [le_copath e ! ?l]) \<le> d"
    using l Suc.hyps(2) by simp_all
  ultimately show ?case
    using Suc.hyps(1) [of "cp @ [le_copath e ! ?l]"] l assms(3,5-7)
    by (subst step_loop.simps) (simp add: bit_at_def Let_def res_simps)
qed

text \<open>C32. A label is lost behind an empty partition. When an entry of partition \<open>q\<close> has the copath of
  the merge, and the partition that \<open>sibling_root_pid\<close> names at depth \<open>d\<close> has no entry, then a
  search from there for any index that turns off at \<open>d\<close> answers that it is absent, whatever the
  other partitions of that side hold: the copath has their hash and no pointer to them.\<close>

theorem merged_entry_loses_label:
  assumes "get_entry D st cached ptr Map.empty =
      Inr (e\<lparr>le_copath := merge_copath_for_partition q k hash_tree roots @ drop k (le_copath e)\<rparr>)"
    and "length (le_index e) = 32" and "length index = 32" and "k \<le> 256" and "d < k"
    and "take d (key_bits (le_index e)) = take d (key_bits index)" and "get_bit (le_index e) d \<noteq> get_bit index d"
    and "roots ! sibling_root_pid q d k = None"
  shows "search_prefix sha D st cached ptr index = Inr None"
proof -
  let ?e = "e\<lparr>le_copath := merge_copath_for_partition q k hash_tree roots @ drop k (le_copath e)\<rparr>"
  have "length (merge_copath_for_partition q k hash_tree roots) = k"
    "pn_ptr (merge_copath_for_partition q k hash_tree roots ! d) = None"
    using assms(5,8) by (simp_all add: merge_copath_for_partition_def Let_def)
  then obtain c where "step_loop sha index ptr ?e [] = Inr (Failed c, c)"
    using step_loop_misses [of d ?e index "[]" sha ptr] assms(2-7) by (auto simp: nth_append)
  moreover have "le_index e \<noteq> index" using assms(7) by auto
  ultimately have "step sha index ptr [] ?e = Inr (Failed c, c)" by (simp add: step_def)
  then show ?thesis using assms(1) by (simp add: search_prefix_def walk.simps [of sha D st cached index Map.empty ptr])
qed

lemma merged_entry_loses_label_witness:
  "\<exists>e roots. le_index e = pad32 [128] \<and> roots ! partition_id (pad32 [0]) 2 = Some (0 :: u64) \<and>
    search_prefix pad32 sample_codec empty_store (Map.empty(1 \<mapsto>
      e\<lparr>le_copath := merge_copath_for_partition (partition_id (le_index e) 2) 2 [[], [[], []], [[], [], [], []]] roots\<rparr>))
      1 (pad32 [0]) = Inr None"
proof -
  let ?e = "\<lparr>le_index = pad32 [128], le_copath = [], le_first_update_position = 0, le_leaf = None\<rparr>"
  let ?roots = "[Some 0, None, Some (1 :: u64), None]"
  have "partition_id (pad32 [128]) 2 = 2" "partition_id (pad32 [0]) 2 = 0" "length (pad32 x) = 32" for x
    by (simp_all add: partition_id_def pad32_def get_bit_def numeral_2_eq_2)
  moreover have "sibling_root_pid 2 0 2 = 1" by (simp add: sibling_root_pid_def)
  ultimately show ?thesis
    using merged_entry_loses_label [where D = sample_codec and st = empty_store and ptr = 1 and e = ?e and q = 2 and
        k = 2 and d = 0 and hash_tree = "[[], [[], []], [[], [], [], []]]" and roots = ?roots and sha = pad32 and
        index = "pad32 [0]" and cached = "Map.empty(1 \<mapsto>
          ?e\<lparr>le_copath := merge_copath_for_partition 2 2 [[], [[], []], [[], [], [], []]] ?roots\<rparr>)"]
    by (intro exI [of _ ?e] exI [of _ ?roots]) (simp add: get_entry_def get_bit_def pad32_def)
qed

end
