(* ===== verification/Persist.thy ===== *)
theory Persist
  imports Config Gossip
begin

text \<open>
  The persistence of the client, \<^verbatim>\<open>src/src/client/core.rs\<close>: the state file, its loading, its
  replacement by write, flush and rename, and the operations that save what they have verified.
  The JSON library is a pair of functions. The file system is modelled below, with what it
  may have lost after a crash; its failures are the parameter \<open>io\<close>.
\<close>

section \<open>The file's format\<close>

record persisted_monitor_entry =
  pme_position :: u64
  pme_version :: version

record persisted_monitored_label =
  pml_label :: string
  pml_entries :: "persisted_monitor_entry list"

record persisted_version_material =
  pvm_version :: version
  pvm_vrf_output :: string
  pvm_commitment :: "string option"

record persisted_label_material =
  plm_label :: string
  plm_versions :: "persisted_version_material list"

record persisted_distinguished_entry =
  pde_position :: u64
  pde_timestamp :: u64
  pde_root :: string
  pde_peaks :: "string list"

record persisted_state =
  ps_tree_size :: u64
  ps_root_hash :: string
  ps_timestamp :: u64
  ps_auditor_head :: "(u64 \<times> u64) option"
  ps_label_versions :: "(string \<times> version) list"
  ps_retained_subtrees :: "(u64 \<times> string) list"
  ps_monitoring_map :: "persisted_monitored_label list"
  ps_version_material :: "persisted_label_material list"
  ps_distinguished_entries :: "persisted_distinguished_entry list"
  ps_retained_head :: "string option"

text \<open>The functions of the JSON library, and the order in which the hash maps list their keys.\<close>

record json_lib =
  js_write :: "persisted_state \<Rightarrow> string"
  js_read :: "string \<Rightarrow> persisted_state option"

record iteration =
  it_label_versions :: "bytes list"
  it_monitoring_map :: "bytes list"
  it_version_material :: "bytes list"
  it_versions :: "bytes \<Rightarrow> version list"

definition entries_in :: "'k list \<Rightarrow> ('k \<rightharpoonup> 'v) \<Rightarrow> ('k \<times> 'v) list" where
  "entries_in ks m = concat (map (\<lambda>k. case m k of Some v \<Rightarrow> [(k, v)] | None \<Rightarrow> []) ks)"

definition persist_material :: "codec \<Rightarrow> version \<times> bytes \<times> bytes option \<Rightarrow> persisted_version_material" where
  "persist_material D x =
     (case x of (v, vrf, comm) \<Rightarrow>
        \<lparr>pvm_version = v, pvm_vrf_output = hex_encode D vrf, pvm_commitment = map_option (hex_encode D) comm\<rparr>)"

definition persist_distinguished :: "codec \<Rightarrow> u64 \<times> u64 \<times> bytes \<times> bytes list \<Rightarrow> persisted_distinguished_entry" where
  "persist_distinguished D x =
     (case x of (pos, ts, rt, peaks) \<Rightarrow>
        \<lparr>pde_position = pos, pde_timestamp = ts, pde_root = hex_encode D rt, pde_peaks = map (hex_encode D) peaks\<rparr>)"

definition persisted_of :: "codec \<Rightarrow> iteration \<Rightarrow> client \<Rightarrow> persisted_state" where
  "persisted_of D it cl =
     \<lparr>ps_tree_size = (case cl_state cl of Some s \<Rightarrow> ts_tree_size s | None \<Rightarrow> 0),
      ps_root_hash = (case cl_state cl of Some s \<Rightarrow> hex_encode D (ts_root_hash s) | None \<Rightarrow> ''''),
      ps_timestamp = (case cl_state cl of Some s \<Rightarrow> ts_timestamp s | None \<Rightarrow> 0),
      ps_auditor_head = cl_auditor_head cl,
      ps_label_versions = map (\<lambda>(l, v). (hex_encode D l, v)) (entries_in (it_label_versions it) (cl_label_versions cl)),
      ps_retained_subtrees = map (\<lambda>(n, h). (n, hex_encode D h))
        (entries_in (sorted_list_of_set (dom (cl_retained_subtrees cl))) (cl_retained_subtrees cl)),
      ps_monitoring_map = map (\<lambda>(l, m). \<lparr>pml_label = hex_encode D l,
          pml_entries = map (\<lambda>(p, v). \<lparr>pme_position = p, pme_version = v\<rparr>) m\<rparr>)
        (entries_in (it_monitoring_map it) (cl_monitoring_map cl)),
      ps_version_material = map (\<lambda>(l, vs). \<lparr>plm_label = hex_encode D l,
          plm_versions = map (persist_material D) (entries_in (it_versions it l) vs)\<rparr>)
        (entries_in (it_version_material it) (cl_version_material cl)),
      ps_distinguished_entries = map (persist_distinguished D) (cl_distinguished_entries cl),
      ps_retained_head = map_option (\<lambda>b. hex_encode D (bytes_of_head D b)) (cl_retained_head cl)\<rparr>"

section \<open>Loading\<close>

text \<open>Collecting into a map keeps the last value of a key.\<close>

definition bt_of :: "('k :: linorder \<times> 'v) list \<Rightarrow> ('k \<times> 'v) list" where
  "bt_of kvs = fold (\<lambda>(k, v). bt_insert k v) kvs []"

definition unhex_key :: "codec \<Rightarrow> string \<times> 'v \<Rightarrow> (bytes \<times> 'v) res" where
  "unhex_key D x = and_then (unhex D (fst x)) (\<lambda>l. Inr (l, snd x))"

definition unhex_value :: "codec \<Rightarrow> 'k \<times> string \<Rightarrow> ('k \<times> bytes) res" where
  "unhex_value D x = and_then (unhex D (snd x)) (\<lambda>h. Inr (fst x, h))"

definition load_material :: "codec \<Rightarrow> persisted_version_material \<Rightarrow> (version \<times> bytes \<times> bytes option) res" where
  "load_material D v =
     and_then (unhex D (pvm_vrf_output v)) (\<lambda>out.
     and_then (unhex_opt D (pvm_commitment v)) (\<lambda>comm. Inr (pvm_version v, out, comm)))"

definition load_label_material :: "codec \<Rightarrow> persisted_label_material \<Rightarrow> (bytes \<times> material) res" where
  "load_label_material D l =
     and_then (map_res (load_material D) (plm_versions l)) (\<lambda>inner.
     and_then (unhex D (plm_label l)) (\<lambda>label. Inr (label, map_of (rev inner))))"

definition load_distinguished :: "codec \<Rightarrow> persisted_distinguished_entry \<Rightarrow> (u64 \<times> u64 \<times> bytes \<times> bytes list) res" where
  "load_distinguished D d =
     and_then (map_res (unhex D) (pde_peaks d)) (\<lambda>peaks.
     and_then (unhex D (pde_root d)) (\<lambda>rt. Inr (pde_position d, pde_timestamp d, rt, peaks)))"

definition load_monitored :: "codec \<Rightarrow> persisted_monitored_label \<Rightarrow> (bytes \<times> monitoring_map) res" where
  "load_monitored D m =
     and_then (unhex D (pml_label m)) (\<lambda>label.
     Inr (label, bt_of (map (\<lambda>e. (pme_position e, pme_version e)) (pml_entries m))))"

text \<open>A field is replaced when its part of the file decodes; the fields before it then are already.\<close>

definition load_field :: "'a res \<Rightarrow> ('a \<Rightarrow> client \<Rightarrow> client) \<Rightarrow> client \<Rightarrow> client \<times> unit res" where
  "load_field r set_field cl = (case r of Inl e \<Rightarrow> (cl, Inl e) | Inr x \<Rightarrow> (set_field x cl, Inr ()))"

definition load_persisted :: "codec \<Rightarrow> persisted_state \<Rightarrow> client \<Rightarrow> client \<times> unit res" where
  "load_persisted D p cl =
     and_st (if ps_tree_size p > 0
        then load_field (unhex D (ps_root_hash p)) (\<lambda>rt. cl_state_update (\<lambda>_. Some
          \<lparr>ts_tree_size = ps_tree_size p, ts_root_hash = rt, ts_timestamp = ps_timestamp p\<rparr>)) cl
        else (cl, Inr ())) (\<lambda>cl _.
     let cl = cl\<lparr>cl_auditor_head := ps_auditor_head p\<rparr> in
     and_st (load_field (map_res (unhex_key D) (ps_label_versions p))
         (\<lambda>kvs. cl_label_versions_update (\<lambda>_. map_of (rev kvs))) cl) (\<lambda>cl _.
     and_st (load_field (map_res (unhex_value D) (ps_retained_subtrees p))
         (\<lambda>kvs. cl_retained_subtrees_update (\<lambda>_. map_of (rev kvs))) cl) (\<lambda>cl _.
     and_st (load_field (map_res (load_monitored D) (ps_monitoring_map p))
         (\<lambda>kvs. cl_monitoring_map_update (\<lambda>_. map_of (rev kvs))) cl) (\<lambda>cl _.
     and_st (load_field (map_res (load_label_material D) (ps_version_material p))
         (\<lambda>kvs. cl_version_material_update (\<lambda>_. map_of (rev kvs))) cl) (\<lambda>cl _.
     and_st (load_field (map_res (load_distinguished D) (ps_distinguished_entries p))
         (\<lambda>ds. cl_distinguished_entries_update (\<lambda>_. bt_of ds)) cl) (\<lambda>cl _.
     load_field (unhex_opt D (ps_retained_head p))
         (\<lambda>h. cl_retained_head_update (\<lambda>_. map_option Loaded h)) cl))))))"

section \<open>The file system\<close>

text \<open>
  A directory maps names to inodes. The directories that a crash may go back to are those since
  the directory was last flushed; the data of an inode that was not flushed may be cut short.
\<close>

record fs_file =
  fl_data :: string
  fl_synced :: bool

record file_system =
  fs_names :: "string \<rightharpoonup> nat"
  fs_past :: "(string \<rightharpoonup> nat) list"
  fs_files :: "nat \<Rightarrow> fs_file"
  fs_next :: nat

datatype fs_step = Create string | Write string string | Sync string | Rename string string | SyncDir

definition put_file :: "string \<Rightarrow> (fs_file \<Rightarrow> fs_file) \<Rightarrow> file_system \<Rightarrow> file_system" where
  "put_file p f fs =
     (case fs_names fs p of
        Some i \<Rightarrow> fs\<lparr>fs_files := (fs_files fs)(i := f (fs_files fs i))\<rparr>
      | None \<Rightarrow> fs)"

fun fs_do :: "fs_step \<Rightarrow> file_system \<Rightarrow> file_system" where
  "fs_do (Create p) fs =
     (if fs_names fs p = None then
        fs\<lparr>fs_names := (fs_names fs)(p \<mapsto> fs_next fs), fs_past := fs_names fs # fs_past fs,
           fs_files := (fs_files fs)(fs_next fs := \<lparr>fl_data = '''', fl_synced = False\<rparr>), fs_next := fs_next fs + 1\<rparr>
      else put_file p (\<lambda>_. \<lparr>fl_data = '''', fl_synced = False\<rparr>) fs)"
| "fs_do (Write p d) fs = put_file p (\<lambda>f. \<lparr>fl_data = fl_data f @ d, fl_synced = False\<rparr>) fs"
| "fs_do (Sync p) fs = put_file p (\<lambda>f. f\<lparr>fl_synced := True\<rparr>) fs"
| "fs_do (Rename p q) fs =
     (case fs_names fs p of
        Some i \<Rightarrow> fs\<lparr>fs_names := (fs_names fs)(p := None, q \<mapsto> i), fs_past := fs_names fs # fs_past fs\<rparr>
      | None \<Rightarrow> fs)"
| "fs_do SyncDir fs = fs\<lparr>fs_past := []\<rparr>"

text \<open>A step may fail, and the process may end in it; a write then leaves a part of its data.\<close>

fun fs_fail :: "nat \<Rightarrow> fs_step \<Rightarrow> file_system \<Rightarrow> file_system" where
  "fs_fail n (Write p d) fs = fs_do (Write p (take n d)) fs"
| "fs_fail n _ fs = fs"

type_synonym io = "fs_step \<Rightarrow> nat option"

fun fs_run :: "io \<Rightarrow> fs_step list \<Rightarrow> file_system \<Rightarrow> file_system \<times> unit res" where
  "fs_run io [] fs = (fs, Inr ())"
| "fs_run io (s # ss) fs =
     (case io s of
        None \<Rightarrow> fs_run io ss (fs_do s fs)
      | Some n \<Rightarrow> (fs_fail n s fs, Inl (Anyhow ''I/O error'')))"

definition read_file :: "file_system \<Rightarrow> string \<Rightarrow> string option" where
  "read_file fs p = map_option (\<lambda>i. fl_data (fs_files fs i)) (fs_names fs p)"

section \<open>Saving\<close>

record local_client =
  lo_client :: client
  lo_state_path :: "string option"
  lo_fs :: file_system

definition tmp_of :: "string \<Rightarrow> string" where
  "tmp_of p = p @ ''.tmp''"

definition save_steps :: "string \<Rightarrow> string \<Rightarrow> fs_step list" where
  "save_steps p json = [Create (tmp_of p), Write (tmp_of p) json, Sync (tmp_of p), Rename (tmp_of p) p, SyncDir]"

definition save_state :: "codec \<Rightarrow> json_lib \<Rightarrow> iteration \<Rightarrow> io \<Rightarrow> local_client \<Rightarrow> local_client \<times> unit res" where
  "save_state D J it io L =
     (case lo_state_path L of
        None \<Rightarrow> (L, Inr ())
      | Some p \<Rightarrow>
          (case fs_run io (save_steps p (js_write J (persisted_of D it (lo_client L)))) (lo_fs L) of
             (fs, r) \<Rightarrow> (L\<lparr>lo_fs := fs\<rparr>, r)))"

definition persist_to :: "codec \<Rightarrow> json_lib \<Rightarrow> string \<Rightarrow> local_client \<Rightarrow> local_client \<times> unit res" where
  "persist_to D J p L =
     and_st (case read_file (lo_fs L) p of
         None \<Rightarrow> (L, Inr ())
       | Some data \<Rightarrow>
           (case js_read J data of
              None \<Rightarrow> (L, Inl (Anyhow ''malformed JSON''))
            | Some ps \<Rightarrow> (case load_persisted D ps (lo_client L) of (cl, r) \<Rightarrow> (L\<lparr>lo_client := cl\<rparr>, r))))
       (\<lambda>L _. (L\<lparr>lo_state_path := Some p\<rparr>, Inr ()))"

section \<open>Operations that save\<close>

text \<open>What an operation has verified is in memory when saving it fails.\<close>

definition saved :: "codec \<Rightarrow> json_lib \<Rightarrow> (client \<Rightarrow> iteration) \<Rightarrow> io \<Rightarrow> (client \<Rightarrow> client res) \<Rightarrow> local_client \<Rightarrow>
    local_client \<times> unit res" where
  "saved D J it io f L =
     (case f (lo_client L) of
        Inl e \<Rightarrow> (L, Inl e)
      | Inr cl \<Rightarrow> save_state D J (it cl) io (L\<lparr>lo_client := cl\<rparr>))"

text \<open>
  A search saves what its verification committed, before the obligation and the material enter
  the client, and again only when it updates the label's greatest version.
\<close>

definition local_verify_search :: "crypto \<Rightarrow> codec \<Rightarrow> json_lib \<Rightarrow> (client \<Rightarrow> iteration) \<Rightarrow> io \<Rightarrow> u64 \<Rightarrow> bytes \<Rightarrow>
    version option \<Rightarrow> search_response \<Rightarrow> local_client \<Rightarrow> local_client \<times> unit res" where
  "local_verify_search C D J it io now user ver resp L =
     (case verify_search_response C now user ver resp (lo_client L) of
        Inl e \<Rightarrow> (L, Inl e)
      | Inr cl \<Rightarrow>
          (let committed = cl\<lparr>cl_version_material := cl_version_material (lo_client L),
                 cl_monitoring_map := cl_monitoring_map (lo_client L)\<rparr> in
           and_st (save_state D J (it committed) io (L\<lparr>lo_client := committed\<rparr>)) (\<lambda>L _.
           (L\<lparr>lo_client := cl\<rparr>, Inr ()))))"

definition local_search :: "crypto \<Rightarrow> codec \<Rightarrow> json_lib \<Rightarrow> (client \<Rightarrow> iteration) \<Rightarrow> io \<Rightarrow> io \<Rightarrow> u64 \<Rightarrow> bytes \<Rightarrow>
    version option \<Rightarrow> search_response \<Rightarrow> local_client \<Rightarrow> local_client \<times> unit res" where
  "local_search C D J it io io' now user ver resp L =
     and_st (local_verify_search C D J it io now user ver resp L) (\<lambda>L _.
     case (ver, sr_version resp) of
       (None, Some greatest) \<Rightarrow>
         saved D J it io' (\<lambda>cl. Inr (cl\<lparr>cl_label_versions := (cl_label_versions cl)(user \<mapsto> greatest)\<rparr>)) L
     | _ \<Rightarrow> (L, Inr ()))"

definition local_contact_monitor :: "crypto \<Rightarrow> codec \<Rightarrow> json_lib \<Rightarrow> (client \<Rightarrow> iteration) \<Rightarrow> io \<Rightarrow> u64 \<Rightarrow> bytes \<Rightarrow>
    contact_monitor_response \<Rightarrow> local_client \<Rightarrow> local_client \<times> unit res" where
  "local_contact_monitor C D J it io now user resp =
     saved D J it io (client_contact_monitor C now user resp)"

definition local_owner_init :: "crypto \<Rightarrow> codec \<Rightarrow> json_lib \<Rightarrow> (client \<Rightarrow> iteration) \<Rightarrow> io \<Rightarrow> u64 \<Rightarrow> bytes \<Rightarrow> u64 \<Rightarrow>
    owner_init_response \<Rightarrow> local_client \<Rightarrow> local_client \<times> unit res" where
  "local_owner_init C D J it io now user start resp =
     saved D J it io (verify_owner_init C now user start resp)"

definition local_distinguished :: "crypto \<Rightarrow> codec \<Rightarrow> json_lib \<Rightarrow> (client \<Rightarrow> iteration) \<Rightarrow> io \<Rightarrow> u64 \<Rightarrow> u64 option \<Rightarrow>
    distinguished_response \<Rightarrow> local_client \<Rightarrow> local_client \<times> unit res" where
  "local_distinguished C D J it io now stop resp =
     saved D J it io (verify_distinguished C now stop resp)"

definition local_owner_monitor :: "crypto \<Rightarrow> codec \<Rightarrow> json_lib \<Rightarrow> (client \<Rightarrow> iteration) \<Rightarrow> io \<Rightarrow> u64 \<Rightarrow> bytes \<Rightarrow>
    (u64 \<times> version) list \<Rightarrow> u64 \<Rightarrow> version option \<Rightarrow> owner_monitor_response \<Rightarrow> local_client \<Rightarrow>
    local_client \<times> unit res" where
  "local_owner_monitor C D J it io now user entries start greatest_version resp =
     saved D J it io (verify_owner_monitor C now user (bt_of entries) start greatest_version resp)"

definition local_update :: "crypto \<Rightarrow> codec \<Rightarrow> json_lib \<Rightarrow> (client \<Rightarrow> iteration) \<Rightarrow> io \<Rightarrow>
    (nat \<Rightarrow> update_request \<Rightarrow> update_response res) \<Rightarrow> bytes \<Rightarrow> bytes \<Rightarrow> local_client \<Rightarrow>
    local_client \<times> update_response res" where
  "local_update C D J it io respond user val L =
     (case client_update C respond user val (lo_client L) of
        (cl, Inl e) \<Rightarrow> (L\<lparr>lo_client := cl\<rparr>, Inl e)
      | (cl, Inr resp) \<Rightarrow>
          and_st (save_state D J (it cl) io (L\<lparr>lo_client := cl\<rparr>)) (\<lambda>L _. (L, Inr resp)))"

end
