(* ===== verification/ClientSamples.thy ===== *)
theory ClientSamples
  imports Client Samples
begin

text \<open>
  A search response that the client accepts, for the witnesses: a log of one entry with one
  label, under a digest that is constant.
\<close>

section \<open>Parameters\<close>

abbreviation flat :: bytes where
  "flat \<equiv> replicate 32 7"

definition flat_crypto :: crypto where
  "flat_crypto = sample_crypto\<lparr>sha256 := \<lambda>_. flat, hmac_sha256 := \<lambda>_ _. flat, ed25519_check := \<lambda>_ _ _. True,
     vrf_verify := \<lambda>_ _ _ _. Inr flat\<rparr>"

definition flat_config :: public_config where
  "flat_config = \<lparr>cfg_cipher_suite = 2, cfg_mode = 1, cfg_server_sig_pk = replicate 32 1,
     cfg_vrf_public_key = replicate 32 2, cfg_leaf_public_key = None, cfg_auditor_public_key = None,
     cfg_auditor_start_pos = 0, cfg_max_auditor_lag = 0, cfg_max_ahead = 1000, cfg_max_behind = 1000,
     cfg_reasonable_monitoring_window = 10, cfg_maximum_lifetime = None\<rparr>"

definition flat_proof :: prefix_proof where
  "flat_proof = \<lparr>pp_results = [\<lparr>psr_result_type = 1, psr_leaf = None, psr_depth = 0\<rparr>,
     \<lparr>psr_result_type = 2, psr_leaf = Some \<lparr>pl_vrf_output = [], pl_commitment = flat\<rparr>, psr_depth = 1\<rparr>],
     pp_elements = [flat]\<rparr>"

definition flat_combined :: combined_tree_proof where
  "flat_combined = \<lparr>ctp_timestamps = [9], ctp_prefix_proofs = [flat_proof], ctp_prefix_roots = [],
     ctp_inclusion = Some \<lparr>ip_elements = []\<rparr>\<rparr>"

definition flat_head :: full_tree_head where
  "flat_head = \<lparr>fth_head_type = 2, fth_tree_head = Some \<lparr>th_tree_size = 1, th_timestamp = as_i64 9,
     th_signatures = [\<lparr>sig_auditor_public_key = [], sig_signature = replicate 64 0\<rparr>]\<rparr>, fth_auditor_tree_head = None\<rparr>"

definition flat_response :: search_response where
  "flat_response = \<lparr>sr_full_tree_head = Some flat_head, sr_version = None, sr_opening = replicate 16 0,
     sr_value = Some [5],
     sr_binary_ladder = [\<lparr>bls_proof = [], bls_commitment = None\<rparr>, \<lparr>bls_proof = [], bls_commitment = None\<rparr>],
     sr_search = Some flat_combined\<rparr>"

definition flat_client :: client where
  "flat_client = \<lparr>cl_sig_pk = VkEd25519 (replicate 32 1), cl_vrf_pk = replicate 32 2, cl_state = None,
     cl_label_versions = Map.empty, cl_retained_subtrees = Map.empty, cl_auditor_head = None,
     cl_monitoring_map = Map.empty, cl_version_material = Map.empty,
     cl_distinguished_entries = [], cl_retained_head = None, cl_config = flat_config\<rparr>"

lemma flat_crypto_fields:
  "sha256 flat_crypto = (\<lambda>_. flat)" "hmac_sha256 flat_crypto = (\<lambda>_ _. flat)"
  "vrf_verify flat_crypto = (\<lambda>_ _ _ _. Inr flat)" "ed25519_check flat_crypto = (\<lambda>_ _ _. True)"
  "ed25519_key_ok flat_crypto = (\<lambda>k. length k = 32)"
  by (simp_all add: flat_crypto_def sample_crypto_def)

lemma flat_client_fields:
  "cl_config flat_client = flat_config" "cl_state flat_client = None" "cl_retained_subtrees flat_client = Map.empty"
  "cl_monitoring_map flat_client = Map.empty" "cl_version_material flat_client = Map.empty"
  "cl_label_versions flat_client = Map.empty" "cl_sig_pk flat_client = VkEd25519 (replicate 32 1)"
  "cl_distinguished_entries flat_client = []" "cfg_maximum_lifetime flat_config = None" "cfg_mode flat_config = 1"
  "cfg_max_ahead flat_config = 1000" "cfg_max_behind flat_config = 1000"
  by (simp_all add: flat_client_def flat_config_def)

lemma flat_response_fields:
  "sr_full_tree_head flat_response = Some flat_head" "fth_head_type flat_head = 2"
  "fth_tree_head flat_head = Some \<lparr>th_tree_size = 1, th_timestamp = as_i64 9,
     th_signatures = [\<lparr>sig_auditor_public_key = [], sig_signature = replicate 64 0\<rparr>]\<rparr>"
  "sr_search flat_response = Some flat_combined" "sr_value flat_response = Some [5]"
  "length (sr_binary_ladder flat_response) = 2" "ctp_timestamps flat_combined = [9]"
  "ctp_prefix_proofs flat_combined = [flat_proof]" "ctp_prefix_roots flat_combined = []"
  "ctp_inclusion flat_combined = Some \<lparr>ip_elements = []\<rparr>" "sr_opening flat_response = replicate 16 0"
  by (simp_all add: flat_response_def flat_head_def flat_combined_def)

lemma flat_channel: "with_channel flat_crypto flat_config = Inr flat_client"
  by (simp add: with_channel_def flat_config_def flat_client_def vk_from_bytes_def flat_crypto_fields
      DEPLOYMENT_MODE_THIRD_PARTY_MANAGEMENT_def)

section \<open>The parts of the verification\<close>

lemma flat_base: "base_binary_ladder 0 = [0, 1]"
  by code_simp

lemma one_entry: "get_frontier 1 = [0]" "root 1 = 0" "get_roots 1 = [0]" "merkle_root 1 = 0"
  by code_simp+

lemma flat_decoded: "decode_search_ladder (pp_results flat_proof) 0 =
    Inr [\<lparr>dl_version = 0, dl_inclusion = True\<rparr>, \<lparr>dl_version = 1, dl_inclusion = False\<rparr>]"
  by code_simp

lemma flat_root: "\<exists>captured. calculate_root_capturing (\<lambda>_. flat) [0] [flat] 1 [] Map.empty W = Inr (flat, captured)"
  by (simp add: calculate_root_capturing_def one_entry recursive_hash.simps [of _ 0] Let_def)

lemma flat_tbs: "\<exists>tbs. construct_tree_head_tbs_public flat_config 1 flat = Inr tbs"
  by (simp add: construct_tree_head_tbs_public_def flat_config_def serialize_configuration_public_def with_root_def
      opaque_u16_def res_simps Let_def DEPLOYMENT_MODE_THIRD_PARTY_AUDITING_def)

lemma flat_path: "fold_path (\<lambda>_. flat) k es d (Suc n) h = flat"
proof -
  have "fold (\<lambda>lv h. fold_level (\<lambda>_. flat) k lv (sibling_at es d lv) h) xs flat = flat" for xs
    by (induction xs) (simp_all add: fold_level_def parent_hash_def)
  then show ?thesis by (simp add: fold_path_def fold_level_def parent_hash_def cong: if_cong)
qed

lemma flat_results:
  "compute_root_from_result (\<lambda>_. flat) flat_proof 0 k (Some c) 0 = Inr (flat, 0)"
  "compute_root_from_result (\<lambda>_. flat) flat_proof (Suc 0) flat None 0 = Inr (flat, 1)"
  using flat_path [of k "[]" 0 255] flat_path [of flat "[flat]" 1 0]
  by (simp_all add: compute_root_from_result_def flat_proof_def start_of_result_def leaf_hash_def INDEX_LENGTH_def)

lemma flat_ladder:
  "verify_ladder_proof flat_crypto flat_client [1] flat_proof 0 (sr_binary_ladder flat_response) flat False False
      (ctx_new, Map.empty) =
    Inr (flat, Equal, \<lparr>lc_wire_index = [0 \<mapsto> 0, 1 \<mapsto> 1], lc_slots = 2, lc_vrf_cache = [0 \<mapsto> flat, 1 \<mapsto> flat]\<rparr>,
      [0 \<mapsto> Some flat])"
  by (simp add: verify_ladder_proof_def flat_decoded verify_lookup_def lookup_relation_def slot_and_output_def
      wire_slot_def ctx_new_def vrf_output_of_def construct_vrf_input_def opaque_u8_def lookup_commitment_def
      flat_crypto_fields flat_results same_root_def flat_response_def numeral_2_eq_2)
    (simp add: flat_proof_def)

definition flat_reader :: "nat \<Rightarrow> proof_reader" where
  "flat_reader i = \<lparr>rd_proof = flat_combined, rd_ts_idx = 1, rd_proof_idx = i, rd_assigned_ts = [(0, 9)]\<rparr>"

lemma flat_reading: "start_reading flat_combined 1 = Inr (flat_reader 0)"
  by (simp add: start_reading_def rd_frontier_def one_entry reader_new_def rd_timestamp_def left_neighbour_def
      right_neighbour_def flat_combined_def flat_reader_def Let_def)

lemma flat_walk:
  "\<exists>st. simulate_fixed_search flat_crypto flat_client [1] 1 0 (sr_binary_ladder flat_response) flat
      \<lparr>op_reader = flat_reader 0, op_ctx = ctx_new, op_material = Map.empty, op_roots = []\<rparr> = Inr (0, st) \<and>
    lc_slots (op_ctx st) = 2 \<and> op_reader st = flat_reader 1 \<and> op_roots st = [(0, flat)]"
  by (simp add: simulate_fixed_search_def rd_timestamp_def one_entry simulate_loop.simps [of _ _ _ 1 _ _ _ _ 0]
      past_lifetime_def read_ladder_def rd_prefix_proof_def flat_ladder record_entry_root_def flat_client_fields
      flat_response_fields flat_reader_def Let_def)

lemma flat_commit: "commit (hmac_sha256 flat_crypto) [1] 0 [5] None (replicate 16 0) = Inr flat"
  by (simp add: commit_def commitment_value_def flat_crypto_fields opaque_u8_def opaque_u32_def U32_MAX_def res_simps)

lemma flat_finish:
  "\<exists>cl x. finish_and_commit flat_crypto flat_head 1 (Some 9) True flat_combined (flat_reader 1) [(0, flat)] (\<lambda>_. {}) flat_client =
    Inr (cl, x)"
proof -
  obtain captured where captured: "calculate_root_capturing (\<lambda>_. flat) [0] [flat] 1 [] Map.empty
      (wanted_nodes flat_client flat_head 1 {}) = Inr (flat, captured)"
    using flat_root by blast
  obtain tbs where "construct_tree_head_tbs_public flat_config 1 flat = Inr tbs" using flat_tbs by blast
  then show ?thesis
    using captured
    by (simp add: finish_and_commit_def flat_reader_def rd_finish_def flat_response_fields leaf_hashes_of_def
        log_leaf_value_def flat_crypto_fields verify_head_and_commit_def flat_client_fields verify_tree_head_signature_def
        verify_data_def DEPLOYMENT_MODE_THIRD_PARTY_AUDITING_def)
qed

lemma flat_verified: "\<exists>cl. verify_search_response flat_crypto 9 [1] (Some 0) flat_response flat_client = Inr cl"
proof -
  obtain st where "simulate_fixed_search flat_crypto flat_client [1] 1 0 (sr_binary_ladder flat_response) flat
      \<lparr>op_reader = flat_reader 0, op_ctx = ctx_new, op_material = Map.empty, op_roots = []\<rparr> = Inr (0, st)"
    "lc_slots (op_ctx st) = 2" "op_reader st = flat_reader 1" "op_roots st = [(0, flat)]"
    using flat_walk by blast
  then show ?thesis
    using flat_reading flat_commit flat_finish
    by (auto simp: verify_search_response_def flat_response_fields tree_size_for_fth_def HEAD_TYPE_SAME_def
        HEAD_TYPE_UPDATED_def flat_client_fields check_timestamp_bounds_def saturating_add_def)
qed

end
