(* ===== verification/PersistProps.thy ===== *)
theory PersistProps
  imports Persist ClientSamples PrefixInsert "HOL-Library.Sublist"
begin

text \<open>
  The state file: loading what was saved restores the client; a save that fails or dies at any
  step leaves the file it found or the new one; an operation that succeeds has its result in the
  file, but for the obligation of a search for a fixed version.
\<close>

section \<open>What is saved is loaded\<close>

definition lists_keys :: "'k list \<Rightarrow> ('k \<rightharpoonup> 'v) \<Rightarrow> bool" where
  "lists_keys ks m \<longleftrightarrow> distinct ks \<and> set ks = dom m"

definition iterates :: "iteration \<Rightarrow> client \<Rightarrow> bool" where
  "iterates it cl \<longleftrightarrow> lists_keys (it_label_versions it) (cl_label_versions cl) \<and>
     lists_keys (it_monitoring_map it) (cl_monitoring_map cl) \<and>
     lists_keys (it_version_material it) (cl_version_material cl) \<and>
     (\<forall>l m. cl_version_material cl l = Some m \<longrightarrow> lists_keys (it_versions it l) m)"

definition lib_laws :: "codec \<Rightarrow> json_lib \<Rightarrow> bool" where
  "lib_laws D J \<longleftrightarrow> (\<forall>b. hex_decode D (hex_encode D b) = Some b) \<and> (\<forall>p. js_read J (js_write J p) = Some p)"

definition client_wf :: "client \<Rightarrow> bool" where
  "client_wf cl \<longleftrightarrow> (\<forall>s. cl_state cl = Some s \<longrightarrow> ts_tree_size s > 0) \<and>
     (\<forall>l m. cl_monitoring_map cl l = Some m \<longrightarrow> bt_ordered m) \<and> bt_ordered (cl_distinguished_entries cl)"

lemma entries_in_Cons:
  "entries_in (k # ks) m = (case m k of Some v \<Rightarrow> (k, v) # entries_in ks m | None \<Rightarrow> entries_in ks m)"
  by (simp add: entries_in_def split: option.split)

lemma map_of_entries: "map_of (entries_in ks m) k = (if k \<in> set ks then m k else None)"
  by (induction ks) (auto simp: entries_in_Cons entries_in_def split: option.splits)

lemma entries_in_set: "(k, v) \<in> set (entries_in ks m) \<longleftrightarrow> k \<in> set ks \<and> m k = Some v"
  by (auto simp: entries_in_def split: option.splits)

lemma keys_entries: "fst ` set (entries_in ks m) \<subseteq> set ks"
  by (auto simp: entries_in_def split: option.splits)

lemma distinct_entries: "distinct ks \<Longrightarrow> distinct (map fst (entries_in ks m))"
proof (induction ks)
  case (Cons k ks)
  then show ?case using keys_entries [of ks m] by (auto simp: entries_in_Cons split: option.split)
qed (simp add: entries_in_def)

lemma collect_entries:
  assumes "lists_keys ks m" shows "map_of (rev (entries_in ks m)) = m"
proof -
  have "map_of (rev (entries_in ks m)) = map_of (entries_in ks m)"
    using assms by (intro map_of_rev_distinct distinct_entries) (simp add: lists_keys_def)
  then show ?thesis using assms by (auto simp: map_of_entries lists_keys_def fun_eq_iff domIff)
qed

lemma lists_sorted: "lists_keys (sorted_list_of_set (dom m)) (m :: u64 \<rightharpoonup> 'v)"
  by (simp add: lists_keys_def)

lemma map_res_map:
  assumes "\<And>x. x \<in> set xs \<Longrightarrow> f (g x) = Inr (h x)" shows "map_res f (map g xs) = Inr (map h xs)"
  using assms by (induction xs) auto

lemma bt_insert_last: "\<forall>k'\<in>fst ` set m. k' < k \<Longrightarrow> bt_insert k v m = m @ [(k, v)]"
  by (induction m) auto

lemma bt_of_ordered: "bt_ordered m \<Longrightarrow> bt_of m = m"
proof (induction m rule: rev_induct)
  case (snoc x m)
  then have "bt_ordered m" "\<forall>k\<in>fst ` set m. k < fst x"
    by (auto simp: bt_ordered_def sorted_wrt_append)
  then show ?case using snoc.IH bt_insert_last [of m "fst x" "snd x"] by (auto simp: bt_of_def split_beta)
qed (simp add: bt_of_def)

lemma persisted_parts:
  assumes hex: "\<And>b. hex_decode D (hex_encode D b) = Some b"
  shows "unhex_key D (hex_encode D l, v) = Inr (l, v)" "unhex_value D (n, hex_encode D h) = Inr (n, h)"
    "load_material D (persist_material D x) = Inr x"
    "load_distinguished D (persist_distinguished D d) = Inr d"
proof -
  note [simp] = unhex_inverse [of D, OF hex]
  show "unhex_key D (hex_encode D l, v) = Inr (l, v)" "unhex_value D (n, hex_encode D h) = Inr (n, h)"
    by (simp_all add: unhex_key_def unhex_value_def)
  show "load_material D (persist_material D x) = Inr x"
    by (cases x) (simp add: persist_material_def load_material_def)
  show "load_distinguished D (persist_distinguished D d) = Inr d"
    using map_res_map [of _ "unhex D" "hex_encode D" id]
    by (cases d) (simp add: persist_distinguished_def load_distinguished_def)
qed

lemma load_monitored_persisted:
  assumes "\<And>b. hex_decode D (hex_encode D b) = Some b" and "bt_ordered m"
  shows "load_monitored D \<lparr>pml_label = hex_encode D l,
    pml_entries = map (\<lambda>(p, v). \<lparr>pme_position = p, pme_version = v\<rparr>) m\<rparr> = Inr (l, m)"
proof -
  have "map (\<lambda>e. (pme_position e, pme_version e)) (map (\<lambda>(p, v). \<lparr>pme_position = p, pme_version = v\<rparr>) m) = m"
    by (induction m) auto
  then show ?thesis
    by (simp only: load_monitored_def persisted_monitored_label.simps unhex_inverse [of D, OF assms(1)] and_then_Inr
        bt_of_ordered [OF assms(2)])
qed

lemma load_label_material_persisted:
  assumes "\<And>b. hex_decode D (hex_encode D b) = Some b" and "lists_keys ks m"
  shows "load_label_material D \<lparr>plm_label = hex_encode D l, plm_versions = map (persist_material D) (entries_in ks m)\<rparr> =
    Inr (l, m)"
  using map_res_map [of "entries_in ks m" "load_material D" "persist_material D" id] persisted_parts(3) [of D, OF assms(1)]
  by (simp add: load_label_material_def unhex_inverse [of D, OF assms(1)] collect_entries [OF assms(2)])

definition restored :: "codec \<Rightarrow> client \<Rightarrow> client \<Rightarrow> client" where
  "restored D cl fresh = cl\<lparr>cl_sig_pk := cl_sig_pk fresh, cl_vrf_pk := cl_vrf_pk fresh, cl_config := cl_config fresh,
     cl_retained_head := map_option (\<lambda>b. Loaded (bytes_of_head D b)) (cl_retained_head cl)\<rparr>"

lemma load_saved:
  assumes "lib_laws D J" and "client_wf cl" and "iterates it cl" and "cl_state fresh = None"
  shows "load_persisted D (persisted_of D it cl) fresh = (restored D cl fresh, Inr ())"
proof -
  have hex: "\<And>b. hex_decode D (hex_encode D b) = Some b" using assms(1) by (simp add: lib_laws_def)
  note unhex = unhex_inverse [of D, OF hex]
  let ?p = "persisted_of D it cl"
  have versions: "map_res (unhex_key D) (ps_label_versions ?p) =
      Inr (map id (entries_in (it_label_versions it) (cl_label_versions cl)))"
    unfolding persisted_of_def persisted_state.simps by (intro map_res_map) (auto simp: persisted_parts(1) [of D, OF hex])
  have subtrees: "map_res (unhex_value D) (ps_retained_subtrees ?p) =
      Inr (map id (entries_in (sorted_list_of_set (dom (cl_retained_subtrees cl))) (cl_retained_subtrees cl)))"
    unfolding persisted_of_def persisted_state.simps by (intro map_res_map) (auto simp: persisted_parts(2) [of D, OF hex])
  have monitored: "map_res (load_monitored D) (ps_monitoring_map ?p) =
      Inr (map id (entries_in (it_monitoring_map it) (cl_monitoring_map cl)))"
    unfolding persisted_of_def persisted_state.simps
    using assms(2) load_monitored_persisted [of D, OF hex]
    by (intro map_res_map) (auto simp: entries_in_set client_wf_def)
  have material: "map_res (load_label_material D) (ps_version_material ?p) =
      Inr (map id (entries_in (it_version_material it) (cl_version_material cl)))"
    unfolding persisted_of_def persisted_state.simps
    using assms(3) load_label_material_persisted [of D, OF hex]
    by (intro map_res_map) (auto simp: entries_in_set iterates_def)
  have distinguished: "map_res (load_distinguished D) (ps_distinguished_entries ?p) = Inr (map id (cl_distinguished_entries cl))"
    unfolding persisted_of_def persisted_state.simps using persisted_parts(4) [of D, OF hex] by (intro map_res_map) simp
  have head: "unhex_opt D (ps_retained_head ?p) = Inr (map_option (bytes_of_head D) (cl_retained_head cl))"
    using unhex(2) [of "map_option (bytes_of_head D) (cl_retained_head cl)"]
    by (simp add: persisted_of_def option.map_comp o_def)
  have state: "(if ps_tree_size ?p > 0
      then load_field (unhex D (ps_root_hash ?p)) (\<lambda>rt. cl_state_update (\<lambda>_. Some
          \<lparr>ts_tree_size = ps_tree_size ?p, ts_root_hash = rt, ts_timestamp = ps_timestamp ?p\<rparr>)) fresh
      else (fresh, Inr ())) = (fresh\<lparr>cl_state := cl_state cl\<rparr>, Inr ())"
    using assms(2,4) unhex(1)
    by (cases "cl_state cl") (auto simp: persisted_of_def client_wf_def load_field_def)
  have it: "lists_keys (it_label_versions it) (cl_label_versions cl)"
    "lists_keys (it_monitoring_map it) (cl_monitoring_map cl)"
    "lists_keys (it_version_material it) (cl_version_material cl)"
    using assms(3) by (simp_all add: iterates_def)
  have auditor: "ps_auditor_head ?p = cl_auditor_head cl" by (simp add: persisted_of_def)
  have ordered: "bt_ordered (cl_distinguished_entries cl)" using assms(2) by (simp add: client_wf_def)
  show ?thesis
    unfolding load_persisted_def state versions subtrees monitored material distinguished head auditor
    by (simp add: and_st_def load_field_def it [THEN collect_entries] collect_entries [OF lists_sorted]
        bt_of_ordered [OF ordered] restored_def option.map_comp o_def Let_def)
qed

lemma bt_of_is_ordered: "bt_ordered (bt_of kvs)"
proof -
  have "bt_ordered (fold (\<lambda>(k, v). bt_insert k v) kvs m)" if "bt_ordered m" for m
    using that by (induction kvs arbitrary: m) (auto simp: bt_ordered_insert)
  then show ?thesis by (simp add: bt_of_def bt_ordered_def)
qed

text \<open>Loading, as far as it comes, keeps what each field keeps.\<close>

definition well_loaded :: "client \<Rightarrow> client \<Rightarrow> bool" where
  "well_loaded cl0 cl \<longleftrightarrow> client_wf cl \<and> cl_config cl = cl_config cl0 \<and> cl_sig_pk cl = cl_sig_pk cl0 \<and> cl_vrf_pk cl = cl_vrf_pk cl0"

lemma and_st_keeps: "P (fst m) \<Longrightarrow> (\<And>s x. P s \<Longrightarrow> P (fst (f s x))) \<Longrightarrow> P (fst (and_st m f))"
  by (auto simp: and_st_def split: prod.split sum.split)

lemma load_field_keeps: "P cl \<Longrightarrow> (\<And>x. r = Inr x \<Longrightarrow> P (set_field x cl)) \<Longrightarrow> P (fst (load_field r set_field cl))"
  by (auto simp: load_field_def split: sum.split)

lemma load_monitored_ordered: "map_res (load_monitored D) ps = Inr kvs \<Longrightarrow> (l, m) \<in> set kvs \<Longrightarrow> bt_ordered m"
  by (induction ps arbitrary: kvs) (auto simp: load_monitored_def res_simps bt_of_is_ordered)

lemma well_loaded_sets:
  assumes "well_loaded cl0 cl"
  shows "ts_tree_size s > 0 \<Longrightarrow> well_loaded cl0 (cl\<lparr>cl_state := Some s\<rparr>)"
    "well_loaded cl0 (cl\<lparr>cl_auditor_head := ah\<rparr>)" "well_loaded cl0 (cl\<lparr>cl_label_versions := lv\<rparr>)"
    "well_loaded cl0 (cl\<lparr>cl_retained_subtrees := rs\<rparr>)" "well_loaded cl0 (cl\<lparr>cl_version_material := vm\<rparr>)"
    "bt_ordered de \<Longrightarrow> well_loaded cl0 (cl\<lparr>cl_distinguished_entries := de\<rparr>)"
    "well_loaded cl0 (cl\<lparr>cl_retained_head := rh\<rparr>)"
    "(\<And>l m. (l, m) \<in> set kvs \<Longrightarrow> bt_ordered m) \<Longrightarrow> well_loaded cl0 (cl\<lparr>cl_monitoring_map := map_of (rev kvs)\<rparr>)"
  using assms by (auto simp: well_loaded_def client_wf_def dest: map_of_SomeD)

lemma load_persisted_wf:
  assumes "client_wf cl0" shows "well_loaded cl0 (fst (load_persisted D ps cl0))"
proof -
  note field = load_field_keeps [where P = "well_loaded cl0"] and chain = and_st_keeps [where P = "well_loaded cl0"]
  have start: "well_loaded cl0 cl0" using assms by (simp add: well_loaded_def)
  have sized: "well_loaded cl0 (fst (if ps_tree_size ps > 0
      then load_field (unhex D (ps_root_hash ps)) (\<lambda>rt. cl_state_update (\<lambda>_. Some
        \<lparr>ts_tree_size = ps_tree_size ps, ts_root_hash = rt, ts_timestamp = ps_timestamp ps\<rparr>)) cl0
      else (cl0, Inr ())))"
    using start by (simp add: field well_loaded_sets(1))
  have monitored: "well_loaded cl0 (fst (load_field (map_res (load_monitored D) xs)
      (\<lambda>kvs. cl_monitoring_map_update (\<lambda>_. map_of (rev kvs))) cl))" if "well_loaded cl0 cl" for xs cl
    using load_monitored_ordered by (blast intro: field [OF that] well_loaded_sets(8) [OF that])
  have distinguished: "well_loaded cl0 (fst (load_field r (\<lambda>ds. cl_distinguished_entries_update (\<lambda>_. bt_of ds)) cl))"
    if "well_loaded cl0 cl" for r :: "(u64 \<times> u64 \<times> bytes \<times> bytes list) list res" and cl
    by (intro field [OF that] well_loaded_sets(6) [OF that] bt_of_is_ordered)
  have others: "well_loaded cl0 (fst (load_field r f cl))"
    if "well_loaded cl0 cl" "\<And>x. well_loaded cl0 (f x cl)" for r f cl
    using that by (rule field)
  show ?thesis
    unfolding load_persisted_def Let_def
    by (intro chain sized monitored distinguished others well_loaded_sets(2-5,7))
qed

section \<open>A save is atomic\<close>

text \<open>What a crash may leave to be read at a name.\<close>

definition may_hold :: "file_system \<Rightarrow> nat option \<Rightarrow> string option \<Rightarrow> bool" where
  "may_hold fs io c \<longleftrightarrow> (case (io, c) of
      (None, None) \<Rightarrow> True
    | (Some i, Some s) \<Rightarrow> (if fl_synced (fs_files fs i) then s = fl_data (fs_files fs i) else prefix s (fl_data (fs_files fs i)))
    | _ \<Rightarrow> False)"

definition may_read :: "file_system \<Rightarrow> string \<Rightarrow> string option \<Rightarrow> bool" where
  "may_read fs p c \<longleftrightarrow> (\<exists>d\<in>set (fs_names fs # fs_past fs). may_hold fs (d p) c)"

text \<open>A name whose file is whole in every directory, and apart from its temporary file.\<close>

definition sound :: "file_system \<Rightarrow> string \<Rightarrow> bool" where
  "sound fs p \<longleftrightarrow> (\<forall>d\<in>set (fs_names fs # fs_past fs). \<forall>i. d p = Some i \<longrightarrow>
      i < fs_next fs \<and> fl_synced (fs_files fs i) \<and> fs_names fs (tmp_of p) \<noteq> Some i) \<and>
    (\<forall>i. fs_names fs (tmp_of p) = Some i \<longrightarrow> i < fs_next fs)"

definition kept :: "file_system \<Rightarrow> string \<Rightarrow> file_system \<Rightarrow> bool" where
  "kept fs p fs' \<longleftrightarrow> sound fs' p \<and> may_read fs' p = may_read fs p \<and> read_file fs' p = read_file fs p"

definition tmp_holds :: "file_system \<Rightarrow> string \<Rightarrow> string \<Rightarrow> bool \<Rightarrow> bool" where
  "tmp_holds fs p s b \<longleftrightarrow> (\<exists>i. fs_names fs (tmp_of p) = Some i \<and> fs_files fs i = \<lparr>fl_data = s, fl_synced = b\<rparr>)"

lemma tmp_neq [simp]: "tmp_of p \<noteq> p" "p \<noteq> tmp_of p"
  by (simp_all add: tmp_of_def)

lemma may_hold_cong: "(\<And>i. io = Some i \<Longrightarrow> fs_files fs' i = fs_files fs i) \<Longrightarrow> may_hold fs' io c = may_hold fs io c"
  by (auto simp: may_hold_def split: option.split)

lemma kept_put:
  assumes "sound fs p" shows "kept fs p (put_file (tmp_of p) f fs)"
proof (cases "fs_names fs (tmp_of p)")
  case (Some i)
  let ?fs = "fs\<lparr>fs_files := (fs_files fs)(i := f (fs_files fs i))\<rparr>"
  have other: "fs_files ?fs j = fs_files fs j" if "d \<in> set (fs_names fs # fs_past fs)" "d p = Some j" for d j
    using assms that Some by (auto simp: sound_def)
  then have "may_hold ?fs (d p) c = may_hold fs (d p) c" if "d \<in> set (fs_names fs # fs_past fs)" for d c
    using that by (intro may_hold_cong) blast
  then have "may_read ?fs p = may_read fs p" by (auto simp: may_read_def fun_eq_iff)
  moreover have "sound ?fs p" using assms Some by (auto simp: sound_def)
  moreover have "read_file ?fs p = read_file fs p"
    using other [of "fs_names fs"] by (cases "fs_names fs p") (auto simp: read_file_def)
  ultimately show ?thesis using Some by (simp add: kept_def put_file_def)
qed (use assms in \<open>simp add: kept_def put_file_def\<close>)

lemma kept_create:
  assumes "sound fs p" shows "kept fs p (fs_do (Create (tmp_of p)) fs)" "tmp_holds (fs_do (Create (tmp_of p)) fs) p '''' False"
proof -
  show "tmp_holds (fs_do (Create (tmp_of p)) fs) p '''' False"
    by (auto simp: tmp_holds_def put_file_def split: option.split)
  show "kept fs p (fs_do (Create (tmp_of p)) fs)"
  proof (cases "fs_names fs (tmp_of p)")
    case None
    let ?fs = "fs_do (Create (tmp_of p)) fs"
    have old: "fs_files ?fs j = fs_files fs j" if "d \<in> set (fs_names fs # fs_past fs)" "d p = Some j" for d j
      using assms that None by (auto simp: sound_def)
    then have "may_hold ?fs (d p) c = may_hold fs (d p) c" if "d \<in> set (fs_names fs # fs_past fs)" for d c
      using that by (intro may_hold_cong) blast
    then have "may_read ?fs p = may_read fs p" using None by (auto simp: may_read_def fun_eq_iff)
    moreover have "sound ?fs p" using assms None by (auto simp: sound_def less_Suc_eq)
    moreover have "read_file ?fs p = read_file fs p"
      using old [of "fs_names fs"] None by (cases "fs_names fs p") (auto simp: read_file_def)
    ultimately show ?thesis by (simp add: kept_def)
  qed (use kept_put [OF assms] in simp)
qed

lemma tmp_write: "tmp_holds fs p s b \<Longrightarrow> tmp_holds (fs_do (Write (tmp_of p) d) fs) p (s @ d) False"
  by (auto simp: tmp_holds_def put_file_def)

lemma tmp_sync: "tmp_holds fs p s b \<Longrightarrow> tmp_holds (fs_do (Sync (tmp_of p)) fs) p s True"
  by (auto simp: tmp_holds_def put_file_def)

lemma rename_tmp:
  assumes "sound fs p" and "tmp_holds fs p s True"
  shows "sound (fs_do (Rename (tmp_of p) p) fs) p" "read_file (fs_do (Rename (tmp_of p) p) fs) p = Some s"
    "may_read (fs_do (Rename (tmp_of p) p) fs) p c \<longleftrightarrow> c = Some s \<or> may_read fs p c"
proof -
  obtain i where i: "fs_names fs (tmp_of p) = Some i" "fs_files fs i = \<lparr>fl_data = s, fl_synced = True\<rparr>"
    using assms(2) by (auto simp: tmp_holds_def)
  then show "sound (fs_do (Rename (tmp_of p) p) fs) p" "read_file (fs_do (Rename (tmp_of p) p) fs) p = Some s"
    using assms(1) by (auto simp: sound_def read_file_def)
  let ?fs = "fs_do (Rename (tmp_of p) p) fs"
  have "fs_files ?fs = fs_files fs" using i by simp
  then have "may_hold ?fs x c = may_hold fs x c" for x c by (intro may_hold_cong) (simp only:)
  moreover have "may_hold fs (Some i) c \<longleftrightarrow> c = Some s" using i(2) by (auto simp: may_hold_def split: option.split)
  ultimately show "may_read ?fs p c \<longleftrightarrow> c = Some s \<or> may_read fs p c" using i(1) by (auto simp: may_read_def)
qed

lemma sync_dir:
  assumes "sound fs p" and "read_file fs p = Some s"
  shows "sound (fs_do SyncDir fs) p" "read_file (fs_do SyncDir fs) p = Some s" "may_read (fs_do SyncDir fs) p c \<longleftrightarrow> c = Some s"
  using assms by (auto simp: sound_def read_file_def may_read_def may_hold_def split: option.split)

lemma save_atomic:
  assumes "sound fs p" and "fs_run io (save_steps p json) fs = (fs', r)"
  shows "sound fs' p \<and> (\<forall>c. may_read fs' p c \<longrightarrow> may_read fs p c \<or> c = Some json) \<and>
    (r = Inr () \<longrightarrow> read_file fs' p = Some json \<and> (\<forall>c. may_read fs' p c \<longleftrightarrow> c = Some json))"
proof -
  let ?t = "tmp_of p"
  define f1 f2 f3 f4 where f: "f1 = fs_do (Create ?t) fs" "f2 = fs_do (Write ?t json) f1" "f3 = fs_do (Sync ?t) f2"
    "f4 = fs_do (Rename ?t p) f3"
  have k1: "kept fs p f1" "tmp_holds f1 p '''' False" unfolding f using kept_create [OF assms(1)] .
  have part: "kept f1 p (fs_do (Write ?t d) f1)" for d using k1(1) kept_put [of f1 p] by (simp add: kept_def)
  then have k2: "kept f1 p f2" "tmp_holds f2 p json False"
    unfolding f(2) using tmp_write [OF k1(2), of json] by simp_all
  have k3: "kept f2 p f3" "tmp_holds f3 p json True"
    unfolding f(3) using tmp_sync [OF k2(2)] k2(1) kept_put [of f2 p] by (simp_all add: kept_def)
  have same: "sound f3 p" "may_read f3 p = may_read fs p" using k1(1) k2(1) k3(1) by (simp_all add: kept_def)
  note k4 = rename_tmp [OF same(1) k3(2), folded f(4)]
  note k5 = sync_dir [OF k4(1,2)]
  have part': "kept fs p (fs_do (Write ?t d) f1)" for d using k1(1) part by (simp add: kept_def)
  have old: "kept fs p fs" "kept fs p f1" "kept fs p f2" "kept fs p f3"
    using assms(1) k1(1) k2(1) k3(1) by (simp_all add: kept_def)
  have run: "fs_run io (save_steps p json) fs =
      (case io (Create ?t) of Some n \<Rightarrow> (fs, Inl (Anyhow ''I/O error''))
       | None \<Rightarrow> (case io (Write ?t json) of Some n \<Rightarrow> (fs_do (Write ?t (take n json)) f1, Inl (Anyhow ''I/O error''))
       | None \<Rightarrow> (case io (Sync ?t) of Some n \<Rightarrow> (f2, Inl (Anyhow ''I/O error''))
       | None \<Rightarrow> (case io (Rename ?t p) of Some n \<Rightarrow> (f3, Inl (Anyhow ''I/O error''))
       | None \<Rightarrow> (case io SyncDir of Some n \<Rightarrow> (f4, Inl (Anyhow ''I/O error'')) | None \<Rightarrow> (fs_do SyncDir f4, Inr ()))))))"
    unfolding save_steps_def fs_run.simps fs_fail.simps f [symmetric] ..
  have "case fs_run io (save_steps p json) fs of (fs', r) \<Rightarrow>
      (r \<noteq> Inr () \<and> kept fs p fs') \<or> (r \<noteq> Inr () \<and> fs' = f4) \<or> (r = Inr () \<and> fs' = fs_do SyncDir f4)"
    unfolding run by (simp add: old part' split: option.split del: fs_do.simps)
  then consider "r \<noteq> Inr ()" "kept fs p fs'" | "r \<noteq> Inr ()" "fs' = f4" | "r = Inr ()" "fs' = fs_do SyncDir f4"
    unfolding assms(2) by auto
  then show ?thesis
  proof cases
    case 1
    then show ?thesis by (simp add: kept_def)
  next
    case 2
    then show ?thesis using k4(1) by (simp only: k4(3) same(2)) blast
  next
    case 3
    then show ?thesis by (simp only: k5 simp_thms)
  qed
qed

section \<open>What the operations make of the client\<close>

definition advanced :: "client \<Rightarrow> client \<Rightarrow> bool" where
  "advanced cl cl' \<longleftrightarrow> cl_config cl' = cl_config cl \<and> cl_sig_pk cl' = cl_sig_pk cl \<and> cl_vrf_pk cl' = cl_vrf_pk cl \<and>
     (cl_state cl' = cl_state cl \<or> (\<exists>s'. cl_state cl' = Some s' \<and> ts_tree_size s' > 0 \<and>
        (\<forall>s. cl_state cl = Some s \<longrightarrow> ts_tree_size s < ts_tree_size s')))"

definition same_maps :: "client \<Rightarrow> client \<Rightarrow> bool" where
  "same_maps cl cl' \<longleftrightarrow> cl_monitoring_map cl' = cl_monitoring_map cl \<and>
     cl_version_material cl' = cl_version_material cl \<and> cl_distinguished_entries cl' = cl_distinguished_entries cl"

lemma advanced_refl [simp]: "advanced cl cl"
  by (simp add: advanced_def)

lemma advanced_trans: "advanced cl cl' \<Longrightarrow> advanced cl' cl'' \<Longrightarrow> advanced cl cl''"
  by (auto simp: advanced_def)

definition framed :: "client \<Rightarrow> client \<Rightarrow> bool" where
  "framed cl cl' \<longleftrightarrow> same_maps cl cl' \<and> cl_config cl' = cl_config cl \<and> cl_sig_pk cl' = cl_sig_pk cl \<and> cl_vrf_pk cl' = cl_vrf_pk cl"

lemma auditor_frame: "verify_auditor_tree_head C cl fth th n rt captured = Inr cl' \<Longrightarrow> framed cl cl'"
  unfolding verify_auditor_tree_head_def
  by (auto simp: framed_def same_maps_def res_simps Let_def split: if_splits option.splits)

lemma head_frame:
  assumes "verify_head_and_commit C fth n ts updated ps hs es extra cl = Inr (cl', captured)"
  shows "cl' = cl \<or> updated \<and> framed cl cl' \<and> (\<exists>s. cl_state cl' = Some s \<and> ts_tree_size s = n)"
  using assms unfolding verify_head_and_commit_def
  by (auto simp: res_simps framed_def same_maps_def dest!: auditor_frame split: if_splits)

lemma commit_frame:
  assumes "finish_and_commit C fth n ts updated pf rd roots extra cl = Inr (cl', x)"
    and "tree_size_for_fth cl now fth = Inr (n, ts, updated) \<and> n \<noteq> 0"
  shows "advanced cl cl' \<and> same_maps cl cl'"
proof -
  have grows: "\<forall>s. cl_state cl = Some s \<longrightarrow> ts_tree_size s < n" if "updated"
    using assms(2) that by (auto simp: tree_size_for_fth_def res_simps split: if_splits option.splits)
  obtain ps hs es extra' captured where
    "verify_head_and_commit C fth n ts updated ps hs es extra' cl = Inr (cl', captured)"
    using assms(1) unfolding finish_and_commit_def by (auto simp: res_simps)
  from head_frame [OF this] show ?thesis
    using grows assms(2) by (auto simp: advanced_def framed_def same_maps_def word_neq_0_conv)
qed

lemma open_head_size:
  "open_head cl now fth msg = Inr (n, ts, updated) \<Longrightarrow> tree_size_for_fth cl now fth = Inr (n, ts, updated) \<and> n \<noteq> 0"
  by (auto simp: open_head_def res_simps split: if_splits option.splits)

lemma ordered_remove: "bt_ordered m \<Longrightarrow> bt_ordered (bt_remove k m)"
  by (induction m) (auto simp: bt_ordered_def bt_remove_def)

lemma replay_ancestors_ordered:
  "replay_ancestors C mat pos ver es moved m = Inr (moved', m') \<Longrightarrow> bt_ordered (mr_new_map m) \<Longrightarrow> bt_ordered (mr_new_map m')"
proof (induction es arbitrary: moved m)
  case (Cons e es)
  show ?case
  proof (cases "mr_targets m e")
    case None
    then show ?thesis using Cons by (fastforce simp: res_simps)
  next
    case (Some t)
    then show ?thesis using Cons.prems by (auto simp: ordered_remove split: if_splits)
  qed
qed simp

lemma replay_contact_entry_ordered:
  assumes "replay_contact_entry C n rmw mat ts pv m = Inr m'" and "bt_ordered (mr_new_map m)"
  shows "bt_ordered (mr_new_map m')"
proof -
  obtain pos ver where pv: "pv = (pos, ver)" by fastforce
  have moved: "bt_ordered (mr_new_map m0)"
    if "replay_ancestors C mat pos ver es None (m\<lparr>mr_reader := rd\<rparr>) = Inr (moved_to, m0)" for es rd moved_to m0
    using replay_ancestors_ordered [OF that] assms(2) by simp
  show ?thesis
    using assms unfolding replay_contact_entry_def pv
    by (auto simp: res_simps Let_def ordered_remove bt_ordered_insert dest!: moved split: if_splits option.splits)
qed

lemma replay_contact_ordered:
  assumes "replay_contact_ladders C obligations n rmw mat st = Inr (rd, roots, new_map)" and "bt_ordered obligations"
  shows "bt_ordered new_map"
proof -
  obtain ts m0 m where m: "fold_res (replay_contact_entry C n rmw mat ts) (rev obligations) m0 = Inr m"
    "mr_new_map m0 = obligations" "new_map = mr_new_map m"
    using assms(1) by (auto simp: replay_contact_ladders_def res_simps split: prod.splits)
  have "bt_ordered (mr_new_map m)"
    by (rule fold_res_invariant [OF m(1)]) (use assms(2) m(2) replay_contact_entry_ordered in auto)
  then show ?thesis using m(3) by simp
qed

lemma wf_advanced: "client_wf cl \<Longrightarrow> advanced cl cl' \<Longrightarrow> same_maps cl cl' \<Longrightarrow> client_wf cl'"
  by (auto simp: client_wf_def advanced_def same_maps_def)

text \<open>What a computation makes when it succeeds.\<close>

definition yields :: "'a res \<Rightarrow> ('a \<Rightarrow> bool) \<Rightarrow> bool" where
  "yields m Q \<longleftrightarrow> (\<forall>y. m = Inr y \<longrightarrow> Q y)"

lemma yields_rules:
  "(\<And>a b c. m3 = Inr (a, b, c) \<Longrightarrow> yields (f3 a b c) Q) \<Longrightarrow> yields (and_then m3 (\<lambda>(a, b, c). f3 a b c)) Q"
  "(\<And>a b. m2 = Inr (a, b) \<Longrightarrow> yields (f2 a b) Q) \<Longrightarrow> yields (and_then m2 (\<lambda>(a, b). f2 a b)) Q"
  "(\<And>a. m = Inr a \<Longrightarrow> yields (f a) Q) \<Longrightarrow> yields (and_then m f) Q"
  "(c \<Longrightarrow> yields x Q) \<Longrightarrow> (\<not> c \<Longrightarrow> yields y Q) \<Longrightarrow> yields (if c then x else y) Q"
  "yields (g t) Q \<Longrightarrow> yields (Let t g) Q"
  "yields (Inl e) Q"
  "Q v \<Longrightarrow> yields (Inr v) Q"
  by (auto simp: yields_def res_simps Let_def)

lemma yieldsD: "yields m Q \<Longrightarrow> m = Inr y \<Longrightarrow> Q y"
  by (simp add: yields_def)

text \<open>Every operation advances the client and keeps it well formed.\<close>

definition progress :: "client \<Rightarrow> client \<Rightarrow> bool" where
  "progress cl cl' \<longleftrightarrow> advanced cl cl' \<and> (client_wf cl \<longrightarrow> client_wf cl')"

lemma commit_progress:
  assumes "finish_and_commit C fth n ts updated pf rd roots extra cl = Inr (cl', x)"
    and "tree_size_for_fth cl now fth = Inr (n, ts, updated)" and "n \<noteq> 0"
  shows "progress cl cl'" and "same_maps cl cl'"
  using commit_frame [OF assms(1) conjI [OF assms(2,3)]] wf_advanced [of cl cl'] by (simp_all add: progress_def)

lemma monitoring_of_ordered: "client_wf cl \<Longrightarrow> bt_ordered (monitoring_of cl label)"
  by (auto simp: client_wf_def monitoring_of_def bt_ordered_def split: option.split)

lemma wf_monitoring:
  "client_wf cl \<Longrightarrow> bt_ordered m \<Longrightarrow> client_wf (cl\<lparr>cl_monitoring_map := (cl_monitoring_map cl)(label \<mapsto> m)\<rparr>)"
  by (simp add: client_wf_def)

lemma progress_monitoring:
  assumes "progress cl cl'" and "client_wf cl \<Longrightarrow> bt_ordered m"
  shows "progress cl (cl'\<lparr>cl_monitoring_map := (cl_monitoring_map cl')(label \<mapsto> m)\<rparr>)"
  using assms wf_monitoring [of cl' m label] by (simp add: progress_def advanced_def)

lemma progress_material: "progress cl (cl'\<lparr>cl_version_material := m\<rparr>) \<longleftrightarrow> progress cl cl'"
  by (simp add: progress_def advanced_def client_wf_def)

definition searched :: "bytes \<Rightarrow> version option \<Rightarrow> search_response \<Rightarrow> client \<Rightarrow> client \<Rightarrow> bool" where
  "searched label ver resp cl cl' \<longleftrightarrow> progress cl cl' \<and> (\<exists>terminal target m.
     cl_monitoring_map cl' = (cl_monitoring_map cl)(label \<mapsto> bt_insert terminal target (monitoring_of cl label)) \<and>
     cl_version_material cl' = (cl_version_material cl)(label \<mapsto> m) \<and>
     cl_distinguished_entries cl' = cl_distinguished_entries cl \<and>
     (case ver of Some v \<Rightarrow> target = v | None \<Rightarrow> sr_version resp = Some target))"

lemma searched_final:
  assumes "tree_size_for_fth cl now fth = Inr (n, ts, updated)" and "n \<noteq> 0"
    and "(case ver of Some v \<Rightarrow> Inr v | None \<Rightarrow> ok_or (sr_version resp) e) = Inr target"
    and "finish_and_commit C fth n ts updated pf rd roots extra cl = Inr (cl', x)"
  shows "searched label ver resp cl (cl'\<lparr>cl_version_material := (cl_version_material cl')(label \<mapsto> m (material_of cl' label)),
    cl_monitoring_map := (cl_monitoring_map cl')(label \<mapsto> bt_insert terminal target (monitoring_of cl' label))\<rparr>)"
proof -
  note c = commit_progress [OF assms(4,1,2)]
  have "monitoring_of cl' label = monitoring_of cl label" using c(2) by (simp add: same_maps_def monitoring_of_def)
  moreover have "progress cl (cl'\<lparr>cl_version_material := (cl_version_material cl')(label \<mapsto> m (material_of cl' label))\<rparr>)"
    using c(1) by (simp add: progress_material)
  from progress_monitoring [OF this, of "bt_insert terminal target (monitoring_of cl label)" label]
  have "progress cl (cl'\<lparr>cl_version_material := (cl_version_material cl')(label \<mapsto> m (material_of cl' label)),
      cl_monitoring_map := (cl_monitoring_map cl')(label \<mapsto> bt_insert terminal target (monitoring_of cl label))\<rparr>)"
    by (simp add: bt_ordered_insert monitoring_of_ordered)
  moreover have "case ver of Some v \<Rightarrow> target = v | None \<Rightarrow> sr_version resp = Some target"
    using assms(3) by (auto simp: res_simps split: option.splits)
  ultimately show ?thesis using c(2) by (auto simp: searched_def same_maps_def)
qed

lemma search_progress: "yields (verify_search_response C now label ver resp cl) (searched label ver resp cl)"
  unfolding verify_search_response_def
  by (intro yields_rules) (rule searched_final)

lemma contact_final:
  assumes "open_head cl now fth msg = Inr (n, ts, updated)"
    and "replay_contact_ladders C obligations n rmw mat st = Inr (rd, roots, m)"
    and "finish_and_commit C fth n ts updated pf rd roots extra cl = Inr (cl', x)"
  shows "client_wf cl \<Longrightarrow> bt_ordered obligations \<Longrightarrow>
    progress cl (cl'\<lparr>cl_monitoring_map := (cl_monitoring_map cl')(label \<mapsto> m)\<rparr>)"
  using open_head_size [OF assms(1)] replay_contact_ordered [OF assms(2)]
  by (intro progress_monitoring commit_progress(1) [OF assms(3)]) auto

lemma contact_progress: "yields (client_contact_monitor C now user resp cl) (progress cl)"
proof (cases "client_wf cl")
  case True
  then show ?thesis
    unfolding client_contact_monitor_def verify_contact_monitor_def
    by (intro yields_rules) (rule contact_final [OF _ _ _ _ monitoring_of_ordered]; assumption)
next
  case False
  have "progress cl (cl'\<lparr>cl_monitoring_map := m\<rparr>)" if "progress cl cl'" for cl' m
    using that False by (simp add: progress_def advanced_def)
  then show ?thesis
    unfolding client_contact_monitor_def verify_contact_monitor_def
    by (intro yields_rules) (blast intro: commit_progress(1) dest: open_head_size)
qed

lemma owner_init_progress: "yields (verify_owner_init C now label start resp cl) (progress cl)"
proof -
  have "progress cl (cl'\<lparr>cl_monitoring_map := (cl_monitoring_map cl')(label \<mapsto> monitoring_of cl' label)\<rparr>)"
    if "tree_size_for_fth cl now fth = Inr (n, ts, updated)" "\<not> (n = 0 \<or> n \<le> start)"
      "finish_and_commit C fth n ts updated pf rd roots extra cl = Inr (cl', x)"
    for fth n ts updated pf rd roots extra cl' x
    using that(2) commit_progress(1) [OF that(3,1)]
    by (intro progress_monitoring) (auto simp: progress_def monitoring_of_ordered)
  then show ?thesis unfolding verify_owner_init_def by (intro yields_rules) blast
qed

lemma distinguished_progress: "yields (verify_distinguished C now stop resp cl) (progress cl)"
proof -
  have ordered: "bt_ordered (fold (\<lambda>p m. case entry_of_walk captured leaf_data p of
           Some (k, v) \<Rightarrow> bt_insert k v m | None \<Rightarrow> m) ps m)" if "bt_ordered m" for ps m captured leaf_data
    using that by (induction ps arbitrary: m) (auto simp: bt_ordered_insert split: option.split)
  have "progress cl (cl'\<lparr>cl_distinguished_entries := fold (\<lambda>p m. case entry_of_walk captured leaf_data p of
           Some (k, v) \<Rightarrow> bt_insert k v m | None \<Rightarrow> m) ps []\<rparr>)"
    if "open_head cl now fth msg = Inr (n, ts, updated)"
      "finish_and_commit C fth n ts updated pf rd roots extra cl = Inr (cl', x)"
    for fth msg n ts updated pf rd roots extra cl' x captured leaf_data ps
    using open_head_size [OF that(1)] commit_progress(1) [OF that(2)] ordered [of "[]"]
    by (auto simp: progress_def advanced_def client_wf_def bt_ordered_def)
  then show ?thesis unfolding verify_distinguished_def by (intro yields_rules) blast
qed

lemma owner_monitor_progress: "yields (verify_owner_monitor C now label obligations start greatest resp cl) (progress cl)"
proof -
  have "progress cl cl'" if "open_head cl now fth msg = Inr (n, ts, updated)"
      "finish_and_commit C fth n ts updated pf rd roots extra cl = Inr (cl', x)"
    for fth msg n ts updated pf rd roots extra cl' x
    using open_head_size [OF that(1)] commit_progress(1) [OF that(2)] by blast
  then show ?thesis unfolding verify_owner_monitor_def by (intro yields_rules) blast
qed

lemma update_frame: "\<exists>m. fst (update_loop C respond user val i cl) = cl\<lparr>cl_label_versions := m\<rparr>"
proof (induction C respond user val i cl rule: update_loop.induct)
  case (1 C respond user val cl)
  have "cl = cl\<lparr>cl_label_versions := cl_label_versions cl\<rparr>" by simp
  then show ?case by (metis fst_conv update_loop.simps(1))
next
  case (2 C respond user val i cl)
  have "cl = cl\<lparr>cl_label_versions := cl_label_versions cl\<rparr>" by simp
  then have "\<exists>m. cl = cl\<lparr>cl_label_versions := m\<rparr>" by blast
  moreover have ex: "\<exists>m. cl\<lparr>cl_label_versions := v\<rparr> = cl\<lparr>cl_label_versions := m\<rparr>" for v by blast
  ultimately show ?case
    using 2 [OF refl refl refl] ex by (simp add: Let_def split: sum.split)
qed

section \<open>Local clients\<close>

text \<open>The client a text restores, from a file system that has it at the name.\<close>

definition restores :: "codec \<Rightarrow> json_lib \<Rightarrow> string \<Rightarrow> string \<Rightarrow> client \<Rightarrow> bool" where
  "restores D J p text cl \<longleftrightarrow> (\<forall>fs fresh. read_file fs p = Some text \<longrightarrow> cl_state fresh = None \<longrightarrow>
     persist_to D J p \<lparr>lo_client = fresh, lo_state_path = None, lo_fs = fs\<rparr> =
       (\<lparr>lo_client = restored D cl fresh, lo_state_path = Some p, lo_fs = fs\<rparr>, Inr ()))"

definition saved_text :: "codec \<Rightarrow> json_lib \<Rightarrow> iteration \<Rightarrow> client \<Rightarrow> string" where
  "saved_text D J it cl = js_write J (persisted_of D it cl)"

lemma restores_saved:
  assumes "lib_laws D J" and "client_wf cl" and "iterates it cl"
  shows "restores D J p (saved_text D J it cl) cl"
  using assms load_saved [OF assms]
  by (simp add: restores_def saved_text_def persist_to_def lib_laws_def and_st_def)

inductive local_step :: "crypto \<Rightarrow> codec \<Rightarrow> json_lib \<Rightarrow> local_client \<Rightarrow> local_client \<Rightarrow> bool" for C D J where
  step_search: "local_search C D J it io io' now user ver resp L = (L', r) \<Longrightarrow> local_step C D J L L'"
| step_contact_monitor: "local_contact_monitor C D J it io now user resp L = (L', r) \<Longrightarrow> local_step C D J L L'"
| step_owner_init: "local_owner_init C D J it io now user start resp L = (L', r) \<Longrightarrow> local_step C D J L L'"
| step_distinguished: "local_distinguished C D J it io now stop resp L = (L', r) \<Longrightarrow> local_step C D J L L'"
| step_owner_monitor:
    "local_owner_monitor C D J it io now user entries start greatest resp L = (L', r) \<Longrightarrow> local_step C D J L L'"
| step_update: "local_update C D J it io respond user val L = (L', r') \<Longrightarrow> local_step C D J L L'"

definition safely_at :: "string \<Rightarrow> local_client \<Rightarrow> bool" where
  "safely_at p L \<longleftrightarrow> lo_state_path L = Some p \<and> sound (lo_fs L) p \<and> client_wf (lo_client L)"

lemma save_state_effect:
  assumes "save_state D J it io L = (L', r)" and "safely_at p L"
  shows "lo_client L' = lo_client L \<and> safely_at p L' \<and>
    (\<forall>c. may_read (lo_fs L') p c \<longrightarrow> may_read (lo_fs L) p c \<or> c = Some (saved_text D J it (lo_client L))) \<and>
    (r = Inr () \<longrightarrow> read_file (lo_fs L') p = Some (saved_text D J it (lo_client L)) \<and>
      (\<forall>c. may_read (lo_fs L') p c \<longleftrightarrow> c = Some (saved_text D J it (lo_client L))))"
proof -
  obtain fs' where run: "fs_run io (save_steps p (saved_text D J it (lo_client L))) (lo_fs L) = (fs', r)"
    "L' = L\<lparr>lo_fs := fs'\<rparr>"
    using assms by (auto simp: save_state_def safely_at_def saved_text_def split: prod.splits)
  have "sound (lo_fs L) p" using assms(2) by (simp add: safely_at_def)
  from save_atomic [OF this run(1)] show ?thesis using assms(2) run(2) by (simp add: safely_at_def)
qed

definition moved :: "string \<Rightarrow> local_client \<Rightarrow> local_client \<Rightarrow> bool" where
  "moved p L L' \<longleftrightarrow> safely_at p L' \<and> advanced (lo_client L) (lo_client L')"

lemma moved_save:
  assumes "save_state D J it io (L\<lparr>lo_client := cl\<rparr>) = (L', r)" and "safely_at p L" and "progress (lo_client L) cl"
  shows "moved p L L'"
proof -
  have "safely_at p (L\<lparr>lo_client := cl\<rparr>)" using assms(2,3) by (simp add: safely_at_def progress_def)
  from save_state_effect [OF assms(1) this] show ?thesis using assms(3) by (simp add: moved_def progress_def)
qed

lemma moved_saved:
  assumes "saved D J it io f L = (L', r)" and "safely_at p L" and "yields (f (lo_client L)) (progress (lo_client L))"
  shows "moved p L L'"
proof (cases "f (lo_client L)")
  case (Inl e)
  then show ?thesis using assms(1,2) by (simp add: saved_def moved_def)
next
  case (Inr cl)
  then show ?thesis
    using assms(1,3) by (intro moved_save [OF _ assms(2)]) (auto simp: saved_def yields_def)
qed

lemma progress_committed:
  assumes "searched label ver resp cl cl'"
  shows "progress cl (cl'\<lparr>cl_version_material := cl_version_material cl, cl_monitoring_map := cl_monitoring_map cl\<rparr>)"
proof -
  have a: "advanced cl cl'" "cl_distinguished_entries cl' = cl_distinguished_entries cl"
    using assms by (auto simp: searched_def progress_def)
  have "client_wf (cl'\<lparr>cl_version_material := cl_version_material cl, cl_monitoring_map := cl_monitoring_map cl\<rparr>)"
    if "client_wf cl"
  proof -
    have "client_wf cl'" using assms that by (simp add: searched_def progress_def)
    then show ?thesis using that by (simp add: client_wf_def)
  qed
  then show ?thesis using a(1) by (simp add: progress_def advanced_def)
qed

lemma moved_client: "moved p L L1 \<Longrightarrow> progress (lo_client L) cl \<Longrightarrow> client_wf (lo_client L) \<Longrightarrow> moved p L (L1\<lparr>lo_client := cl\<rparr>)"
  by (simp add: moved_def safely_at_def progress_def)

lemma moved_verify_search:
  assumes "local_verify_search C D J it io now user ver resp L = (L', r)" and "safely_at p L"
  shows "moved p L L'"
proof (cases "verify_search_response C now user ver resp (lo_client L)")
  case (Inl e)
  then show ?thesis using assms by (simp add: local_verify_search_def moved_def)
next
  case (Inr cl)
  note s = yieldsD [OF search_progress Inr]
  let ?committed = "cl\<lparr>cl_version_material := cl_version_material (lo_client L), cl_monitoring_map := cl_monitoring_map (lo_client L)\<rparr>"
  obtain L1 r1 where save: "save_state D J (it ?committed) io (L\<lparr>lo_client := ?committed\<rparr>) = (L1, r1)" by fastforce
  have m: "moved p L L1" by (rule moved_save [OF save assms(2) progress_committed [OF s]])
  moreover have "L' = L1 \<or> L' = L1\<lparr>lo_client := cl\<rparr>"
    using assms(1) Inr save by (auto simp: local_verify_search_def and_st_def Let_def split: sum.splits)
  ultimately show ?thesis
    using moved_client [OF m, of cl] s assms(2) by (auto simp: searched_def safely_at_def)
qed

lemma moved_trans: "moved p L L1 \<Longrightarrow> moved p L1 L2 \<Longrightarrow> moved p L L2"
  using advanced_trans by (auto simp: moved_def)

lemma step_moves:
  assumes "local_step C D J L L'" and "safely_at p L"
  shows "moved p L L'"
  using assms(1)
proof (cases rule: local_step.cases)
  case (step_search it io io' now user ver resp r)
  obtain L1 r1 where first: "local_verify_search C D J it io now user ver resp L = (L1, r1)" by fastforce
  note m = moved_verify_search [OF first assms(2)]
  have label: "yields (Inr (lo_client L\<lparr>cl_label_versions := lv\<rparr>)) (progress (lo_client L))" for L lv
    by (simp add: yields_def progress_def advanced_def client_wf_def)
  have "L' = L1 \<or> (\<exists>greatest r. saved D J it io'
      (\<lambda>cl. Inr (cl\<lparr>cl_label_versions := (cl_label_versions cl)(user \<mapsto> greatest)\<rparr>)) L1 = (L', r))"
    using step_search first by (auto simp: local_search_def and_st_def split: sum.splits option.splits)
  then show ?thesis
  proof (elim disjE exE)
    fix greatest r
    assume "saved D J it io' (\<lambda>cl. Inr (cl\<lparr>cl_label_versions := (cl_label_versions cl)(user \<mapsto> greatest)\<rparr>)) L1 = (L', r)"
    then have "moved p L1 L'" using m by (intro moved_saved) (auto simp: moved_def label)
    then show ?thesis by (rule moved_trans [OF m])
  qed (use m in simp)
next
  case (step_contact_monitor it io now user resp r)
  then have "saved D J it io (client_contact_monitor C now user resp) L = (L', r)" by (simp add: local_contact_monitor_def)
  then show ?thesis using assms(2) contact_progress by (rule moved_saved)
next
  case (step_owner_init it io now user start resp r)
  then have "saved D J it io (verify_owner_init C now user start resp) L = (L', r)" by (simp add: local_owner_init_def)
  then show ?thesis using assms(2) owner_init_progress by (rule moved_saved)
next
  case (step_distinguished it io now stop resp r)
  then have "saved D J it io (verify_distinguished C now stop resp) L = (L', r)" by (simp add: local_distinguished_def)
  then show ?thesis using assms(2) distinguished_progress by (rule moved_saved)
next
  case (step_owner_monitor it io now user entries start greatest resp r)
  then have "saved D J it io (verify_owner_monitor C now user (bt_of entries) start greatest resp) L = (L', r)" by (simp add: local_owner_monitor_def)
  then show ?thesis using assms(2) owner_monitor_progress by (rule moved_saved)
next
  case (step_update it io respond user val r)
  obtain cl ur where u: "client_update C respond user val (lo_client L) = (cl, ur)" by fastforce
  then obtain m where "cl = lo_client L\<lparr>cl_label_versions := m\<rparr>"
    using update_frame [of C respond user val 32 "lo_client L"] by (auto simp: client_update_def)
  then have p: "progress (lo_client L) cl" by (simp add: progress_def advanced_def client_wf_def)
  show ?thesis
  proof (cases ur)
    case (Inl e)
    then show ?thesis using step_update u p assms(2) by (auto simp: local_update_def moved_def safely_at_def progress_def)
  next
    case (Inr resp)
    obtain L1 r1 where save: "save_state D J (it cl) io (L\<lparr>lo_client := cl\<rparr>) = (L1, r1)" by fastforce
    then have "L' = L1" using step_update u Inr by (auto simp: local_update_def and_st_def split: sum.splits)
    then show ?thesis using moved_save [OF save assms(2) p] by simp
  qed
qed

section \<open>A sample file\<close>

type_synonym state_tuple =
  "(u64 \<times> string \<times> u64 \<times> (u64 \<times> u64) option) \<times> (string \<times> version) list \<times> (u64 \<times> string) list \<times>
    (string \<times> (u64 \<times> version) list) list \<times> (string \<times> (version \<times> string \<times> string option) list) list \<times>
    (u64 \<times> u64 \<times> string \<times> string list) list \<times> string option"

definition state_tuple :: "persisted_state \<Rightarrow> state_tuple" where
  "state_tuple p = ((ps_tree_size p, ps_root_hash p, ps_timestamp p, ps_auditor_head p), ps_label_versions p,
     ps_retained_subtrees p,
     map (\<lambda>m. (pml_label m, map (\<lambda>e. (pme_position e, pme_version e)) (pml_entries m))) (ps_monitoring_map p),
     map (\<lambda>l. (plm_label l, map (\<lambda>v. (pvm_version v, pvm_vrf_output v, pvm_commitment v)) (plm_versions l)))
       (ps_version_material p),
     map (\<lambda>d. (pde_position d, pde_timestamp d, pde_root d, pde_peaks d)) (ps_distinguished_entries p),
     ps_retained_head p)"

definition tuple_state :: "state_tuple \<Rightarrow> persisted_state" where
  "tuple_state = (\<lambda>((n, rt, t, a), lv, rs, ms, ls, ds, h).
     \<lparr>ps_tree_size = n, ps_root_hash = rt, ps_timestamp = t, ps_auditor_head = a, ps_label_versions = lv,
      ps_retained_subtrees = rs,
      ps_monitoring_map = map (\<lambda>(l, es). \<lparr>pml_label = l,
        pml_entries = map (\<lambda>(p, v). \<lparr>pme_position = p, pme_version = v\<rparr>) es\<rparr>) ms,
      ps_version_material = map (\<lambda>(l, vs). \<lparr>plm_label = l,
        plm_versions = map (\<lambda>(v, out, c). \<lparr>pvm_version = v, pvm_vrf_output = out, pvm_commitment = c\<rparr>) vs\<rparr>) ls,
      ps_distinguished_entries = map (\<lambda>(p, t, rt, ps).
        \<lparr>pde_position = p, pde_timestamp = t, pde_root = rt, pde_peaks = ps\<rparr>) ds,
      ps_retained_head = h\<rparr>)"

lemma rebuilt:
  "\<lparr>pme_position = pme_position e, pme_version = pme_version e\<rparr> = e"
  "\<lparr>pml_label = pml_label m, pml_entries = pml_entries m\<rparr> = m"
  "\<lparr>pvm_version = pvm_version v, pvm_vrf_output = pvm_vrf_output v, pvm_commitment = pvm_commitment v\<rparr> = v"
  "\<lparr>plm_label = plm_label l, plm_versions = plm_versions l\<rparr> = l"
  "\<lparr>pde_position = pde_position d, pde_timestamp = pde_timestamp d, pde_root = pde_root d, pde_peaks = pde_peaks d\<rparr> = d"
  by simp_all

lemma tuple_state_inverse [simp]: "tuple_state (state_tuple p) = p"
  by (simp add: tuple_state_def state_tuple_def o_def rebuilt)

definition sample_lib :: json_lib where
  "sample_lib = \<lparr>js_write = (\<lambda>p. replicate (to_nat (state_tuple p)) CHR ''0''),
     js_read = (\<lambda>s. Some (tuple_state (from_nat (length s))))\<rparr>"

lemma sample_lib_laws: "lib_laws sample_codec sample_lib"
  by (simp add: lib_laws_def sample_lib_def sample_codec_def)

definition sample_local :: local_client where
  "sample_local = \<lparr>lo_client = flat_client, lo_state_path = Some ''state'',
     lo_fs = \<lparr>fs_names = Map.empty, fs_past = [], fs_files = (\<lambda>_. \<lparr>fl_data = '''', fl_synced = False\<rparr>), fs_next = 0\<rparr>\<rparr>"

definition no_entries :: iteration where
  "no_entries = \<lparr>it_label_versions = [], it_monitoring_map = [], it_version_material = [], it_versions = (\<lambda>_. [])\<rparr>"

lemma sample_local_safe: "safely_at ''state'' sample_local"
  by (simp add: safely_at_def sample_local_def sound_def client_wf_def flat_client_fields bt_ordered_def)

lemma sample_local_search:
  "\<exists>L'. local_search flat_crypto sample_codec sample_lib (\<lambda>_. no_entries) (\<lambda>_. None) (\<lambda>_. None) 9 [1] (Some 0)
      flat_response sample_local = (L', Inr ())"
proof -
  obtain cl where "verify_search_response flat_crypto 9 [1] (Some 0) flat_response flat_client = Inr cl"
    using flat_verified by blast
  moreover have "\<exists>L1. save_state sample_codec sample_lib it (\<lambda>_. None) L = (L1, Inr ())" for it L
    by (auto simp: save_state_def save_steps_def split: option.split)
  then obtain L1 where "save_state sample_codec sample_lib no_entries (\<lambda>_. None) (sample_local\<lparr>lo_client :=
      cl\<lparr>cl_version_material := Map.empty, cl_monitoring_map := Map.empty\<rparr>\<rparr>) = (L1, Inr ())"
    by blast
  moreover have "lo_client sample_local = flat_client" by (simp add: sample_local_def)
  ultimately show ?thesis
    by (simp add: local_search_def local_verify_search_def and_st_def flat_client_fields)
qed

text \<open>Over a course of operations the client stays safe and only advances.\<close>

interpretation local_runs: evolution "local_step C D J" "safely_at p" "\<lambda>L L'. advanced (lo_client L) (lo_client L')"
  for C D J p
  by unfold_locales (auto simp: moved_def dest: step_moves intro: advanced_trans)

section \<open>Properties\<close>

text \<open>C33. A client never goes back. Through every sequence of local operations, with whatever
  answers, failures and interrupted saves, the state file stays whole and apart from its temporary
  file, the client stays well formed and keeps its keys and configuration, and its trusted tree
  size never decreases; while the size stays, so does the trusted root.\<close>

theorem client_never_rolls_back:
  assumes "(local_step C D J)\<^sup>*\<^sup>* L L'" and "safely_at p L"
  shows "safely_at p L' \<and> advanced (lo_client L) (lo_client L')"
  using local_runs.run_keeps [OF assms] local_runs.run_grows [OF assms] by simp

lemma client_never_rolls_back_witness:
  "\<exists>L'. local_step flat_crypto sample_codec sample_lib sample_local L' \<and> safely_at ''state'' L' \<and>
    advanced flat_client (lo_client L') \<and> cl_monitoring_map (lo_client L') [1] \<noteq> None"
proof -
  obtain L' where L': "local_search flat_crypto sample_codec sample_lib (\<lambda>_. no_entries) (\<lambda>_. None) (\<lambda>_. None) 9 [1]
      (Some 0) flat_response sample_local = (L', Inr ())"
    using sample_local_search by blast
  have step: "local_step flat_crypto sample_codec sample_lib sample_local L'" by (rule step_search [OF L'])
  then have steps: "(local_step flat_crypto sample_codec sample_lib)\<^sup>*\<^sup>* sample_local L'" by (rule r_into_rtranclp)
  obtain cl where cl: "verify_search_response flat_crypto 9 [1] (Some 0) flat_response flat_client = Inr cl"
    using flat_verified by blast
  have "lo_client L' = cl"
    using L' cl by (auto simp: local_search_def local_verify_search_def and_st_def sample_local_def Let_def
        split: prod.splits sum.splits)
  then have "cl_monitoring_map (lo_client L') [1] \<noteq> None"
    using yieldsD [OF search_progress cl] by (auto simp: searched_def)
  then show ?thesis
    using client_never_rolls_back [OF steps sample_local_safe] step by (auto simp: sample_local_def)
qed

text \<open>C34. Saving survives crashes. Whatever step of a save fails or is cut short, a crash afterwards
  leaves to be read only what it could have left before, or the text of the client, and the file
  stays safe; when the save succeeds only that text can be read, and a new client that starts from
  it has the whole state of the one that was saved.\<close>

theorem save_survives_crashes:
  assumes "lib_laws D J" and "safely_at p L" and "iterates it (lo_client L)"
    and "save_state D J it io L = (L', r)"
  shows "safely_at p L' \<and> lo_client L' = lo_client L \<and>
    restores D J p (saved_text D J it (lo_client L)) (lo_client L) \<and>
    (\<forall>c. may_read (lo_fs L') p c \<longrightarrow> may_read (lo_fs L) p c \<or> c = Some (saved_text D J it (lo_client L))) \<and>
    (r = Inr () \<longrightarrow> (\<forall>c. may_read (lo_fs L') p c \<longleftrightarrow> c = Some (saved_text D J it (lo_client L))))"
  using save_state_effect [OF assms(4,2)] restores_saved [OF assms(1) _ assms(3)] assms(2)
  by (simp add: safely_at_def)

lemma save_survives_crashes_witness:
  "\<exists>L'. save_state sample_codec sample_lib no_entries (\<lambda>s. if s = SyncDir then Some 0 else None) sample_local =
      (L', Inl (Anyhow ''I/O error'')) \<and> safely_at ''state'' L' \<and>
    (\<forall>c. may_read (lo_fs L') ''state'' c \<longrightarrow>
      c = None \<or> c = Some (saved_text sample_codec sample_lib no_entries flat_client))"
proof -
  have it: "iterates no_entries (lo_client sample_local)"
    by (simp add: iterates_def no_entries_def lists_keys_def sample_local_def flat_client_fields)
  have old: "may_read (lo_fs sample_local) ''state'' c \<longleftrightarrow> c = None" for c
    by (simp add: may_read_def may_hold_def sample_local_def split: option.split)
  obtain L' where "save_state sample_codec sample_lib no_entries (\<lambda>s. if s = SyncDir then Some 0 else None) sample_local =
      (L', Inl (Anyhow ''I/O error''))"
    by (simp add: save_state_def save_steps_def sample_local_def)
  then show ?thesis
    using save_survives_crashes [OF sample_lib_laws sample_local_safe it] old
    by (fastforce simp: sample_local_def)
qed

text \<open>C35. A search for a fixed version forgets its obligation. When it succeeds, the client in memory
  has the monitoring obligation and the material it must check later, but the state file holds the
  monitoring map and the material from before the search, so a restart loses them.\<close>

theorem fixed_search_obligation_not_saved:
  assumes "local_search C D J it io io' now user (Some v) resp L = (L', Inr ())" and "safely_at p L"
  shows "\<exists>cl terminal. cl_monitoring_map cl = cl_monitoring_map (lo_client L) \<and>
    cl_version_material cl = cl_version_material (lo_client L) \<and>
    read_file (lo_fs L') p = Some (saved_text D J (it cl) cl) \<and>
    cl_monitoring_map (lo_client L') user = Some (bt_insert terminal v (monitoring_of (lo_client L) user))"
proof -
  obtain cl where verify: "verify_search_response C now user (Some v) resp (lo_client L) = Inr cl"
    using assms(1) by (cases "verify_search_response C now user (Some v) resp (lo_client L)")
      (auto simp: local_search_def local_verify_search_def and_st_def)
  note s = yieldsD [OF search_progress verify]
  let ?committed = "cl\<lparr>cl_version_material := cl_version_material (lo_client L), cl_monitoring_map := cl_monitoring_map (lo_client L)\<rparr>"
  obtain L1 where save: "save_state D J (it ?committed) io (L\<lparr>lo_client := ?committed\<rparr>) = (L1, Inr ())" "L' = L1\<lparr>lo_client := cl\<rparr>"
    using assms(1) verify by (auto simp: local_search_def local_verify_search_def and_st_def Let_def split: prod.splits sum.splits)
  have "safely_at p (L\<lparr>lo_client := ?committed\<rparr>)"
    using progress_committed [OF s] assms(2) by (simp add: safely_at_def progress_def)
  from save_state_effect [OF save(1) this] show ?thesis
    using s save(2) by (intro exI [of _ ?committed]) (auto simp: searched_def)
qed

lemma fixed_search_obligation_not_saved_witness:
  "\<exists>L' cl terminal. local_search flat_crypto sample_codec sample_lib (\<lambda>_. no_entries) (\<lambda>_. None) (\<lambda>_. None) 9 [1]
      (Some 0) flat_response sample_local = (L', Inr ()) \<and>
    cl_monitoring_map cl = Map.empty \<and> read_file (lo_fs L') ''state'' = Some (saved_text sample_codec sample_lib no_entries cl) \<and>
    cl_monitoring_map (lo_client L') [1] = Some [(terminal, 0)]"
proof -
  obtain L' where L': "local_search flat_crypto sample_codec sample_lib (\<lambda>_. no_entries) (\<lambda>_. None) (\<lambda>_. None) 9 [1]
      (Some 0) flat_response sample_local = (L', Inr ())"
    using sample_local_search by blast
  have "lo_client sample_local = flat_client" by (simp add: sample_local_def)
  with fixed_search_obligation_not_saved [OF L' sample_local_safe] L' show ?thesis
    by (auto simp: monitoring_of_def flat_client_fields)
qed

text \<open>C40. Loading keeps the client well formed. Whatever text a state file holds, well ordered or not,
  and however far it decodes, the client it leaves has ordered maps and, when it trusts a tree, one
  with entries; its keys, its configuration and the file system are those it had.\<close>

theorem loaded_client_well_formed:
  assumes "persist_to D J p L = (L', r)" and "client_wf (lo_client L)"
  shows "client_wf (lo_client L') \<and> lo_fs L' = lo_fs L \<and> cl_config (lo_client L') = cl_config (lo_client L) \<and>
    cl_sig_pk (lo_client L') = cl_sig_pk (lo_client L) \<and> cl_vrf_pk (lo_client L') = cl_vrf_pk (lo_client L)"
proof -
  have "lo_client L' = lo_client L \<or> (\<exists>ps. lo_client L' = fst (load_persisted D ps (lo_client L)))" and "lo_fs L' = lo_fs L"
    using assms(1) by (auto simp: persist_to_def and_st_def split: option.splits prod.splits sum.splits) (metis fst_conv)+
  then show ?thesis using load_persisted_wf [OF assms(2)] assms(2) by (auto simp: well_loaded_def)
qed

definition disordered :: persisted_state where
  "disordered = (persisted_of sample_codec no_entries flat_client)
     \<lparr>ps_tree_size := 0, ps_retained_head := None, ps_distinguished_entries := map (persist_distinguished sample_codec) [(5, 2, [], []), (3, 1, [], [])]\<rparr>"

theorem loaded_client_well_formed_witness:
  "\<exists>L' r. persist_to sample_codec sample_lib ''state'' (sample_local\<lparr>lo_fs := (lo_fs sample_local)\<lparr>fs_names := [''state'' \<mapsto> 0],
      fs_files := (\<lambda>_. \<lparr>fl_data = js_write sample_lib disordered, fl_synced = True\<rparr>)\<rparr>\<rparr>) = (L', r) \<and>
    r = Inr () \<and> cl_distinguished_entries (lo_client L') = [(3, 1, [], []), (5, 2, [], [])] \<and> client_wf (lo_client L')"
proof -
  let ?L = "sample_local\<lparr>lo_fs := (lo_fs sample_local)\<lparr>fs_names := [''state'' \<mapsto> 0],
      fs_files := (\<lambda>_. \<lparr>fl_data = js_write sample_lib disordered, fl_synced = True\<rparr>)\<rparr>\<rparr>"
  have hex: "hex_decode sample_codec (hex_encode sample_codec b) = Some b" for b by (simp add: sample_codec_def)
  have wf: "client_wf (lo_client ?L)" using sample_local_safe by (simp add: safely_at_def sample_local_def)
  have "map_res (load_distinguished sample_codec) (ps_distinguished_entries disordered) = Inr [(5, 2, [], []), (3, 1, [], [])]"
    by (simp add: disordered_def persisted_parts(4) [OF hex])
  moreover have "js_read sample_lib (js_write sample_lib disordered) = Some disordered" using sample_lib_laws by (simp add: lib_laws_def)
  ultimately obtain L' where "persist_to sample_codec sample_lib ''state'' ?L = (L', Inr ())"
    "cl_distinguished_entries (lo_client L') = [(3, 1, [], []), (5, 2, [], [])]"
    by (auto simp: persist_to_def read_file_def and_st_def load_persisted_def load_field_def disordered_def persisted_of_def
        no_entries_def entries_in_def flat_client_fields sample_local_def bt_of_def unhex_opt_def)
  then show ?thesis using loaded_client_well_formed [OF _ wf] by blast
qed

end
