(* ===== verification/Startup.thy ===== *)
theory Startup
  imports Service Persist "HOL-Library.AList"
begin

text \<open>
  The start of the server, \<^verbatim>\<open>src/src/main.rs\<close>: the arguments, the key files, the public
  configuration handed out to clients, the service, the demonstration data and the epoch tick.
  The host is its file system, the modes set on its files and the databases of its directories;
  what the operating system and the source of randomness answer is the record \<open>os\<close>. File contents
  and arguments are ASCII. What is printed and logged is left out.
\<close>

section \<open>Arguments\<close>

datatype suite_arg = Ed25519 | P256

definition suite_code :: "suite_arg \<Rightarrow> u16" where
  "suite_code a = (case a of
     Ed25519 \<Rightarrow> CIPHER_SUITE_KT_128_SHA256_ED25519
   | P256 \<Rightarrow> CIPHER_SUITE_KT_128_SHA256_P256)"

record args =
  ag_listen :: string
  ag_data_dir :: string
  ag_sig_key_file :: "string option"
  ag_vrf_key_file :: "string option"
  ag_config_out :: "string option"
  ag_cipher_suite :: suite_arg
  ag_auditor_pubkeys :: "string list"
  ag_max_ahead :: u64
  ag_max_behind :: u64
  ag_epoch_interval_secs :: u64
  ag_monitoring_window :: u64
  ag_maximum_lifetime :: "u64 option"
  ag_max_response_entries :: nat
  ag_tls_cert :: "string option"
  ag_tls_key :: "string option"
  ag_seed :: bool
  ag_dump_config :: bool

text \<open>The arguments of an empty command line.\<close>

definition default_args :: args where
  "default_args = \<lparr>ag_listen = ''0.0.0.0:8081'', ag_data_dir = ''./kt_data'', ag_sig_key_file = None,
     ag_vrf_key_file = None, ag_config_out = None, ag_cipher_suite = Ed25519, ag_auditor_pubkeys = [],
     ag_max_ahead = 10000, ag_max_behind = 60000, ag_epoch_interval_secs = 10,
     ag_monitoring_window = 86400000, ag_maximum_lifetime = None, ag_max_response_entries = 100,
     ag_tls_cert = None, ag_tls_key = None, ag_seed = False, ag_dump_config = False\<rparr>"

section \<open>The host\<close>

record host =
  ho_fs :: file_system
  ho_mode :: "nat \<rightharpoonup> nat"
  ho_db :: "string \<Rightarrow> store"

record os =
  os_io :: io
  os_mkdir :: "string \<Rightarrow> bool"
  os_readable :: "string \<Rightarrow> bool"
  os_chmod :: "string \<Rightarrow> bool"
  os_db_opens :: "string \<Rightarrow> bool"
  os_tls_ok :: "string \<Rightarrow> string \<Rightarrow> bool"
  os_sig_seed :: bytes
  os_vrf_seed :: bytes
  os_now :: "nat \<Rightarrow> u64"
  os_openings :: "nat \<Rightarrow> nat \<Rightarrow> bytes"
  os_arrange :: "(bytes \<times> service_verifying_key) list \<Rightarrow> (bytes \<times> service_verifying_key) list"

definition io_error :: err where "io_error = Anyhow ''I/O error''"

text \<open>\<^verbatim>\<open>Path::join\<close> with a relative name.\<close>

definition path_join :: "string \<Rightarrow> string \<Rightarrow> string" where
  "path_join d f = (if d = [] \<or> last d = CHR ''/'' then d @ f else d @ ''/'' @ f)"

definition path_exists :: "host \<Rightarrow> string \<Rightarrow> bool" where
  "path_exists h p \<longleftrightarrow> fs_names (ho_fs h) p \<noteq> None"

definition create_dir_all :: "os \<Rightarrow> string \<Rightarrow> unit res" where
  "create_dir_all S d = (if os_mkdir S d then Inr () else Inl io_error)"

definition read_to_string :: "os \<Rightarrow> host \<Rightarrow> string \<Rightarrow> string res" where
  "read_to_string S h p = (if os_readable S p then ok_or (read_file (ho_fs h) p) io_error else Inl io_error)"

text \<open>\<^verbatim>\<open>fs::write\<close> creates or truncates the file and does not flush it.\<close>

definition fs_write :: "os \<Rightarrow> string \<Rightarrow> string \<Rightarrow> host \<Rightarrow> host \<times> unit res" where
  "fs_write S p contents h =
     (case fs_run (os_io S) [Create p, Write p contents] (ho_fs h) of (fs, r) \<Rightarrow> (h\<lparr>ho_fs := fs\<rparr>, r))"

definition set_permissions :: "os \<Rightarrow> string \<Rightarrow> nat \<Rightarrow> host \<Rightarrow> host \<times> unit res" where
  "set_permissions S p mode h =
     (case fs_names (ho_fs h) p of
        None \<Rightarrow> (h, Inl io_error)
      | Some i \<Rightarrow> if os_chmod S p then (h\<lparr>ho_mode := (ho_mode h)(i \<mapsto> mode)\<rparr>, Inr ()) else (h, Inl io_error))"

section \<open>Keys\<close>

definition OWNER_ONLY :: nat where "OWNER_ONLY = 384"

definition write_secret :: "os \<Rightarrow> string \<Rightarrow> string \<Rightarrow> host \<Rightarrow> host \<times> unit res" where
  "write_secret S p contents h =
     and_st (map_prod id (with_context ''writing key'') (fs_write S p contents h)) (\<lambda>h _.
     set_permissions S p OWNER_ONLY h)"

definition white :: "char \<Rightarrow> bool" where
  "white c \<longleftrightarrow> c = CHR '' '' \<or> 9 \<le> (of_char c :: nat) \<and> (of_char c :: nat) \<le> 13"

definition trim :: "string \<Rightarrow> string" where
  "trim s = rev (dropWhile white (rev (dropWhile white s)))"

definition parse_sig :: "crypto \<Rightarrow> codec \<Rightarrow> u16 \<Rightarrow> string \<Rightarrow> service_signing_key res" where
  "parse_sig C D suite s =
     and_then (with_context ''decoding signing key hex'' (unhex D (trim s))) (from_seed_bytes C suite)"

definition generated_sig :: "os \<Rightarrow> u16 \<Rightarrow> service_signing_key" where
  "generated_sig S suite =
     (if suite = CIPHER_SUITE_KT_128_SHA256_P256 then SkP256 (os_sig_seed S) else SkEd25519 (os_sig_seed S))"

definition load_or_generate_sig :: "crypto \<Rightarrow> codec \<Rightarrow> os \<Rightarrow> string \<Rightarrow> u16 \<Rightarrow> host \<Rightarrow> host \<times> service_signing_key res" where
  "load_or_generate_sig C D S p suite h =
     (if path_exists h p then
        (h, and_then (with_context ''reading'' (read_to_string S h p)) (parse_sig C D suite))
      else
        let sk = generated_sig S suite in
        and_st (write_secret S p (hex_encode D (to_seed_bytes sk)) h) (\<lambda>h _. (h, Inr sk)))"

definition parse_vrf :: "codec \<Rightarrow> string \<Rightarrow> bytes res" where
  "parse_vrf D s = with_context ''decoding VRF key hex'' (unhex D (trim s))"

text \<open>Both arms of \<^verbatim>\<open>generate_vrf_keypair\<close> draw a secret of 32 bytes.\<close>

definition load_or_generate_vrf :: "codec \<Rightarrow> os \<Rightarrow> string \<Rightarrow> host \<Rightarrow> host \<times> bytes res" where
  "load_or_generate_vrf D S p h =
     (if path_exists h p then
        (h, and_then (with_context ''reading'' (read_to_string S h p)) (parse_vrf D))
      else
        let secret = os_vrf_seed S in
        and_st (write_secret S p (hex_encode D secret) h) (\<lambda>h _. (h, Inr secret)))"

text \<open>The map of auditor keys, in the order in which the hash map lists it.\<close>

definition add_auditor_key :: "crypto \<Rightarrow> codec \<Rightarrow> string \<Rightarrow> (bytes \<times> service_verifying_key) list \<Rightarrow>
    (bytes \<times> service_verifying_key) list res" where
  "add_auditor_key C D hexk keys =
     and_then (with_context ''decoding --auditor-pubkey hex'' (unhex D (trim hexk))) (\<lambda>bs.
     and_then (vk_from_bytes C bs) (\<lambda>vk.
     Inr (AList.update (vk_to_bytes vk) vk keys)))"

definition auditor_keys_of :: "crypto \<Rightarrow> codec \<Rightarrow> os \<Rightarrow> string list \<Rightarrow> (bytes \<times> service_verifying_key) list res" where
  "auditor_keys_of C D S hexes =
     and_then (fold_res (add_auditor_key C D) hexes []) (\<lambda>keys. Inr (os_arrange S keys))"

definition mode_of :: "(bytes \<times> service_verifying_key) list \<Rightarrow> u8" where
  "mode_of auditor_keys =
     (if auditor_keys = [] then DEPLOYMENT_MODE_CONTACT_MONITORING else DEPLOYMENT_MODE_THIRD_PARTY_AUDITING)"

definition mode_name :: "u8 \<Rightarrow> string" where
  "mode_name mode =
     (if mode = DEPLOYMENT_MODE_THIRD_PARTY_AUDITING then ''third-party-auditing'' else ''contact-monitoring'')"

section \<open>Demonstration data\<close>

text \<open>A submitted request is received by the worker and answered when its timer fires.\<close>

definition submit_alone :: "crypto \<Rightarrow> codec \<Rightarrow> u64 \<Rightarrow> (nat \<Rightarrow> bytes) \<Rightarrow> update_job \<Rightarrow> service \<Rightarrow>
    service \<times> update_response res" where
  "submit_alone C D now openings job s =
     (case worker_event_step C D now openings (Received job) s of
        (s, queued) \<Rightarrow>
          (case worker_event_step C D now openings Timer s of
             (s, replies) \<Rightarrow> (s, submitted_answer (job_reply job) (queued @ replies))))"

definition demo_entries :: "(string \<times> string list) list" where
  "demo_entries = [(''alice'', [''alice_pk_v1'']), (''bob'', [''bob_pk_v1'', ''bob_pk_v2'']), (''carol'', [''carol_pk_v1''])]"

definition demo_request :: "string \<Rightarrow> nat \<Rightarrow> string \<Rightarrow> update_request" where
  "demo_request label i value =
     \<lparr>ureq_last = None, ureq_label = ascii label,
      ureq_greatest_version = (if i = 0 then None else Some (i - 1)), ureq_values = [ascii value]\<rparr>"

definition demo_requests :: "update_request list" where
  "demo_requests = concat (map (\<lambda>(label, values). map (\<lambda>(i, v). demo_request label i v) (enumerate 0 values)) demo_entries)"

fun submit_all :: "crypto \<Rightarrow> codec \<Rightarrow> os \<Rightarrow> (nat \<times> update_request) list \<Rightarrow> service \<Rightarrow> service \<times> unit res" where
  "submit_all C D S [] s = (s, Inr ())"
| "submit_all C D S ((n, req) # reqs) s =
     and_st (submit_alone C D (os_now S n) (os_openings S n) \<lparr>job_reply = n, job_req = req\<rparr> s) (\<lambda>s _.
     submit_all C D S reqs s)"

definition seed_demo_data :: "crypto \<Rightarrow> codec \<Rightarrow> os \<Rightarrow> service \<Rightarrow> service \<times> unit res" where
  "seed_demo_data C D S s =
     (let existing = latest_size (sv_tree s) in
      if existing > 0 then (s, Inr ()) else submit_all C D S (enumerate 0 demo_requests) s)"

section \<open>The epoch tick\<close>

text \<open>The tick takes the write lock and drops the head it is answered.\<close>

definition epoch_tick :: "codec \<Rightarrow> u64 \<Rightarrow> service \<Rightarrow> service" where
  "epoch_tick D now s =
     s\<lparr>sv_worker := (sv_worker s)\<lparr>wk_tree := fst (refresh_head_timestamp D now (sv_tree s))\<rparr>\<rparr>"

section \<open>Start\<close>

record paths =
  pt_sig :: string
  pt_vrf :: string
  pt_config :: string

definition paths_of :: "args \<Rightarrow> paths" where
  "paths_of a =
     \<lparr>pt_sig = (case ag_sig_key_file a of Some p \<Rightarrow> p | None \<Rightarrow> path_join (ag_data_dir a) ''sig_key.hex''),
      pt_vrf = (case ag_vrf_key_file a of Some p \<Rightarrow> p | None \<Rightarrow> path_join (ag_data_dir a) ''vrf_key.hex''),
      pt_config = (case ag_config_out a of Some p \<Rightarrow> p | None \<Rightarrow> path_join (ag_data_dir a) ''config.json'')\<rparr>"

definition params_of :: "args \<Rightarrow> server_params" where
  "params_of a =
     \<lparr>sp_max_ahead = ag_max_ahead a, sp_max_behind = ag_max_behind a,
      sp_reasonable_monitoring_window = ag_monitoring_window a,
      sp_maximum_lifetime = ag_maximum_lifetime a, sp_max_response_entries = ag_max_response_entries a\<rparr>"

definition published_config :: "crypto \<Rightarrow> u16 \<Rightarrow> u8 \<Rightarrow> service_signing_key \<Rightarrow> private_config \<Rightarrow> server_params \<Rightarrow>
    public_config" where
  "published_config C suite mode sig_key priv_cfg params =
     \<lparr>cfg_cipher_suite = suite, cfg_mode = mode,
      cfg_server_sig_pk = vk_to_bytes (verifying_key C sig_key),
      cfg_vrf_public_key = pc_vrf_public_key priv_cfg, cfg_leaf_public_key = None,
      cfg_auditor_public_key = pc_auditor_public_key priv_cfg,
      cfg_auditor_start_pos = pc_auditor_start_pos priv_cfg, cfg_max_auditor_lag = pc_max_auditor_lag priv_cfg,
      cfg_max_ahead = sp_max_ahead params, cfg_max_behind = sp_max_behind params,
      cfg_reasonable_monitoring_window = sp_reasonable_monitoring_window params,
      cfg_maximum_lifetime = sp_maximum_lifetime params\<rparr>"

text \<open>The keys and the configuration, up to the end of a run that only writes the configuration.\<close>

record identity =
  su_sig_key :: service_signing_key
  su_vrf_secret :: bytes
  su_auditor_keys :: "(bytes \<times> service_verifying_key) list"

definition prepare :: "('s, 'p) edwards \<Rightarrow> ('t, 'q) nist \<Rightarrow> crypto \<Rightarrow> codec \<Rightarrow> (public_config_artifact \<Rightarrow> string) \<Rightarrow> os \<Rightarrow> args \<Rightarrow>
    host \<Rightarrow> host \<times> identity res" where
  "prepare E N C D json S a h =
     (let suite = suite_code (ag_cipher_suite a); pt = paths_of a in
      and_st (h, with_context ''creating data dir'' (create_dir_all S (ag_data_dir a))) (\<lambda>h _.
      and_st (load_or_generate_sig C D S (pt_sig pt) suite h) (\<lambda>h sig_key.
      and_st (load_or_generate_vrf D S (pt_vrf pt) h) (\<lambda>h vrf_secret.
      and_st (h, auditor_keys_of C D S (ag_auditor_pubkeys a)) (\<lambda>h auditor_keys.
      let mode = mode_of auditor_keys; params = params_of a in
      and_st (h, with_context ''building configuration''
          (private_config_new E N suite mode sig_key vrf_secret auditor_keys (sp_max_ahead params)
            (sp_max_behind params) (sp_reasonable_monitoring_window params)
            (sp_maximum_lifetime params) None (sp_max_response_entries params))) (\<lambda>h priv_cfg.
      let config_json = to_json D json (published_config C suite mode sig_key priv_cfg params) in
      and_st (map_prod id (with_context ''writing config'') (fs_write S (pt_config pt) config_json h)) (\<lambda>h _.
      (h, Inr \<lparr>su_sig_key = sig_key, su_vrf_secret = vrf_secret, su_auditor_keys = auditor_keys\<rparr>))))))))"

text \<open>In-process TLS needs both of its files.\<close>

definition tls_setup :: "os \<Rightarrow> args \<Rightarrow> host \<Rightarrow> unit res" where
  "tls_setup S a h =
     (case (ag_tls_cert a, ag_tls_key a) of
        (Some cert, Some key) \<Rightarrow>
          and_then (read_to_string S h cert) (\<lambda>c.
          and_then (read_to_string S h key) (\<lambda>k.
          if os_tls_ok S c k then Inr () else Inl (Anyhow ''transport error'')))
      | (None, None) \<Rightarrow> Inr ()
      | _ \<Rightarrow> Inl (Anyhow ''--tls-cert and --tls-key must be set together''))"

text \<open>A server that starts holds the service, and the interval of the epoch tick when it has one.\<close>

datatype started = Config_written | Serving service "u64 option"

definition put_db :: "string \<Rightarrow> service \<Rightarrow> host \<Rightarrow> host" where
  "put_db d s h = h\<lparr>ho_db := (ho_db h)(d := tr_store (sv_tree s))\<rparr>"

definition launch :: "('s, 'p) edwards \<Rightarrow> ('t, 'q) nist \<Rightarrow> crypto \<Rightarrow> codec \<Rightarrow> os \<Rightarrow> args \<Rightarrow> identity \<Rightarrow> host \<Rightarrow>
    host \<times> started res" where
  "launch E N C D S a su h =
     (let db_dir = path_join (ag_data_dir a) ''db'' in
      and_st (h, create_dir_all S db_dir) (\<lambda>h _.
      and_st (h, if os_db_opens S db_dir then Inr (ho_db h db_dir) else Inl (Anyhow ''cannot open the database'')) (\<lambda>h db.
      and_st (h, with_params E N D db (su_sig_key su) (su_vrf_secret su) (su_auditor_keys su) None (params_of a)) (\<lambda>h s.
      and_st (case (if ag_seed a then seed_demo_data C D S s else (s, Inr ())) of
          (s, r) \<Rightarrow> (put_db db_dir s h, and_then r (\<lambda>_. Inr s))) (\<lambda>h s.
      and_st (h, tls_setup S a h) (\<lambda>h _.
      (h, Inr (Serving s (if ag_epoch_interval_secs a > 0 then Some (ag_epoch_interval_secs a) else None)))))))))"

definition start :: "('s, 'p) edwards \<Rightarrow> ('t, 'q) nist \<Rightarrow> crypto \<Rightarrow> codec \<Rightarrow> (public_config_artifact \<Rightarrow> string) \<Rightarrow> os \<Rightarrow> args \<Rightarrow>
    host \<Rightarrow> host \<times> started res" where
  "start E N C D json S a h =
     and_st (prepare E N C D json S a h) (\<lambda>h su.
     if ag_dump_config a then (h, Inr Config_written) else launch E N C D S a su h)"

end
