(* ===== verification/StartupProps.thy ===== *)
theory StartupProps
  imports Startup PersistProps ServiceProps
begin

text \<open>
  The start of the server: the configuration it hands out is that of the service it runs, its keys
  are those of its first start through every restart, and a key file that a crash has cut short is
  refused. A file system is \<open>plain\<close> when its names have inodes of their own.
\<close>

section \<open>Writing a file\<close>

definition plain :: "file_system \<Rightarrow> bool" where
  "plain fs \<longleftrightarrow> (\<forall>p q i. fs_names fs p = Some i \<and> fs_names fs q = Some i \<longrightarrow> p = q) \<and>
     (\<forall>p i. fs_names fs p = Some i \<longrightarrow> i < fs_next fs)"

lemma plain_put: "plain fs \<Longrightarrow> plain (put_file p f fs)"
  by (simp add: plain_def put_file_def split: option.split)

lemma read_file_cong:
  assumes "fs_names fs' q = fs_names fs q" and "\<And>i. fs_names fs q = Some i \<Longrightarrow> fs_files fs' i = fs_files fs i"
  shows "read_file fs' q = read_file fs q"
  using assms by (cases "fs_names fs q") (simp_all add: read_file_def)

lemma read_put:
  assumes "plain fs"
  shows "read_file (put_file p f fs) q =
     (if q = p then map_option (\<lambda>i. fl_data (f (fs_files fs i))) (fs_names fs p) else read_file fs q)"
proof (cases "q = p")
  case False
  have "read_file (put_file p f fs) q = read_file fs q"
    by (rule read_file_cong) (use False assms in \<open>auto simp: put_file_def plain_def split: option.split\<close>)
  then show ?thesis using False by simp
qed (simp add: put_file_def read_file_def split: option.split)

lemma read_create:
  assumes "plain fs" shows "read_file (fs_do (Create p) fs) q = (if q = p then Some [] else read_file fs q)"
proof (cases "fs_names fs p")
  case None
  have "read_file (fs_do (Create p) fs) q = read_file fs q" if "q \<noteq> p"
    by (rule read_file_cong) (use that None assms in \<open>auto simp: plain_def\<close>)
  then show ?thesis using None by (simp add: read_file_def)
qed (simp add: read_put [OF assms])

lemma plain_create: "plain fs \<Longrightarrow> plain (fs_do (Create p) fs)"
  by (fastforce simp: plain_def put_file_def split: option.split)

lemma names_create: "fs_names (fs_do (Create p) fs) p \<noteq> None"
  by (cases "fs_names fs p") (simp_all add: put_file_def)

text \<open>Whatever becomes of a write, the other files keep their contents.\<close>

lemma fs_write_others:
  assumes "fs_write S p d h = (h', r)" and "plain (ho_fs h)"
  shows "plain (ho_fs h')" and "\<And>q. q \<noteq> p \<Longrightarrow> read_file (ho_fs h') q = read_file (ho_fs h) q"
    and "ho_mode h' = ho_mode h" and "ho_db h' = ho_db h"
  using assms plain_create [of "ho_fs h" p] plain_put [OF plain_create, of "ho_fs h"]
    read_put [OF plain_create, of "ho_fs h"] read_create [of "ho_fs h" p]
  by (auto simp: fs_write_def simp del: fs_do.simps(1) split: prod.splits option.splits)

lemma fs_write_ok:
  assumes "fs_write S p d h = (h', Inr u)" and "plain (ho_fs h)"
  shows "read_file (ho_fs h') p = Some d"
proof -
  let ?fs = "fs_do (Create p) (ho_fs h)"
  have "ho_fs h' = fs_do (Write p d) ?fs"
    using assms(1) by (auto simp: fs_write_def simp del: fs_do.simps(1) split: prod.splits option.splits)
  moreover have "read_file ?fs p = Some []" using read_create [OF assms(2)] by simp
  ultimately show ?thesis
    using read_put [OF plain_create [OF assms(2), of p], of p _ p] by (auto simp: read_file_def)
qed

text \<open>A new file may be read in part after a crash, or not at all.\<close>

definition with_new :: "string \<Rightarrow> string \<Rightarrow> file_system \<Rightarrow> file_system" where
  "with_new p d fs = fs\<lparr>fs_names := (fs_names fs)(p \<mapsto> fs_next fs), fs_past := fs_names fs # fs_past fs,
     fs_files := (fs_files fs)(fs_next fs := \<lparr>fl_data = d, fl_synced = False\<rparr>), fs_next := fs_next fs + 1\<rparr>"

lemma create_write:
  assumes "fs_names fs p = None"
  shows "fs_do (Write p d) (fs_do (Create p) fs) = with_new p d fs"
  using assms by (cases fs) (simp add: with_new_def put_file_def)

lemma may_read_new:
  assumes "\<forall>d\<in>set (fs_past fs). d p = None" and "fs_names fs p = None"
  shows "may_read (with_new p d fs) p c \<longleftrightarrow> (case c of None \<Rightarrow> True | Some t \<Rightarrow> prefix t d)"
  using assms by (auto simp: may_read_def may_hold_def with_new_def split: option.split)

lemma may_read_absent:
  assumes "\<forall>d\<in>set (fs_past fs). d p = None" and "fs_names fs p = None"
  shows "may_read fs p c \<longleftrightarrow> c = None"
  using assms by (auto simp: may_read_def may_hold_def split: option.split)

lemma fs_write_new:
  assumes "fs_write S p d h = (h', r)" and "fs_names (ho_fs h) p = None" and "\<forall>m\<in>set (fs_past (ho_fs h)). m p = None"
  shows "may_read (ho_fs h') p (Some t) \<Longrightarrow> prefix t d"
    and "r = Inr () \<Longrightarrow> read_file (ho_fs h') p = Some d" and "may_read (ho_fs h') p None"
proof -
  have "ho_fs h' = ho_fs h \<and> r \<noteq> Inr () \<or> (\<exists>d'. ho_fs h' = with_new p d' (ho_fs h) \<and> prefix d' d \<and> (r = Inr () \<longrightarrow> d' = d))"
    using assms(1) create_write [OF assms(2)] take_is_prefix
    by (cases "os_io S (Create p)"; cases "os_io S (Write p d)")
      (auto simp: fs_write_def simp del: fs_do.simps(1,2); blast)+
  then show "may_read (ho_fs h') p (Some t) \<Longrightarrow> prefix t d"
    and "r = Inr () \<Longrightarrow> read_file (ho_fs h') p = Some d" and "may_read (ho_fs h') p None"
    using may_read_new [OF assms(3,2)] may_read_absent [OF assms(3,2)] prefix_order.trans
    by (auto simp: with_new_def read_file_def)
qed

section \<open>Keys\<close>

text \<open>What the hex crate documents: decoding inverts encoding, a decoded string has two digits per
  byte, and no digit is white.\<close>

definition hex_laws :: "codec \<Rightarrow> bool" where
  "hex_laws D \<longleftrightarrow> (\<forall>b. hex_decode D (hex_encode D b) = Some b) \<and>
     (\<forall>s b. hex_decode D s = Some b \<longrightarrow> length s = 2 * length b) \<and>
     (\<forall>b. \<forall>c\<in>set (hex_encode D b). \<not> white c)"

lemma trim_id:
  assumes "\<And>c. c \<in> set s \<Longrightarrow> \<not> white c" shows "trim s = s"
proof -
  have "dropWhile white t = t" if "set t \<subseteq> set s" for t
    using that assms by (cases t) auto
  then show ?thesis by (simp add: trim_def)
qed

text \<open>A text from which a crash has cut a part decodes to too few bytes, when it decodes.\<close>

lemma unhex_cut:
  assumes "hex_laws D" and "prefix t (hex_encode D b)" and "unhex D (trim t) = Inr b'"
  shows "t = hex_encode D b \<and> b' = b \<or> length b' < length b"
proof -
  have len: "length s = 2 * length x" if "hex_decode D s = Some x" for s x
    using assms(1) that by (auto simp: hex_laws_def)
  have full: "hex_decode D (hex_encode D b) = Some b" using assms(1) by (simp add: hex_laws_def)
  have "trim t = t"
    using assms(1,2) set_mono_prefix by (intro trim_id) (fastforce simp: hex_laws_def)
  then have dec: "hex_decode D t = Some b'" using assms(3) by (simp add: unhex_def res_simps)
  show ?thesis
  proof (cases "t = hex_encode D b")
    case False
    then have "length t < length (hex_encode D b)" using assms(2) by (auto elim: prefixE)
    then show ?thesis using len [OF dec] len [OF full] by simp
  qed (use dec full in simp)
qed

lemma unhex_full:
  assumes "hex_laws D" shows "unhex D (trim (hex_encode D b)) = Inr b"
  using assms trim_id [of "hex_encode D b"] by (simp add: hex_laws_def unhex_def)

lemma with_context_Inr [simp]: "with_context msg m = Inr x \<longleftrightarrow> m = Inr x"
  by (simp add: with_context_def split: sum.split err.split)

lemma parse_sig_cut:
  assumes "hex_laws D" and "prefix t (hex_encode D seed)" and "length seed = 32" and "from_seed_bytes C suite seed = Inr sk"
  shows "if t = hex_encode D seed then parse_sig C D suite t = Inr sk else \<exists>e. parse_sig C D suite t = Inl e"
proof (cases "unhex D (trim t)")
  case (Inl e)
  then have "t \<noteq> hex_encode D seed" using unhex_full [OF assms(1), of seed] by auto
  then show ?thesis using Inl by (cases e) (simp_all add: parse_sig_def with_context_def)
next
  case (Inr b)
  with unhex_cut [OF assms(1,2) Inr] unhex_full [OF assms(1), of seed] assms(3,4) show ?thesis
    by (auto simp: parse_sig_def with_context_def from_seed_bytes_def)
qed

lemma parse_sig_full:
  assumes "hex_laws D" and "from_seed_bytes C suite (to_seed_bytes sk) = Inr sk"
  shows "parse_sig C D suite (hex_encode D (to_seed_bytes sk)) = Inr sk"
  using assms by (simp add: parse_sig_def unhex_full with_context_def)

lemma parse_vrf_full: "hex_laws D \<Longrightarrow> parse_vrf D (hex_encode D b) = Inr b"
  by (simp add: parse_vrf_def unhex_full with_context_def)

section \<open>The start keeps its keys\<close>

lemma write_secret_others:
  assumes "write_secret S p d h = (h', r)" and "plain (ho_fs h)"
  shows "plain (ho_fs h')" and "\<And>q. q \<noteq> p \<Longrightarrow> read_file (ho_fs h') q = read_file (ho_fs h) q"
    and "r = Inr u \<Longrightarrow> read_file (ho_fs h') p = Some d"
proof -
  obtain h1 r1 where w: "fs_write S p d h = (h1, r1)" by (cases "fs_write S p d h")
  have fs: "ho_fs h' = ho_fs h1" and ok: "r = Inr u \<Longrightarrow> r1 = Inr ()"
    using assms(1) w by (auto simp: write_secret_def and_st_def set_permissions_def
        split: sum.splits option.splits if_splits)
  show "plain (ho_fs h')" "\<And>q. q \<noteq> p \<Longrightarrow> read_file (ho_fs h') q = read_file (ho_fs h) q"
    using fs_write_others [OF w assms(2)] by (simp_all add: fs)
  show "r = Inr u \<Longrightarrow> read_file (ho_fs h') p = Some d"
    using fs_write_ok [of S p d h h1] ok w assms(2) by (simp add: fs)
qed

lemma load_or_generate_sig_spec:
  assumes "load_or_generate_sig C D S p suite h = (h', r)" and "plain (ho_fs h)" and "hex_laws D"
    and "from_seed_bytes C suite (os_sig_seed S) = Inr (generated_sig S suite)"
  shows "plain (ho_fs h')" and "\<And>q. q \<noteq> p \<Longrightarrow> read_file (ho_fs h') q = read_file (ho_fs h) q"
    and "r = Inr sk \<Longrightarrow> \<exists>t. read_file (ho_fs h') p = Some t \<and> parse_sig C D suite t = Inr sk"
proof -
  have seed: "to_seed_bytes (generated_sig S suite) = os_sig_seed S" by (simp add: generated_sig_def to_seed_bytes_def)
  then have full: "parse_sig C D suite (hex_encode D (os_sig_seed S)) = Inr (generated_sig S suite)"
    using parse_sig_full [OF assms(3)] assms(4) by metis
  show "plain (ho_fs h')" "\<And>q. q \<noteq> p \<Longrightarrow> read_file (ho_fs h') q = read_file (ho_fs h) q"
    "r = Inr sk \<Longrightarrow> \<exists>t. read_file (ho_fs h') p = Some t \<and> parse_sig C D suite t = Inr sk"
    using assms(1,2) full write_secret_others [of S p _ h] seed
    by (auto simp: load_or_generate_sig_def and_st_def Let_def read_to_string_def res_simps
        split: prod.splits sum.splits if_splits)
qed

lemma load_or_generate_vrf_spec:
  assumes "load_or_generate_vrf D S p h = (h', r)" and "plain (ho_fs h)" and "hex_laws D"
  shows "plain (ho_fs h')" and "\<And>q. q \<noteq> p \<Longrightarrow> read_file (ho_fs h') q = read_file (ho_fs h) q"
    and "r = Inr b \<Longrightarrow> \<exists>t. read_file (ho_fs h') p = Some t \<and> parse_vrf D t = Inr b"
  using assms(1,2) parse_vrf_full [OF assms(3)] write_secret_others [of S p _ h]
  by (auto simp: load_or_generate_vrf_def and_st_def Let_def read_to_string_def res_simps
      split: prod.splits sum.splits if_splits)

text \<open>A key file that exists is read and nothing is written.\<close>

lemma load_existing:
  assumes "read_file (ho_fs h) p = Some t"
  shows "load_or_generate_sig C D S p suite h =
      (h, if os_readable S p then parse_sig C D suite t else Inl (Anyhow ''reading''))"
    and "load_or_generate_vrf D S p h = (h, if os_readable S p then parse_vrf D t else Inl (Anyhow ''reading''))"
  using assms by (auto simp: load_or_generate_sig_def load_or_generate_vrf_def path_exists_def read_file_def
      read_to_string_def with_context_def io_error_def)

definition distinct_paths :: "paths \<Rightarrow> bool" where
  "distinct_paths pt \<longleftrightarrow> pt_sig pt \<noteq> pt_vrf pt \<and> pt_config pt \<notin> {pt_sig pt, pt_vrf pt}"

definition has_keys :: "crypto \<Rightarrow> codec \<Rightarrow> u16 \<Rightarrow> paths \<Rightarrow> service_signing_key \<Rightarrow> bytes \<Rightarrow> host \<Rightarrow> bool" where
  "has_keys C D suite pt sk vrf h \<longleftrightarrow> plain (ho_fs h) \<and>
     (\<exists>t. read_file (ho_fs h) (pt_sig pt) = Some t \<and> parse_sig C D suite t = Inr sk) \<and>
     (\<exists>t. read_file (ho_fs h) (pt_vrf pt) = Some t \<and> parse_vrf D t = Inr vrf)"

lemma has_keys_write:
  assumes "has_keys C D suite pt sk vrf h" and "distinct_paths pt" and "fs_write S (pt_config pt) d h = (h', r)"
  shows "has_keys C D suite pt sk vrf h'"
  using assms fs_write_others(1,2) [OF assms(3)] by (auto simp: has_keys_def distinct_paths_def)


lemma and_st_Inr: "and_st m f = (s', Inr y) \<longleftrightarrow> (\<exists>s x. m = (s, Inr x) \<and> f s x = (s', Inr y))"
  by (auto simp: and_st_def split: prod.splits sum.splits)

lemma map_context_Inr: "map_prod id (with_context msg) m = (s, Inr x) \<longleftrightarrow> m = (s, Inr x)"
  by (cases m) auto

definition config_for :: "('s, 'p) edwards \<Rightarrow> ('t, 'q) nist \<Rightarrow> args \<Rightarrow> identity \<Rightarrow> private_config res" where
  "config_for E N a su = private_config_new E N (suite_code (ag_cipher_suite a)) (mode_of (su_auditor_keys su))
     (su_sig_key su) (su_vrf_secret su) (su_auditor_keys su) (ag_max_ahead a) (ag_max_behind a)
     (ag_monitoring_window a) (ag_maximum_lifetime a) None (ag_max_response_entries a)"

definition seeds_ok :: "crypto \<Rightarrow> u16 \<Rightarrow> os \<Rightarrow> bool" where
  "seeds_ok C suite S \<longleftrightarrow> from_seed_bytes C suite (os_sig_seed S) = Inr (generated_sig S suite)"

lemma config_for_keys:
  "config_for E N a su = Inr c \<Longrightarrow> pc_sig_key c = su_sig_key su \<and> pc_vrf_key c = su_vrf_secret su"
  by (auto simp: config_for_def private_config_new_def res_simps)

lemma published_public_view:
  assumes "config_for E N a su = Inr c"
  shows "published_config C (suite_code (ag_cipher_suite a)) (mode_of (su_auditor_keys su)) (su_sig_key su) c (params_of a) =
    public_view C c"
  using assms by (auto simp: config_for_def private_config_new_def published_config_def public_view_def params_of_def res_simps)

lemma prepare_spec:
  assumes "prepare E N C D json S a h = (h', Inr su)" and "plain (ho_fs h)" and "hex_laws D"
    and "seeds_ok C (suite_code (ag_cipher_suite a)) S" and "distinct_paths (paths_of a)"
  shows "has_keys C D (suite_code (ag_cipher_suite a)) (paths_of a) (su_sig_key su) (su_vrf_secret su) h'"
    and "auditor_keys_of C D S (ag_auditor_pubkeys a) = Inr (su_auditor_keys su)"
    and "\<exists>c. config_for E N a su = Inr c \<and>
      read_file (ho_fs h') (pt_config (paths_of a)) = Some (to_json D json (public_view C c))"
proof -
  let ?suite = "suite_code (ag_cipher_suite a)" and ?pt = "paths_of a"
  obtain h1 h2 c where sig: "load_or_generate_sig C D S (pt_sig ?pt) ?suite h = (h1, Inr (su_sig_key su))"
    and vrf: "load_or_generate_vrf D S (pt_vrf ?pt) h1 = (h2, Inr (su_vrf_secret su))"
    and keys: "auditor_keys_of C D S (ag_auditor_pubkeys a) = Inr (su_auditor_keys su)"
    and c: "config_for E N a su = Inr c"
    and w: "fs_write S (pt_config ?pt) (to_json D json (published_config C ?suite (mode_of (su_auditor_keys su))
        (su_sig_key su) c (params_of a))) h2 = (h', Inr ())"
    using assms(1) by (auto simp: prepare_def Let_def and_st_Inr map_context_Inr config_for_def params_of_def)
  note s = load_or_generate_sig_spec [OF sig assms(2,3) assms(4) [unfolded seeds_ok_def]]
  note v = load_or_generate_vrf_spec [OF vrf s(1) assms(3)]
  have "has_keys C D ?suite ?pt (su_sig_key su) (su_vrf_secret su) h2"
    using s(3) v assms(5) by (auto simp: has_keys_def distinct_paths_def)
  then show "has_keys C D ?suite ?pt (su_sig_key su) (su_vrf_secret su) h'"
    using has_keys_write [OF _ assms(5) w] by simp
  show "\<exists>c. config_for E N a su = Inr c \<and>
      read_file (ho_fs h') (pt_config (paths_of a)) = Some (to_json D json (public_view C c))"
    using fs_write_ok [OF w v(1)] published_public_view [OF c] c by auto
qed (use assms(1) in \<open>auto simp: prepare_def Let_def and_st_Inr map_context_Inr\<close>)

text \<open>A later start, whether it succeeds or not, leaves the key files and can only use their keys.\<close>

lemma prepare_keeps:
  assumes keys: "has_keys C D (suite_code (ag_cipher_suite a)) (paths_of a) sk vrf h" and "distinct_paths (paths_of a)"
    and "prepare E N C D json S a h = (h', r)"
  shows "has_keys C D (suite_code (ag_cipher_suite a)) (paths_of a) sk vrf h'"
    and "r = Inr su \<Longrightarrow> su_sig_key su = sk \<and> su_vrf_secret su = vrf"
proof -
  obtain s t where files: "read_file (ho_fs h) (pt_sig (paths_of a)) = Some s" "parse_sig C D (suite_code (ag_cipher_suite a)) s = Inr sk"
    "read_file (ho_fs h) (pt_vrf (paths_of a)) = Some t" "parse_vrf D t = Inr vrf"
    using keys by (auto simp: has_keys_def)
  note load = load_existing(1) [OF files(1), of C D S "suite_code (ag_cipher_suite a)"] load_existing(2) [OF files(3), of D S]
  have "h' = h \<or> (\<exists>d r. fs_write S (pt_config (paths_of a)) d h = (h', r))"
    using assms(3) by (auto simp: prepare_def Let_def and_st_def load files map_prod_def
        split: prod.splits sum.splits if_splits)
  then show "has_keys C D (suite_code (ag_cipher_suite a)) (paths_of a) sk vrf h'"
    using keys has_keys_write [OF keys assms(2)] by auto
  show "r = Inr su \<Longrightarrow> su_sig_key su = sk \<and> su_vrf_secret su = vrf"
    using assms(3) by (auto simp: prepare_def Let_def and_st_Inr load files split: if_splits)
qed

lemma submit_all_config: "submit_all C D S reqs s = (s', r) \<Longrightarrow> sv_config s' = sv_config s"
  by (induction C D S reqs s arbitrary: s' r rule: submit_all.induct)
    (auto simp: and_st_def submit_alone_def worker_event_step_def split: prod.splits sum.splits)

lemma seed_config: "sv_config (fst (seed_demo_data C D S s)) = sv_config s"
  using submit_all_config by (simp add: seed_demo_data_def Let_def) (metis prod.collapse)

lemma with_params_config:
  assumes "config_for E N a su = Inr c"
    and "with_params E N D db (su_sig_key su) (su_vrf_secret su) (su_auditor_keys su) None (params_of a) = Inr s"
  shows "sv_config s = c"
proof -
  have "check_suite (suite_code (ag_cipher_suite a)) (su_sig_key su) = Inr ()"
    using assms(1) by (auto simp: config_for_def private_config_new_def res_simps)
  then have "suite_code (ag_cipher_suite a) = (case su_sig_key su of
      SkEd25519 _ \<Rightarrow> CIPHER_SUITE_KT_128_SHA256_ED25519 | SkP256 _ \<Rightarrow> CIPHER_SUITE_KT_128_SHA256_P256)"
    by (auto simp: check_suite_def split: if_splits service_signing_key.splits)
  then show ?thesis
    using assms by (auto simp: with_params_def config_for_def mode_of_def params_of_def res_simps Let_def split: if_splits)
qed

lemma launch_Serving:
  assumes "launch E N C D S a su h = (h', Inr (Serving s tick))"
  shows "\<exists>db s1. with_params E N D db (su_sig_key su) (su_vrf_secret su) (su_auditor_keys su) None (params_of a) = Inr s1 \<and>
    sv_config s = sv_config s1"
proof -
  obtain s1 where s1: "with_params E N D (ho_db h (path_join (ag_data_dir a) ''db'')) (su_sig_key su) (su_vrf_secret su)
      (su_auditor_keys su) None (params_of a) = Inr s1"
    and run: "fst (if ag_seed a then seed_demo_data C D S s1 else (s1, Inr ())) = s"
    using assms unfolding launch_def Let_def and_st_Inr case_prod_beta by (auto simp: res_simps split: if_splits)
  moreover have "sv_config (fst (seed_demo_data C D S s1)) = sv_config s1" by (rule seed_config)
  ultimately show ?thesis by (metis fst_conv)
qed

lemma launch_spec:
  assumes "launch E N C D S a su h = (h', r)"
  shows "ho_fs h' = ho_fs h" and "config_for E N a su = Inr c \<Longrightarrow> r = Inr (Serving s tick) \<Longrightarrow> sv_config s = c"
proof -
  show "ho_fs h' = ho_fs h"
    using assms by (auto simp: launch_def Let_def and_st_def put_db_def split: prod.splits sum.splits if_splits)
  assume "config_for E N a su = Inr c" and "r = Inr (Serving s tick)"
  then show "sv_config s = c" using launch_Serving assms with_params_config by metis
qed

section \<open>A sample host\<close>

text \<open>Lower-case hexadecimal, read back digit by digit.\<close>

definition digit :: "nat \<Rightarrow> char" where
  "digit n = ''0123456789abcdef'' ! n"

definition digit_value :: "char \<Rightarrow> nat option" where
  "digit_value c = map_of (zip ''0123456789abcdef'' [0..<16]) c"

definition byte_text :: "u8 \<Rightarrow> string" where
  "byte_text b = [digit (unat b div 16), digit (unat b mod 16)]"

fun text_bytes :: "string \<Rightarrow> bytes option" where
  "text_bytes [] = Some []"
| "text_bytes (c # d # s) =
     (case (digit_value c, digit_value d, text_bytes s) of
        (Some x, Some y, Some b) \<Rightarrow> Some (word_of_nat (16 * x + y) # b)
      | _ \<Rightarrow> None)"
| "text_bytes [c] = None"

definition hex_codec :: codec where
  "hex_codec = sample_codec\<lparr>hex_encode := concat \<circ> map byte_text, hex_decode := text_bytes\<rparr>"

lemma digit_read: "n < 16 \<Longrightarrow> digit_value (digit n) = Some n \<and> \<not> white (digit n)"
proof -
  have "\<forall>n\<in>set [0..<16]. digit_value (digit n) = Some n \<and> \<not> white (digit n)" by code_simp
  then show "n < 16 \<Longrightarrow> digit_value (digit n) = Some n \<and> \<not> white (digit n)" by auto
qed

lemma byte_digits: "unat (b :: u8) div 16 < 16" "unat b mod 16 < 16"
  using unsigned_less [of b, where 'a = nat] by (simp_all add: less_mult_imp_div_less)

lemma hex_codec_laws: "hex_laws hex_codec"
proof -
  have "text_bytes (concat (map byte_text b)) = Some b" for b
    by (induction b) (simp_all add: byte_text_def digit_read [OF byte_digits(1)] digit_read [OF byte_digits(2)])
  moreover have "text_bytes s = Some b \<Longrightarrow> length s = 2 * length b" for s b
    by (induction s arbitrary: b rule: text_bytes.induct) (auto split: option.splits)
  moreover have "\<not> white c" if "c \<in> set (byte_text b)" for b c
    using that digit_read [OF byte_digits(1)] digit_read [OF byte_digits(2)] by (auto simp: byte_text_def)
  ultimately show ?thesis by (auto simp: hex_laws_def hex_codec_def)
qed

text \<open>The document of a configuration, as a number in unary.\<close>

definition artifact_tuple :: "public_config_artifact \<Rightarrow> (u16 \<times> u8 \<times> string \<times> string \<times> string option \<times> string option) \<times>
    u64 \<times> u64 \<times> u64 \<times> u64 \<times> u64 \<times> u64 option" where
  "artifact_tuple a = ((pca_cipher_suite a, pca_mode a, pca_server_sig_pk a, pca_vrf_public_key a, pca_leaf_public_key a,
       pca_auditor_public_key a), pca_auditor_start_pos a, pca_max_auditor_lag a, pca_max_ahead a, pca_max_behind a,
     pca_reasonable_monitoring_window a, pca_maximum_lifetime a)"

definition sample_json :: "public_config_artifact \<Rightarrow> string" where
  "sample_json a = replicate (to_nat (artifact_tuple a)) CHR ''0''"

definition sample_unjson :: "string \<Rightarrow> public_config_artifact option" where
  "sample_unjson s = (case from_nat (length s) of ((suite, mode, sig, vrf, leaf, auditor), start_pos, lag, ahead, behind, window, life) \<Rightarrow>
     Some \<lparr>pca_cipher_suite = suite, pca_mode = mode, pca_server_sig_pk = sig, pca_vrf_public_key = vrf,
       pca_leaf_public_key = leaf, pca_auditor_public_key = auditor, pca_auditor_start_pos = start_pos,
       pca_max_auditor_lag = lag, pca_max_ahead = ahead, pca_max_behind = behind,
       pca_reasonable_monitoring_window = window, pca_maximum_lifetime = life\<rparr>)"

lemma sample_json_law: "sample_unjson (sample_json a) = Some a"
  by (simp add: sample_unjson_def sample_json_def artifact_tuple_def)

definition sample_os :: os where
  "sample_os = \<lparr>os_io = (\<lambda>_. None), os_mkdir = (\<lambda>_. True), os_readable = (\<lambda>_. True), os_chmod = (\<lambda>_. True),
     os_db_opens = (\<lambda>_. True), os_tls_ok = (\<lambda>_ _. True), os_sig_seed = replicate 32 1, os_vrf_seed = replicate 32 2,
     os_now = (\<lambda>_. 9), os_openings = (\<lambda>_ _. []), os_arrange = id\<rparr>"

definition sample_host :: host where
  "sample_host = \<lparr>ho_fs = \<lparr>fs_names = Map.empty, fs_past = [], fs_files = (\<lambda>_. \<lparr>fl_data = [], fl_synced = False\<rparr>), fs_next = 0\<rparr>,
     ho_mode = Map.empty, ho_db = (\<lambda>_. empty_store)\<rparr>"

lemma sample_paths:
  "paths_of default_args = \<lparr>pt_sig = ''./kt_data/sig_key.hex'', pt_vrf = ''./kt_data/vrf_key.hex'', pt_config = ''./kt_data/config.json''\<rparr>"
  by (simp add: paths_of_def default_args_def path_join_def)

lemma sample_distinct: "distinct_paths (paths_of default_args)"
  by (simp add: distinct_paths_def sample_paths)

lemma sample_plain: "plain (ho_fs sample_host)"
  by (simp add: plain_def sample_host_def)

lemma sample_seeds: "seeds_ok sample_crypto (suite_code (ag_cipher_suite default_args)) sample_os"
  by (simp add: seeds_ok_def default_args_def suite_code_def from_seed_bytes_def generated_sig_def sample_os_def
      CIPHER_SUITE_KT_128_SHA256_ED25519_def CIPHER_SUITE_KT_128_SHA256_P256_def)

text \<open>What the sample start comes to once it has its keys.\<close>

definition sample_identity :: identity where
  "sample_identity = \<lparr>su_sig_key = SkEd25519 (replicate 32 1), su_vrf_secret = replicate 32 2, su_auditor_keys = []\<rparr>"

text \<open>The sample is started again with another bound on the clock.\<close>

definition sample_args :: "u64 \<Rightarrow> args" where
  "sample_args n = default_args\<lparr>ag_max_ahead := n\<rparr>"

lemma sample_args_default: "sample_args 10000 = default_args"
  by (simp add: sample_args_def default_args_def)

lemma sample_args_paths: "paths_of (sample_args n) = paths_of default_args"
  by (simp add: sample_args_def paths_of_def default_args_def)

lemma sample_launch:
  assumes "ho_db h ''./kt_data/db'' = empty_store"
  shows "\<exists>s. launch word_edwards word_nist sample_crypto hex_codec sample_os (sample_args n) sample_identity h =
    (put_db ''./kt_data/db'' s h, Inr (Serving s (Some 10))) \<and> tr_store (sv_tree s) = empty_store"
proof -
  have "path_join (ag_data_dir (sample_args n)) ''db'' = ''./kt_data/db''"
    by (simp add: path_join_def sample_args_def default_args_def)
  then show ?thesis
    using assms
    by (simp add: launch_def create_dir_all_def sample_os_def with_params_def sample_identity_def private_config_new_def
        check_suite_def expand_vrf_secret_def expand_vrf_secret_ed25519_def CIPHER_SUITE_KT_128_SHA256_ED25519_def
        CIPHER_SUITE_KT_128_SHA256_P256_def Let_def with_context_def tree_new_def get_head_def get_meta_def empty_store_def
        and_st_def sample_args_def default_args_def tls_setup_def)
qed

lemma sample_configured: "\<exists>c. config_for word_edwards word_nist (sample_args n) sample_identity = Inr c"
  by (simp add: config_for_def sample_identity_def sample_args_def default_args_def suite_code_def private_config_new_def
      check_suite_def expand_vrf_secret_def expand_vrf_secret_ed25519_def CIPHER_SUITE_KT_128_SHA256_ED25519_def
      CIPHER_SUITE_KT_128_SHA256_P256_def Let_def with_context_def)

lemma write_secret_faultless:
  assumes "os_io S = (\<lambda>_. None)" and "os_chmod S p" and "\<not> path_exists h p"
  shows "\<exists>h'. write_secret S p d h = (h', Inr ()) \<and> ho_db h' = ho_db h \<and> (\<forall>q. q \<noteq> p \<longrightarrow> path_exists h' q = path_exists h q)"
  using assms create_write [of "ho_fs h" p]
  by (auto simp: write_secret_def fs_write_def and_st_def set_permissions_def path_exists_def with_context_def
      with_new_def simp del: fs_do.simps(1,2))

lemma sample_prepare:
  assumes "load_or_generate_sig sample_crypto hex_codec sample_os (pt_sig (paths_of default_args)) 2 h = (h1, Inr (SkEd25519 (replicate 32 1)))"
    and "load_or_generate_vrf hex_codec sample_os (pt_vrf (paths_of default_args)) h1 = (h2, Inr (replicate 32 2))"
  shows "\<exists>fs. prepare word_edwards word_nist sample_crypto hex_codec sample_json sample_os (sample_args n) h =
    (h2\<lparr>ho_fs := fs\<rparr>, Inr sample_identity)"
proof -
  obtain c where "config_for word_edwards word_nist (sample_args n) sample_identity = Inr c" using sample_configured by blast
  moreover have "ag_auditor_pubkeys (sample_args n) = []" "suite_code (ag_cipher_suite (sample_args n)) = 2"
    "auditor_keys_of C D sample_os [] = Inr []" for C D
    by (simp_all add: sample_args_def default_args_def suite_code_def CIPHER_SUITE_KT_128_SHA256_ED25519_def auditor_keys_of_def sample_os_def)
  ultimately show ?thesis
    using assms by (simp add: prepare_def Let_def and_st_def create_dir_all_def sample_identity_def config_for_def params_of_def
        with_context_def fs_write_def sample_os_def mode_of_def sample_args_paths del: fs_do.simps) blast
qed

lemma sample_first_prepare:
  "\<exists>h1. prepare word_edwards word_nist sample_crypto hex_codec sample_json sample_os default_args sample_host =
    (h1, Inr sample_identity) \<and> ho_db h1 = (\<lambda>_. empty_store)"
proof -
  have absent: "\<not> path_exists sample_host p" for p by (simp add: path_exists_def sample_host_def)
  have os: "os_io sample_os = (\<lambda>_. None)" "os_chmod sample_os p" "os_sig_seed sample_os = replicate 32 1"
    "os_vrf_seed sample_os = replicate 32 2" for p by (simp_all add: sample_os_def)
  obtain h1 where w1: "write_secret sample_os (pt_sig (paths_of default_args)) (hex_encode hex_codec (replicate 32 1)) sample_host =
      (h1, Inr ())" "ho_db h1 = ho_db sample_host" "\<not> path_exists h1 (pt_vrf (paths_of default_args))"
    using write_secret_faultless [OF os(1,2) absent] absent sample_distinct by (metis distinct_paths_def)
  have h1: "load_or_generate_sig sample_crypto hex_codec sample_os (pt_sig (paths_of default_args)) 2 sample_host =
      (h1, Inr (SkEd25519 (replicate 32 1)))"
    using w1(1) absent by (simp add: load_or_generate_sig_def and_st_def generated_sig_def os CIPHER_SUITE_KT_128_SHA256_P256_def
        to_seed_bytes_def)
  obtain h2 where w2: "write_secret sample_os (pt_vrf (paths_of default_args)) (hex_encode hex_codec (replicate 32 2)) h1 =
      (h2, Inr ())" "ho_db h2 = ho_db h1"
    using write_secret_faultless [OF os(1,2) w1(3)] by blast
  have h2: "load_or_generate_vrf hex_codec sample_os (pt_vrf (paths_of default_args)) h1 = (h2, Inr (replicate 32 2))"
    using w2(1) w1(3) by (simp add: load_or_generate_vrf_def and_st_def os)
  show ?thesis using sample_prepare [OF h1 h2, of 10000] sample_args_default w1(2) w2(2) by (auto simp: sample_host_def)
qed

lemma sample_first_start:
  "\<exists>h' s. start word_edwards word_nist sample_crypto hex_codec sample_json sample_os default_args sample_host =
    (h', Inr (Serving s (Some 10))) \<and> ho_db h' ''./kt_data/db'' = empty_store"
proof -
  obtain h1 where p: "prepare word_edwards word_nist sample_crypto hex_codec sample_json sample_os default_args sample_host =
      (h1, Inr sample_identity)" and "ho_db h1 ''./kt_data/db'' = empty_store" using sample_first_prepare by auto
  from sample_launch [OF this(2), of 10000] p show ?thesis
    by (auto simp: sample_args_default start_def and_st_def put_db_def) (simp add: default_args_def)
qed

lemma sample_next_start:
  assumes "has_keys sample_crypto hex_codec 2 (paths_of default_args) (SkEd25519 (replicate 32 1)) (replicate 32 2) h"
    and "ho_db h ''./kt_data/db'' = empty_store"
  shows "\<exists>h' s. start word_edwards word_nist sample_crypto hex_codec sample_json sample_os (sample_args n) h =
    (h', Inr (Serving s (Some 10)))"
proof -
  have "os_readable sample_os = (\<lambda>_. True)" by (simp add: sample_os_def)
  then obtain fs where p: "prepare word_edwards word_nist sample_crypto hex_codec sample_json sample_os (sample_args n) h =
      (h\<lparr>ho_fs := fs\<rparr>, Inr sample_identity)"
    using assms(1) sample_prepare [of h h h n] load_existing(1) [of h _ _ sample_crypto hex_codec sample_os]
      load_existing(2) [of h _ _ hex_codec sample_os]
    by (auto simp: has_keys_def)
  have "ho_db (h\<lparr>ho_fs := fs\<rparr>) ''./kt_data/db'' = empty_store" by (simp add: assms)
  from sample_launch [OF this, of n] p show ?thesis
    by (auto simp: start_def and_st_def sample_args_def default_args_def)
qed

section \<open>Restarts\<close>

text \<open>What happens to the host: starts of the server with other arguments but the same key files and
  suite, succeeding or failing, and the changes a running server makes to its databases.\<close>

definition same_key_files :: "args \<Rightarrow> args \<Rightarrow> bool" where
  "same_key_files a a' \<longleftrightarrow> pt_sig (paths_of a') = pt_sig (paths_of a) \<and> pt_vrf (paths_of a') = pt_vrf (paths_of a) \<and>
     ag_cipher_suite a' = ag_cipher_suite a"

inductive host_step :: "('s, 'p) edwards \<Rightarrow> ('t, 'q) nist \<Rightarrow> crypto \<Rightarrow> codec \<Rightarrow> (public_config_artifact \<Rightarrow> string) \<Rightarrow> args \<Rightarrow>
    host \<Rightarrow> host \<Rightarrow> bool" for E N C D json a where
  host_start: "start E N C D json S a' h = (h', r) \<Longrightarrow> same_key_files a a' \<Longrightarrow>
    distinct_paths (paths_of a') \<Longrightarrow> host_step E N C D json a h h'"
| host_serve: "host_step E N C D json a h (h\<lparr>ho_db := db\<rparr>)"

abbreviation keys_stay :: "crypto \<Rightarrow> codec \<Rightarrow> args \<Rightarrow> service_signing_key \<Rightarrow> bytes \<Rightarrow> host \<Rightarrow> bool" where
  "keys_stay C D a \<equiv> has_keys C D (suite_code (ag_cipher_suite a)) (paths_of a)"

lemma start_Serving:
  assumes "start E N C D json S a h = (h', Inr (Serving s tick))"
  obtains h1 su where "prepare E N C D json S a h = (h1, Inr su)" and "launch E N C D S a su h1 = (h', Inr (Serving s tick))"
  using assms by (auto simp: start_def and_st_Inr split: if_splits)

lemma start_keeps:
  assumes "start E N C D json S a h = (h', r)" and "keys_stay C D a sk vrf h" and "distinct_paths (paths_of a)"
  shows "keys_stay C D a sk vrf h'"
proof -
  obtain h1 r1 where p: "prepare E N C D json S a h = (h1, r1)" by fastforce
  have "ho_fs h' = ho_fs h1"
    using assms(1) p launch_spec(1) by (auto simp: start_def and_st_def split: sum.splits if_splits)
  then show ?thesis using prepare_keeps(1) [OF assms(2,3) p] by (simp add: has_keys_def)
qed

lemma keys_stay_same_files: "same_key_files a a' \<Longrightarrow> keys_stay C D a' = keys_stay C D a"
  by (simp add: same_key_files_def has_keys_def fun_eq_iff)

lemma host_step_keeps:
  assumes "host_step E N C D json a h h'" and keys: "keys_stay C D a sk vrf h"
  shows "keys_stay C D a sk vrf h'"
  using assms(1)
proof cases
  case (host_start S a' r)
  from start_keeps [OF host_start(1) _ host_start(3)] show ?thesis
    using keys keys_stay_same_files [OF host_start(2)] by simp
qed (use keys in \<open>simp add: has_keys_def\<close>)

interpretation host_runs: evolution "host_step E N C D json a" "keys_stay C D a sk vrf" "\<lambda>_ _. True"
  for E N C D json a sk vrf
  by unfold_locales (auto intro: host_step_keeps)

text \<open>The public configuration is a function of the keys and of what the arguments say of auditors and clocks;
  the order of the auditor keys does not show in it.\<close>

definition republished :: "args \<Rightarrow> public_config \<Rightarrow> public_config" where
  "republished a c = c\<lparr>cfg_max_ahead := ag_max_ahead a, cfg_max_behind := ag_max_behind a,
     cfg_reasonable_monitoring_window := ag_monitoring_window a, cfg_maximum_lifetime := ag_maximum_lifetime a\<rparr>"

definition arranges :: "os \<Rightarrow> bool" where
  "arranges S \<longleftrightarrow> (\<forall>ks. mset (os_arrange S ks) = mset ks)"

lemma auditor_keys_mset:
  assumes "auditor_keys_of C D S hexes = Inr ks" and "auditor_keys_of C D S' hexes = Inr ks'" and "arranges S" and "arranges S'"
  shows "mset ks = mset ks'"
  using assms by (auto simp: auditor_keys_of_def arranges_def res_simps)

lemma config_of_same_keys:
  assumes "config_for E N a su = Inr c" and "config_for E N a' su' = Inr c'" and "ag_cipher_suite a' = ag_cipher_suite a"
    and "su_sig_key su' = su_sig_key su" and "su_vrf_secret su' = su_vrf_secret su"
  shows "pc_vrf_public_key c' = pc_vrf_public_key c"
    and "mset (su_auditor_keys su) = mset (su_auditor_keys su') \<Longrightarrow> public_view C c' = republished a' (public_view C c)"
    and "public_view C c = republished a (public_view C c)"
proof -
  show "pc_vrf_public_key c' = pc_vrf_public_key c" "public_view C c = republished a (public_view C c)"
    using assms by (auto simp: config_for_def private_config_new_def public_view_def republished_def res_simps)
  assume auditors: "mset (su_auditor_keys su) = mset (su_auditor_keys su')"
  then have "sort (map fst (su_auditor_keys su)) = sort (map fst (su_auditor_keys su'))"
    by (intro properties_for_sort) (simp_all add: mset_map)
  moreover have "su_auditor_keys su = [] \<longleftrightarrow> su_auditor_keys su' = []" using auditors by auto
  ultimately show "public_view C c' = republished a' (public_view C c)"
    using assms by (auto simp: config_for_def private_config_new_def public_view_def republished_def res_simps mode_of_def
        smallest_key_def)
qed

lemma sample_first_keys:
  assumes "start word_edwards word_nist sample_crypto hex_codec sample_json sample_os default_args sample_host = (h', Inr (Serving s tick))"
  shows "has_keys sample_crypto hex_codec 2 (paths_of default_args) (SkEd25519 (replicate 32 1)) (replicate 32 2) h'"
proof -
  obtain h1 su where p: "prepare word_edwards word_nist sample_crypto hex_codec sample_json sample_os default_args sample_host = (h1, Inr su)"
    and l: "launch word_edwards word_nist sample_crypto hex_codec sample_os default_args su h1 = (h', Inr (Serving s tick))"
    using assms by (rule start_Serving)
  have "su = sample_identity" using p sample_first_prepare by auto
  moreover have "suite_code (ag_cipher_suite default_args) = 2"
    by (simp add: default_args_def suite_code_def CIPHER_SUITE_KT_128_SHA256_ED25519_def)
  ultimately show ?thesis
    using prepare_spec(1) [OF p sample_plain hex_codec_laws sample_seeds sample_distinct] launch_spec(1) [OF l]
    by (simp add: has_keys_def sample_identity_def)
qed

section \<open>Properties\<close>

text \<open>C36. The published configuration is that of the server. When the server starts, the file it
  has written for its clients is read by them as the public view of the configuration the service
  runs with.\<close>

theorem published_config_matches:
  assumes "start E N C D json S a h = (h', Inr (Serving s tick))" and "plain (ho_fs h)" and "hex_laws D"
    and "seeds_ok C (suite_code (ag_cipher_suite a)) S" and "distinct_paths (paths_of a)"
    and "\<And>x. unjson (json x) = Some x"
  shows "\<exists>text. read_file (ho_fs h') (pt_config (paths_of a)) = Some text \<and>
    from_json D unjson text = Inr (public_view C (sv_config s))"
proof -
  obtain h1 su where p: "prepare E N C D json S a h = (h1, Inr su)"
    and l: "launch E N C D S a su h1 = (h', Inr (Serving s tick))" using assms(1) by (rule start_Serving)
  obtain c where c: "config_for E N a su = Inr c"
    and written: "read_file (ho_fs h1) (pt_config (paths_of a)) = Some (to_json D json (public_view C c))"
    using prepare_spec(3) [OF p assms(2-5)] by blast
  have "from_json D unjson (to_json D json (public_view C c)) = Inr (public_view C c)"
    using assms(3,6) by (intro json_roundtrip) (simp_all add: hex_laws_def)
  then show ?thesis using launch_spec [OF l] c written by (auto simp: read_file_def)
qed

lemma published_config_matches_witness:
  "\<exists>h' s text. start word_edwards word_nist sample_crypto hex_codec sample_json sample_os default_args sample_host =
      (h', Inr (Serving s (Some 10))) \<and>
    read_file (ho_fs h') ''./kt_data/config.json'' = Some text \<and>
    from_json hex_codec sample_unjson text = Inr (public_view sample_crypto (sv_config s))"
proof -
  obtain h' s where "start word_edwards word_nist sample_crypto hex_codec sample_json sample_os default_args sample_host =
      (h', Inr (Serving s (Some 10)))" using sample_first_start by blast
  from published_config_matches [OF this sample_plain hex_codec_laws sample_seeds sample_distinct sample_json_law] this
  show ?thesis by (auto simp: sample_paths)
qed

text \<open>C37. Restarts keep the identity of the log. From the first successful start on, through any
  course of failed and successful starts with the same key files and suite, whatever their other
  arguments, and of service in between, every server started has the same signing and VRF keys, and
  clients are told the same public keys. With the same auditor keys its public configuration
  differs from the first only in the clock bounds, the monitoring window and the lifetime of its own
  arguments; when these are the same too, clients need no new configuration.\<close>

theorem restart_keeps_identity:
  assumes "start E N C D json S a h = (h1, Inr (Serving s tick))" and "plain (ho_fs h)" and "hex_laws D"
    and "seeds_ok C (suite_code (ag_cipher_suite a)) S" and "distinct_paths (paths_of a)"
    and "(host_step E N C D json a)\<^sup>*\<^sup>* h1 h2" and "start E N C D json S' a' h2 = (h3, Inr (Serving s' tick'))"
    and "same_key_files a a'" and "distinct_paths (paths_of a')" and "arranges S" and "arranges S'"
  shows "pc_sig_key (sv_config s') = pc_sig_key (sv_config s) \<and> pc_vrf_key (sv_config s') = pc_vrf_key (sv_config s) \<and>
    cfg_server_sig_pk (public_view C (sv_config s')) = cfg_server_sig_pk (public_view C (sv_config s)) \<and>
    cfg_vrf_public_key (public_view C (sv_config s')) = cfg_vrf_public_key (public_view C (sv_config s)) \<and>
    (ag_auditor_pubkeys a' = ag_auditor_pubkeys a \<longrightarrow>
      public_view C (sv_config s') = republished a' (public_view C (sv_config s))) \<and>
    (a' = a \<longrightarrow> public_view C (sv_config s') = public_view C (sv_config s))"
proof -
  obtain g su where p: "prepare E N C D json S a h = (g, Inr su)"
    and l: "launch E N C D S a su g = (h1, Inr (Serving s tick))" using assms(1) by (rule start_Serving)
  obtain g' su' where p': "prepare E N C D json S' a' h2 = (g', Inr su')"
    and l': "launch E N C D S' a' su' g' = (h3, Inr (Serving s' tick'))" using assms(7) by (rule start_Serving)
  note spec = prepare_spec [OF p assms(2-5)]
  have "keys_stay C D a (su_sig_key su) (su_vrf_secret su) h2"
    using spec(1) launch_spec(1) [OF l] by (intro host_runs.run_keeps [OF assms(6)]) (simp add: has_keys_def)
  then have keys: "keys_stay C D a' (su_sig_key su) (su_vrf_secret su) h2" by (simp add: keys_stay_same_files [OF assms(8)])
  have same: "su_sig_key su' = su_sig_key su" "su_vrf_secret su' = su_vrf_secret su"
    using prepare_keeps(2) [OF keys assms(9) p'] by simp_all
  obtain c where c: "config_for E N a su = Inr c" using spec(3) by blast
  obtain c' where c': "config_for E N a' su' = Inr c'"
    and auditors: "auditor_keys_of C D S' (ag_auditor_pubkeys a') = Inr (su_auditor_keys su')"
    using p' by (auto simp: prepare_def Let_def and_st_Inr map_context_Inr config_for_def params_of_def)
  have suite: "ag_cipher_suite a' = ag_cipher_suite a" using assms(8) by (simp add: same_key_files_def)
  note config = config_of_same_keys [OF c c' suite same]
  have "public_view C c' = republished a' (public_view C c)" if "ag_auditor_pubkeys a' = ag_auditor_pubkeys a"
    using auditor_keys_mset [OF spec(2) _ assms(10,11)] auditors that by (intro config(2)) simp
  moreover have "cfg_server_sig_pk (public_view C c') = cfg_server_sig_pk (public_view C c)"
    "cfg_vrf_public_key (public_view C c') = cfg_vrf_public_key (public_view C c)"
    using config(1) config_for_keys [OF c] config_for_keys [OF c'] same by (simp_all add: public_view_def)
  ultimately show ?thesis
    using launch_spec(2) [OF l c refl] launch_spec(2) [OF l' c' refl] config_for_keys [OF c] config_for_keys [OF c'] same
      config(3) [of C] by auto
qed

lemma restart_keeps_identity_witness:
  "\<exists>h1 s h3 s'. start word_edwards word_nist sample_crypto hex_codec sample_json sample_os default_args sample_host =
      (h1, Inr (Serving s (Some 10))) \<and>
    start word_edwards word_nist sample_crypto hex_codec sample_json sample_os (default_args\<lparr>ag_max_ahead := 20000\<rparr>) h1 =
      (h3, Inr (Serving s' (Some 10))) \<and>
    pc_sig_key (sv_config s') = pc_sig_key (sv_config s) \<and>
    public_view sample_crypto (sv_config s') = (public_view sample_crypto (sv_config s))
      \<lparr>cfg_max_ahead := 20000, cfg_max_behind := 60000, cfg_reasonable_monitoring_window := 86400000, cfg_maximum_lifetime := None\<rparr>"
proof -
  obtain h1 s where first: "start word_edwards word_nist sample_crypto hex_codec sample_json sample_os default_args sample_host =
      (h1, Inr (Serving s (Some 10)))" and db: "ho_db h1 ''./kt_data/db'' = empty_store" using sample_first_start by blast
  obtain h3 s' where again: "start word_edwards word_nist sample_crypto hex_codec sample_json sample_os (sample_args 20000) h1 =
      (h3, Inr (Serving s' (Some 10)))" using sample_next_start [OF sample_first_keys [OF first] db] by blast
  have arranged: "arranges sample_os" by (simp add: arranges_def sample_os_def)
  have files: "same_key_files default_args (sample_args 20000)"
    by (simp add: same_key_files_def sample_args_paths) (simp add: sample_args_def)
  have paths: "distinct_paths (paths_of (sample_args 20000))" using sample_distinct by (simp add: sample_args_paths)
  have auditors: "ag_auditor_pubkeys (sample_args 20000) = ag_auditor_pubkeys default_args" by (simp add: sample_args_def)
  have "pc_sig_key (sv_config s') = pc_sig_key (sv_config s)"
    "public_view sample_crypto (sv_config s') = republished (sample_args 20000) (public_view sample_crypto (sv_config s))"
    using restart_keeps_identity [OF first sample_plain hex_codec_laws sample_seeds sample_distinct rtranclp.rtrancl_refl again
        files paths arranged arranged] auditors by blast+
  moreover have "republished (sample_args 20000) c = c\<lparr>cfg_max_ahead := 20000, cfg_max_behind := 60000,
      cfg_reasonable_monitoring_window := 86400000, cfg_maximum_lifetime := None\<rparr>" for c
    by (simp add: republished_def sample_args_def default_args_def)
  ultimately show ?thesis using first again unfolding sample_args_def by metis
qed

text \<open>C38. A key file that a crash cuts short is refused. A key generated by a start whose writes may
  fail anywhere is on disk in whole, in part, or not at all after a crash: the file is not flushed,
  so even a start that succeeded may lose it. In part it is never taken for another key.\<close>

theorem generated_key_after_crash:
  assumes "hex_laws D" and "length (os_sig_seed S) = 32" and "seeds_ok C suite S"
    and "\<And>d. d \<in> set (fs_names (ho_fs h) # fs_past (ho_fs h)) \<Longrightarrow> d p = None"
    and "load_or_generate_sig C D S p suite h = (h', r)"
  shows "(\<forall>t. may_read (ho_fs h') p (Some t) \<longrightarrow>
      (if t = hex_encode D (os_sig_seed S) then parse_sig C D suite t = Inr (generated_sig S suite)
       else \<exists>e. parse_sig C D suite t = Inl e)) \<and>
    (r = Inr sk \<longrightarrow> sk = generated_sig S suite \<and>
      read_file (ho_fs h') p = Some (hex_encode D (os_sig_seed S)) \<and> may_read (ho_fs h') p None)"
proof -
  let ?text = "hex_encode D (os_sig_seed S)"
  have absent: "fs_names (ho_fs h) p = None" "\<forall>d\<in>set (fs_past (ho_fs h)). d p = None"
    using assms(4) by simp_all
  have seed: "to_seed_bytes (generated_sig S suite) = os_sig_seed S" by (simp add: generated_sig_def to_seed_bytes_def)
  obtain h1 r1 where w: "fs_write S p ?text h = (h1, r1)" by fastforce
  have fs: "ho_fs h' = ho_fs h1" and r: "r = Inr sk \<Longrightarrow> sk = generated_sig S suite \<and> r1 = Inr ()"
    using assms(5) absent(1) w seed
    by (auto simp: load_or_generate_sig_def path_exists_def write_secret_def and_st_def set_permissions_def Let_def
        split: sum.splits option.splits if_splits)
  note w = fs_write_new [OF w absent]
  show ?thesis
    using parse_sig_cut [OF assms(1) w(1) assms(2) assms(3) [unfolded seeds_ok_def]] w(2,3) r by (simp add: fs)
qed

lemma generated_key_after_crash_witness:
  "\<exists>h'. load_or_generate_sig sample_crypto hex_codec (sample_os\<lparr>os_io := (\<lambda>s. if s = Create ''k'' then None else Some 6)\<rparr>)
      ''k'' 2 sample_host = (h', Inl (Anyhow ''writing key'')) \<and>
    may_read (ho_fs h') ''k'' (Some ''010101'') \<and> (\<exists>e. parse_sig sample_crypto hex_codec 2 ''010101'' = Inl e)"
proof -
  let ?S = "sample_os\<lparr>os_io := (\<lambda>s. if s = Create ''k'' then None else Some 6)\<rparr>"
  have whole: "hex_encode hex_codec (replicate 32 1) = concat (replicate 32 ''01'')"
    by (simp add: hex_codec_def byte_text_def digit_def)
  have fs: "fs_run (os_io ?S) [Create ''k'', Write ''k'' (concat (replicate 32 ''01''))] (ho_fs sample_host) =
      (with_new ''k'' ''010101'' (ho_fs sample_host), Inl (Anyhow ''I/O error''))"
    using create_write [of "ho_fs sample_host" "''k''" "''010101''"]
    by (simp add: sample_host_def numeral_eq_Suc del: fs_do.simps)
  then have loaded: "load_or_generate_sig sample_crypto hex_codec ?S ''k'' 2 sample_host =
      (sample_host\<lparr>ho_fs := with_new ''k'' ''010101'' (ho_fs sample_host)\<rparr>, Inl (Anyhow ''writing key''))"
    using whole by (simp add: load_or_generate_sig_def path_exists_def sample_host_def generated_sig_def to_seed_bytes_def
        CIPHER_SUITE_KT_128_SHA256_P256_def write_secret_def fs_write_def and_st_def with_context_def sample_os_def)
  have seeds: "seeds_ok sample_crypto 2 ?S" "length (os_sig_seed ?S) = 32"
    by (simp_all add: seeds_ok_def from_seed_bytes_def generated_sig_def sample_os_def
        CIPHER_SUITE_KT_128_SHA256_ED25519_def CIPHER_SUITE_KT_128_SHA256_P256_def)
  have read: "may_read (with_new ''k'' ''010101'' (ho_fs sample_host)) ''k'' (Some ''010101'')"
    by (subst may_read_new) (simp_all add: sample_host_def)
  have drawn: "os_sig_seed ?S = replicate 32 1" by (simp add: sample_os_def)
  have cut: "''010101'' \<noteq> hex_encode hex_codec (os_sig_seed ?S)"
    unfolding drawn whole by (simp add: numeral_eq_Suc)
  have absent: "d ''k'' = None" if "d \<in> set (fs_names (ho_fs sample_host) # fs_past (ho_fs sample_host))" for d
    using that by (simp add: sample_host_def)
  from generated_key_after_crash [where h = sample_host and p = "''k''", OF hex_codec_laws seeds(2,1) _ loaded] absent read cut loaded
  show ?thesis by auto
qed

text \<open>When the mode of a new key file cannot be set, the start fails, and a later one uses the key of
  the file, whose mode was never set.\<close>

lemma unrestricted_key_is_used:
  assumes "\<not> path_exists h p" and "os_io S = (\<lambda>_. None)" and "\<not> os_chmod S p" and "ho_mode h (fs_next (ho_fs h)) = None"
    and "hex_laws D" and "seeds_ok C suite S" and "os_readable S' p"
  shows "\<exists>h' e. load_or_generate_sig C D S p suite h = (h', Inl e) \<and>
    load_or_generate_sig C D S' p suite h' = (h', Inr (generated_sig S suite)) \<and>
    (\<forall>i. fs_names (ho_fs h') p = Some i \<longrightarrow> ho_mode h' i = None)"
proof -
  have seed: "to_seed_bytes (generated_sig S suite) = os_sig_seed S" by (simp add: generated_sig_def to_seed_bytes_def)
  obtain h' where h': "load_or_generate_sig C D S p suite h = (h', Inl io_error)"
    and read: "read_file (ho_fs h') p = Some (hex_encode D (os_sig_seed S))"
    and mode: "\<forall>i. fs_names (ho_fs h') p = Some i \<longrightarrow> ho_mode h' i = None"
    using assms(1-4) seed
    by (auto simp: load_or_generate_sig_def path_exists_def write_secret_def and_st_def set_permissions_def Let_def
        fs_write_def put_file_def read_file_def with_context_def seed)
  then show ?thesis
    using load_existing(1) [OF read, of C D S' suite] parse_sig_full [OF assms(5), of C suite "generated_sig S suite"] assms(6,7)
    by (auto simp: seed seeds_ok_def)
qed

end
