(* ===== verification/ClientSound.thy ===== *)
theory ClientSound
  imports ClientSamples PrefixProps
begin

text \<open>
  What an accepted search means: the client has checked the ladder of the rightmost log entry
  against one prefix root, that root is in the leaf of the log from which it computed the signed
  root, and whatever map has that prefix root, its greatest version of the label and the
  commitment to it are the ones the client accepted, unless the digest is broken at a place that
  is named.
\<close>

section \<open>Decoded lookups\<close>

text \<open>Each decoded lookup stands for the result at its place.\<close>

definition answers_of :: "prefix_search_result list \<Rightarrow> decoded_lookup list \<Rightarrow> bool" where
  "answers_of rs lks \<longleftrightarrow> map dl_inclusion lks = map (\<lambda>r. psr_result_type r = 1) rs"

lemma answers_step:
  assumes "\<exists>new. res = (out @ [d]) @ new \<and> answers_of rest new" and "dl_inclusion d \<longleftrightarrow> psr_result_type r = 1"
  shows "\<exists>new. res = out @ new \<and> answers_of (r # rest) new"
proof -
  obtain new where "res = out @ d # new" "answers_of rest new" using assms(1) by auto
  then show ?thesis using assms(2) by (intro exI [of _ "d # new"]) (simp add: answers_of_def)
qed

lemma answers_last: "decode_finish (out @ [d]) rest = Inr res \<Longrightarrow> \<exists>new. res = (out @ [d]) @ new \<and> answers_of rest new"
  by (auto simp: answers_of_def)

lemma decode_bisect_answers:
  "decode_bisect t l u out rs = Inr res \<Longrightarrow> \<exists>new. res = out @ new \<and> answers_of rs new"
proof (induction t l u out rs rule: decode_bisect.induct)
  case (1 t l u out)
  then show ?case by (simp add: answers_of_def split: if_splits)
next
  case (2 t l u out r rest)
  let ?v = "l + (u - l) div 2"
  show ?case
  proof (cases "l + 1 < u")
    case True
    have "\<exists>new. res = (out @ [\<lparr>dl_version = ?v, dl_inclusion = psr_result_type r = 1\<rparr>]) @ new \<and> answers_of rest new"
      using 2 True answers_last by (cases "psr_result_type r = 1"; cases "?v > t") (simp_all add: Let_def)
    then show ?thesis by (rule answers_step) simp
  qed (use 2(3) in simp)
qed

lemma decode_powers_answers:
  "decode_powers t k lo out rs = Inr res \<Longrightarrow> \<exists>new. res = out @ new \<and> answers_of rs new"
proof (induction t k lo out rs rule: decode_powers.induct)
  case (2 t k lo out r rest)
  let ?v = "ladder_power k"
  have bisect: "\<exists>new. res = (out @ [d]) @ new \<and> answers_of rest new" if "decode_bisect t l ?v (out @ [d]) rest = Inr res" for l d
    using that by (rule decode_bisect_answers)
  let ?d = "\<lparr>dl_version = ?v, dl_inclusion = psr_result_type r = 1\<rparr>"
  consider (stop) "psr_result_type r = 1 \<and> (?v > t \<or> ?v = U32_MAX) \<or> psr_result_type r \<noteq> 1 \<and> ?v \<le> t"
    | (up) "psr_result_type r = 1" "\<not> (?v > t \<or> ?v = U32_MAX)" | (between) "psr_result_type r \<noteq> 1" "\<not> ?v \<le> t"
    by blast
  then have "\<exists>new. res = (out @ [?d]) @ new \<and> answers_of rest new"
  proof cases
    case stop
    then have "decode_finish (out @ [?d]) rest = Inr res" using 2(2) by (auto simp: Let_def)
    then show ?thesis by (rule answers_last)
  next
    case up
    then have "decode_powers t (k + 1) (Some ?v) (out @ [?d]) rest = Inr res" using 2(2) by (simp add: Let_def)
    then show ?thesis by (rule 2(1) [OF refl refl refl up])
  next
    case between
    then obtain l where "decode_bisect t l ?v (out @ [?d]) rest = Inr res"
      using 2(2) by (cases lo) (simp_all add: Let_def)
    then show ?thesis by (rule bisect)
  qed
  then show ?case by (rule answers_step) simp
qed simp

lemma decoded_answers:
  assumes "decode_search_ladder rs t = Inr lks"
  shows "length lks = length rs" and "i < length lks \<Longrightarrow> dl_inclusion (lks ! i) \<longleftrightarrow> psr_result_type (rs ! i) = 1"
proof -
  have a: "answers_of rs lks" using decode_powers_answers [of t 0 None "[]" rs lks] assms by (simp add: decode_search_ladder_def)
  then show len: "length lks = length rs" unfolding answers_of_def by (metis length_map)
  have "map dl_inclusion lks ! i = map (\<lambda>r. psr_result_type r = 1) rs ! i" using a by (simp add: answers_of_def)
  then show "i < length lks \<Longrightarrow> dl_inclusion (lks ! i) \<longleftrightarrow> psr_result_type (rs ! i) = 1" using len by simp
qed

section \<open>One ladder\<close>

text \<open>The VRF is unique: for a label and version it verifies no output but \<open>idx\<close>'s.\<close>

definition vrf_unique :: "crypto \<Rightarrow> client \<Rightarrow> bytes \<Rightarrow> (version \<Rightarrow> bytes) \<Rightarrow> bool" where
  "vrf_unique C cl label idx \<longleftrightarrow> (\<forall>v input pf out. construct_vrf_input label v = Inr input \<longrightarrow>
     vrf_verify C (cfg_cipher_suite (cl_config cl)) (cl_vrf_pk cl) input pf = Inr out \<longrightarrow> out = idx v \<and> length out = 32)"

definition cache_of :: "(version \<Rightarrow> bytes) \<Rightarrow> ladder_ctx \<Rightarrow> bool" where
  "cache_of idx cx \<longleftrightarrow> (\<forall>v out. lc_vrf_cache cx v = Some out \<longrightarrow> out = idx v \<and> length out = 32)"

lemma wire_slot_cache: "wire_slot ver cx = (i, cx') \<Longrightarrow> lc_vrf_cache cx' = lc_vrf_cache cx"
  by (auto simp: wire_slot_def split: option.splits)

lemma slot_and_output_sound:
  assumes "slot_and_output C cl label steps ver cx = Inr (bl_step, out, cx')" and "vrf_unique C cl label idx" and "cache_of idx cx"
  shows "out = idx ver \<and> length out = 32 \<and> bl_step \<in> set steps \<and> cache_of idx cx'"
proof -
  obtain i cx1 where w: "wire_slot ver cx = (i, cx1)" by fastforce
  have "cache_of idx cx1" using assms(3) wire_slot_cache [OF w] by (simp add: cache_of_def)
  then show ?thesis
    using assms(1,2) w
    by (auto simp: slot_and_output_def vrf_output_of_def cache_of_def vrf_unique_def Let_def res_simps
        split: if_splits option.splits)
qed

text \<open>What a lookup of a greatest-version search may use as its commitment.\<close>

definition commitments_of :: "bytes \<Rightarrow> binary_ladder_step list \<Rightarrow> bytes option set" where
  "commitments_of target_commitment steps = {None, Some target_commitment} \<union> bls_commitment ` set steps"

definition checked :: "(bytes \<Rightarrow> bytes) \<Rightarrow> (version \<Rightarrow> bytes) \<Rightarrow> prefix_proof \<Rightarrow> version \<Rightarrow> binary_ladder_step list \<Rightarrow> bytes \<Rightarrow>
    bytes \<Rightarrow> nat \<Rightarrow> decoded_lookup \<Rightarrow> bool" where
  "checked sha idx pf target steps tc rt j lk \<longleftrightarrow> length (idx (dl_version lk)) = 32 \<and>
     (dl_inclusion lk \<longleftrightarrow> dl_version lk \<le> target) \<and>
     (\<exists>c consumed. c \<in> commitments_of tc steps \<and> (dl_version lk = target \<longrightarrow> c = Some tc) \<and>
        compute_root_from_result sha pf j (idx (dl_version lk)) c (offset_of pf j) = Inr (rt, consumed))"

lemma offset_of_Suc: "j < length (pp_results pf) \<Longrightarrow> offset_of pf (Suc j) = offset_of pf j + psr_depth (pp_results pf ! j)"
  by (simp add: offset_of_def take_Suc_conv_app_nth)

lemma compute_root_consumed:
  "compute_root_from_result sha pf j key c off = Inr (rt, consumed) \<Longrightarrow>
    j < length (pp_results pf) \<and> consumed = psr_depth (pp_results pf ! j)"
  by (auto simp: compute_root_from_result_def Let_def res_simps split: if_splits)

lemma verify_lookup_sound:
  assumes "verify_lookup C cl label pf target steps tc True True (j, lk) w = Inr w'"
    and "vrf_unique C cl label idx" and "cache_of idx (lw_ctx w)" and "lw_offset w = offset_of pf j"
  shows "\<exists>rt. lw_root w' = Some rt \<and> (lw_root w = None \<or> lw_root w = Some rt) \<and>
    cache_of idx (lw_ctx w') \<and> lw_offset w' = offset_of pf (Suc j) \<and>
    checked (sha256 C) idx pf target steps tc rt j lk"
proof -
  obtain rel bl_step out cx c rt consumed computed where
    rel: "lookup_relation True True target lk (lw_relation w) = Inr rel"
    and slot: "slot_and_output C cl label steps (dl_version lk) (lw_ctx w) = Inr (bl_step, out, cx)"
    and c: "lookup_commitment True target tc lk bl_step = Inr c"
    and root: "compute_root_from_result (sha256 C) pf j out c (lw_offset w) = Inr (rt, consumed)"
    and same: "same_root (lw_root w) rt = Inr computed"
    and w': "lw_ctx w' = cx" "lw_offset w' = lw_offset w + consumed" "lw_root w' = computed"
    using assms(1) by (auto simp: verify_lookup_def res_simps Let_def)
  note s = slot_and_output_sound [OF slot assms(2,3)]
  have "computed = Some rt" "lw_root w = None \<or> lw_root w = Some rt"
    using same by (auto simp: same_root_def split: option.splits if_splits)
  moreover have incl: "dl_inclusion lk \<longleftrightarrow> dl_version lk \<le> target"
    using rel by (auto simp: lookup_relation_def split: if_splits)
  moreover have "{None, Some tc, bls_commitment bl_step} \<subseteq> commitments_of tc steps" using s by (simp add: commitments_of_def)
  then have "c \<in> commitments_of tc steps \<and> (dl_version lk = target \<longrightarrow> c = Some tc)"
    using c incl by (auto simp: lookup_commitment_def res_simps split: if_splits)
  moreover have "lw_offset w' = offset_of pf (Suc j)"
    using compute_root_consumed [OF root] w'(2) assms(4) by (simp add: offset_of_Suc)
  ultimately show ?thesis using s root assms(4) w' by (auto simp: checked_def)
qed

lemma lookups_sound:
  assumes "fold_res (verify_lookup C cl label pf target steps tc True True) (enumerate j lks) w = Inr w'"
    and "vrf_unique C cl label idx" and "cache_of idx (lw_ctx w)" and "lw_offset w = offset_of pf j"
    and "lw_root w' = Some rt"
  shows "cache_of idx (lw_ctx w') \<and> (lw_root w = None \<or> lw_root w = Some rt) \<and>
    (\<forall>i<length lks. checked (sha256 C) idx pf target steps tc rt (j + i) (lks ! i))"
  using assms(1,3,4)
proof (induction lks arbitrary: j w)
  case (Cons lk lks)
  obtain w1 where w1: "verify_lookup C cl label pf target steps tc True True (j, lk) w = Inr w1"
    and rest: "fold_res (verify_lookup C cl label pf target steps tc True True) (enumerate (Suc j) lks) w1 = Inr w'"
    using Cons.prems(1) by (auto simp: res_simps)
  obtain r where r: "lw_root w1 = Some r" "lw_root w = None \<or> lw_root w = Some r" "cache_of idx (lw_ctx w1)"
    "lw_offset w1 = offset_of pf (Suc j)" "checked (sha256 C) idx pf target steps tc r j lk"
    using verify_lookup_sound [OF w1 assms(2) Cons.prems(2,3)] by blast
  from Cons.IH [OF rest r(3,4)] r show ?case by (auto simp: less_Suc_eq_0_disj nth_Cons')
qed (use assms(5) in simp)

section \<open>The ladder and the map\<close>

text \<open>A map in which the label has exactly the versions up to \<open>g\<close>.\<close>

definition holds_versions :: "key_map \<Rightarrow> (version \<Rightarrow> bytes) \<Rightarrow> version \<Rightarrow> bool" where
  "holds_versions kvs idx g \<longleftrightarrow> keys_ok kvs \<and> g \<le> U32_MAX \<and> (\<forall>v\<le>U32_MAX. map_of kvs (idx v) \<noteq> None \<longleftrightarrow> v \<le> g)"

text \<open>The places where the digest is broken when a ladder misstates the map.\<close>

definition ladder_broken :: "(bytes \<Rightarrow> bytes) \<Rightarrow> (version \<Rightarrow> bytes) \<Rightarrow> key_map \<Rightarrow> prefix_proof \<Rightarrow> version \<Rightarrow>
    bytes option set \<Rightarrow> bool" where
  "ladder_broken sha idx kvs pf target cs \<longleftrightarrow> (\<exists>j<length (base_binary_ladder target). \<exists>c\<in>cs.
     let key = idx (base_binary_ladder target ! j) in
     broken_at sha (lookup_inputs sha pf j key c (offset_of pf j)) (tree_inputs sha kvs key))"

definition pins_greatest :: "(bytes \<Rightarrow> bytes) \<Rightarrow> (version \<Rightarrow> bytes) \<Rightarrow> prefix_proof \<Rightarrow> version \<Rightarrow> binary_ladder_step list \<Rightarrow>
    bytes \<Rightarrow> bytes \<Rightarrow> bool" where
  "pins_greatest sha idx pf target steps tc rt \<longleftrightarrow> (\<forall>kvs g. rt = map_root sha kvs \<longrightarrow> holds_versions kvs idx g \<longrightarrow>
     target = g \<and> map_of kvs (idx target) = Some tc \<or> ladder_broken sha idx kvs pf target (commitments_of tc steps))"

lemma ladder_pins_greatest:
  assumes "verify_ladder_proof C cl label pf target steps tc True True (cx, mat) = Inr (rt, rel, cx', mat')"
    and "vrf_unique C cl label idx" and "cache_of idx cx" and "target \<le> U32_MAX" and sha: "\<And>x. length (sha256 C x) = 32"
  shows "pins_greatest (sha256 C) idx pf target steps tc rt"
  unfolding pins_greatest_def
proof (intro allI impI)
  fix kvs g assume rt: "rt = map_root (sha256 C) kvs" and vs: "holds_versions kvs idx g"
  let ?base = "base_binary_ladder target"
  obtain lks w where lks: "decode_search_ladder (pp_results pf) target = Inr lks"
    and w: "fold_res (verify_lookup C cl label pf target steps tc True True) (enumerate 0 lks)
      \<lparr>lw_ctx = cx, lw_material = mat, lw_relation = Equal, lw_offset = 0, lw_root = None\<rparr> = Inr w"
    and base: "map dl_version lks = ?base" and root: "lw_root w = Some rt"
    using assms(1) by (auto simp: verify_ladder_proof_def res_simps split: if_splits)
  have checked: "checked (sha256 C) idx pf target steps tc rt i (lks ! i)" if "i < length lks" for i
    using lookups_sound [OF w assms(2) _ _ root] assms(3) that by (simp add: offset_of_def)
  have len: "length lks = length ?base" using arg_cong [OF base, of length] by simp
  have at: "dl_version (lks ! i) = ?base ! i" if "i < length ?base" for i using base that len by (metis nth_map)
  have claim: "(?base ! i \<le> target \<longleftrightarrow> ?base ! i \<le> g) \<and> (?base ! i = target \<longrightarrow> map_of kvs (idx target) = Some tc)"
    if i: "i < length ?base" and ok: "\<not> ladder_broken (sha256 C) idx kvs pf target (commitments_of tc steps)" for i
  proof -
    obtain c consumed where c: "c \<in> commitments_of tc steps" "?base ! i = target \<longrightarrow> c = Some tc"
      "compute_root_from_result (sha256 C) pf i (idx (?base ! i)) c (offset_of pf i) = Inr (map_root (sha256 C) kvs, consumed)"
      "length (idx (?base ! i)) = 32" "dl_inclusion (lks ! i) \<longleftrightarrow> ?base ! i \<le> target"
      using checked [of i] i len at rt by (auto simp: checked_def)
    have "\<not> broken_at (sha256 C) (lookup_inputs (sha256 C) pf i (idx (?base ! i)) c (offset_of pf i))
        (tree_inputs (sha256 C) kvs (idx (?base ! i)))"
      using ok i c(1) by (auto simp: ladder_broken_def Let_def)
    then have "if dl_inclusion (lks ! i) then c \<noteq> None \<and> map_of kvs (idx (?base ! i)) = c else map_of kvs (idx (?base ! i)) = None"
      using lookup_agrees [OF _ c(4) sha c(3)] vs decoded_answers(2) [OF lks, of i] i len by (simp add: holds_versions_def)
    moreover have "?base ! i \<le> U32_MAX"
      using base_ladder_settles [OF assms(4) assms(4)] nth_mem [OF i] by simp
    ultimately show ?thesis using vs c(2,5) by (auto simp: holds_versions_def split: if_splits)
  qed
  show "target = g \<and> map_of kvs (idx target) = Some tc \<or> ladder_broken (sha256 C) idx kvs pf target (commitments_of tc steps)"
  proof (rule disjCI)
    assume ok: "\<not> ladder_broken (sha256 C) idx kvs pf target (commitments_of tc steps)"
    have "\<forall>v\<in>set ?base. v \<le> g \<longleftrightarrow> v \<le> target" using claim ok by (metis in_set_conv_nth)
    then have "g = target" using base_ladder_settles [OF assms(4), of g] vs by (simp add: holds_versions_def)
    moreover obtain i where "i < length ?base" "?base ! i = target"
      using base_ladder_pins(1) [OF assms(4)] by (metis in_set_conv_nth)
    ultimately show "target = g \<and> map_of kvs (idx target) = Some tc" using claim [OF _ ok] by blast
  qed
qed


section \<open>The proof reader\<close>

lemma rd_timestamp_assigns:
  assumes "rd_timestamp pos rd = Inr (ts, rd')"
  shows "map_of (rd_assigned_ts rd') pos \<noteq> None"
    and "map_of (rd_assigned_ts rd) p \<noteq> None \<Longrightarrow> map_of (rd_assigned_ts rd') p \<noteq> None" and "rd_proof rd' = rd_proof rd"
  using assms by (auto simp: rd_timestamp_def Let_def split: option.splits if_splits)

lemma frontier_assigned:
  "fold_res (\<lambda>f rd. and_then (rd_timestamp f rd) (\<lambda>(_, rd). Inr rd)) fs rd = Inr rd' \<Longrightarrow>
    rd_proof rd' = rd_proof rd \<and> (\<forall>f\<in>set fs. map_of (rd_assigned_ts rd') f \<noteq> None) \<and>
    (\<forall>p. map_of (rd_assigned_ts rd) p \<noteq> None \<longrightarrow> map_of (rd_assigned_ts rd') p \<noteq> None)"
proof (induction fs arbitrary: rd)
  case (Cons f fs)
  then obtain ts rd1 where rd1: "rd_timestamp f rd = Inr (ts, rd1)"
    and rest: "fold_res (\<lambda>f rd. and_then (rd_timestamp f rd) (\<lambda>(_, rd). Inr rd)) fs rd1 = Inr rd'"
    by (auto simp: res_simps)
  show ?case using Cons.IH [OF rest] rd_timestamp_assigns [OF rd1] by simp
qed simp

lemma finish_loop_Cons:
  assumes "finish_loop roots ((p, ts) # entries) rest = Inr leaves"
  obtains r rest' more where "finish_loop roots entries rest' = Inr more" "leaves = (p, ts, r) # more"
    "\<And>rt. map_of roots p = Some rt \<Longrightarrow> r = rt"
  using assms by (cases "map_of roots p"; cases rest) (auto simp: res_simps)

lemma finish_loop_root:
  "finish_loop roots entries rest = Inr leaves \<Longrightarrow> map_of roots pos = Some rt \<Longrightarrow> pos \<in> fst ` set entries \<Longrightarrow>
    \<exists>ts. (pos, ts, rt) \<in> set leaves"
proof (induction entries arbitrary: rest leaves)
  case (Cons e entries)
  obtain p ts where e: "e = (p, ts)" by fastforce
  obtain r rest' more where more: "finish_loop roots entries rest' = Inr more" "leaves = (p, ts, r) # more"
    "\<And>rt. map_of roots p = Some rt \<Longrightarrow> r = rt"
    using finish_loop_Cons Cons.prems(1) unfolding e by metis
  show ?case
  proof (cases "p = pos")
    case True
    then show ?thesis using more(2,3) Cons.prems(2) by auto
  next
    case False
    then show ?thesis using Cons.IH [OF more(1) Cons.prems(2)] Cons.prems(3) more(2) e by auto
  qed
qed simp

section \<open>The replay of a greatest-version search\<close>

lemma verify_lookup_cache:
  assumes "verify_lookup C cl label pf target steps tc greatest rightmost jlk w = Inr w'"
    and "vrf_unique C cl label idx" and "cache_of idx (lw_ctx w)"
  shows "cache_of idx (lw_ctx w')"
proof -
  obtain bl_step out where "slot_and_output C cl label steps (dl_version (snd jlk)) (lw_ctx w) = Inr (bl_step, out, lw_ctx w')"
    using assms(1) by (auto simp: verify_lookup_def res_simps Let_def split: prod.splits)
  from slot_and_output_sound [OF this assms(2,3)] show ?thesis by simp
qed

lemma verify_ladder_cache:
  assumes "verify_ladder_proof C cl label pf target steps tc greatest rightmost (cx, mat) = Inr (rt, rel, cx', mat')"
    and "vrf_unique C cl label idx" and "cache_of idx cx"
  shows "cache_of idx cx'"
proof -
  obtain lks w where w: "fold_res (verify_lookup C cl label pf target steps tc greatest rightmost) (enumerate 0 lks)
      \<lparr>lw_ctx = cx, lw_material = mat, lw_relation = Equal, lw_offset = 0, lw_root = None\<rparr> = Inr w" "lw_ctx w = cx'"
    using assms(1) by (auto simp: verify_ladder_proof_def res_simps split: if_splits)
  have "cache_of idx (lw_ctx w)"
    by (rule fold_res_invariant [OF w(1)]) (use assms(2,3) verify_lookup_cache in auto)
  then show ?thesis using w(2) by simp
qed

lemma read_ladder_sound:
  assumes "read_ladder C cl label target steps tc greatest rightmost entry st = Inr (rel, st')"
    and "vrf_unique C cl label idx" and "cache_of idx (op_ctx st)"
  shows "cache_of idx (op_ctx st')" and "rd_assigned_ts (op_reader st') = rd_assigned_ts (op_reader st)"
    and "rd_proof (op_reader st') = rd_proof (op_reader st)"
    and "\<exists>pf\<in>set (ctp_prefix_proofs (rd_proof (op_reader st))). \<exists>rt. map_of (op_roots st') entry = Some rt \<and>
      verify_ladder_proof C cl label pf target steps tc greatest rightmost (op_ctx st, op_material st) =
        Inr (rt, rel, op_ctx st', op_material st')"
proof -
  obtain pf rd rt cx mat where rd: "rd_prefix_proof (op_reader st) = Inr (pf, rd)"
    and v: "verify_ladder_proof C cl label pf target steps tc greatest rightmost (op_ctx st, op_material st) = Inr (rt, rel, cx, mat)"
    and roots: "record_entry_root entry rt (op_roots st) = Inr (op_roots st')"
    and st': "op_reader st' = rd" "op_ctx st' = cx" "op_material st' = mat"
    using assms(1) by (auto simp: read_ladder_def res_simps)
  have reader: "pf \<in> set (ctp_prefix_proofs (rd_proof (op_reader st)))" "rd_assigned_ts rd = rd_assigned_ts (op_reader st)"
    "rd_proof rd = rd_proof (op_reader st)"
    using rd by (auto simp: rd_prefix_proof_def split: if_splits)
  moreover have "op_roots st' = bt_insert entry rt (op_roots st)"
    using roots by (auto simp: record_entry_root_def split: option.splits if_splits)
  ultimately show "rd_assigned_ts (op_reader st') = rd_assigned_ts (op_reader st)" "rd_proof (op_reader st') = rd_proof (op_reader st)"
    "\<exists>pf\<in>set (ctp_prefix_proofs (rd_proof (op_reader st))). \<exists>rt. map_of (op_roots st') entry = Some rt \<and>
      verify_ladder_proof C cl label pf target steps tc greatest rightmost (op_ctx st, op_material st) =
        Inr (rt, rel, op_ctx st', op_material st')"
    using v st' by auto
  show "cache_of idx (op_ctx st')" using verify_ladder_cache [OF v assms(2,3)] st' by simp
qed

text \<open>The last ladder of the replay is that of the rightmost entry.\<close>

lemma replay_reads_rightmost:
  assumes "replay_greatest_search C cl label n target steps tc st = Inr (terminal, st')"
    and "vrf_unique C cl label idx" and "cache_of idx (op_ctx st)"
  shows "get_frontier n \<noteq> [] \<and> (\<exists>st1 rel. cache_of idx (op_ctx st1) \<and> rd_proof (op_reader st1) = rd_proof (op_reader st) \<and>
    rd_assigned_ts (op_reader st1) = rd_assigned_ts (op_reader st) \<and>
    read_ladder C cl label target steps tc True True (last (get_frontier n)) st1 = Inr (rel, st'))"
proof -
  let ?fs = "get_frontier n" and ?step = "greatest_entry C cl label target steps tc (last (get_frontier n))"
  obtain first where run: "?fs \<noteq> []" "fold_res ?step ?fs (None, st) = Inr (first, st')"
    using assms(1) by (auto simp: replay_greatest_search_def Let_def res_simps split: if_splits)
  then have "fold_res ?step (butlast ?fs @ [last ?fs]) (None, st) = Inr (first, st')" by simp
  then obtain s1 where s1: "fold_res ?step (butlast ?fs) (None, st) = Inr s1" and last: "?step (last ?fs) s1 = Inr (first, st')"
    by (auto simp: fold_res_append res_simps simp del: append_butlast_last_id)
  let ?P = "\<lambda>(_, s). cache_of idx (op_ctx s) \<and> rd_proof (op_reader s) = rd_proof (op_reader st) \<and>
    rd_assigned_ts (op_reader s) = rd_assigned_ts (op_reader st)"
  have "?P s1"
    by (rule fold_res_invariant [OF s1])
      (use assms(3) read_ladder_sound [OF _ assms(2)] in \<open>auto simp: greatest_entry_def res_simps\<close>)
  then show ?thesis using last run(1) by (cases s1) (auto simp: greatest_entry_def res_simps)
qed

section \<open>The head\<close>

lemma committed_state:
  assumes "verify_head_and_commit C fth n ts updated ps hs es extra cl = Inr (cl', captured)"
    and "tree_size_for_fth cl now fth = Inr (n, ts, updated)"
  shows "\<exists>s root. cl_state cl' = Some s \<and> ts_tree_size s = n \<and> ts_root_hash s = root \<and>
    calculate_root_capturing (sha256 C) ps hs n es (cl_retained_subtrees cl) (wanted_nodes cl fth n extra) = Inr (root, captured) \<and>
    (cl_state cl' = cl_state cl \<or> (\<exists>th. fth_tree_head fth = Some th \<and> verify_tree_head_signature C cl th n root = Inr ()))"
proof (cases updated)
  case True
  then show ?thesis using assms(1) unfolding verify_head_and_commit_def by (auto simp: res_simps)
next
  case False
  then show ?thesis
    using assms unfolding verify_head_and_commit_def
    by (auto simp: res_simps tree_size_for_fth_def split: if_splits option.splits)
qed

section \<open>Property\<close>

text \<open>C4. A client is not deceived about the greatest version. When it accepts a search for the
  greatest version, its trusted root is the one it computed from log leaves of which the rightmost
  entry's holds a prefix root \<open>rt\<close>, and a new root is signed; and whatever map of label versions has
  the root \<open>rt\<close>, its greatest version is the one accepted and holds the commitment to the accepted
  value, unless the digest is broken at a place the theorem names.\<close>

theorem accepted_search_pins_greatest:
  assumes "verify_search_response C now label None resp cl = Inr cl'" and "vrf_unique C cl label idx"
    and "\<And>x. length (sha256 C x) = 32" and "sr_version resp = Some target" and "target \<le> U32_MAX"
  shows "\<exists>combined pf val tc s ts rt leaves elements retained wanted captured.
    sr_search resp = Some combined \<and> pf \<in> set (ctp_prefix_proofs combined) \<and> sr_value resp = Some val \<and>
    commit (hmac_sha256 C) label target val None (sr_opening resp) = Inr tc \<and> cl_state cl' = Some s \<and>
    calculate_root_capturing (sha256 C) (map fst leaves) (leaf_hashes_of C leaves) (ts_tree_size s) elements retained wanted =
      Inr (ts_root_hash s, captured) \<and>
    (last (get_frontier (ts_tree_size s)), ts, rt) \<in> set leaves \<and>
    (cl_state cl' = cl_state cl \<or> (\<exists>th. verify_tree_head_signature C cl th (ts_tree_size s) (ts_root_hash s) = Inr ())) \<and>
    pins_greatest (sha256 C) idx pf target (sr_binary_ladder resp) tc rt"
proof -
  let ?base = "base_binary_ladder target" and ?steps = "sr_binary_ladder resp"
  obtain fth combined n tso updated val tc rd terminal st cl1 captured leaves where
    combined: "sr_search resp = Some combined" and size: "tree_size_for_fth cl now fth = Inr (n, tso, updated)"
    and val: "sr_value resp = Some val" "commit (hmac_sha256 C) label target val None (sr_opening resp) = Inr tc"
    and rd: "start_reading combined n = Inr rd"
    and replay: "replay_greatest_search C cl label n target ?steps tc
      \<lparr>op_reader = rd, op_ctx = ctx_of_base ?base, op_material = Map.empty, op_roots = []\<rparr> = Inr (terminal, st)"
    and fin: "finish_and_commit C fth n tso updated combined (op_reader st) (op_roots st) (\<lambda>_. {}) cl = Inr (cl1, captured, leaves)"
    and cl': "cl_state cl' = cl_state cl1"
    using assms(1,4) unfolding verify_search_response_def
    by (auto simp: res_simps Let_def split: if_splits)
  have cache: "cache_of idx (ctx_of_base ?base)" by (simp add: cache_of_def ctx_of_base_def)
  obtain st1 rel where st1: "get_frontier n \<noteq> []" "cache_of idx (op_ctx st1)" "rd_proof (op_reader st1) = rd_proof rd"
    "rd_assigned_ts (op_reader st1) = rd_assigned_ts rd"
    "read_ladder C cl label target ?steps tc True True (last (get_frontier n)) st1 = Inr (rel, st)"
    using replay_reads_rightmost [OF replay assms(2)] cache by auto
  note r = read_ladder_sound [OF st1(5) assms(2) st1(2)]
  have frontier: "rd_proof rd = combined" "map_of (rd_assigned_ts rd) (last (get_frontier n)) \<noteq> None"
    using frontier_assigned [of "get_frontier n" "reader_new combined" rd] rd st1(1)
    by (auto simp: start_reading_def rd_frontier_def reader_new_def)
  obtain pf rt where pf: "pf \<in> set (ctp_prefix_proofs combined)" "map_of (op_roots st) (last (get_frontier n)) = Some rt"
    "verify_ladder_proof C cl label pf target ?steps tc True True (op_ctx st1, op_material st1) =
      Inr (rt, rel, op_ctx st, op_material st)"
    using r(4) st1(3) frontier(1) by auto
  obtain elements where leaves: "rd_finish (op_roots st) (op_reader st) = Inr leaves"
    and commit: "verify_head_and_commit C fth n tso updated (map fst leaves) (leaf_hashes_of C leaves) elements {} cl =
      Inr (cl1, captured)"
    using fin by (auto simp: finish_and_commit_def res_simps)
  have "last (get_frontier n) \<in> fst ` set (rd_assigned_ts (op_reader st))"
    using frontier(2) r(2) st1(4) by (simp add: map_of_eq_None_iff)
  then obtain ts where leaf: "(last (get_frontier n), ts, rt) \<in> set leaves"
    using finish_loop_root [OF _ pf(2)] leaves by (fastforce simp: rd_finish_def split: if_splits)
  have pins: "pins_greatest (sha256 C) idx pf target ?steps tc rt"
    by (rule ladder_pins_greatest [OF pf(3) assms(2) st1(2) assms(5,3)])
  obtain s where s: "cl_state cl1 = Some s" "ts_tree_size s = n"
    "calculate_root_capturing (sha256 C) (map fst leaves) (leaf_hashes_of C leaves) n elements
      (cl_retained_subtrees cl) (wanted_nodes cl fth n {}) = Inr (ts_root_hash s, captured)"
    "cl_state cl1 = cl_state cl \<or> (\<exists>th. verify_tree_head_signature C cl th n (ts_root_hash s) = Inr ())"
    using committed_state [OF commit size] by blast
  show ?thesis
    using combined val pf(1) s leaf pins cl' by metis
qed

lemma flat_greatest: "\<exists>cl. verify_search_response flat_crypto 9 [1] None (flat_response\<lparr>sr_version := Some 0\<rparr>) flat_client = Inr cl"
proof -
  let ?steps = "sr_binary_ladder flat_response"
  have "verify_ladder_proof flat_crypto flat_client [1] flat_proof 0 ?steps flat True True (ctx_of_base [0, 1], Map.empty) =
      Inr (flat, Equal, \<lparr>lc_wire_index = lc_wire_index (ctx_of_base [0, 1]), lc_slots = 2, lc_vrf_cache = [0 \<mapsto> flat, 1 \<mapsto> flat]\<rparr>,
        [0 \<mapsto> Some flat])"
    by (simp add: verify_ladder_proof_def flat_decoded flat_base verify_lookup_def lookup_relation_def slot_and_output_def
        wire_slot_def ctx_of_base_def vrf_output_of_def construct_vrf_input_def opaque_u8_def lookup_commitment_def
        flat_crypto_fields flat_results same_root_def flat_response_def numeral_2_eq_2)
      (simp add: flat_proof_def)
  then obtain st where st: "replay_greatest_search flat_crypto flat_client [1] 1 0 ?steps flat
      \<lparr>op_reader = flat_reader 0, op_ctx = ctx_of_base [0, 1], op_material = Map.empty, op_roots = []\<rparr> = Inr (0, st)"
    "lc_slots (op_ctx st) = 2" "op_reader st = flat_reader 1" "op_roots st = [(0, flat)]"
    by (simp add: replay_greatest_search_def one_entry greatest_entry_def read_ladder_def rd_prefix_proof_def flat_reader_def
        flat_response_fields record_entry_root_def)
  then show ?thesis
    using flat_reading flat_commit flat_finish
    by (auto simp: verify_search_response_def flat_response_fields flat_base tree_size_for_fth_def HEAD_TYPE_SAME_def
        HEAD_TYPE_UPDATED_def flat_client_fields check_timestamp_bounds_def saturating_add_def)
qed

lemma accepted_search_pins_greatest_witness:
  "\<exists>cl s rt (ts :: u64) leaves. verify_search_response flat_crypto 9 [1] None (flat_response\<lparr>sr_version := Some 0\<rparr>) flat_client = Inr cl \<and>
    cl_state cl = Some s \<and> (last (get_frontier (ts_tree_size s)), ts, rt) \<in> set leaves \<and>
    pins_greatest (\<lambda>_. flat) (\<lambda>_. flat) flat_proof 0 (sr_binary_ladder flat_response) flat rt"
proof -
  let ?resp = "flat_response\<lparr>sr_version := Some 0\<rparr>"
  obtain cl where cl: "verify_search_response flat_crypto 9 [1] None ?resp flat_client = Inr cl" using flat_greatest by blast
  have vrf: "vrf_unique flat_crypto flat_client [1] (\<lambda>_. flat)" by (simp add: vrf_unique_def flat_crypto_fields)
  have len: "length (sha256 flat_crypto x) = 32" for x by (simp add: flat_crypto_fields)
  have target: "sr_version ?resp = Some 0" "(0 :: nat) \<le> U32_MAX" by simp_all
  from accepted_search_pins_greatest [OF cl vrf len target] obtain combined pf val tc s rt leaves and ts :: u64 where
    *: "sr_search ?resp = Some combined" "pf \<in> set (ctp_prefix_proofs combined)" "sr_value ?resp = Some val"
    "commit (hmac_sha256 flat_crypto) [1] 0 val None (sr_opening ?resp) = Inr tc"
    "cl_state cl = Some s" "(last (get_frontier (ts_tree_size s)), ts, rt) \<in> set leaves"
    "pins_greatest (sha256 flat_crypto) (\<lambda>_. flat) pf 0 (sr_binary_ladder ?resp) tc rt"
    by (elim exE conjE) (rule that; assumption)
  have "combined = flat_combined" "val = [5]" using *(1,3) by (simp_all add: flat_response_fields)
  then have "pf = flat_proof" "tc = flat" using *(2,4) flat_commit by (simp_all add: flat_response_fields)
  then have "pins_greatest (\<lambda>_. flat) (\<lambda>_. flat) flat_proof 0 (sr_binary_ladder flat_response) flat rt"
    using *(7) by (simp add: flat_crypto_fields)
  then show ?thesis using cl *(5,6) by blast
qed

end
