(* ===== verification/GossipProps.thy ===== *)
theory GossipProps
  imports Gossip ClientSamples
begin

text \<open>
  What a gossiped head can do to the client that checks it: \<^verbatim>\<open>verify_data\<close> panics on a P-256 signature
  of a wrong length, and a peer chooses the signatures of the head it sends.
\<close>

definition signature_tried :: "crypto \<Rightarrow> service_verifying_key \<Rightarrow> bytes \<Rightarrow> signature_msg \<Rightarrow> bool res" where
  "signature_tried C pk tbs sig =
     (case verify_data C pk tbs (sig_signature sig) of
        Inr _ \<Rightarrow> Inr True
      | Inl (Panic p) \<Rightarrow> Inl (Panic p)
      | Inl _ \<Rightarrow> Inr False)"

text \<open>A signature of a wrong length comes before any that verifies.\<close>

definition reaches_bad_length :: "crypto \<Rightarrow> service_verifying_key \<Rightarrow> bytes \<Rightarrow> signature_msg list \<Rightarrow> bool" where
  "reaches_bad_length C pk tbs sigs \<longleftrightarrow> (\<exists>pre sig post. sigs = pre @ sig # post \<and> length (sig_signature sig) \<noteq> 64 \<and>
     (\<forall>s\<in>set pre. \<exists>e. verify_data C pk tbs (sig_signature s) = Inl (Anyhow e)))"

lemma verify_data_Panic:
  "verify_data C pk tbs b = Inl (Panic m) \<longleftrightarrow> (\<exists>k. pk = VkP256 k) \<and> length b \<noteq> 64 \<and> m = ''GenericArray length''"
  by (cases pk) (auto simp: verify_data_def)

lemma signature_tried_results:
  "signature_tried C pk tbs sig = Inl (Panic m) \<longleftrightarrow> verify_data C pk tbs (sig_signature sig) = Inl (Panic m)"
  "signature_tried C pk tbs sig = Inr False \<longleftrightarrow> (\<exists>e. verify_data C pk tbs (sig_signature sig) = Inl (Anyhow e))"
  by (cases pk; auto simp: signature_tried_def verify_data_def)+

lemma any_res_Inl:
  "any_res f xs = Inl e \<longleftrightarrow> (\<exists>pre x post. xs = pre @ x # post \<and> (\<forall>y\<in>set pre. f y = Inr False) \<and> f x = Inl e)"
proof (induction xs)
  case (Cons x xs)
  show ?case
  proof (cases "f x = Inr False")
    case True
    then have "any_res f (x # xs) = any_res f xs" by simp
    moreover have "(\<exists>pre y post. x # xs = pre @ y # post \<and> (\<forall>z\<in>set pre. f z = Inr False) \<and> f y = Inl e) \<longleftrightarrow>
        (\<exists>pre y post. xs = pre @ y # post \<and> (\<forall>z\<in>set pre. f z = Inr False) \<and> f y = Inl e)" (is "?whole \<longleftrightarrow> ?rest")
    proof
      assume ?whole
      then obtain pre y post where w: "x # xs = pre @ y # post" "\<forall>z\<in>set pre. f z = Inr False" "f y = Inl e" by blast
      then have "pre \<noteq> []" using True by auto
      then have "xs = tl pre @ y # post" "\<forall>z\<in>set (tl pre). f z = Inr False" using w by (cases pre; simp)+
      then show ?rest using w(3) by blast
    next
      assume ?rest
      then obtain pre y post where "xs = pre @ y # post" "\<forall>z\<in>set pre. f z = Inr False" "f y = Inl e" by blast
      then show ?whole using True by (intro exI [of _ "x # pre"] exI [of _ y] exI [of _ post]) simp
    qed
    ultimately show ?thesis using Cons.IH by simp
  next
    case False
    then have "any_res f (x # xs) = Inl e \<longleftrightarrow> f x = Inl e" by (cases "f x") auto
    moreover have "f x = Inl e" if "x # xs = pre @ y # post" "\<forall>z\<in>set pre. f z = Inr False" "f y = Inl e" for pre y post
      using that False by (cases pre) auto
    ultimately show ?thesis by (metis append_Nil empty_iff list.set(1))
  qed
qed simp

lemma gossip_head_decodes:
  assumes "codec_laws D"
  shows "verify_gossip_head C D config (gossip_head_new D (th_tree_size th) rt th) =
    and_then (construct_tree_head_tbs_public config (th_tree_size th) rt) (\<lambda>tbs.
    and_then (vk_from_bytes C (cfg_server_sig_pk config)) (\<lambda>pk.
    and_then (any_res (signature_tried C pk tbs) (th_signatures th)) (\<lambda>found.
    if found then Inr () else Inl (Anyhow ''No valid operator signature on gossiped head''))))"
  using assms
  by (simp add: verify_gossip_head_def decode_head_def gossip_head_new_def hex_decoded_def codec_laws_def
      signature_tried_def [abs_def])

lemma check_gossiped_head_Panic:
  "check_gossiped_head C D cl g = Inl (Panic m) \<longleftrightarrow> verify_gossip_head C D (cl_config cl) g = Inl (Panic m)"
  by (auto simp: check_gossiped_head_def export_head_def hex_decoded_def res_simps ok_or_def and_then_def
      split: sum.splits option.splits if_splits)

section \<open>Property\<close>


definition p256_config :: public_config where
  "p256_config = (sample_config 1)\<lparr>cfg_server_sig_pk := replicate 33 2\<rparr>"

definition unsigned_head :: tree_head where
  "unsigned_head = \<lparr>th_tree_size = 9, th_timestamp = 0, th_signatures = [\<lparr>sig_auditor_public_key = [], sig_signature = []\<rparr>]\<rparr>"


end
