(* ===== verification/Spec2Isabelle.thy ===== *)
theory Spec2Isabelle
  imports Frontier LogProofs AccumulatorProps BatcherProps Credentials Gossip Auditor AuditProps ServiceProps
    BulkProps ParallelProps PersistProps StartupProps ClientSound GossipProps
begin

text \<open>
  RuKT is a key transparency log in Rust: a server that keeps, for every label, a history of
  versioned values under an append-only Merkle log of prefix trees, clients that check every answer
  against signed tree heads, and third-party auditors that replay every change. This development
  models the crate under \<^verbatim>\<open>src/src/\<close> and proves what makes its parts correct. The model follows
  the source function by function and keeps its names; a Rust \<^verbatim>\<open>Result\<close> is a value of \<open>'a res\<close>, a
  panic and a loop that never ends are errors of their own, and integers wrap as in the release
  profile.

  \<^bold>\<open>How the parts interact.\<close> A request reaches the service, which runs it on the tree under a lock;
  updates go through a queue, where a worker gives out versions, computes VRF outputs and
  commitments, and commits a batch: the prefix tree gets one new entry per update, the log one leaf
  over the new prefix root, the store the values, openings, histories and the audit blob, and a new
  head is signed. Reads walk the binary search tree over log entries from the frontier, prove
  lookups in the prefix tree of each entry they visit, and add one batch inclusion proof for all of
  them. The client replays the same walk on the proofs, computes the log root, checks the signature
  over it and commits its new state, which it saves to a file. The auditor replays the audit blobs.

  \<^bold>\<open>Theories and sources.\<close> Arithmetic and encodings:
  \<^item> \<^verbatim>\<open>Prelude\<close>: machine integers, errors (\<^verbatim>\<open>tree/errors.rs\<close>), the early-return combinators, the locale
    \<open>evolution\<close> of invariants over runs.
  \<^item> \<^verbatim>\<open>LogMath\<close>, \<^verbatim>\<open>NodeArith\<close>, \<^verbatim>\<open>Frontier\<close>: \<^verbatim>\<open>tree/log_math.rs\<close> on 64-bit words, its node arithmetic by
    level and index, and the frontier against the full subtrees.
  \<^item> \<^verbatim>\<open>BinaryLadder\<close>: \<^verbatim>\<open>tree/binary_ladder.rs\<close> and the client's decoding of a ladder.
  \<^item> \<^verbatim>\<open>Tls\<close>, \<^verbatim>\<open>Hashes\<close>, \<^verbatim>\<open>Signing\<close>, \<^verbatim>\<open>Vrf\<close>, \<^verbatim>\<open>Config\<close>: the files of \<^verbatim>\<open>crypto/\<close>; \<^verbatim>\<open>Proto\<close>: the messages of \<^verbatim>\<open>proto/\<close>.

  The server:
  \<^item> \<^verbatim>\<open>Store\<close>: \<^verbatim>\<open>db.rs\<close>, one map per column family; the locale \<open>kv_store\<close> holds what the other parts rely
    on, interpreted for every family.
  \<^item> \<^verbatim>\<open>LogTree\<close>, \<^verbatim>\<open>LogSpec\<close>, \<^verbatim>\<open>LogTreeProps\<close>, \<^verbatim>\<open>LogProofs\<close>: \<^verbatim>\<open>tree/log.rs\<close> in chunks, the recursive Merkle tree
    as its specification, and the refinement (\<open>log_rep\<close>).
  \<^item> \<^verbatim>\<open>PrefixTree\<close>, \<^verbatim>\<open>PrefixSpec\<close>, \<^verbatim>\<open>PrefixRep\<close>, \<^verbatim>\<open>PrefixInsert\<close>, \<^verbatim>\<open>PrefixProps\<close>: \<^verbatim>\<open>tree/prefix/\<close>, the map with
    the hash of its 256-level tree as its specification, and the entries that represent it
    (\<open>represents\<close>).
  \<^item> \<^verbatim>\<open>Server\<close>, \<^verbatim>\<open>Traversal\<close>, \<^verbatim>\<open>Handlers\<close>, \<^verbatim>\<open>WritePath\<close>, \<^verbatim>\<open>TreeState\<close>, \<^verbatim>\<open>TreeProps\<close>: the tree record and the
    rest of \<^verbatim>\<open>tree/\<close>; \<open>tree_inv\<close> ties the state to the list of sealed versions, \<open>tree_step\<close> is any
    operation, with restarts and losses of the cache.
  \<^item> \<^verbatim>\<open>Batcher\<close>, \<^verbatim>\<open>BatcherProps\<close>, \<^verbatim>\<open>Service\<close>, \<^verbatim>\<open>ServiceProps\<close>: \<^verbatim>\<open>batcher.rs\<close> and \<^verbatim>\<open>service.rs\<close>, each call one step.
  \<^item> \<^verbatim>\<open>Bulk\<close>, \<^verbatim>\<open>BulkProps\<close>, \<^verbatim>\<open>ParallelProps\<close>: \<^verbatim>\<open>bulk.rs\<close>.
  \<^item> \<^verbatim>\<open>Startup\<close>, \<^verbatim>\<open>StartupProps\<close>: \<^verbatim>\<open>main.rs\<close> on a model of the host.

  The verifying side:
  \<^item> \<^verbatim>\<open>Verifier\<close>, \<^verbatim>\<open>AccumulatorProps\<close>, \<^verbatim>\<open>Transition\<close>, \<^verbatim>\<open>PartialTree\<close>: \<^verbatim>\<open>client/verifier.rs\<close>, and the partial
    prefix tree of an audited batch against the map it stands for.
  \<^item> \<^verbatim>\<open>ProofReader\<close>, \<^verbatim>\<open>ClientLadders\<close>, \<^verbatim>\<open>Client\<close>, \<^verbatim>\<open>Credentials\<close>, \<^verbatim>\<open>Gossip\<close>: \<^verbatim>\<open>client/core.rs\<close> and
    \<^verbatim>\<open>client/gossip.rs\<close>, every operation on the response it received.
  \<^item> \<^verbatim>\<open>GossipProps\<close>: when a gossiped head panics the client that checks it.
  \<^item> \<^verbatim>\<open>ClientSound\<close>: what an accepted search for the greatest version says of the map under the root.
  \<^item> \<^verbatim>\<open>Persist\<close>, \<^verbatim>\<open>PersistProps\<close>: the state file of \<^verbatim>\<open>client/core.rs\<close> on a file system that may fail at
    any step and lose in a crash what was not flushed.
  \<^item> \<^verbatim>\<open>Auditor\<close>, \<^verbatim>\<open>AuditProps\<close>: \<^verbatim>\<open>client/auditor.rs\<close>, and the auditor beside the server.
  \<^item> \<^verbatim>\<open>Samples\<close>, \<^verbatim>\<open>ClientSamples\<close>: concrete parameters for the witnesses.

  \<^bold>\<open>What the theorems show.\<close> The server refines its specification: the log of versions only grows
  through every sequence of operations, a batch seals exactly the map it should, every past version
  stays answerable, and the prefix and log trees refine the map and the Merkle tree. The sides agree:
  the client computes from honest proofs the root on record, the auditor accepts the log of an
  honest server and ends with its roots, ladders and proofs decode to what was encoded. What is
  accepted is right: a lookup that is accepted misstates the map only where the digest is broken at
  a place the theorem names, an accepted search has the greatest version of that map, signed bytes and commitments are unambiguous. Nothing is lost: every
  request is answered once, a save leaves the old state or the new one after a crash, a key file cut
  short is refused rather than taken for another key (one that was never flushed may be lost),
  restarts keep the keys of the log, a client never goes back. Several theorems state defects the code has, which the findings of
  the project name.

  \<^bold>\<open>Parameters.\<close> The digest, HMAC, signatures and the VRF are the record \<open>crypto\<close>, the curve
  libraries the records \<open>edwards\<close> and \<open>nist\<close>, the generated protobuf encoding and hexadecimal the
  record \<open>codec\<close>, JSON a pair of functions (\<open>json_lib\<close>), RocksDB's ingestion the function \<open>sst\<close>, the operating
  system the record \<open>os\<close> and the function \<open>io\<close>. Where a theorem relies on them it names the
  documented laws (\<open>codec_laws\<close>, \<open>hex_laws\<close>, \<open>lib_laws\<close>, \<open>edwards_laws\<close>, \<open>config_signs\<close>, \<open>vrf_ok\<close>, a digest of 32
  bytes), and its witness discharges them at concrete functions. Clock, randomness and the order
  in which a hash map lists its keys are arguments.

  \<^bold>\<open>Bounds and fuel.\<close> A log has at most \<open>2 ^ 63\<close> entries, so that node numbers do not overflow, and
  fewer than \<open>2 ^ 64\<close> prefix versions. Loops over the levels of a tree carry 64 or 65 as fuel, one
  step for each bit of a word, and \<open>CONTACT_FUEL\<close> is 70: a descent visits at most the 65 levels of
  the search tree and changes its bounds once more at a leaf, so it is in a cycle when the fuel runs
  out, and its value is the error \<open>Hang\<close>; so is that of a climb that never meets the root. The other
  recursions terminate by a measure.

  \<^bold>\<open>Not modelled.\<close> Tests, benchmarks and examples; module declarations and the build script; the
  transport (tonic, tokio's channels and timers, TLS beyond the presence of its files), since the
  lock makes each call one step; opening and checkpoints of RocksDB, its compaction and the
  durability of its writes; the memo of intermediate hashes in an entry, the eviction policy of the
  node cache and counters, which do not show in answers; progress output and logging. The traces
  of the combined proof that \<^verbatim>\<open>update\<close> does not verify are not checked by the model either.
\<close>

end
